(* ===== verification/Prelude.thy ===== *)
theory Prelude
  imports Main "HOL-Library.Word" "HOL-Library.Sublist"
begin

text \<open>
  Shared vocabulary of the development: the machine types of the daemon, the
  error codes of \<^verbatim>\<open>proxiflare.h\<close>, decimal printing, big-endian
  16-bit and 32-bit fields, and generic facts on lists and options that the
  component theories use through the collections declared here.
\<close>

named_theorems wire_simps
named_theorems cstr_simps
named_theorems net_simps

unbundle bit_operations_syntax

type_synonym byte = "8 word"
type_synonym u16 = "16 word"
type_synonym u32 = "32 word"
type_synonym u64 = "64 word"
type_synonym bytes = "8 word list"

text \<open>The return codes of the daemon: \<^verbatim>\<open>PF_OK\<close> and the negative error codes.\<close>

datatype pf_err =
    PF_ERR | PF_ERR_NOMEM | PF_ERR_DB | PF_ERR_CRYPTO | PF_ERR_NET | PF_ERR_AUTH | PF_ERR_LOCKED

definition pf_err_code :: "pf_err \<Rightarrow> int" where
  "pf_err_code e = (case e of PF_ERR \<Rightarrow> -1 | PF_ERR_NOMEM \<Rightarrow> -2 | PF_ERR_DB \<Rightarrow> -3
     | PF_ERR_CRYPTO \<Rightarrow> -4 | PF_ERR_NET \<Rightarrow> -5 | PF_ERR_AUTH \<Rightarrow> -6 | PF_ERR_LOCKED \<Rightarrow> -7)"

definition PF_MAX_PROXIES :: nat where "PF_MAX_PROXIES = 256"
definition PF_MAX_RULES :: nat where "PF_MAX_RULES = 1024"
definition PF_MAX_CHAINS :: nat where "PF_MAX_CHAINS = 64"
definition PF_MAX_HOPS :: nat where "PF_MAX_HOPS = 8"
definition PF_MAX_CLIENTS :: nat where "PF_MAX_CLIENTS = 16"
definition PF_BUF_SIZE :: nat where "PF_BUF_SIZE = 8192"
definition PF_DOMAIN_MAX :: nat where "PF_DOMAIN_MAX = 253"
definition PF_PATH_MAX :: nat where "PF_PATH_MAX = 4096"

lemmas pf_limits = PF_MAX_PROXIES_def PF_MAX_RULES_def PF_MAX_CHAINS_def PF_MAX_HOPS_def
  PF_MAX_CLIENTS_def PF_BUF_SIZE_def PF_DOMAIN_MAX_def PF_PATH_MAX_def

section \<open>Big-endian fields\<close>

text \<open>\<^verbatim>\<open>(uint16_t)((p[0] << 8) | p[1])\<close> and the two bytes it reads.\<close>

definition u16be :: "byte \<Rightarrow> byte \<Rightarrow> u16" where
  "u16be a b = (push_bit 8 (ucast a) OR ucast b)"

definition hi8 :: "u16 \<Rightarrow> byte" where "hi8 w = ucast (drop_bit 8 w)"
definition lo8 :: "u16 \<Rightarrow> byte" where "lo8 w = ucast (w AND 0xFF)"

lemma unat_byte_less: "unat (b :: byte) < 256"
  using unsigned_less [of b, where ?'a = nat] by simp

lemma unat_of_nat_lt: "n < 2 ^ LENGTH('a) \<Longrightarrow> unat (of_nat n :: 'a::len word) = n"
  by (simp add: unsigned_of_nat take_bit_nat_eq_self)

lemma unat_u16be [wire_simps]: "unat (u16be a b) = unat a * 256 + unat b"
proof -
  have "push_bit 8 (ucast a :: u16) AND ucast b = 0"
    by (rule bit_word_eqI) (auto simp: bit_simps dest: bit_imp_le_length)
  hence "u16be a b = push_bit 8 (ucast a :: u16) + ucast b"
    unfolding u16be_def by (simp add: disjunctive_add_eq_or)
  also have "push_bit 8 (ucast a :: u16) = of_nat (unat a * 256)"
    by (simp add: push_bit_eq_mult)
  finally have e: "u16be a b = of_nat (unat a * 256 + unat b)" by simp
  have "unat a * 256 + unat b < 2 ^ LENGTH(16)"
    using unat_byte_less [of a] unat_byte_less [of b] by simp
  thus ?thesis unfolding e by (rule unat_of_nat_lt)
qed

lemma unat_hi8: "unat (hi8 w) = unat w div 256"
proof -
  have w: "unat w < 65536" using unsigned_less [of w, where ?'a = nat] by simp
  hence "unat w div 256 < 256" by simp
  moreover have "unat (drop_bit 8 w) = unat w div 256"
    by (simp only: unsigned_drop_bit_eq) (simp add: drop_bit_eq_div take_bit_eq_mod w)
  ultimately show ?thesis unfolding hi8_def unsigned_ucast_eq by (simp add: take_bit_eq_mod)
qed

lemma unat_lo8: "unat (lo8 w) = unat w mod 256"
proof -
  have "w AND 0xFF = take_bit 8 w"
    by (simp add: take_bit_eq_mask mask_eq_exp_minus_1)
  moreover have "unat (take_bit 8 w) = unat w mod 256"
    by (simp only: unsigned_take_bit_eq) (simp add: take_bit_eq_mod)
  ultimately show ?thesis unfolding lo8_def unsigned_ucast_eq by (simp add: take_bit_eq_mod)
qed

lemma u16be_hi8_lo8 [simp]: "u16be (hi8 w) (lo8 w) = w"
proof -
  have "unat (u16be (hi8 w) (lo8 w)) = unat w"
    by (simp add: unat_u16be unat_hi8 unat_lo8)
  thus ?thesis by (simp add: word_unat_eq_iff)
qed

lemma unat_shr: "unat (drop_bit n w) = unat w div 2 ^ n"
  unfolding unat_drop_bit_eq by (simp only: drop_bit_eq_div)

text \<open>Four bytes of an address in network order, most significant first.\<close>

definition u32be :: "byte \<Rightarrow> byte \<Rightarrow> byte \<Rightarrow> byte \<Rightarrow> u32" where
  "u32be a b c d = of_nat (((unat a * 256 + unat b) * 256 + unat c) * 256 + unat d)"

definition be32 :: "u32 \<Rightarrow> bytes" where
  "be32 w = [of_nat (unat w div 2 ^ 24), of_nat (unat w div 2 ^ 16),
             of_nat (unat w div 2 ^ 8), of_nat (unat w)]"

lemma be32_length [simp]: "length (be32 w) = 4"
  by (simp add: be32_def)

lemma unat_u32be [wire_simps]:
  "unat (u32be a b c d) = ((unat a * 256 + unat b) * 256 + unat c) * 256 + unat d"
proof -
  have "((unat a * 256 + unat b) * 256 + unat c) * 256 + unat d < 2 ^ LENGTH(32)"
    using unat_byte_less [of a] unat_byte_less [of b] unat_byte_less [of c] unat_byte_less [of d]
    by simp
  thus ?thesis unfolding u32be_def by (rule unat_of_nat_lt)
qed

lemma u32be_be32:
  "be32 w = [a, b, c, d] \<Longrightarrow> u32be a b c d = w"
proof -
  assume "be32 w = [a, b, c, d]"
  hence e: "a = of_nat (unat w div 2 ^ 24)" "b = of_nat (unat w div 2 ^ 16)"
    "c = of_nat (unat w div 2 ^ 8)" "d = of_nat (unat w)"
    by (auto simp: be32_def)
  have w: "unat w < 4294967296" using unsigned_less [of w] by simp
  have m: "unat (of_nat n :: byte) = n mod 256" for n
    by (simp add: unsigned_of_nat take_bit_eq_mod)
  have "unat a = unat w div 16777216" "unat b = unat w div 65536 mod 256"
    "unat c = unat w div 256 mod 256" "unat d = unat w mod 256"
    using w unfolding e m by simp_all
  moreover have "unat w div 65536 = unat w div 256 div 256" "unat w div 16777216 = unat w div 256 div 256 div 256"
    by (simp_all only: div_mult2_eq [symmetric]) simp_all
  ultimately have "unat (u32be a b c d) = unat w"
    unfolding unat_u32be by (simp only: div_mult_mod_eq)
  thus ?thesis by (simp add: word_unat_eq_iff)
qed

section \<open>Lists and options\<close>

text \<open>Slots of a ring of size \<open>k\<close>: fewer than \<open>k\<close> steps apart means different slots.\<close>

lemma recent_slot_neq: "j < n \<Longrightarrow> n < j + k \<Longrightarrow> j mod k \<noteq> n mod k" for j n k :: nat
proof
  assume a: "j < n" "n < j + k" "j mod k = n mod k"
  hence "k dvd n - j" by (metis less_imp_le mod_eq_dvd_iff_nat)
  thus False using a(1,2) by (auto dest: dvd_imp_le)
qed

lemma take_drop_append: "n \<le> m \<Longrightarrow> take n xs @ take (m - n) (drop n xs) = take m xs"
  by (metis le_add_diff_inverse take_add)

lemma list_update_id_map: "i < length xs \<Longrightarrow> f (xs ! i) = f y \<Longrightarrow> map f (xs[i := y]) = map f xs"
  by (metis list_update_id map_update)

lemma filter_list_update_len:
  assumes "i < length xs"
  shows "length (filter P (xs[i := y])) + (if P (xs ! i) then 1 else 0)
       = length (filter P xs) + (if P y then 1 else 0)"
proof -
  have "xs[i := y] = take i xs @ y # drop (Suc i) xs"
    using assms by (simp add: upd_conv_take_nth_drop)
  moreover have "xs = take i xs @ xs ! i # drop (Suc i) xs"
    using assms by (simp add: id_take_nth_drop)
  ultimately have "filter P (xs[i := y]) = filter P (take i xs) @ filter P [y] @ filter P (drop (Suc i) xs)"
    and "filter P xs = filter P (take i xs) @ filter P [xs ! i] @ filter P (drop (Suc i) xs)"
    by (metis append_Cons append_Nil filter_append)+
  thus ?thesis by simp
qed

text \<open>A total over a table changes by the change of the updated entry.\<close>

lemma sum_list_map_update:
  fixes f :: "'a \<Rightarrow> 'b::comm_monoid_add"
  assumes "i < length xs"
  shows "sum_list (map f (xs[i := x])) + f (xs ! i) = sum_list (map f xs) + f x"
  using assms by (induction xs arbitrary: i) (auto simp: ac_simps split: nat.split)

lemma sum_list_replicate_0 [simp]: "sum_list (replicate n 0) = (0 :: 'a::comm_monoid_add)"
  by (induction n) simp_all

lemma find_Some_filter: "find P xs = Some x \<longleftrightarrow> (\<exists>ys. filter P xs = x # ys)"
  by (induction xs) auto

lemma find_None_filter: "find P xs = None \<longleftrightarrow> filter P xs = []"
  by (induction xs) auto

lemma find_first:
  "find P xs = Some x \<longleftrightarrow> (\<exists>i < length xs. P (xs ! i) \<and> xs ! i = x \<and> (\<forall>j < i. \<not> P (xs ! j)))"
  by (auto simp: find_Some_iff)

fun find_index :: "('a \<Rightarrow> bool) \<Rightarrow> 'a list \<Rightarrow> nat option" where
  "find_index P [] = None"
| "find_index P (x # xs) = (if P x then Some 0 else map_option Suc (find_index P xs))"

lemma find_index_Some:
  "find_index P xs = Some i \<longleftrightarrow> i < length xs \<and> P (xs ! i) \<and> (\<forall>j < i. \<not> P (xs ! j))"
proof (induction xs arbitrary: i)
  case (Cons x xs)
  show ?case
  proof (cases i)
    case 0
    thus ?thesis by auto
  next
    case (Suc k)
    thus ?thesis using Cons.IH [of k] by (auto simp: less_Suc_eq_0_disj)
  qed
qed simp

lemma find_index_None: "find_index P xs = None \<longleftrightarrow> (\<forall>x \<in> set xs. \<not> P x)"
  by (induction xs) auto

section \<open>Decimal digits\<close>

definition digit_char :: "nat \<Rightarrow> char" where
  "digit_char d = char_of (48 + d)"

definition is_digit :: "char \<Rightarrow> bool" where
  "is_digit c \<longleftrightarrow> 48 \<le> (of_char c :: nat) \<and> (of_char c :: nat) \<le> 57"

definition digit_val :: "char \<Rightarrow> nat" where
  "digit_val c = of_char c - 48"

fun show_nat :: "nat \<Rightarrow> string" where
  "show_nat n = (if n < 10 then [digit_char n] else show_nat (n div 10) @ [digit_char (n mod 10)])"

declare show_nat.simps [simp del]

lemma digit_char_val [simp]: "d < 10 \<Longrightarrow> digit_val (digit_char d) = d"
  by (simp add: digit_char_def digit_val_def)

lemma digit_char_is_digit [simp]: "d < 10 \<Longrightarrow> is_digit (digit_char d)"
  by (simp add: digit_char_def is_digit_def)

lemma show_nat_digits: "c \<in> set (show_nat n) \<Longrightarrow> is_digit c"
proof (induction n rule: show_nat.induct)
  case (1 n)
  show ?case
  proof (cases "n < 10")
    case True
    thus ?thesis using 1(2) show_nat.simps [of n] by simp
  next
    case False
    thus ?thesis using 1 show_nat.simps [of n] by auto
  qed
qed

lemma show_nat_nonempty [simp]: "show_nat n \<noteq> []"
  by (subst show_nat.simps) simp

definition nat_of_digits :: "string \<Rightarrow> nat" where
  "nat_of_digits ds = foldl (\<lambda>acc c. acc * 10 + digit_val c) 0 ds"

lemma nat_of_digits_show [simp]: "nat_of_digits (show_nat n) = n"
proof (induction n rule: show_nat.induct)
  case (1 n)
  show ?case
  proof (cases "n < 10")
    case True
    thus ?thesis by (subst show_nat.simps) (simp add: nat_of_digits_def)
  next
    case False
    thus ?thesis using 1 by (subst show_nat.simps) (simp add: nat_of_digits_def)
  qed
qed

lemma show_nat_inject [simp]: "show_nat m = show_nat n \<longleftrightarrow> m = n"
  by (metis nat_of_digits_show)

end
