(* ===== verification/Sni.thy ===== *)
theory Sni
  imports Prelude
begin

text \<open>
  \<^verbatim>\<open>sni.c\<close>: extraction of the host name from a TLS ClientHello.  Every read of the
  buffer is modelled with its own out-of-bounds outcome, so that memory safety of the parser is
  a theorem: the outcome \<open>SNI_oob\<close> is never reached.
\<close>

datatype sni_result = SNI_oob | SNI_none | SNI_name bytes

definition rd8 :: "bytes \<Rightarrow> nat \<Rightarrow> (byte \<Rightarrow> sni_result) \<Rightarrow> sni_result" where
  "rd8 d off k = (case drop off d of b # _ \<Rightarrow> k b | _ \<Rightarrow> SNI_oob)"

definition rd16 :: "bytes \<Rightarrow> nat \<Rightarrow> (u16 \<Rightarrow> sni_result) \<Rightarrow> sni_result" where
  "rd16 d off k = (case drop off d of a # b # _ \<Rightarrow> k (u16be a b) | _ \<Rightarrow> SNI_oob)"

definition rd24 :: "bytes \<Rightarrow> nat \<Rightarrow> (u32 \<Rightarrow> sni_result) \<Rightarrow> sni_result" where
  "rd24 d off k = (case drop off d of a # b # c # _ \<Rightarrow> k (u32be 0 a b c) | _ \<Rightarrow> SNI_oob)"

definition rdn :: "bytes \<Rightarrow> nat \<Rightarrow> nat \<Rightarrow> (bytes \<Rightarrow> sni_result) \<Rightarrow> sni_result" where
  "rdn d off n k = (if off + n \<le> length d then k (take n (drop off d)) else SNI_oob)"

text \<open>The \<^verbatim>\<open>CHECK(off, need)\<close> macro.\<close>

definition sni_check :: "bytes \<Rightarrow> nat \<Rightarrow> nat \<Rightarrow> sni_result \<Rightarrow> sni_result" where
  "sni_check d off need k = (if off + need > length d then SNI_none else k)"

text \<open>The body of the server-name extension at \<open>off\<close>, \<open>ext_len\<close> bytes long.\<close>

definition sni_body :: "bytes \<Rightarrow> nat \<Rightarrow> nat \<Rightarrow> nat \<Rightarrow> sni_result" where
  "sni_body d out_max off ext_len =
     (let sni_end = off + ext_len in
      if off + 2 > sni_end then SNI_none
      else if off + 2 + 1 > sni_end then SNI_none
      else rd8 d (off + 2) (\<lambda>nt.
        if nt \<noteq> 0 then SNI_none
        else if off + 3 + 2 > sni_end then SNI_none
        else rd16 d (off + 3) (\<lambda>nl.
          let name_len = unat nl in
          if off + 5 + name_len > sni_end then SNI_none
          else if name_len = 0 then SNI_none
          else let copy_len = (if name_len \<ge> out_max then out_max - 1 else name_len) in
            rdn d (off + 5) copy_len SNI_name)))"

function sni_exts :: "bytes \<Rightarrow> nat \<Rightarrow> nat \<Rightarrow> nat \<Rightarrow> sni_result" where
  "sni_exts d out_max off exts_end =
     (if off + 4 \<le> exts_end then
        rd16 d off (\<lambda>ext_type.
          rd16 d (off + 2) (\<lambda>el.
            let ext_len = unat el in
            if off + 4 + ext_len > exts_end then SNI_none
            else if ext_type = 0 then sni_body d out_max (off + 4) ext_len
            else sni_exts d out_max (off + 4 + ext_len) exts_end))
      else SNI_none)"
  by pat_completeness auto
termination
  by (relation "measure (\<lambda>(d, m, off, e). e - off)") auto

declare sni_exts.simps [simp del]

definition pf_sni_extract :: "bytes \<Rightarrow> nat \<Rightarrow> sni_result" where
  "pf_sni_extract data out_max =
     (if out_max = 0 then SNI_none else
      sni_check data 0 5 (
      rd8 data 0 (\<lambda>ct. if ct \<noteq> 0x16 then SNI_none else
      rd8 data 1 (\<lambda>vm. if vm \<noteq> 0x03 then SNI_none else
      rd16 data 3 (\<lambda>record_len.
      sni_check data 5 (unat record_len) (
      sni_check data 5 4 (
      rd8 data 5 (\<lambda>ht. if ht \<noteq> 0x01 then SNI_none else
      rd24 data 6 (\<lambda>_.
      sni_check data 9 2 (
      sni_check data 11 32 (
      sni_check data 43 1 (
      rd8 data 43 (\<lambda>sid_len. let off = 44 in
      sni_check data off (unat sid_len) (let off = off + unat sid_len in
      sni_check data off 2 (
      rd16 data off (\<lambda>cs_len. let off = off + 2 in
      sni_check data off (unat cs_len) (let off = off + unat cs_len in
      sni_check data off 1 (
      rd8 data off (\<lambda>cm_len. let off = off + 1 in
      sni_check data off (unat cm_len) (let off = off + unat cm_len in
      sni_check data off 2 (
      rd16 data off (\<lambda>exts_total. let off = off + 2 in
      sni_check data off (unat exts_total) (
      sni_exts data out_max off (off + unat exts_total))))))))))))))))))))))))"

section \<open>No read outside the buffer\<close>

definition in_bounds :: "sni_result \<Rightarrow> bool" where
  "in_bounds r \<longleftrightarrow> r \<noteq> SNI_oob"

lemma in_bounds_result [simp]: "in_bounds SNI_none" "in_bounds (SNI_name n)"
  by (simp_all add: in_bounds_def)

lemma rd8_safe: "off < length d \<Longrightarrow> (\<And>b. in_bounds (k b)) \<Longrightarrow> in_bounds (rd8 d off k)"
  by (auto simp: rd8_def split: list.splits)

lemma rd16_safe:
  assumes "off + 2 \<le> length d" "\<And>b. in_bounds (k b)"
  shows "in_bounds (rd16 d off k)"
proof -
  have "drop off d = d ! off # d ! Suc off # drop (Suc (Suc off)) d"
    using assms(1) by (simp add: Cons_nth_drop_Suc)
  thus ?thesis using assms(2) by (simp add: rd16_def)
qed

lemma rd24_safe:
  assumes "off + 3 \<le> length d" "\<And>b. in_bounds (k b)"
  shows "in_bounds (rd24 d off k)"
proof -
  have "drop off d = d ! off # d ! Suc off # d ! Suc (Suc off) # drop (Suc (Suc (Suc off))) d"
    using assms(1) by (simp add: Cons_nth_drop_Suc)
  thus ?thesis using assms(2) by (simp add: rd24_def)
qed

lemma rdn_safe: "off + n \<le> length d \<Longrightarrow> (\<And>b. in_bounds (k b)) \<Longrightarrow> in_bounds (rdn d off n k)"
  by (simp add: rdn_def)

lemma sni_check_safe: "(off + need \<le> length d \<Longrightarrow> in_bounds k) \<Longrightarrow> in_bounds (sni_check d off need k)"
  by (simp add: sni_check_def)

lemma if_safe: "(c \<Longrightarrow> in_bounds a) \<Longrightarrow> (\<not> c \<Longrightarrow> in_bounds b) \<Longrightarrow> in_bounds (if c then a else b)"
  by simp

lemmas sni_safe = rd8_safe rd16_safe rd24_safe rdn_safe sni_check_safe if_safe in_bounds_result

lemma sni_body_safe: "off + ext_len \<le> length d \<Longrightarrow> in_bounds (sni_body d m off ext_len)"
  unfolding sni_body_def Let_def by (intro sni_safe) auto

lemma sni_exts_safe: "exts_end \<le> length d \<Longrightarrow> in_bounds (sni_exts d m off exts_end)"
proof (induction d m off exts_end rule: sni_exts.induct)
  case (1 d m off e)
  show ?case
    unfolding sni_exts.simps [of d m off e] Let_def using 1 by (intro sni_safe sni_body_safe) auto
qed

lemma pf_sni_extract_safe: "in_bounds (pf_sni_extract data out_max)"
  unfolding pf_sni_extract_def Let_def by (intro sni_safe sni_exts_safe) auto

section \<open>Well-formed ClientHello messages\<close>

text \<open>
  The wire format the parser reads (RFC 5246 and RFC 6066), as an encoder: two-byte
  length-prefixed fields, extensions, the server-name extension, the whole record.
\<close>

definition enc16 :: "nat \<Rightarrow> bytes" where
  "enc16 n = [hi8 (of_nat n), lo8 (of_nat n)]"

definition enc_ext :: "u16 \<times> bytes \<Rightarrow> bytes" where
  "enc_ext e = [hi8 (fst e), lo8 (fst e)] @ enc16 (length (snd e)) @ snd e"

definition enc_sni :: "bytes \<Rightarrow> bytes" where
  "enc_sni host = enc_ext (0, enc16 (length host + 3) @ [0] @ enc16 (length host) @ host)"

record client_hello =
  hello_minor :: byte
  hello_version :: bytes
  hello_random :: bytes
  hello_sid :: bytes
  hello_ciphers :: bytes
  hello_compression :: bytes
  hello_exts_before :: "(u16 \<times> bytes) list"
  hello_host :: bytes
  hello_exts_after :: "(u16 \<times> bytes) list"

definition hello_exts :: "client_hello \<Rightarrow> bytes" where
  "hello_exts h = concat (map enc_ext (hello_exts_before h)) @ enc_sni (hello_host h)
     @ concat (map enc_ext (hello_exts_after h))"

definition hello_body :: "client_hello \<Rightarrow> bytes" where
  "hello_body h = hello_version h @ hello_random h
     @ of_nat (length (hello_sid h)) # hello_sid h
     @ enc16 (length (hello_ciphers h)) @ hello_ciphers h
     @ of_nat (length (hello_compression h)) # hello_compression h
     @ enc16 (length (hello_exts h)) @ hello_exts h"

definition hello_record :: "client_hello \<Rightarrow> bytes" where
  "hello_record h = [0x16, 0x03, hello_minor h] @ enc16 (length (hello_body h) + 4)
     @ [0x01, of_nat (length (hello_body h) div 65536)] @ enc16 (length (hello_body h)) @ hello_body h"

definition hello_wf :: "client_hello \<Rightarrow> bool" where
  "hello_wf h \<longleftrightarrow> length (hello_version h) = 2 \<and> length (hello_random h) = 32
     \<and> length (hello_sid h) < 256 \<and> length (hello_compression h) < 256
     \<and> length (hello_body h) + 4 < 65536 \<and> hello_host h \<noteq> []
     \<and> list_all (\<lambda>e. fst e \<noteq> 0) (hello_exts_before h)"

section \<open>Extraction inverts the encoder\<close>

lemma unat_enc16: "n < 65536 \<Longrightarrow> unat (of_nat n :: u16) = n"
  by (rule unat_of_nat_lt) simp

lemma unat_enc8: "n < 256 \<Longrightarrow> unat (of_nat n :: byte) = n"
  by (rule unat_of_nat_lt) simp

lemma sni_check_short: "length d < off + need \<Longrightarrow> sni_check d off need k = SNI_none"
  by (simp add: sni_check_def)

lemma rd8_drop: "drop off d = b # r \<Longrightarrow> rd8 d off k = k b"
  by (simp add: rd8_def)

lemma rd16_drop: "drop off d = a # b # r \<Longrightarrow> rd16 d off k = k (u16be a b)"
  by (simp add: rd16_def)

lemma rd24_drop: "drop off d = a # b # c # r \<Longrightarrow> rd24 d off k = k (u32be 0 a b c)"
  by (simp add: rd24_def)

lemma drop_room: "drop off d = x @ r \<Longrightarrow> off \<le> length d \<Longrightarrow> off + length x \<le> length d"
  by (drule arg_cong [where f = length]) simp

lemma rdn_drop: "drop off d = x @ r \<Longrightarrow> n \<le> length x \<Longrightarrow> off \<le> length d \<Longrightarrow> rdn d off n k = k (take n x)"
  using drop_room [of off d x r] by (simp add: rdn_def)

lemma sni_check_drop: "drop off d = x @ r \<Longrightarrow> off \<le> length d \<Longrightarrow> sni_check d off (length x) k = k"
  using drop_room [of off d x r] by (simp add: sni_check_def)

lemma drop_step: "drop off d = x @ r \<Longrightarrow> drop (off + length x) d = r"
  by (metis add.commute append_eq_conv_conj drop_drop)

lemma sni_body_enc:
  assumes "drop off d = enc16 (length host + 3) @ [0] @ enc16 (length host) @ host @ r"
    and "off \<le> length d" "host \<noteq> []" "length host < 65536" "0 < m"
  shows "sni_body d m off (length host + 5) = SNI_name (take (m - 1) host)"
proof -
  have n: "drop (off + i) d = drop i (drop off d)" for i by (simp add: add.commute)
  have a: "drop (off + 2) d = 0 # enc16 (length host) @ host @ r"
    and b: "drop (off + 3) d = enc16 (length host) @ host @ r"
    and c: "drop (off + 5) d = host @ r"
    unfolding n assms(1) by (simp_all add: enc16_def)
  have l: "off + 5 \<le> length d" using c assms(3) by (metis drop_eq_Nil append_is_Nil_conv nat_le_linear)
  have "rdn d (off + 5) (if m \<le> length host then m - 1 else length host) SNI_name
     = SNI_name (take (m - 1) host)"
    using rdn_drop [OF c _ l] assms(5) by auto
  thus ?thesis
    using assms rd8_drop [OF a] rd16_drop [of "off + 3" d] b
    by (cases "m \<le> length host") (simp_all add: sni_body_def Let_def enc16_def unat_enc16)
qed

lemma sni_exts_skip:
  assumes "drop off d = enc_ext e @ r" "off \<le> length d" "fst e \<noteq> 0" "length (snd e) < 65536"
    and "off + length (enc_ext e) \<le> exts_end"
  shows "sni_exts d m off exts_end = sni_exts d m (off + length (enc_ext e)) exts_end"
proof -
  have n: "drop (off + i) d = drop i (drop off d)" for i by (simp add: add.commute)
  have a: "drop off d = hi8 (fst e) # lo8 (fst e) # enc16 (length (snd e)) @ snd e @ r"
    using assms(1) by (simp add: enc_ext_def)
  have b: "drop (off + 2) d = hi8 (of_nat (length (snd e))) # lo8 (of_nat (length (snd e))) # snd e @ r"
    unfolding n a by (simp add: enc16_def)
  have l: "length (enc_ext e) = 4 + length (snd e)" by (simp add: enc_ext_def enc16_def)
  show ?thesis
    using assms(3-5)
    by (subst sni_exts.simps)
       (simp add: rd16_drop [OF a] rd16_drop [OF b] unat_enc16 l add.assoc del: add_2_eq_Suc')
qed

lemma sni_exts_found:
  assumes "drop off d = enc_sni host @ r" "off \<le> length d" "host \<noteq> []" "length host + 5 < 65536" "0 < m"
    and "off + length (enc_sni host) \<le> exts_end"
  shows "sni_exts d m off exts_end = SNI_name (take (m - 1) host)"
proof -
  let ?x = "enc16 (length host + 3) @ [0] @ enc16 (length host) @ host"
  have n: "drop (off + i) d = drop i (drop off d)" for i by (simp add: add.commute)
  have lx: "length ?x = length host + 5" by (simp add: enc16_def)
  have a: "drop off d = hi8 0 # lo8 0 # enc16 (length host + 5) @ ?x @ r"
    using assms(1) unfolding enc_sni_def enc_ext_def fst_conv snd_conv lx by simp
  have b: "drop (off + 2) d = hi8 (of_nat (length host + 5)) # lo8 (of_nat (length host + 5)) # ?x @ r"
    unfolding n a by (simp add: enc16_def)
  have c: "drop (off + 4) d = enc16 (length host + 3) @ [0] @ enc16 (length host) @ host @ r"
    unfolding n a by (simp add: enc16_def)
  have l: "length (enc_sni host) = length host + 9" by (simp add: enc_sni_def enc_ext_def enc16_def)
  have "off + 4 \<le> length d"
    using drop_room [OF assms(1,2)] l by simp
  hence "sni_body d m (off + 4) (length host + 5) = SNI_name (take (m - 1) host)"
    using c assms by (intro sni_body_enc [where r = r]) auto
  thus ?thesis
    using assms(4,6) l unat_enc16 [OF assms(4)]
    by (subst sni_exts.simps)
       (simp add: rd16_drop [OF a] rd16_drop [OF b] del: of_nat_add add_2_eq_Suc')
qed

lemma sni_exts_encoded:
  assumes "drop off d = concat (map enc_ext es) @ enc_sni host @ r" "off \<le> length d"
    and "list_all (\<lambda>e. fst e \<noteq> 0) es" "host \<noteq> []" "0 < m"
    and "off + length (concat (map enc_ext es) @ enc_sni host) \<le> exts_end"
    and "length (concat (map enc_ext es) @ enc_sni host) < 65536"
  shows "sni_exts d m off exts_end = SNI_name (take (m - 1) host)"
  using assms
proof (induction es arbitrary: off)
  case Nil
  have "length (enc_sni host) = length host + 9" by (simp add: enc_sni_def enc_ext_def enc16_def)
  thus ?case using Nil by (intro sni_exts_found [where r = r]) auto
next
  case (Cons e es)
  have a: "drop off d = enc_ext e @ (concat (map enc_ext es) @ enc_sni host @ r)"
    using Cons.prems(1) by simp
  have "length (snd e) < 65536" using Cons.prems(7) by (simp add: enc_ext_def)
  hence "sni_exts d m off exts_end = sni_exts d m (off + length (enc_ext e)) exts_end"
    using Cons.prems a by (intro sni_exts_skip [OF a]) auto
  also have "\<dots> = SNI_name (take (m - 1) host)"
    using Cons.prems drop_step [OF a] drop_room [OF a] by (intro Cons.IH) auto
  finally show ?case .
qed

lemma hello_body_drops:
  assumes "drop off d = hello_body h @ t" "length (hello_version h) = 2" "length (hello_random h) = 32"
    and o1_def: "o1 = off + 34 + 1 + length (hello_sid h)"
    and o2_def: "o2 = o1 + 2 + length (hello_ciphers h)"
    and o3_def: "o3 = o2 + 1 + length (hello_compression h)"
  shows "drop (off + 34) d = of_nat (length (hello_sid h)) # hello_sid h @ drop o1 d"
    and "drop o1 d = enc16 (length (hello_ciphers h)) @ hello_ciphers h @ drop o2 d"
    and "drop o2 d = of_nat (length (hello_compression h)) # hello_compression h @ drop o3 d"
    and "drop o3 d = enc16 (length (hello_exts h)) @ hello_exts h @ t"
proof -
  have s: "drop (k + length x) d = r" if "drop k d = x @ r" for k x r using drop_step [OF that] .
  have "drop (off + 34) d = drop 34 (drop off d)" by (simp add: add.commute)
  hence a: "drop (off + 34) d = (of_nat (length (hello_sid h)) # hello_sid h) @
      (enc16 (length (hello_ciphers h)) @ hello_ciphers h) @
      (of_nat (length (hello_compression h)) # hello_compression h) @
      enc16 (length (hello_exts h)) @ hello_exts h @ t"
    unfolding assms(1) using assms(2,3) by (simp add: hello_body_def)
  have b: "drop o1 d = (enc16 (length (hello_ciphers h)) @ hello_ciphers h) @
      (of_nat (length (hello_compression h)) # hello_compression h) @
      enc16 (length (hello_exts h)) @ hello_exts h @ t"
    using s [OF a] by (simp add: o1_def add.commute add.left_commute)
  have c: "drop o2 d = (of_nat (length (hello_compression h)) # hello_compression h) @
      enc16 (length (hello_exts h)) @ hello_exts h @ t"
    using s [OF b] by (simp add: o2_def enc16_def add.commute add.left_commute)
  have e: "drop o3 d = enc16 (length (hello_exts h)) @ hello_exts h @ t"
    using s [OF c] by (simp add: o3_def add.commute add.left_commute)
  show "drop (off + 34) d = of_nat (length (hello_sid h)) # hello_sid h @ drop o1 d" using a b by simp
  show "drop o1 d = enc16 (length (hello_ciphers h)) @ hello_ciphers h @ drop o2 d" using b c by simp
  show "drop o2 d = of_nat (length (hello_compression h)) # hello_compression h @ drop o3 d" using c e by simp
  show "drop o3 d = enc16 (length (hello_exts h)) @ hello_exts h @ t" by (rule e)
qed

text \<open>The record header is accepted and parsing goes on at the session identifier, offset 43.\<close>

lemma hello_record_lengths:
  assumes "hello_wf h"
  shows "length (hello_ciphers h) < 65536" "length (hello_exts h) < 65536"
    "length (hello_record h) = length (hello_body h) + 9"
  using assms by (auto simp: hello_wf_def hello_body_def hello_record_def enc16_def)

lemma hello_record_head:
  assumes "d = hello_record h @ t"
  shows "drop 0 d = 0x16 # drop 1 d" "drop 1 d = 0x03 # drop 2 d"
    "drop 3 d = hi8 (of_nat (length (hello_body h) + 4)) # lo8 (of_nat (length (hello_body h) + 4)) # drop 5 d"
    "drop 5 d = 0x01 # drop 6 d"
    "drop 6 d = of_nat (length (hello_body h) div 65536) # hi8 (of_nat (length (hello_body h)))
        # lo8 (of_nat (length (hello_body h))) # drop 9 d"
    "drop 9 d = hello_body h @ t"
  by (simp_all add: assms hello_record_def enc16_def del: of_nat_add)

lemma pf_sni_extract_hello:
  assumes wf: "hello_wf h" and m: "0 < m"
  shows "pf_sni_extract (hello_record h @ t) m = SNI_name (take (m - 1) (hello_host h))"
proof -
  define d where "d = hello_record h @ t"
  define o1 where "o1 = 44 + length (hello_sid h)"
  define o2 where "o2 = o1 + 2 + length (hello_ciphers h)"
  define o3 where "o3 = o2 + 1 + length (hello_compression h)"
  note hd = hello_record_head [OF d_def]
  note len = hello_record_lengths [OF wf]
  have wf': "length (hello_version h) = 2" "length (hello_random h) = 32"
    "length (hello_sid h) < 256" "length (hello_compression h) < 256"
    "length (hello_body h) + 4 < 65536" "hello_host h \<noteq> []"
    "list_all (\<lambda>e. fst e \<noteq> 0) (hello_exts_before h)"
    using wf by (auto simp: hello_wf_def)
  have o: "o1 = 9 + 34 + 1 + length (hello_sid h)" "(9::nat) + 34 = 43" by (simp_all add: o1_def)
  note dr0 = hello_body_drops [OF hd(6) wf'(1,2) o(1) o2_def o3_def, unfolded o(2)]
  have dr: "drop 43 d = of_nat (length (hello_sid h)) # hello_sid h @ drop o1 d"
    "drop o1 d = hi8 (of_nat (length (hello_ciphers h))) # lo8 (of_nat (length (hello_ciphers h))) # hello_ciphers h @ drop o2 d"
    "drop o2 d = of_nat (length (hello_compression h)) # hello_compression h @ drop o3 d"
    "drop o3 d = hi8 (of_nat (length (hello_exts h))) # lo8 (of_nat (length (hello_exts h))) # hello_exts h @ t"
    by (rule dr0(1), rule dr0(2) [unfolded enc16_def append_Cons append_Nil], rule dr0(3),
        rule dr0(4) [unfolded enc16_def append_Cons append_Nil])
  have L: "length d = o3 + 2 + length (hello_exts h) + length t" "length d = length (hello_body h) + 9 + length t"
    using len wf' by (simp_all add: d_def o3_def o2_def o1_def hello_body_def enc16_def)
  have d2: "drop (o3 + 2) d = concat (map enc_ext (hello_exts_before h)) @ enc_sni (hello_host h)
      @ concat (map enc_ext (hello_exts_after h)) @ t"
    using arg_cong [OF dr(4), of "drop 2"] by (simp add: add.commute hello_exts_def)
  have "sni_exts d m (o3 + 2) (o3 + 2 + length (hello_exts h)) = SNI_name (take (m - 1) (hello_host h))"
    using wf' m L len(2) by (intro sni_exts_encoded [OF d2]) (auto simp: hello_exts_def)
  moreover have w: "unat (of_nat (length (hello_body h) + 4) :: u16) = length (hello_body h) + 4"
    using wf' by (intro unat_enc16)
  moreover have u: "unat (of_nat (length (hello_sid h)) :: byte) = length (hello_sid h)"
    "unat (of_nat (length (hello_ciphers h)) :: u16) = length (hello_ciphers h)"
    "unat (of_nat (length (hello_compression h)) :: byte) = length (hello_compression h)"
    "unat (of_nat (length (hello_exts h)) :: u16) = length (hello_exts h)"
    using wf' len by (simp_all add: unat_enc8 unat_enc16)
  moreover have c: "sni_check d x y k = k" if "x + y \<le> length d" for x y k
    using that by (simp add: sni_check_def)
  moreover have "0 + 5 \<le> length d" "5 + (length (hello_body h) + 4) \<le> length d" "5 + 4 \<le> length d"
    "9 + 2 \<le> length d" "11 + 32 \<le> length d" "43 + 1 \<le> length d" "44 + length (hello_sid h) \<le> length d"
    "o1 + 2 \<le> length d" "o1 + 2 + length (hello_ciphers h) \<le> length d" "o2 + 1 \<le> length d"
    "o2 + 1 + length (hello_compression h) \<le> length d" "o3 + 2 \<le> length d"
    "o3 + 2 + length (hello_exts h) \<le> length d"
    using L by (simp_all add: o3_def o2_def o1_def)
  moreover have "m \<noteq> 0" using m by simp
  ultimately show ?thesis
    unfolding d_def [symmetric] pf_sni_extract_def Let_def
    by (simp only: rd8_drop [OF hd(1)] rd8_drop [OF hd(2)] rd16_drop [OF hd(3)] rd8_drop [OF hd(4)]
        rd24_drop [OF hd(5)] rd8_drop [OF dr(1)] rd16_drop [OF dr(2)] rd8_drop [OF dr(3)] rd16_drop [OF dr(4)]
        u w u16be_hi8_lo8 o1_def [symmetric] o2_def [symmetric] o3_def [symmetric] simp_thms if_False if_True)
qed

lemma drop_cons5:
  assumes "d = x0 # x1 # x2 # x3 # x4 # r"
  shows "drop 0 d = x0 # drop 1 d" "drop 1 d = x1 # drop 2 d" "drop 3 d = x3 # x4 # drop 5 d"
  by (simp_all add: assms)

lemma pf_sni_extract_truncated:
  assumes wf: "hello_wf h" and n: "n < length (hello_record h)"
  shows "pf_sni_extract (take n (hello_record h)) m = SNI_none"
proof (cases "n < 5")
  case True
  thus ?thesis by (simp add: pf_sni_extract_def sni_check_short)
next
  case False
  let ?d = "take n (hello_record h)"
  note hd = hello_record_head [of "hello_record h" h "[]"]
  have l: "length (hello_record h) = length (hello_body h) + 9" "length (hello_body h) + 4 < 65536"
    using wf by (simp_all add: hello_record_lengths hello_wf_def)
  have "n = Suc (Suc (Suc (Suc (Suc (n - 5)))))" using False by linarith
  then obtain n' where n': "n = Suc (Suc (Suc (Suc (Suc n'))))" by blast
  let ?w = "of_nat (length (hello_body h) + 4) :: u16"
  have d: "?d = 0x16 # 0x03 # hello_minor h # hi8 ?w # lo8 ?w # drop 5 ?d"
    unfolding hello_record_def n' enc16_def by (simp del: of_nat_add)
  have a: "drop 0 ?d = 0x16 # drop 1 ?d" "drop 1 ?d = 0x03 # drop 2 ?d"
    "drop 3 ?d = hi8 ?w # lo8 ?w # drop 5 ?d"
    by (rule drop_cons5 [OF d])+
  have "unat (of_nat (length (hello_body h) + 4) :: u16) = length (hello_body h) + 4"
    using l by (intro unat_enc16)
  hence "sni_check ?d 5 (unat (of_nat (length (hello_body h) + 4) :: u16)) k = SNI_none" for k
    using l n by (intro sni_check_short) simp
  moreover have "sni_check ?d 0 5 k = k" for k using False n by (simp add: sni_check_def)
  ultimately show ?thesis
    unfolding pf_sni_extract_def
    by (simp only: rd8_drop [OF a(1)] rd8_drop [OF a(2)] rd16_drop [OF a(3)] u16be_hi8_lo8 simp_thms
        if_False if_cancel)
qed

section \<open>Properties\<close>

text \<open>
  C24: \<^verbatim>\<open>pf_sni_extract\<close> never reads outside the buffer it is given, whatever bytes it holds and
  whatever the size of the output buffer.
\<close>

theorem sni_extract_in_bounds: "pf_sni_extract data out_max \<noteq> SNI_oob"
  using pf_sni_extract_safe [of data out_max] by (simp add: in_bounds_def)

text \<open>
  C25: from every well-formed ClientHello record, with any session identifier, cipher suites,
  compression methods, other extensions before and after, and any bytes after the record, the
  host name of the server-name extension is returned, cut to the output buffer.
\<close>

theorem sni_extract_client_hello:
  assumes "hello_wf h" "0 < out_max"
  shows "pf_sni_extract (hello_record h @ tail_bytes) out_max = SNI_name (take (out_max - 1) (hello_host h))"
  by (rule pf_sni_extract_hello [OF assms])

definition demo_hello :: client_hello where
  "demo_hello = \<lparr> hello_minor = 1, hello_version = [3, 3], hello_random = replicate 32 0xAB, hello_sid = [1, 2],
     hello_ciphers = [0x13, 0x01], hello_compression = [0], hello_exts_before = [(10, [0, 2, 0, 29])],
     hello_host = [0x61, 0x2E, 0x63, 0x68], hello_exts_after = [(43, [2, 3, 4])] \<rparr>"

lemma demo_hello_wf: "hello_wf demo_hello"
  by (simp add: hello_wf_def demo_hello_def hello_body_def hello_exts_def enc_sni_def enc_ext_def enc16_def)

theorem sni_extract_client_hello_witness:
  "pf_sni_extract (hello_record demo_hello @ [0xFF]) 256 = SNI_name [0x61, 0x2E, 0x63, 0x68]"
  using sni_extract_client_hello [OF demo_hello_wf, of 256 "[0xFF]"] by (simp add: demo_hello_def)

text \<open>
  A ClientHello record of which only a proper prefix has been read yields no host name.
\<close>

theorem sni_extract_partial_record:
  assumes "hello_wf h" "n < length (hello_record h)"
  shows "pf_sni_extract (take n (hello_record h)) out_max = SNI_none"
  by (rule pf_sni_extract_truncated [OF assms])

theorem sni_extract_partial_record_witness:
  "pf_sni_extract (take 60 (hello_record demo_hello)) 256 = SNI_none"
proof -
  have "60 < length (hello_record demo_hello)"
    by (simp add: demo_hello_def hello_record_def hello_body_def hello_exts_def enc_sni_def enc_ext_def enc16_def)
  from sni_extract_partial_record [OF demo_hello_wf this, of 256] show ?thesis .
qed

end
