(* ===== verification/Clib.thy ===== *)
theory Clib
  imports Prelude
begin

text \<open>
  The C library routines the daemon calls, on NUL-free character lists: case folding,
  bounded copies, \<^verbatim>\<open>strchr\<close>/\<^verbatim>\<open>strrchr\<close>/\<^verbatim>\<open>strtok_r\<close>, \<^verbatim>\<open>atoi\<close>, the POSIX
  \<^verbatim>\<open>basename\<close>, and \<^verbatim>\<open>inet_pton\<close>/\<^verbatim>\<open>inet_ntop\<close> for IPv4.  A nullable
  \<^verbatim>\<open>const char *\<close> is a \<^typ>\<open>string option\<close>.
\<close>

section \<open>Characters and case folding\<close>

definition tolower :: "char \<Rightarrow> char" where
  "tolower c = (if 65 \<le> (of_char c :: nat) \<and> (of_char c :: nat) \<le> 90
                then char_of ((of_char c :: nat) + 32) else c)"

definition isspace :: "char \<Rightarrow> bool" where
  "isspace c \<longleftrightarrow> (of_char c :: nat) = 32 \<or> (9 \<le> (of_char c :: nat) \<and> (of_char c :: nat) \<le> 13)"

definition strcasecmp_eq :: "string \<Rightarrow> string \<Rightarrow> bool" where
  "strcasecmp_eq a b \<longleftrightarrow> map tolower a = map tolower b"

definition strncasecmp_eq :: "string \<Rightarrow> string \<Rightarrow> nat \<Rightarrow> bool" where
  "strncasecmp_eq a b n \<longleftrightarrow> map tolower (take n a) = map tolower (take n b)"

definition strncmp_eq :: "string \<Rightarrow> string \<Rightarrow> nat \<Rightarrow> bool" where
  "strncmp_eq a b n \<longleftrightarrow> take n a = take n b"

lemma tolower_idem [simp]: "tolower (tolower c) = tolower c"
  by (auto simp: tolower_def)

lemma map_tolower_idem [simp]: "map tolower (map tolower s) = map tolower s"
  by (simp add: comp_def)

lemma strcasecmp_eq_refl [simp]: "strcasecmp_eq a a"
  by (simp add: strcasecmp_eq_def)

lemma strcasecmp_eq_sym: "strcasecmp_eq a b \<Longrightarrow> strcasecmp_eq b a"
  by (simp add: strcasecmp_eq_def)

lemma strcasecmp_eq_length: "strcasecmp_eq a b \<Longrightarrow> length a = length b"
  by (metis strcasecmp_eq_def length_map)

text \<open>\<^verbatim>\<open>snprintf(buf, cap, "%s", s)\<close> with \<^verbatim>\<open>cap\<close> at least 1: at most \<^verbatim>\<open>cap - 1\<close> characters are kept.\<close>

definition snprintf_s :: "nat \<Rightarrow> string \<Rightarrow> string" where
  "snprintf_s cap s = take (cap - 1) s"

lemma snprintf_s_id [cstr_simps]: "length s < cap \<Longrightarrow> snprintf_s cap s = s"
  by (simp add: snprintf_s_def)

lemma snprintf_s_length: "0 < cap \<Longrightarrow> length (snprintf_s cap s) < cap"
  by (simp add: snprintf_s_def min_def) arith

text \<open>Bytes of a C buffer as the string before its first NUL.\<close>

definition cstring :: "bytes \<Rightarrow> string" where
  "cstring bs = map (\<lambda>b. char_of (unat b)) (takeWhile (\<lambda>b. b \<noteq> 0) bs)"

definition bytes_of :: "string \<Rightarrow> bytes" where
  "bytes_of s = map of_char s"

definition chars_of :: "bytes \<Rightarrow> string" where
  "chars_of bs = map (\<lambda>b. char_of (unat b)) bs"

lemma cstring_length: "length (cstring bs) \<le> length bs"
  by (simp add: cstring_def length_takeWhile_le)

lemma bytes_of_length [simp]: "length (bytes_of s) = length s"
  by (simp add: bytes_of_def)

lemma cstring_bytes_of: "CHR 0x00 \<notin> set s \<Longrightarrow> cstring (bytes_of s) = s"
proof (induction s)
  case (Cons c s)
  have "unat (of_nat (of_char c) :: byte) = of_char c"
    by (rule unat_of_nat_lt) (use nat_of_char_less_256 [of c] in simp)
  hence u: "unat (of_char c :: byte) = of_char c" by (simp only: of_nat_of_char)
  have "of_char c \<noteq> (of_char (CHR 0x00) :: nat)"
    using Cons.prems by (metis list.set_intros(1) char_of_char)
  hence "of_char c \<noteq> (0::nat)" by simp
  hence "of_char c \<noteq> (0 :: byte)" using u by (metis unsigned_0)
  thus ?case using Cons u by (simp add: cstring_def bytes_of_def)
qed (simp add: cstring_def bytes_of_def)

section \<open>Searching and splitting\<close>

definition strchr :: "string \<Rightarrow> char \<Rightarrow> nat option" where
  "strchr s c = find_index (\<lambda>x. x = c) s"

definition strrchr :: "string \<Rightarrow> char \<Rightarrow> nat option" where
  "strrchr s c = map_option (\<lambda>i. length s - 1 - i) (strchr (rev s) c)"

lemma strchr_None: "strchr s c = None \<longleftrightarrow> c \<notin> set s"
  by (auto simp: strchr_def find_index_None)

lemma strchr_append: "c \<notin> set a \<Longrightarrow> strchr (a @ c # b) c = Some (length a)"
  by (auto simp: strchr_def find_index_Some nth_append)

lemma strchr_Some_split:
  "strchr s c = Some i \<Longrightarrow> s = take i s @ c # drop (Suc i) s \<and> c \<notin> set (take i s) \<and> i < length s"
  unfolding strchr_def find_index_Some
  by (auto simp: in_set_conv_nth intro: id_take_nth_drop)

fun strstr :: "string \<Rightarrow> string \<Rightarrow> nat option" where
  "strstr [] n = (if n = [] then Some 0 else None)"
| "strstr (c # s) n = (if prefix n (c # s) then Some 0 else map_option Suc (strstr s n))"

lemma strstr_iff_sublist: "strstr s n \<noteq> None \<longleftrightarrow> sublist n s"
  by (induction s) (auto simp: sublist_Cons_right split: option.splits)

fun split_on :: "char \<Rightarrow> string \<Rightarrow> string list" where
  "split_on d [] = [[]]"
| "split_on d (c # s) = (if c = d then [] # split_on d s
     else (case split_on d s of [] \<Rightarrow> [[c]] | t # ts \<Rightarrow> (c # t) # ts))"

text \<open>\<^verbatim>\<open>strtok_r\<close> with a single delimiter: the non-empty fields, in order.\<close>

definition strtok :: "char \<Rightarrow> string \<Rightarrow> string list" where
  "strtok d s = filter (\<lambda>t. t \<noteq> []) (split_on d s)"

lemma split_on_nonempty [simp]: "split_on d s \<noteq> []"
  by (induction s) (auto split: list.splits)

lemma split_on_no_delim: "d \<notin> set s \<Longrightarrow> split_on d s = [s]"
  by (induction s) auto

lemma split_on_field: "d \<notin> set a \<Longrightarrow> split_on d (a @ d # b) = a # split_on d b"
  by (induction a) auto

lemma split_on_fields_no_delim: "t \<in> set (split_on d s) \<Longrightarrow> d \<notin> set t"
proof (induction s arbitrary: t)
  case (Cons c s)
  obtain u us where e: "split_on d s = u # us" by (meson list.exhaust split_on_nonempty)
  show ?case using Cons e by (cases "c = d") auto
qed simp

lemma strtok_no_delim: "t \<in> set (strtok d s) \<Longrightarrow> d \<notin> set t \<and> t \<noteq> []"
  by (auto simp: strtok_def dest: split_on_fields_no_delim)

fun join_with :: "char \<Rightarrow> string list \<Rightarrow> string" where
  "join_with d [] = []"
| "join_with d [t] = t"
| "join_with d (t # u # ts) = t @ d # join_with d (u # ts)"

lemma split_join: "ts \<noteq> [] \<Longrightarrow> \<forall>t \<in> set ts. d \<notin> set t \<Longrightarrow> split_on d (join_with d ts) = ts"
  by (induction d ts rule: join_with.induct) (auto simp: split_on_no_delim split_on_field)

lemma strtok_join:
  "\<forall>t \<in> set ts. d \<notin> set t \<and> t \<noteq> [] \<Longrightarrow> strtok d (join_with d ts) = ts"
  by (cases "ts = []") (auto simp: strtok_def split_join filter_id_conv)

text \<open>The trimming loops: leading, then trailing blanks.\<close>

definition ltrim :: "string \<Rightarrow> string" where
  "ltrim s = dropWhile (\<lambda>c. c = CHR '' '') s"

definition rtrim :: "string \<Rightarrow> string" where
  "rtrim s = rev (dropWhile (\<lambda>c. c = CHR '' '') (rev s))"

lemma trim_id:
  assumes "s \<noteq> []" "hd s \<noteq> CHR '' ''" "last s \<noteq> CHR '' ''"
  shows "rtrim (ltrim s) = s"
proof -
  have "ltrim s = s" using assms by (cases s) (auto simp: ltrim_def)
  moreover have "hd (rev s) \<noteq> CHR '' ''" using assms by (simp add: hd_rev)
  hence "dropWhile (\<lambda>c. c = CHR '' '') (rev s) = rev s"
    using assms(1) by (cases "rev s") auto
  ultimately show ?thesis by (simp add: rtrim_def)
qed

section \<open>POSIX basename (the \<^verbatim>\<open>libgen.h\<close> variant)\<close>

definition c_basename :: "string \<Rightarrow> string" where
  "c_basename s = (if s = [] then ''.''
     else let t = rev (dropWhile (\<lambda>c. c = CHR ''/'') (rev s)) in
       if t = [] then ''/''
       else rev (takeWhile (\<lambda>c. c \<noteq> CHR ''/'') (rev t)))"

lemma c_basename_file:
  assumes "b \<noteq> []" "CHR ''/'' \<notin> set b"
  shows "c_basename (d @ CHR ''/'' # b) = b" and "c_basename b = b"
proof -
  obtain x xs where r: "rev b = x # xs" using assms(1) by (cases "rev b") auto
  have n: "\<forall>c \<in> set (rev b). c \<noteq> CHR ''/''" using assms(2) by auto
  have x: "x \<noteq> CHR ''/''" using n r by auto
  have w: "takeWhile (\<lambda>c. c \<noteq> CHR ''/'') (rev b) = rev b" using n by (simp add: takeWhile_eq_all_conv)
  have w2: "takeWhile (\<lambda>c. c \<noteq> CHR ''/'') (rev b @ CHR ''/'' # rev d) = rev b"
    using n by (simp add: takeWhile_append)
  have d1: "dropWhile (\<lambda>c. c = CHR ''/'') (rev b @ r) = rev b @ r" for r
    using r x by simp
  show "c_basename (d @ CHR ''/'' # b) = b"
    using w2 assms(1) by (simp add: c_basename_def d1 Let_def)
  show "c_basename b = b"
    unfolding c_basename_def Let_def using assms(1) d1 [of "[]"] w by (metis append_Nil2 rev_rev_ident)
qed

section \<open>\<^verbatim>\<open>atoi\<close>\<close>

text \<open>
  glibc's \<^verbatim>\<open>atoi\<close> is \<^verbatim>\<open>(int) strtol(s, NULL, 10)\<close>: blanks, an optional sign, digits; the
  \<^verbatim>\<open>long\<close> saturates and its low 32 bits are taken as a signed value.
\<close>

definition int32_of :: "int \<Rightarrow> int" where
  "int32_of x = (x + 2 ^ 31) mod 2 ^ 32 - 2 ^ 31"

definition strtol10 :: "string \<Rightarrow> int" where
  "strtol10 s = (let t = dropWhile isspace s;
      neg = (t \<noteq> [] \<and> hd t = CHR ''-'');
      u = (if t \<noteq> [] \<and> (hd t = CHR ''-'' \<or> hd t = CHR ''+'') then tl t else t);
      v = int (nat_of_digits (takeWhile is_digit u))
    in if neg then max (- (2 ^ 63)) (- v) else min (2 ^ 63 - 1) v)"

definition atoi :: "string \<Rightarrow> int" where
  "atoi s = int32_of (strtol10 s)"

lemma int32_of_id: "- (2 ^ 31) \<le> x \<Longrightarrow> x < 2 ^ 31 \<Longrightarrow> int32_of x = x"
  by (simp add: int32_of_def)

lemma int32_of_range: "- (2 ^ 31) \<le> int32_of x \<and> int32_of x < 2 ^ 31"
proof -
  have "0 \<le> (x + 2 ^ 31) mod 2 ^ 32" "(x + 2 ^ 31) mod 2 ^ 32 < 2 ^ 32" by simp_all
  thus ?thesis unfolding int32_of_def by simp
qed

lemma is_digit_not_sign: "is_digit c \<Longrightarrow> \<not> isspace c \<and> c \<noteq> CHR ''-'' \<and> c \<noteq> CHR ''+'' \<and> c \<noteq> CHR ''.'' \<and> c \<noteq> CHR '','' \<and> c \<noteq> CHR ''/''"
  by (auto simp: is_digit_def isspace_def)

lemma show_nat_no_char: "\<not> is_digit c \<Longrightarrow> c \<notin> set (show_nat n)"
  using show_nat_digits by blast

lemma strtol10_show_nat:
  assumes "s = [] \<or> \<not> is_digit (hd s)" "n < 2 ^ 63"
  shows "strtol10 (show_nat n @ s) = int n"
proof -
  obtain d ds where e: "show_nat n = d # ds" by (meson list.exhaust show_nat_nonempty)
  have dd: "is_digit d" using show_nat_digits [of d n] e by simp
  have all: "\<forall>c \<in> set (show_nat n). is_digit c" using show_nat_digits by blast
  have "takeWhile is_digit (show_nat n @ s) = show_nat n @ takeWhile is_digit s"
    using all by (simp add: takeWhile_append2)
  moreover have "takeWhile is_digit s = []" using assms(1) by (cases s) auto
  ultimately have "takeWhile is_digit (show_nat n @ s) = show_nat n" by simp
  moreover have "dropWhile isspace (show_nat n @ s) = show_nat n @ s"
    using dd is_digit_not_sign [of d] by (simp add: e)
  moreover have "hd (show_nat n @ s) \<noteq> CHR ''-''" "hd (show_nat n @ s) \<noteq> CHR ''+''"
    using dd is_digit_not_sign [of d] by (simp_all add: e)
  ultimately show ?thesis
    using assms(2) by (simp add: strtol10_def Let_def)
qed

lemma atoi_show_nat:
  assumes "s = [] \<or> \<not> is_digit (hd s)" "n < 2 ^ 31"
  shows "atoi (show_nat n @ s) = int n"
proof -
  have "strtol10 (show_nat n @ s) = int n" using assms by (intro strtol10_show_nat) auto
  thus ?thesis using assms(2) unfolding atoi_def by (simp add: int32_of_id)
qed

section \<open>\<^verbatim>\<open>inet_pton(AF_INET)\<close> and \<^verbatim>\<open>inet_ntop(AF_INET)\<close>\<close>

text \<open>
  The scanner of the C library: finished octets, the current octet, whether it has a
  digit, and how many octets were begun.  Leading zeros, values over 255, empty octets and
  trailing text are refused.
\<close>

fun pton4_loop :: "string \<Rightarrow> nat list \<Rightarrow> nat \<Rightarrow> bool \<Rightarrow> nat \<Rightarrow> nat list option" where
  "pton4_loop [] done cur saw octets = (if octets < 4 then None else Some (done @ [cur]))"
| "pton4_loop (ch # s) done cur saw octets =
     (if is_digit ch then
        (let nw = cur * 10 + digit_val ch in
         if saw \<and> cur = 0 then None
         else if nw > 255 then None
         else if \<not> saw then (if octets + 1 > 4 then None else pton4_loop s done nw True (octets + 1))
         else pton4_loop s done nw True octets)
      else if ch = CHR ''.'' \<and> saw then
        (if octets = 4 then None else pton4_loop s (done @ [cur]) 0 False octets)
      else None)"

definition ip_of_octets :: "nat list \<Rightarrow> u32 option" where
  "ip_of_octets os = (case os of [a, b, c, d] \<Rightarrow>
      Some (of_nat (((a * 256 + b) * 256 + c) * 256 + d)) | _ \<Rightarrow> None)"

text \<open>The address in host byte order (\<^verbatim>\<open>ntohl(addr.s_addr)\<close>).\<close>

definition inet_pton4 :: "string \<Rightarrow> u32 option" where
  "inet_pton4 s = (case pton4_loop s [] 0 False 0 of None \<Rightarrow> None | Some os \<Rightarrow> ip_of_octets os)"

definition inet_ntop4 :: "u32 \<Rightarrow> string" where
  "inet_ntop4 w = show_nat (unat w div 2 ^ 24) @ CHR ''.'' # show_nat (unat w div 2 ^ 16 mod 256)
     @ CHR ''.'' # show_nat (unat w div 2 ^ 8 mod 256) @ CHR ''.'' # show_nat (unat w mod 256)"

lemma pton4_loop_more:
  "cur * 10 + digit_val c \<le> 255 \<Longrightarrow> is_digit c \<Longrightarrow> 0 < cur \<Longrightarrow>
   pton4_loop (c # s) os cur True k = pton4_loop s os (cur * 10 + digit_val c) True k"
  by (simp add: Let_def)

lemma pton4_loop_octet:
  assumes "n < 256" "k < 4"
  shows "pton4_loop (show_nat n @ s) os 0 False k = pton4_loop s os n True (Suc k)"
proof -
  have one: "pton4_loop (digit_char d # s) os 0 False k = pton4_loop s os d True (Suc k)" if "d < 10" for d s
    using that assms(2) by (simp add: Let_def)
  consider "n < 10" | "10 \<le> n" "n < 100" | "100 \<le> n" by linarith
  thus ?thesis
  proof cases
    case 1
    thus ?thesis using one by (simp add: show_nat.simps [of n])
  next
    case 2
    have "show_nat n = [digit_char (n div 10), digit_char (n mod 10)]"
      using 2 by (simp add: show_nat.simps [of n] show_nat.simps [of "n div 10"])
    moreover have "n div 10 < 10" "0 < n div 10" "n div 10 * 10 + n mod 10 = n" using 2 by simp_all
    ultimately show ?thesis using assms one
      by (simp add: pton4_loop_more del: pton4_loop.simps)
  next
    case 3
    have m: "n div 10 mod 10 < 10" "n mod 10 < 10" by simp_all
    have q: "n div 10 div 10 < 10" "0 < n div 10 div 10" "n div 10 < 100" "\<not> n div 10 < 10" using 3 assms(1) by linarith+
    have "show_nat n = [digit_char (n div 10 div 10), digit_char (n div 10 mod 10), digit_char (n mod 10)]"
      using 3 q by (simp add: show_nat.simps [of n] show_nat.simps [of "n div 10"] show_nat.simps [of "n div 10 div 10"])
    moreover have "n div 10 div 10 * 10 + n div 10 mod 10 = n div 10" "n div 10 * 10 + n mod 10 = n"
      by (rule div_mult_mod_eq)+
    ultimately show ?thesis using assms one q m 3
      by (simp add: pton4_loop_more del: pton4_loop.simps div_mult2_eq [symmetric])
  qed
qed

lemma pton4_loop_dot: "k < 4 \<Longrightarrow> pton4_loop (CHR ''.'' # s) os n True k = pton4_loop s (os @ [n]) 0 False k"
  by (simp add: is_digit_def)

lemma inet_pton4_ntop4 [cstr_simps]: "inet_pton4 (inet_ntop4 w) = Some w"
proof -
  have "unat w < 4294967296" using unsigned_less [of w, where ?'a = nat] by simp
  hence "unat w div 2 ^ 24 < 256" by simp
  hence "pton4_loop (inet_ntop4 w) [] 0 False 0 =
     Some [unat w div 2 ^ 24, unat w div 2 ^ 16 mod 256, unat w div 2 ^ 8 mod 256, unat w mod 256]"
    unfolding inet_ntop4_def
    using pton4_loop_octet [where s = "[]" and n = "unat w mod 256" and k = "Suc (Suc (Suc 0))"]
    by (simp add: pton4_loop_octet pton4_loop_dot del: pton4_loop.simps(2))
  moreover have "unat w div 65536 = unat w div 256 div 256" "unat w div 16777216 = unat w div 256 div 256 div 256"
    by (simp_all only: div_mult2_eq [symmetric]) simp_all
  hence "((unat w div 2 ^ 24 * 256 + unat w div 2 ^ 16 mod 256) * 256 + unat w div 2 ^ 8 mod 256) * 256
      + unat w mod 256 = unat w" by (simp only: power_numeral) simp
  ultimately show ?thesis
    unfolding inet_pton4_def ip_of_octets_def by (simp only: option.case list.case) simp
qed

lemma inet_ntop4_chars: "c \<in> set (inet_ntop4 w) \<Longrightarrow> is_digit c \<or> c = CHR ''.''"
  by (auto simp: inet_ntop4_def dest: show_nat_digits)

lemma inet_ntop4_no_char: "\<not> is_digit c \<Longrightarrow> c \<noteq> CHR ''.'' \<Longrightarrow> c \<notin> set (inet_ntop4 w)"
  using inet_ntop4_chars by blast

lemma show_nat_byte_length:
  assumes "n < 256"
  shows "length (show_nat n) \<le> 3"
proof -
  have "length (show_nat (n div 10 div 10)) = 1"
    using assms by (subst show_nat.simps) simp
  hence "length (show_nat (n div 10)) \<le> 2"
    by (subst show_nat.simps) simp
  thus ?thesis by (subst show_nat.simps) simp
qed

lemma inet_ntop4_length: "length (inet_ntop4 w) \<le> 15"
proof -
  have "unat w < 4294967296" using unsigned_less [of w, where ?'a = nat] by simp
  hence "length (show_nat (unat w div 2 ^ 24)) \<le> 3" by (intro show_nat_byte_length) simp
  moreover have "length (show_nat (unat w div 2 ^ 16 mod 256)) \<le> 3"
    "length (show_nat (unat w div 2 ^ 8 mod 256)) \<le> 3" "length (show_nat (unat w mod 256)) \<le> 3"
    by (simp_all add: show_nat_byte_length)
  ultimately show ?thesis unfolding inet_ntop4_def by simp
qed

lemma show_nat_port_length:
  assumes "n \<le> 65535"
  shows "length (show_nat n) \<le> 5"
proof -
  have "n div 10 div 10 < 656" using assms by linarith
  hence "n div 10 div 10 div 10 div 10 < 10" by linarith
  hence "length (show_nat (n div 10 div 10 div 10 div 10)) = 1" by (subst show_nat.simps) simp
  hence "length (show_nat (n div 10 div 10 div 10)) \<le> 2" by (subst show_nat.simps) simp
  hence "length (show_nat (n div 10 div 10)) \<le> 3" by (subst show_nat.simps) simp
  hence "length (show_nat (n div 10)) \<le> 4" by (subst show_nat.simps) simp
  thus ?thesis by (subst show_nat.simps) simp
qed

lemma prefix_take_append: "prefix (take n d @ z) d \<longleftrightarrow> prefix z (drop n d)" "take n d @ z = d \<longleftrightarrow> z = drop n d"
  by (metis append_take_drop_id same_prefix_prefix, metis append_take_drop_id same_append_eq)

lemma chars_of_bytes_of: "chars_of (bytes_of s @ b) = s @ chars_of b"
proof -
  have "char_of (unat (of_char c :: byte)) = c" for c
  proof -
    have "unat (of_nat (of_char c) :: byte) = of_char c" by (rule unat_of_nat_lt) (use nat_of_char_less_256 [of c] in simp)
    hence "unat (of_char c :: byte) = of_char c" by (simp only: of_nat_of_char)
    thus ?thesis by simp
  qed
  thus ?thesis by (simp add: chars_of_def bytes_of_def comp_def)
qed

end
