(* ===== verification/Types.thy ===== *)
theory Types
  imports Clib
begin

text \<open>
  The data of \<^verbatim>\<open>include/proxiflare.h\<close>: the three enumerations, the proxy, rule,
  chain and log-entry structures, and the string conversions of \<^verbatim>\<open>main.c\<close>.  A
  \<^verbatim>\<open>char[N]\<close> field is the NUL-free string it holds; the well-formedness predicates
  state that it fits.
\<close>

section \<open>Enumerations\<close>

datatype pf_proxy_type = PF_PROXY_SOCKS4 | PF_PROXY_SOCKS5 | PF_PROXY_HTTP | PF_PROXY_SSH

datatype pf_health =
  PF_HEALTH_UNKNOWN | PF_HEALTH_ONLINE | PF_HEALTH_OFFLINE | PF_HEALTH_SLOW | PF_HEALTH_ERROR

datatype pf_action =
  PF_ACTION_DIRECT | PF_ACTION_PROXY | PF_ACTION_CHAIN | PF_ACTION_BLOCK | PF_ACTION_REJECT

section \<open>Structures\<close>

record pf_proxy =
  px_id :: u32
  px_name :: string
  px_type :: pf_proxy_type
  px_host :: string
  px_port :: u16
  px_username :: string
  px_password :: string
  px_ssh_key_path :: string
  px_health :: pf_health
  px_latency_ms :: u32
  px_last_check :: int
  px_bytes_sent :: u64
  px_bytes_recv :: u64
  px_enabled :: int

record pf_rule =
  r_id :: u32
  r_name :: string
  r_priority :: int
  r_app_path :: string
  r_uid :: u32
  r_gid :: u32
  r_domain :: string
  r_ip_cidr :: string
  r_dst_port :: u16
  r_proto :: byte
  r_action :: pf_action
  r_proxy_id :: u32
  r_chain_id :: u32
  r_enabled :: int

text \<open>\<^verbatim>\<open>hops[0 .. hop_count-1]\<close> is a list of proxy identifiers.\<close>

record pf_chain =
  ch_id :: u32
  ch_name :: string
  ch_hops :: "u32 list"
  ch_enabled :: int

record pf_log_entry =
  le_ts :: int
  le_rule_id :: u32
  le_proxy_id :: u32
  le_uid :: u32
  le_app_path :: string
  le_domain :: string
  le_dst_ip :: string
  le_dst_port :: u16
  le_action :: pf_action
  le_success :: int
  le_latency_ms :: u32
  le_bytes_sent :: u64
  le_bytes_recv :: u64

definition proxy_fits :: "pf_proxy \<Rightarrow> bool" where
  "proxy_fits p \<longleftrightarrow> length (px_name p) < 64 \<and> length (px_host p) < PF_DOMAIN_MAX + 1
     \<and> length (px_username p) < 128 \<and> length (px_password p) < 128
     \<and> length (px_ssh_key_path p) < PF_PATH_MAX"

definition rule_fits :: "pf_rule \<Rightarrow> bool" where
  "rule_fits r \<longleftrightarrow> length (r_name r) < 64 \<and> length (r_app_path r) < PF_PATH_MAX
     \<and> length (r_domain r) < PF_DOMAIN_MAX + 1 \<and> length (r_ip_cidr r) < 48"

definition chain_fits :: "pf_chain \<Rightarrow> bool" where
  "chain_fits c \<longleftrightarrow> length (ch_name c) < 64 \<and> length (ch_hops c) \<le> PF_MAX_HOPS"

section \<open>String conversions\<close>

definition pf_proxy_type_str :: "pf_proxy_type \<Rightarrow> string" where
  "pf_proxy_type_str t = (case t of PF_PROXY_SOCKS4 \<Rightarrow> ''socks4'' | PF_PROXY_SOCKS5 \<Rightarrow> ''socks5''
     | PF_PROXY_HTTP \<Rightarrow> ''http'' | PF_PROXY_SSH \<Rightarrow> ''ssh'')"

definition pf_health_str :: "pf_health \<Rightarrow> string" where
  "pf_health_str h = (case h of PF_HEALTH_UNKNOWN \<Rightarrow> ''unknown'' | PF_HEALTH_ONLINE \<Rightarrow> ''online''
     | PF_HEALTH_OFFLINE \<Rightarrow> ''offline'' | PF_HEALTH_SLOW \<Rightarrow> ''slow'' | PF_HEALTH_ERROR \<Rightarrow> ''error'')"

definition pf_action_str :: "pf_action \<Rightarrow> string" where
  "pf_action_str a = (case a of PF_ACTION_DIRECT \<Rightarrow> ''DIRECT'' | PF_ACTION_PROXY \<Rightarrow> ''PROXY''
     | PF_ACTION_CHAIN \<Rightarrow> ''CHAIN'' | PF_ACTION_BLOCK \<Rightarrow> ''BLOCK'' | PF_ACTION_REJECT \<Rightarrow> ''REJECT'')"

definition pf_proxy_type_from_str :: "string option \<Rightarrow> pf_proxy_type" where
  "pf_proxy_type_from_str so = (case so of None \<Rightarrow> PF_PROXY_SOCKS5 | Some s \<Rightarrow>
     if s = ''socks4'' then PF_PROXY_SOCKS4
     else if s = ''socks5'' then PF_PROXY_SOCKS5
     else if s = ''http'' then PF_PROXY_HTTP
     else if s = ''ssh'' then PF_PROXY_SSH
     else PF_PROXY_SOCKS5)"

definition pf_action_from_str :: "string option \<Rightarrow> pf_action" where
  "pf_action_from_str so = (case so of None \<Rightarrow> PF_ACTION_DIRECT | Some s \<Rightarrow>
     if strcasecmp_eq s ''direct'' then PF_ACTION_DIRECT
     else if strcasecmp_eq s ''proxy'' then PF_ACTION_PROXY
     else if strcasecmp_eq s ''chain'' then PF_ACTION_CHAIN
     else if strcasecmp_eq s ''block'' then PF_ACTION_BLOCK
     else if strcasecmp_eq s ''reject'' then PF_ACTION_REJECT
     else PF_ACTION_DIRECT)"

lemma pf_proxy_type_str_from [simp]: "pf_proxy_type_from_str (Some (pf_proxy_type_str t)) = t"
  by (cases t) (simp_all add: pf_proxy_type_from_str_def pf_proxy_type_str_def)

lemma pf_action_str_from [simp]: "pf_action_from_str (Some (pf_action_str a)) = a"
  by (cases a) (simp_all add: pf_action_from_str_def pf_action_str_def strcasecmp_eq_def tolower_def char_of_eq_iff)

lemma pf_action_from_str_casefold:
  "strcasecmp_eq s t \<Longrightarrow> pf_action_from_str (Some s) = pf_action_from_str (Some t)"
  by (simp add: pf_action_from_str_def strcasecmp_eq_def)

end
