(* ===== verification/Rules.thy ===== *)
theory Rules
  imports Types
begin

text \<open>
  \<^verbatim>\<open>rules.c\<close>: the domain, application, address and port matchers, and the two searches
  over the rule array.  \<^verbatim>\<open>fnmatch(3)\<close> and the preprocessor switch
  \<^verbatim>\<open>FNM_CASEFOLD\<close> are parameters, gathered in the record \<open>fnm_env\<close>.
\<close>

record fnm_env =
  fnm_casefold_defined :: bool
  fnmatch :: "bool \<Rightarrow> string \<Rightarrow> string \<Rightarrow> bool"

section \<open>Domain patterns\<close>

definition contains_match :: "string \<Rightarrow> string \<Rightarrow> bool" where
  "contains_match needle domain \<longleftrightarrow>
     (let nlen = length needle; dlen = length domain in
      if dlen < nlen then False
      else list_ex (\<lambda>i. strncasecmp_eq (drop i domain) needle nlen) [0 ..< dlen - nlen + 1])"

definition match_domain_single :: "fnm_env \<Rightarrow> string \<Rightarrow> string \<Rightarrow> bool" where
  "match_domain_single E pattern domain =
     (let plen = length pattern; dlen = length domain in
      if plen \<ge> 2 \<and> pattern ! 0 = CHR ''*'' \<and> pattern ! (plen - 1) = CHR ''*'' then
        (let nlen = plen - 2 in
         if nlen = 0 then True
         else if nlen \<ge> PF_DOMAIN_MAX + 1 then False
         else contains_match (take nlen (drop 1 pattern)) domain)
      else if plen > 2 \<and> pattern ! 0 = CHR ''*'' \<and> pattern ! 1 = CHR ''.'' then
        (let suffix = drop 1 pattern; slen = plen - 1 in
         if strcasecmp_eq domain (drop 1 suffix) then True
         else if dlen > slen \<and> strcasecmp_eq (drop (dlen - slen) domain) suffix then True
         else False)
      else if strchr pattern (CHR ''*'') = None \<and> strchr pattern (CHR ''?'') = None then
        strcasecmp_eq pattern domain
      else if fnm_casefold_defined E then fnmatch E True pattern domain
      else fnmatch E False (map tolower (take PF_DOMAIN_MAX pattern)) (map tolower (take PF_DOMAIN_MAX domain)))"

definition pf_match_domain :: "fnm_env \<Rightarrow> string option \<Rightarrow> string option \<Rightarrow> bool" where
  "pf_match_domain E pat domn = (case (pat, domn) of
       (Some pattern, Some domain) \<Rightarrow>
         if strchr pattern (CHR '','') \<noteq> None then
           list_ex (\<lambda>tok. let t = rtrim (ltrim tok) in t \<noteq> [] \<and> match_domain_single E t domain)
             (strtok (CHR '','') (snprintf_s (PF_DOMAIN_MAX * 4) pattern))
         else match_domain_single E pattern domain
     | _ \<Rightarrow> False)"

section \<open>Application patterns\<close>

definition pf_match_app :: "fnm_env \<Rightarrow> string option \<Rightarrow> string option \<Rightarrow> bool" where
  "pf_match_app E pat app = (case (pat, app) of
       (Some pattern, Some app_path) \<Rightarrow>
         (let pat_base = (case strrchr pattern (CHR ''/'') of Some i \<Rightarrow> drop (i + 1) pattern | None \<Rightarrow> pattern);
              app_base = c_basename (snprintf_s PF_PATH_MAX app_path)
          in if pattern = app_path then True
             else if pat_base = app_base then True
             else if strchr pattern (CHR ''/'') = None \<and> pattern = app_base then True
             else if fnmatch E False pattern app_path then True
             else False)
     | _ \<Rightarrow> False)"

section \<open>Address and port patterns\<close>

definition cidr_mask :: "nat \<Rightarrow> u32" where
  "cidr_mask pfx = (if pfx = 0 then 0 else push_bit (32 - pfx) (NOT 0))"

definition pf_match_ip :: "string option \<Rightarrow> string option \<Rightarrow> bool" where
  "pf_match_ip pat ipo = (case (pat, ipo) of
       (Some pattern, Some ip) \<Rightarrow>
         (case inet_pton4 ip of None \<Rightarrow> False | Some host_ip \<Rightarrow>
           (case strchr pattern (CHR ''/'') of
              Some slash \<Rightarrow>
                if slash \<ge> 48 then False
                else (let pfx = atoi (drop (slash + 1) pattern) in
                  if pfx < 0 \<or> pfx > 32 then False
                  else (case inet_pton4 (take slash pattern) of None \<Rightarrow> False | Some net_addr \<Rightarrow>
                    (let mask = cidr_mask (nat pfx) in host_ip AND mask = net_addr AND mask)))
            | None \<Rightarrow>
              (case strchr pattern (CHR ''-'') of
                 Some dash \<Rightarrow>
                   if dash \<ge> 48 then False
                   else (case inet_pton4 (take dash pattern) of None \<Rightarrow> False | Some start_h \<Rightarrow>
                     (case inet_pton4 (snprintf_s 48 (drop (dash + 1) pattern)) of None \<Rightarrow> False | Some end_h \<Rightarrow>
                        host_ip \<ge> start_h \<and> host_ip \<le> end_h))
               | None \<Rightarrow>
                   (case inet_pton4 pattern of None \<Rightarrow> False | Some pat_addr \<Rightarrow> host_ip = pat_addr))))
     | _ \<Rightarrow> False)"

definition pf_match_port :: "string option \<Rightarrow> int \<Rightarrow> bool" where
  "pf_match_port pat port = (case pat of None \<Rightarrow> False | Some pattern \<Rightarrow>
     (let p = (if pattern \<noteq> [] \<and> hd pattern = CHR '':'' then tl pattern else pattern) in
      case strchr p (CHR ''-'') of
        Some dash \<Rightarrow> port \<ge> atoi p \<and> port \<le> atoi (drop (dash + 1) p)
      | None \<Rightarrow> port = atoi p))"

section \<open>Rule search\<close>

text \<open>The array \<^verbatim>\<open>rs->rules[0 .. count-1]\<close> is a list of rules.\<close>

fun pf_rules_match ::
  "fnm_env \<Rightarrow> pf_rule list \<Rightarrow> string option \<Rightarrow> string option \<Rightarrow> string option \<Rightarrow> int \<Rightarrow> pf_rule option" where
  "pf_rules_match E [] app_path domain dst_ip dst_port = None"
| "pf_rules_match E (r # rs) app_path domain dst_ip dst_port =
     (if r_enabled r = 0 then pf_rules_match E rs app_path domain dst_ip dst_port
      else if r_app_path r \<noteq> [] \<and> (app_path = None \<or> \<not> pf_match_app E (Some (r_app_path r)) app_path)
        then pf_rules_match E rs app_path domain dst_ip dst_port
      else if r_domain r \<noteq> [] \<and> (domain = None \<or> \<not> pf_match_domain E (Some (r_domain r)) domain)
        then pf_rules_match E rs app_path domain dst_ip dst_port
      else if r_ip_cidr r \<noteq> [] \<and> (dst_ip = None \<or> \<not> pf_match_ip (Some (r_ip_cidr r)) dst_ip)
        then pf_rules_match E rs app_path domain dst_ip dst_port
      else if r_dst_port r \<noteq> 0 \<and> dst_port \<noteq> int (unat (r_dst_port r))
        then pf_rules_match E rs app_path domain dst_ip dst_port
      else Some r)"

fun match_app_any_loop :: "fnm_env \<Rightarrow> pf_rule list \<Rightarrow> string \<Rightarrow> pf_rule option" where
  "match_app_any_loop E [] app_path = None"
| "match_app_any_loop E (r # rs) app_path =
     (if r_enabled r = 0 then match_app_any_loop E rs app_path
      else if r_app_path r = [] then match_app_any_loop E rs app_path
      else if pf_match_app E (Some (r_app_path r)) (Some app_path) then Some r
      else match_app_any_loop E rs app_path)"

definition pf_rules_match_app_any :: "fnm_env \<Rightarrow> pf_rule list \<Rightarrow> string option \<Rightarrow> pf_rule option" where
  "pf_rules_match_app_any E rs app_path = (case app_path of None \<Rightarrow> None | Some a \<Rightarrow> match_app_any_loop E rs a)"

section \<open>What the searches compute\<close>

text \<open>The rule applies to a connection: every criterion it states holds of it.\<close>

definition rule_applies ::
  "fnm_env \<Rightarrow> string option \<Rightarrow> string option \<Rightarrow> string option \<Rightarrow> int \<Rightarrow> pf_rule \<Rightarrow> bool" where
  "rule_applies E app_path domain dst_ip dst_port r \<longleftrightarrow>
     r_enabled r \<noteq> 0
   \<and> (r_app_path r \<noteq> [] \<longrightarrow> pf_match_app E (Some (r_app_path r)) app_path)
   \<and> (r_domain r \<noteq> [] \<longrightarrow> pf_match_domain E (Some (r_domain r)) domain)
   \<and> (r_ip_cidr r \<noteq> [] \<longrightarrow> pf_match_ip (Some (r_ip_cidr r)) dst_ip)
   \<and> (r_dst_port r \<noteq> 0 \<longrightarrow> dst_port = int (unat (r_dst_port r)))"

lemma pf_match_app_None [simp]: "\<not> pf_match_app E p None" "\<not> pf_match_app E None a"
  by (simp_all add: pf_match_app_def split: option.splits)

lemma pf_match_domain_None [simp]: "\<not> pf_match_domain E p None" "\<not> pf_match_domain E None d"
  by (simp_all add: pf_match_domain_def split: option.splits)

lemma pf_match_ip_None [simp]: "\<not> pf_match_ip p None" "\<not> pf_match_ip None i"
  by (simp_all add: pf_match_ip_def split: option.splits)

lemma pf_rules_match_find:
  "pf_rules_match E rs a d i p = find (rule_applies E a d i p) rs"
  by (induction rs) (auto simp: rule_applies_def)

lemma match_app_any_find:
  "match_app_any_loop E rs a =
     find (\<lambda>r. r_enabled r \<noteq> 0 \<and> r_app_path r \<noteq> [] \<and> pf_match_app E (Some (r_app_path r)) (Some a)) rs"
  by (induction rs) auto

lemma find_sorted_least:
  assumes "sorted_wrt (\<lambda>x y. f x \<le> (f y :: int)) xs" "find P xs = Some x" "y \<in> set xs" "P y"
  shows "f x \<le> f y"
  using assms by (induction xs) (auto split: if_splits)

lemma find_is_member: "find P xs = Some x \<Longrightarrow> x \<in> set xs \<and> P x"
  by (metis find_Some_iff nth_mem)

section \<open>What the matchers accept\<close>

lemma contains_match_iff:
  "contains_match n d \<longleftrightarrow> (\<exists>p t s. d = p @ t @ s \<and> strcasecmp_eq t n)"
proof
  assume "contains_match n d"
  then obtain i where i: "length n \<le> length d" "i \<le> length d - length n"
    "map tolower (take (length n) (drop i d)) = map tolower n"
    by (auto simp: contains_match_def Let_def strncasecmp_eq_def list_ex_iff less_Suc_eq_le
        simp del: upt_Suc split: if_splits)
  have "d = take i d @ take (length n) (drop i d) @ drop (length n) (drop i d)"
    by (metis append_take_drop_id)
  thus "\<exists>p t s. d = p @ t @ s \<and> strcasecmp_eq t n"
    using i(3) unfolding strcasecmp_eq_def by blast
next
  assume "\<exists>p t s. d = p @ t @ s \<and> strcasecmp_eq t n"
  then obtain p t s where e: "d = p @ t @ s" "strcasecmp_eq t n" by blast
  have l: "length t = length n" using e(2) by (rule strcasecmp_eq_length)
  have "strncasecmp_eq (drop (length p) d) n (length n)"
    using e l by (simp add: strncasecmp_eq_def strcasecmp_eq_def)
  moreover have "length p \<in> {0 ..< length d - length n + 1}" "length n \<le> length d"
    using e(1) l by auto
  ultimately show "contains_match n d"
    unfolding contains_match_def Let_def list_ex_iff by (auto simp del: upt_Suc)
qed

lemma match_domain_single_contains:
  assumes "n \<noteq> []" "length n \<le> PF_DOMAIN_MAX"
  shows "match_domain_single E (CHR ''*'' # n @ ''*'') d = contains_match n d"
  using assms by (simp add: match_domain_single_def Let_def nth_append)

lemma match_domain_single_suffix:
  assumes "s \<noteq> []" "last s \<noteq> CHR ''*''"
  shows "match_domain_single E (CHR ''*'' # CHR ''.'' # s) d \<longleftrightarrow>
    strcasecmp_eq d s \<or> (\<exists>p t. p \<noteq> [] \<and> d = p @ CHR ''.'' # t \<and> strcasecmp_eq t s)"
    (is "?L \<longleftrightarrow> _ \<or> ?R")
proof -
  let ?n = "length d - Suc (length s)"
  have l: "(CHR ''*'' # CHR ''.'' # s) ! (length s + 1) = last s"
    using assms(1) by (cases s rule: rev_cases) auto
  have "?L \<longleftrightarrow> strcasecmp_eq d s \<or>
      (length d > Suc (length s) \<and> strcasecmp_eq (drop ?n d) (CHR ''.'' # s))"
    using assms l by (simp add: match_domain_single_def Let_def)
  moreover have "(length d > Suc (length s) \<and> strcasecmp_eq (drop ?n d) (CHR ''.'' # s)) = ?R"
  proof
    assume a: "length d > Suc (length s) \<and> strcasecmp_eq (drop ?n d) (CHR ''.'' # s)"
    then obtain c t where ct: "drop ?n d = c # t"
      by (cases "drop ?n d") (auto simp: strcasecmp_eq_def)
    have ts: "strcasecmp_eq t s" and c: "tolower c = tolower (CHR ''.'')"
      using a ct by (auto simp: strcasecmp_eq_def)
    have dot: "tolower (CHR ''.'') = CHR ''.''" by (simp add: tolower_def)
    have "c = CHR ''.''"
      using c unfolding dot by (auto simp: tolower_def char_of_eq_iff take_bit_eq_mod split: if_splits)
    moreover have "d = take ?n d @ c # t" using append_take_drop_id [of ?n d] ct by simp
    moreover have "take ?n d \<noteq> []" using a by auto
    ultimately show ?R using ts by metis
  next
    assume ?R
    then obtain p t where e: "p \<noteq> []" "d = p @ CHR ''.'' # t" "strcasecmp_eq t s" by blast
    have "length t = length s" using e(3) by (rule strcasecmp_eq_length)
    thus "length d > Suc (length s) \<and> strcasecmp_eq (drop ?n d) (CHR ''.'' # s)"
      using e by (auto simp: strcasecmp_eq_def)
  qed
  ultimately show ?thesis by simp
qed

lemma match_domain_single_exact:
  "CHR ''*'' \<notin> set p \<Longrightarrow> CHR ''?'' \<notin> set p \<Longrightarrow> match_domain_single E p d = strcasecmp_eq p d"
proof -
  assume a: "CHR ''*'' \<notin> set p" "CHR ''?'' \<notin> set p"
  hence "p ! 0 \<noteq> CHR ''*''" if "length p \<ge> 2"
    using that by (cases p) auto
  thus ?thesis using a by (auto simp: match_domain_single_def Let_def strchr_None)
qed

lemma pf_match_domain_single:
  "CHR '','' \<notin> set p \<Longrightarrow> pf_match_domain E (Some p) (Some d) = match_domain_single E p d"
  by (simp add: pf_match_domain_def strchr_None)

lemma pf_match_domain_list:
  assumes "2 \<le> length ps" "\<forall>p \<in> set ps. p \<noteq> [] \<and> CHR '','' \<notin> set p \<and> hd p \<noteq> CHR '' '' \<and> last p \<noteq> CHR '' ''"
    and "length (join_with (CHR '','') ps) < PF_DOMAIN_MAX * 4"
  shows "pf_match_domain E (Some (join_with (CHR '','') ps)) (Some d)
     \<longleftrightarrow> (\<exists>p \<in> set ps. match_domain_single E p d)"
proof -
  obtain a b cs where e: "ps = a # b # cs"
    using assms(1) by (metis Suc_le_length_iff numeral_2_eq_2)
  have c: "CHR '','' \<in> set (join_with (CHR '','') ps)" by (simp add: e)
  have t: "strtok (CHR '','') (join_with (CHR '','') ps) = ps"
    using assms(2) by (intro strtok_join) auto
  have "pf_match_domain E (Some (join_with (CHR '','') ps)) (Some d) =
      list_ex (\<lambda>tok. let t = rtrim (ltrim tok) in t \<noteq> [] \<and> match_domain_single E t d) ps"
    using c assms(3) by (simp add: pf_match_domain_def strchr_None snprintf_s_id t)
  thus ?thesis
    using assms(2) by (auto simp: list_ex_iff Let_def trim_id)
qed

section \<open>Masks and prefixes\<close>

lemma bit_cidr_mask: "p \<le> 32 \<Longrightarrow> bit (cidr_mask p) n \<longleftrightarrow> 32 - p \<le> n \<and> n < 32"
  by (cases "p = 0") (auto simp: cidr_mask_def bit_simps)

lemma cidr_mask_eq_iff:
  assumes "p \<le> 32"
  shows "(a AND cidr_mask p = b AND cidr_mask p) \<longleftrightarrow> unat a div 2 ^ (32 - p) = unat b div 2 ^ (32 - p)"
proof -
  have "(a AND cidr_mask p = b AND cidr_mask p) \<longleftrightarrow> drop_bit (32 - p) a = drop_bit (32 - p) b"
    (is "?L = ?R")
  proof
    assume ?L
    hence "bit a n = bit b n" if "32 - p \<le> n" "n < 32" for n
      using that by (auto simp: bit_eq_iff bit_simps bit_cidr_mask assms)
    hence "bit a (32 - p + n) = bit b (32 - p + n)" for n
      by (cases "32 - p + n < 32") (auto dest: bit_imp_le_length)
    thus ?R by (intro bit_word_eqI) (simp add: bit_simps)
  next
    assume r: ?R
    have "bit (drop_bit (32 - p) w) n = bit w (32 - p + n)" for w :: u32 and n
      by (simp only: bit_drop_bit_eq comp_apply)
    hence "bit a (32 - p + n) = bit b (32 - p + n)" for n using r by metis
    hence "bit a n = bit b n" if "32 - p \<le> n" for n using that by (metis le_add_diff_inverse)
    thus ?L by (intro bit_word_eqI) (auto simp: bit_simps bit_cidr_mask assms)
  qed
  also have "\<dots> \<longleftrightarrow> unat a div 2 ^ (32 - p) = unat b div 2 ^ (32 - p)"
    unfolding word_unat_eq_iff unat_drop_bit_eq by (simp only: drop_bit_eq_div)
  finally show ?thesis .
qed

lemma pf_match_ip_cidr:
  assumes "p \<le> 32"
  shows "pf_match_ip (Some (inet_ntop4 net @ ''/'' @ show_nat p)) (Some (inet_ntop4 ip))
    \<longleftrightarrow> unat ip div 2 ^ (32 - p) = unat net div 2 ^ (32 - p)"
proof -
  have n: "CHR ''/'' \<notin> set (inet_ntop4 net)" by (rule inet_ntop4_no_char) (simp_all add: is_digit_def)
  have "strchr (inet_ntop4 net @ ''/'' @ show_nat p) (CHR ''/'') = Some (length (inet_ntop4 net))"
    using strchr_append [OF n] by simp
  moreover have "\<not> length (inet_ntop4 net) \<ge> 48" using inet_ntop4_length [of net] by simp
  moreover have "atoi (show_nat p) = int p" using atoi_show_nat [of "[]" p] assms by simp
  ultimately show ?thesis
    using assms by (simp add: pf_match_ip_def inet_pton4_ntop4 cidr_mask_eq_iff)
qed

lemma pf_match_ip_range:
  "pf_match_ip (Some (inet_ntop4 lo @ ''-'' @ inet_ntop4 hi)) (Some (inet_ntop4 ip)) \<longleftrightarrow> lo \<le> ip \<and> ip \<le> hi"
proof -
  have n: "CHR ''-'' \<notin> set (inet_ntop4 lo)" by (rule inet_ntop4_no_char) (simp_all add: is_digit_def)
  have "CHR ''/'' \<notin> set (inet_ntop4 lo @ ''-'' @ inet_ntop4 hi)"
    using inet_ntop4_no_char [of "CHR ''/''"] by (simp add: is_digit_def)
  hence "strchr (inet_ntop4 lo @ ''-'' @ inet_ntop4 hi) (CHR ''/'') = None" by (simp only: strchr_None simp_thms)
  moreover have "strchr (inet_ntop4 lo @ ''-'' @ inet_ntop4 hi) (CHR ''-'') = Some (length (inet_ntop4 lo))"
    using strchr_append [OF n] by simp
  moreover have "length (inet_ntop4 lo) < 48" "length (inet_ntop4 hi) < 48"
    using inet_ntop4_length [of lo] inet_ntop4_length [of hi] by simp_all
  ultimately show ?thesis by (simp add: pf_match_ip_def inet_pton4_ntop4 snprintf_s_id)
qed

lemma pf_match_port_range:
  assumes "lo < 2 ^ 31" "hi < 2 ^ 31"
  shows "pf_match_port (Some ('':'' @ show_nat lo @ ''-'' @ show_nat hi)) port \<longleftrightarrow> int lo \<le> port \<and> port \<le> int hi"
proof -
  have n: "CHR ''-'' \<notin> set (show_nat lo)" by (rule show_nat_no_char) (simp add: is_digit_def)
  have "strchr (show_nat lo @ ''-'' @ show_nat hi) (CHR ''-'') = Some (length (show_nat lo))"
    using strchr_append [OF n] by simp
  moreover have "atoi (show_nat lo @ ''-'' @ show_nat hi) = int lo"
    using assms by (intro atoi_show_nat) (simp_all add: is_digit_def)
  moreover have "atoi (show_nat hi) = int hi" using atoi_show_nat [of "[]" hi] assms by simp
  ultimately show ?thesis by (simp add: pf_match_port_def Let_def)
qed

section \<open>Properties\<close>

text \<open>
  C23: \<^verbatim>\<open>pf_rules_match\<close> returns exactly the first rule of the array that is enabled and all of
  whose stated criteria (application, domain, address, port) hold of the connection.
\<close>

theorem rules_match_first_applicable:
  "pf_rules_match E rs app d ip port = Some r \<longleftrightarrow>
     (\<exists>k < length rs. rs ! k = r \<and> rule_applies E app d ip port r
        \<and> (\<forall>j < k. \<not> rule_applies E app d ip port (rs ! j)))"
  by (auto simp: pf_rules_match_find find_first)

definition demo_rule :: "u32 \<Rightarrow> int \<Rightarrow> string \<Rightarrow> string \<Rightarrow> string \<Rightarrow> pf_action \<Rightarrow> pf_rule" where
  "demo_rule i prio app d ip act = \<lparr> r_id = i, r_name = ''rule'', r_priority = prio, r_app_path = app, r_uid = 0, r_gid = 0,
     r_domain = d, r_ip_cidr = ip, r_dst_port = 0, r_proto = 0, r_action = act, r_proxy_id = 1, r_chain_id = 0, r_enabled = 1 \<rparr>"

definition demo_fnm :: fnm_env where
  "demo_fnm = \<lparr> fnm_casefold_defined = False, fnmatch = (\<lambda>_ p s. p = s) \<rparr>"

theorem rules_match_first_applicable_witness:
  "pf_rules_match demo_fnm [demo_rule 1 10 ''firefox'' ''*.sky.ch'' [] PF_ACTION_PROXY, demo_rule 2 20 [] ''sky.ch'' [] PF_ACTION_BLOCK]
     (Some ''/usr/bin/curl'') (Some ''SKY.ch'') None 443 = Some (demo_rule 2 20 [] ''sky.ch'' [] PF_ACTION_BLOCK)"
proof -
  let ?rs = "[demo_rule 1 10 ''firefox'' ''*.sky.ch'' [] PF_ACTION_PROXY, demo_rule 2 20 [] ''sky.ch'' [] PF_ACTION_BLOCK]"
  let ?P = "rule_applies demo_fnm (Some ''/usr/bin/curl'') (Some ''SKY.ch'') None 443"
  have "?P (?rs ! 1)" "\<not> ?P (?rs ! 0)" by code_simp+
  hence "?P (?rs ! 1) \<and> (\<forall>j < 1. \<not> ?P (?rs ! j))" by (simp only: less_one simp_thms)
  thus ?thesis
    using rules_match_first_applicable [of demo_fnm ?rs "Some ''/usr/bin/curl''" "Some ''SKY.ch''" None 443 "?rs ! 1"]
    by fastforce
qed

text \<open>
  The process-level filter \<^verbatim>\<open>pf_rules_match_app_any\<close> misses no process whose traffic a rule with
  an application pattern would later select: if the full match returns such a rule for some
  connection of the process, the filter selects a rule for the process.
\<close>

theorem match_app_any_no_miss:
  assumes "pf_rules_match E rs (Some app) d ip port = Some r" "r_app_path r \<noteq> []"
  shows "\<exists>r'. pf_rules_match_app_any E rs (Some app) = Some r' \<and> r' \<in> set rs \<and> pf_match_app E (Some (r_app_path r')) (Some app)"
proof -
  have "r \<in> set rs \<and> rule_applies E (Some app) d ip port r"
    using assms(1) find_is_member by (fastforce simp: pf_rules_match_find)
  hence "find (\<lambda>r. r_enabled r \<noteq> 0 \<and> r_app_path r \<noteq> [] \<and> pf_match_app E (Some (r_app_path r)) (Some app)) rs \<noteq> None"
    using assms(2) by (auto simp: find_None_iff rule_applies_def)
  then obtain r' where "match_app_any_loop E rs app = Some r'" unfolding match_app_any_find by blast
  moreover from this have "r' \<in> set rs \<and> pf_match_app E (Some (r_app_path r')) (Some app)"
    unfolding match_app_any_find using find_is_member by fastforce
  ultimately show ?thesis by (simp add: pf_rules_match_app_any_def)
qed

theorem match_app_any_no_miss_witness:
  "\<exists>r'. pf_rules_match_app_any demo_fnm [demo_rule 1 10 ''/snap/bin/firefox'' ''*.sky.ch'' [] PF_ACTION_PROXY]
     (Some ''/snap/firefox/8054/usr/lib/firefox/firefox'') = Some r'"
proof -
  have "pf_rules_match demo_fnm [demo_rule 1 10 ''/snap/bin/firefox'' ''*.sky.ch'' [] PF_ACTION_PROXY]
     (Some ''/snap/firefox/8054/usr/lib/firefox/firefox'') (Some ''www.sky.ch'') None 443
     = Some (demo_rule 1 10 ''/snap/bin/firefox'' ''*.sky.ch'' [] PF_ACTION_PROXY)"
    by code_simp
  from match_app_any_no_miss [OF this] show ?thesis by (auto simp: demo_rule_def)
qed

text \<open>
  A subdomain pattern \<^verbatim>\<open>*.s\<close> matches exactly the domain \<open>s\<close> itself and the names that end in
  \<^verbatim>\<open>.s\<close> with a non-empty part before it, ignoring case.
\<close>

theorem domain_subdomain_pattern:
  assumes "s \<noteq> []" "last s \<noteq> CHR ''*''" "CHR '','' \<notin> set s"
  shows "pf_match_domain E (Some (''*.'' @ s)) (Some d) \<longleftrightarrow>
    strcasecmp_eq d s \<or> (\<exists>p t. p \<noteq> [] \<and> d = p @ ''.'' @ t \<and> strcasecmp_eq t s)"
  using assms match_domain_single_suffix [OF assms(1,2), of E d]
  by (simp add: pf_match_domain_single)

theorem domain_subdomain_pattern_witness:
  "pf_match_domain demo_fnm (Some ''*.sky.ch'') (Some ''Live.SKY.ch'') \<and> \<not> pf_match_domain demo_fnm (Some ''*.sky.ch'') (Some ''bluesky.ch'')"
proof
  have "''Live'' \<noteq> [] \<and> ''Live.SKY.ch'' = ''Live'' @ ''.'' @ ''SKY.ch'' \<and> strcasecmp_eq ''SKY.ch'' ''sky.ch''" by code_simp
  hence "\<exists>p t. p \<noteq> [] \<and> ''Live.SKY.ch'' = p @ ''.'' @ t \<and> strcasecmp_eq t ''sky.ch''" by blast
  thus "pf_match_domain demo_fnm (Some ''*.sky.ch'') (Some ''Live.SKY.ch'')"
    using domain_subdomain_pattern [of "''sky.ch''" demo_fnm "''Live.SKY.ch''"] by simp
  show "\<not> pf_match_domain demo_fnm (Some ''*.sky.ch'') (Some ''bluesky.ch'')" by code_simp
qed

text \<open>
  A pattern \<^verbatim>\<open>*n*\<close> matches exactly the domains that contain \<open>n\<close>, ignoring case, for every
  non-empty \<open>n\<close> that fits the needle buffer.
\<close>

theorem domain_contains_pattern:
  assumes "n \<noteq> []" "length n \<le> PF_DOMAIN_MAX" "CHR '','' \<notin> set n"
  shows "pf_match_domain E (Some (''*'' @ n @ ''*'')) (Some d) \<longleftrightarrow> (\<exists>p t s. d = p @ t @ s \<and> strcasecmp_eq t n)"
  using assms match_domain_single_contains [OF assms(1,2), of E d]
  by (simp add: pf_match_domain_single contains_match_iff)

theorem domain_contains_pattern_witness:
  "pf_match_domain demo_fnm (Some ''*stream*'') (Some ''my-STREAMing.tv'')"
proof -
  have "''my-STREAMing.tv'' = ''my-'' @ ''STREAM'' @ ''ing.tv'' \<and> strcasecmp_eq ''STREAM'' ''stream''" by code_simp
  hence "\<exists>p t s. ''my-STREAMing.tv'' = p @ t @ s \<and> strcasecmp_eq t ''stream''" by blast
  moreover have "length ''stream'' \<le> PF_DOMAIN_MAX" by (simp add: PF_DOMAIN_MAX_def)
  ultimately show ?thesis using domain_contains_pattern [of "''stream''" demo_fnm "''my-STREAMing.tv''"] by simp
qed

text \<open>
  A comma-separated list of patterns matches a domain exactly when one of its patterns does
  (for patterns without surrounding blanks, in a list that fits the copy buffer).
\<close>

theorem domain_pattern_list:
  assumes "2 \<le> length ps" "\<forall>p \<in> set ps. p \<noteq> [] \<and> CHR '','' \<notin> set p \<and> hd p \<noteq> CHR '' '' \<and> last p \<noteq> CHR '' ''"
    and "length (join_with (CHR '','') ps) < PF_DOMAIN_MAX * 4"
  shows "pf_match_domain E (Some (join_with (CHR '','') ps)) (Some d) \<longleftrightarrow> (\<exists>p \<in> set ps. pf_match_domain E (Some p) (Some d))"
  using pf_match_domain_list [OF assms] assms(2) by (auto simp: pf_match_domain_single)

theorem domain_pattern_list_witness:
  "pf_match_domain demo_fnm (Some ''*.google.com,netflix.com'') (Some ''netflix.com'')"
proof -
  have "pf_match_domain demo_fnm (Some ''netflix.com'') (Some ''netflix.com'')" by code_simp
  thus ?thesis using domain_pattern_list [of "[''*.google.com'', ''netflix.com'']" demo_fnm "''netflix.com''"]
    by (simp add: PF_DOMAIN_MAX_def)
qed

text \<open>
  A CIDR pattern \<^verbatim>\<open>net/p\<close> matches exactly the addresses whose first \<open>p\<close> bits are those of
  \<open>net\<close>, for every prefix length from 0 to 32, through the textual form of both.
\<close>

theorem match_ip_cidr:
  assumes "p \<le> 32"
  shows "pf_match_ip (Some (inet_ntop4 net @ ''/'' @ show_nat p)) (Some (inet_ntop4 ip))
    \<longleftrightarrow> unat ip div 2 ^ (32 - p) = unat net div 2 ^ (32 - p)"
  by (rule pf_match_ip_cidr [OF assms])

theorem match_ip_cidr_witness:
  "pf_match_ip (Some (inet_ntop4 0xC0A80100 @ ''/'' @ show_nat 24)) (Some (inet_ntop4 0xC0A80117))"
  using match_ip_cidr [of 24 "0xC0A80100" "0xC0A80117"] by simp

text \<open>
  A range pattern \<^verbatim>\<open>lo-hi\<close> matches exactly the addresses between \<open>lo\<close> and \<open>hi\<close>, both
  included, and a port pattern \<^verbatim>\<open>:lo-hi\<close> exactly the ports between them.
\<close>

theorem match_ranges:
  assumes "plo < 2 ^ 31" "phi < 2 ^ 31"
  shows "(pf_match_ip (Some (inet_ntop4 lo @ ''-'' @ inet_ntop4 hi)) (Some (inet_ntop4 ip)) \<longleftrightarrow> lo \<le> ip \<and> ip \<le> hi)
    \<and> (pf_match_port (Some ('':'' @ show_nat plo @ ''-'' @ show_nat phi)) port \<longleftrightarrow> int plo \<le> port \<and> port \<le> int phi)"
  using pf_match_ip_range pf_match_port_range [OF assms] by blast

theorem match_ranges_witness:
  "pf_match_ip (Some (inet_ntop4 0x0A000001 @ ''-'' @ inet_ntop4 0x0A0000FF)) (Some (inet_ntop4 0x0A000080))
   \<and> \<not> pf_match_port (Some ('':'' @ show_nat 8000 @ ''-'' @ show_nat 9000)) 9001"
  using match_ranges [of 8000 9000 "0x0A000001" "0x0A0000FF" "0x0A000080" 9001] by simp

end
