(* ===== verification/Dns.thy ===== *)
theory Dns
  imports Rules
begin

text \<open>
  \<^verbatim>\<open>dns.c\<close>: the DNS snooper.  The callback of the packet queue parses queries and
  responses and keeps a fixed array of cache entries (domain, resolved address, matched rule,
  expiry).  A pointer into the packet is the list of bytes from it to \<^verbatim>\<open>end\<close>; the clock
  \<^verbatim>\<open>time(NULL)\<close> is the argument \<open>now\<close>, constant during one callback.
\<close>

record pf_dns_entry =
  de_domain :: string
  de_resolved_ip :: string
  de_rule_id :: int
  de_action :: pf_action
  de_proxy_id :: int
  de_chain_id :: int
  de_expires :: int
  de_used :: bool

record pf_dns =
  dns_cache :: "pf_dns_entry list"
  dns_ruleset :: "pf_rule list"

definition PF_DNS_CACHE_SIZE :: nat where "PF_DNS_CACHE_SIZE = 4096"
definition PF_DNS_TTL :: int where "PF_DNS_TTL = 300"

definition dns_entry_zero :: pf_dns_entry where
  "dns_entry_zero = \<lparr> de_domain = [], de_resolved_ip = [], de_rule_id = 0, de_action = PF_ACTION_DIRECT,
     de_proxy_id = 0, de_chain_id = 0, de_expires = 0, de_used = False \<rparr>"

text \<open>The zeroed state \<^verbatim>\<open>pf_dns_init\<close> leaves behind.\<close>

definition pf_dns_init :: "pf_rule list \<Rightarrow> pf_dns" where
  "pf_dns_init rs = \<lparr> dns_cache = replicate PF_DNS_CACHE_SIZE dns_entry_zero, dns_ruleset = rs \<rparr>"

section \<open>Names on the wire\<close>

text \<open>
  \<^verbatim>\<open>dns_parse_qname\<close>: the bytes written so far, and the pointer past the name, or \<open>None\<close>
  where the code returns \<^verbatim>\<open>NULL\<close>.
\<close>

function qname_loop :: "bytes \<Rightarrow> bytes \<Rightarrow> nat \<Rightarrow> bytes \<times> bytes option" where
  "qname_loop [] out outsz = (out, Some [])"
| "qname_loop (len # ps) out outsz =
     (if len AND 0xC0 = 0xC0 then (if ps = [] then (out, None) else (out, Some (tl ps)))
      else if len = 0 then (out, Some ps)
      else if unat len > length ps then (out, None)
      else if length out > 0 \<and> length out + 1 \<ge> outsz then (out, None)
      else let out1 = (if length out > 0 then out @ [0x2E] else out) in
        if length out1 + unat len \<ge> outsz then (out1, None)
        else qname_loop (drop (unat len) ps) (out1 @ take (unat len) ps) outsz)"
  by pat_completeness auto
termination
  by (relation "measure (\<lambda>(ps, out, z). length ps)") auto

definition dns_parse_qname :: "bytes \<Rightarrow> nat \<Rightarrow> bytes \<times> bytes option" where
  "dns_parse_qname ps outsz = qname_loop ps [] outsz"

text \<open>Skipping an owner name in the answer section; \<open>None\<close> is the flag \<^verbatim>\<open>broken\<close>.\<close>

function skip_owner :: "bytes \<Rightarrow> bytes option" where
  "skip_owner [] = Some []"
| "skip_owner (b # ps) =
     (if b AND 0xC0 = 0xC0 then (if ps = [] then None else Some (tl ps))
      else if b = 0 then Some ps
      else if unat b > length ps then None
      else skip_owner (drop (unat b) ps))"
  by pat_completeness auto
termination
  by (relation "measure length") auto

section \<open>The cache\<close>

definition dns_live :: "int \<Rightarrow> pf_dns_entry \<Rightarrow> bool" where
  "dns_live now e \<longleftrightarrow> de_used e \<and> \<not> de_expires e \<le> now"

fun find_slot_loop :: "int \<Rightarrow> string \<Rightarrow> pf_dns_entry list \<Rightarrow> nat \<Rightarrow> nat option \<Rightarrow> nat option" where
  "find_slot_loop now domain [] i reuse = reuse"
| "find_slot_loop now domain (e # es) i reuse =
     (if \<not> de_used e \<or> de_expires e \<le> now
      then find_slot_loop now domain es (i + 1) (if reuse = None then Some i else reuse)
      else if strcasecmp_eq (de_domain e) domain then Some i
      else find_slot_loop now domain es (i + 1) reuse)"

definition cache_find_slot :: "int \<Rightarrow> pf_dns \<Rightarrow> string \<Rightarrow> nat option" where
  "cache_find_slot now dns domain = find_slot_loop now domain (dns_cache dns) 0 None"

definition pf_dns_cache_add ::
  "int \<Rightarrow> pf_dns \<Rightarrow> string option \<Rightarrow> string option \<Rightarrow> int \<Rightarrow> pf_action \<Rightarrow> int \<Rightarrow> int \<Rightarrow> pf_dns" where
  "pf_dns_cache_add now dns domo ip rule_id action proxy_id chain_id =
     (case domo of None \<Rightarrow> dns | Some domain \<Rightarrow>
       (case cache_find_slot now dns domain of
          None \<Rightarrow> dns
        | Some slot \<Rightarrow> dns \<lparr> dns_cache := (dns_cache dns)[slot :=
            \<lparr> de_domain = take (PF_DOMAIN_MAX - 1) domain,
              de_resolved_ip = take 45 (case ip of None \<Rightarrow> [] | Some s \<Rightarrow> s),
              de_rule_id = rule_id, de_action = action, de_proxy_id = proxy_id, de_chain_id = chain_id,
              de_expires = now + PF_DNS_TTL, de_used = True \<rparr>] \<rparr>))"

fun dns_lookup_loop :: "int \<Rightarrow> string \<Rightarrow> pf_dns_entry list \<Rightarrow> pf_dns_entry option" where
  "dns_lookup_loop now ip [] = None"
| "dns_lookup_loop now ip (e # es) =
     (if \<not> de_used e \<or> de_expires e \<le> now then dns_lookup_loop now ip es
      else if de_resolved_ip e \<noteq> [] \<and> de_resolved_ip e = ip then Some e
      else dns_lookup_loop now ip es)"

definition pf_dns_lookup :: "int \<Rightarrow> pf_dns \<Rightarrow> string option \<Rightarrow> pf_dns_entry option" where
  "pf_dns_lookup now dns ipo = (case ipo of None \<Rightarrow> None | Some ip \<Rightarrow> dns_lookup_loop now ip (dns_cache dns))"

section \<open>The queue callback\<close>

text \<open>\<^verbatim>\<open>inet_ntop(AF_INET6)\<close>: the longest run of zero groups is shortened.\<close>

fun hex_digits :: "nat \<Rightarrow> string" where
  "hex_digits n = (if n < 16 then [if n < 10 then char_of (48 + n) else char_of (87 + n)]
     else hex_digits (n div 16) @ [let d = n mod 16 in if d < 10 then char_of (48 + d) else char_of (87 + d)])"

declare hex_digits.simps [simp del]

definition better_run :: "(nat \<times> nat) option \<Rightarrow> nat \<times> nat \<Rightarrow> (nat \<times> nat) option" where
  "better_run best cur = (case best of None \<Rightarrow> Some cur
     | Some b \<Rightarrow> if snd cur > snd b then Some cur else best)"

fun zero_runs :: "nat list \<Rightarrow> nat \<Rightarrow> (nat \<times> nat) option \<Rightarrow> (nat \<times> nat) option \<Rightarrow> (nat \<times> nat) option" where
  "zero_runs [] i best cur = (case cur of None \<Rightarrow> best | Some c \<Rightarrow> better_run best c)"
| "zero_runs (w # ws) i best cur =
     (if w = 0 then zero_runs ws (i + 1) best
        (case cur of None \<Rightarrow> Some (i, 1) | Some c \<Rightarrow> Some (fst c, snd c + 1))
      else case cur of None \<Rightarrow> zero_runs ws (i + 1) best None
        | Some c \<Rightarrow> zero_runs ws (i + 1) (better_run best c) None)"

fun ntop6_groups :: "nat list \<Rightarrow> nat \<Rightarrow> (nat \<times> nat) option \<Rightarrow> nat \<Rightarrow> string \<Rightarrow> string" where
  "ntop6_groups [] i best w5 v4 = []"
| "ntop6_groups (w # ws) i best w5 v4 =
     (case best of Some (base, len) \<Rightarrow>
        if base \<le> i \<and> i < base + len
        then (if i = base then '':'' else []) @ ntop6_groups ws (i + 1) best w5 v4
        else (if i \<noteq> 0 then '':'' else []) @
          (if i = 6 \<and> base = 0 \<and> (len = 6 \<or> len = 5 \<and> w5 = 65535) then v4
           else hex_digits w @ ntop6_groups ws (i + 1) best w5 v4)
      | None \<Rightarrow> (if i \<noteq> 0 then '':'' else []) @ hex_digits w @ ntop6_groups ws (i + 1) best w5 v4)"

fun pair_words :: "bytes \<Rightarrow> nat list" where
  "pair_words (a # b # bs) = (unat a * 256 + unat b) # pair_words bs"
| "pair_words bs = []"

definition inet_ntop6 :: "bytes \<Rightarrow> string" where
  "inet_ntop6 src = (let ws = pair_words src;
      best0 = zero_runs ws 0 None None;
      best = (case best0 of Some (b, l) \<Rightarrow> if l < 2 then None else best0 | None \<Rightarrow> None);
      v4 = (case drop 12 src of a # b # c # d # _ \<Rightarrow> inet_ntop4 (u32be a b c d) | _ \<Rightarrow> [])
    in ntop6_groups ws 0 best (ws ! 5) v4
       @ (case best of Some (b, l) \<Rightarrow> if b + l = 8 then '':'' else [] | None \<Rightarrow> []))"

text \<open>The four values stored for a rule, or for no rule.\<close>

definition dns_add_matched :: "fnm_env \<Rightarrow> int \<Rightarrow> pf_dns \<Rightarrow> string \<Rightarrow> string \<Rightarrow> pf_dns" where
  "dns_add_matched E now dns domain ip =
     (let rule = pf_rules_match E (dns_ruleset dns) None (Some domain) None 0 in
      pf_dns_cache_add now dns (Some domain) (Some ip)
        (case rule of Some r \<Rightarrow> sint (r_id r) | None \<Rightarrow> -1)
        (case rule of Some r \<Rightarrow> r_action r | None \<Rightarrow> PF_ACTION_DIRECT)
        (case rule of Some r \<Rightarrow> sint (r_proxy_id r) | None \<Rightarrow> -1)
        (case rule of Some r \<Rightarrow> sint (r_chain_id r) | None \<Rightarrow> -1))"

text \<open>One resolved address: refresh the slot of the domain, or insert a fresh entry.\<close>

definition dns_store_ip :: "fnm_env \<Rightarrow> int \<Rightarrow> pf_dns \<Rightarrow> string \<Rightarrow> string \<Rightarrow> int \<Rightarrow> pf_dns" where
  "dns_store_ip E now dns domain ip_str ttl =
     (case cache_find_slot now dns domain of
        None \<Rightarrow> dns
      | Some slot \<Rightarrow>
          let e = dns_cache dns ! slot in
          if de_used e \<and> strcasecmp_eq (de_domain e) domain
          then dns \<lparr> dns_cache := (dns_cache dns)[slot := e \<lparr> de_resolved_ip := take 45 ip_str, de_expires := now + ttl \<rparr>] \<rparr>
          else dns_add_matched E now dns domain ip_str)"

definition clamp_ttl :: "u32 \<Rightarrow> int" where
  "clamp_ttl rttl = (let ttl = (if rttl < 300 then rttl else 300) in
     if ttl < 30 then 30 else int (unat ttl))"

text \<open>
  One turn of the answer loop at \<open>ptr\<close>: the new state and the pointer to the next record, or
  \<open>None\<close> where the loop is left.
\<close>

definition dns_record :: "fnm_env \<Rightarrow> int \<Rightarrow> string \<Rightarrow> bytes \<Rightarrow> pf_dns \<Rightarrow> (pf_dns \<times> bytes) option" where
  "dns_record E now domain ptr dns =
     (case skip_owner ptr of
        None \<Rightarrow> None
      | Some p \<Rightarrow>
          (case p of
             t0 # t1 # c0 # c1 # l0 # l1 # l2 # l3 # r0 # r1 # q \<Rightarrow>
               (let rtype = u16be t0 t1; rttl = u32be l0 l1 l2 l3; rdlength = unat (u16be r0 r1) in
                if rdlength > length q then None
                else Some
                  (if rtype = 1 \<and> rdlength = 4 then
                     (case q of a # b # c # d # _ \<Rightarrow>
                        dns_store_ip E now dns domain (inet_ntop4 (u32be a b c d)) (clamp_ttl rttl)
                      | _ \<Rightarrow> dns)
                   else if rtype = 28 \<and> rdlength = 16 then
                     dns_store_ip E now dns domain (inet_ntop6 (take 16 q)) PF_DNS_TTL
                   else dns,
                   drop rdlength q))
           | _ \<Rightarrow> None))"

fun dns_answers :: "fnm_env \<Rightarrow> int \<Rightarrow> string \<Rightarrow> nat \<Rightarrow> bytes \<Rightarrow> pf_dns \<Rightarrow> pf_dns" where
  "dns_answers E now domain 0 ptr dns = dns"
| "dns_answers E now domain (Suc n) ptr dns =
     (if ptr = [] then dns
      else case dns_record E now domain ptr dns of
        None \<Rightarrow> dns
      | Some (dns', q) \<Rightarrow> dns_answers E now domain n q dns')"

definition dns_message :: "fnm_env \<Rightarrow> int \<Rightarrow> bytes \<Rightarrow> pf_dns \<Rightarrow> pf_dns" where
  "dns_message E now dns_data dns =
     (if length dns_data < 12 then dns
      else
        let is_response = (dns_data ! 2 AND 0x80 \<noteq> 0);
            qdcount = u16be (dns_data ! 4) (dns_data ! 5);
            ancount = u16be (dns_data ! 6) (dns_data ! 7);
            ptr = drop 12 dns_data;
            (buf, after) = (if qdcount > 0 then dns_parse_qname ptr PF_DOMAIN_MAX else ([], None));
            ptr' = (case after of Some a \<Rightarrow> drop 4 a | None \<Rightarrow> ptr);
            domain = cstring buf
        in if domain = [] then dns
           else if \<not> is_response then dns_add_matched E now dns domain []
           else if ancount = 0 then dns
           else dns_answers E now domain (unat ancount) ptr' dns)"

definition dns_callback :: "fnm_env \<Rightarrow> int \<Rightarrow> bytes \<Rightarrow> pf_dns \<Rightarrow> pf_dns" where
  "dns_callback E now payload dns =
     (let pkt_len = length payload in
      if pkt_len < 20 then dns
      else let ip_hlen = unat (payload ! 0 AND 0x0F) * 4 in
        if ip_hlen < 20 \<or> pkt_len < ip_hlen then dns
        else if payload ! 9 \<noteq> 17 then dns
        else if pkt_len < ip_hlen + 8 then dns
        else dns_message E now (drop (ip_hlen + 8) payload) dns)"

section \<open>Names: parsing inverts the label encoding\<close>

definition enc_label :: "bytes \<Rightarrow> bytes" where
  "enc_label l = of_nat (length l) # l"

definition enc_name :: "bytes list \<Rightarrow> bytes" where
  "enc_name ls = concat (map enc_label ls) @ [0]"

fun dotted :: "bytes list \<Rightarrow> bytes" where
  "dotted [] = []"
| "dotted [l] = l"
| "dotted (l # k # ls) = l @ 0x2E # dotted (k # ls)"

definition label_ok :: "bytes \<Rightarrow> bool" where
  "label_ok l \<longleftrightarrow> 0 < length l \<and> length l < 64"

lemma small_label_no_pointer:
  assumes "n < 64"
  shows "(of_nat n :: byte) AND 0xC0 \<noteq> 0xC0"
proof
  assume a: "(of_nat n :: byte) AND 0xC0 = 0xC0"
  have "take_bit 6 n = n" using assms by (simp add: take_bit_nat_eq_self)
  hence "(of_nat n :: byte) = take_bit 6 (of_nat n)" by (simp add: take_bit_of_nat)
  hence "\<not> bit (of_nat n :: byte) 7" by (metis bit_take_bit_iff numeral_less_iff semiring_norm(76,79) le_numeral_simps(1) less_imp_le not_le semiring_norm(78,81))
  moreover have "bit (0xC0 :: byte) 7" by (simp add: bit_numeral_rec)
  ultimately show False using a by (metis bit_and_iff)
qed

lemma qname_loop_label:
  assumes "label_ok l" "length (out @ (if out = [] then [] else [0x2E]) @ l) < outsz"
  shows "qname_loop (enc_label l @ r) out outsz = qname_loop r (out @ (if out = [] then [] else [0x2E]) @ l) outsz"
proof -
  have u: "unat (of_nat (length l) :: byte) = length l"
    using assms(1) by (intro unat_of_nat_lt) (simp add: label_ok_def)
  moreover have "(of_nat (length l) :: byte) \<noteq> 0"
    using assms(1) u by (metis label_ok_def less_irrefl unsigned_0)
  moreover have "(of_nat (length l) :: byte) AND 0xC0 \<noteq> 0xC0"
    using assms(1) by (intro small_label_no_pointer) (simp add: label_ok_def)
  ultimately show ?thesis
    using assms(2) by (cases "out = []") (simp_all add: enc_label_def Let_def)
qed

lemma qname_loop_name:
  assumes "ls \<noteq> []" "\<forall>l \<in> set ls. label_ok l" "length (out @ (if out = [] then [] else [0x2E]) @ dotted ls) < outsz"
  shows "qname_loop (enc_name ls @ r) out outsz = (out @ (if out = [] then [] else [0x2E]) @ dotted ls, Some r)"
  using assms
proof (induction ls arbitrary: out rule: dotted.induct)
  case (2 l)
  have "enc_name [l] @ r = enc_label l @ 0 # r" by (simp add: enc_name_def)
  thus ?case using 2 qname_loop_label [of l out outsz "0 # r"] by simp
next
  case (3 l k ls)
  let ?o = "out @ (if out = [] then [] else [0x2E]) @ l"
  have l: "l \<noteq> []" using 3(3) by (auto simp: label_ok_def)
  have "enc_name (l # k # ls) @ r = enc_label l @ (enc_name (k # ls) @ r)" by (simp add: enc_name_def)
  moreover have "qname_loop (enc_label l @ (enc_name (k # ls) @ r)) out outsz = qname_loop (enc_name (k # ls) @ r) ?o outsz"
    using 3 by (intro qname_loop_label) auto
  moreover have "qname_loop (enc_name (k # ls) @ r) ?o outsz
      = (?o @ (if ?o = [] then [] else [0x2E]) @ dotted (k # ls), Some r)"
    using 3(2-4) l by (intro 3(1)) auto
  ultimately show ?case using l by simp
qed simp

lemma qname_loop_bound: "length out < outsz \<Longrightarrow> length (fst (qname_loop ps out outsz)) < outsz"
  by (induction ps out outsz rule: qname_loop.induct) (auto simp: Let_def)

section \<open>Slots\<close>

lemma map_option_add_Suc: "map_option ((+) (Suc i)) x = map_option (\<lambda>k. Suc (i + k)) x"
  by (cases x) auto

lemma map_option_add_0: "map_option ((+) (0::nat)) x = x"
  by (cases x) auto

lemma find_slot_loop_char:
  "find_slot_loop now d es i reuse =
    (case find_index (\<lambda>e. dns_live now e \<and> strcasecmp_eq (de_domain e) d) es of
       Some k \<Rightarrow> Some (i + k)
     | None \<Rightarrow> (case reuse of Some r \<Rightarrow> Some r
        | None \<Rightarrow> map_option (\<lambda>k. i + k) (find_index (\<lambda>e. \<not> dns_live now e) es)))"
  by (induction es arbitrary: i reuse)
     (auto simp: dns_live_def option.map_comp comp_def map_option_add_Suc split: option.splits)

lemma cache_find_slot_char:
  "cache_find_slot now dns d =
    (case find_index (\<lambda>e. dns_live now e \<and> strcasecmp_eq (de_domain e) d) (dns_cache dns) of
       Some k \<Rightarrow> Some k
     | None \<Rightarrow> find_index (\<lambda>e. \<not> dns_live now e) (dns_cache dns))"
  by (simp add: cache_find_slot_def find_slot_loop_char map_option_add_0 split: option.splits)

lemma cache_find_slot_Some:
  assumes "cache_find_slot now dns d = Some k"
  shows "k < length (dns_cache dns)"
    and "dns_live now (dns_cache dns ! k) \<Longrightarrow> strcasecmp_eq (de_domain (dns_cache dns ! k)) d"
    and "\<not> dns_live now (dns_cache dns ! k) \<Longrightarrow> e \<in> set (dns_cache dns) \<Longrightarrow> dns_live now e \<Longrightarrow> \<not> strcasecmp_eq (de_domain e) d"
  using assms
  by (auto simp: cache_find_slot_char find_index_Some find_index_None split: option.splits)

lemma cache_find_slot_None:
  assumes "cache_find_slot now dns d = None" "e \<in> set (dns_cache dns)"
  shows "dns_live now e"
  using assms by (auto simp: cache_find_slot_char find_index_None split: option.splits)

section \<open>The cache invariant\<close>

text \<open>
  At time \<open>now\<close>: the array has its fixed size, no two live entries are for the same domain (up to
  case), no entry outlives the cap on the time to live, and the strings fit their fields.
\<close>

definition distinct_live :: "int \<Rightarrow> pf_dns_entry list \<Rightarrow> bool" where
  "distinct_live now es \<longleftrightarrow> (\<forall>i < length es. \<forall>j < length es. i \<noteq> j \<longrightarrow> dns_live now (es ! i) \<longrightarrow>
     dns_live now (es ! j) \<longrightarrow> \<not> strcasecmp_eq (de_domain (es ! i)) (de_domain (es ! j)))"

definition entry_ok :: "int \<Rightarrow> pf_dns_entry \<Rightarrow> bool" where
  "entry_ok now e \<longleftrightarrow> (de_used e \<longrightarrow> de_expires e \<le> now + PF_DNS_TTL)
     \<and> length (de_domain e) < PF_DOMAIN_MAX \<and> length (de_resolved_ip e) < 46"

definition dns_inv :: "int \<Rightarrow> pf_dns \<Rightarrow> bool" where
  "dns_inv now dns \<longleftrightarrow> length (dns_cache dns) = PF_DNS_CACHE_SIZE
     \<and> distinct_live now (dns_cache dns) \<and> (\<forall>e \<in> set (dns_cache dns). entry_ok now e)"

lemma dns_inv_init: "dns_inv now (pf_dns_init rs)"
  by (auto simp: dns_inv_def pf_dns_init_def distinct_live_def dns_live_def dns_entry_zero_def entry_ok_def PF_DOMAIN_MAX_def)

lemma dns_inv_later: "dns_inv now dns \<Longrightarrow> now \<le> now' \<Longrightarrow> dns_inv now' dns"
  unfolding dns_inv_def distinct_live_def dns_live_def entry_ok_def by fastforce

lemma distinct_live_update:
  assumes "distinct_live now es" "k < length es" "dns_live now (es ! k) \<Longrightarrow> strcasecmp_eq (de_domain (es ! k)) d"
    and "\<not> dns_live now (es ! k) \<Longrightarrow> \<forall>e \<in> set es. dns_live now e \<longrightarrow> \<not> strcasecmp_eq (de_domain e) d"
    and "strcasecmp_eq (de_domain x) d"
  shows "distinct_live now (es[k := x])"
proof -
  have other: "\<not> strcasecmp_eq (de_domain (es ! i)) (de_domain x)"
    if "i < length es" "i \<noteq> k" "dns_live now (es ! i)" for i
    using assms that unfolding distinct_live_def strcasecmp_eq_def by (metis nth_mem)
  show ?thesis
    unfolding distinct_live_def
  proof (intro allI impI)
    fix i j assume a: "i < length (es[k := x])" "j < length (es[k := x])" "i \<noteq> j"
      "dns_live now (es[k := x] ! i)" "dns_live now (es[k := x] ! j)"
    show "\<not> strcasecmp_eq (de_domain (es[k := x] ! i)) (de_domain (es[k := x] ! j))"
      using a other [of i] other [of j] assms(1)
      by (cases "i = k"; cases "j = k") (auto simp: distinct_live_def dest: strcasecmp_eq_sym)
  qed
qed

lemma dns_inv_update:
  assumes inv: "dns_inv now dns" and s: "cache_find_slot now dns d = Some k"
    and x: "strcasecmp_eq (de_domain x) d" "entry_ok now x"
  shows "dns_inv now (dns \<lparr> dns_cache := (dns_cache dns)[k := x] \<rparr>)"
proof -
  have "distinct_live now ((dns_cache dns)[k := x])"
    using inv cache_find_slot_Some [OF s] x(1) by (intro distinct_live_update) (auto simp: dns_inv_def)
  moreover have "\<forall>e \<in> set ((dns_cache dns)[k := x]). entry_ok now e"
    using inv x(2) set_update_subset_insert [of "dns_cache dns" k x] by (auto simp: dns_inv_def)
  ultimately show ?thesis using inv by (simp add: dns_inv_def)
qed

lemma pf_dns_cache_add_inv:
  assumes "dns_inv now dns" "length d < PF_DOMAIN_MAX"
  shows "dns_inv now (pf_dns_cache_add now dns (Some d) ip rid act pid cid)"
proof (cases "cache_find_slot now dns d")
  case None
  thus ?thesis using assms by (simp add: pf_dns_cache_add_def)
next
  case (Some k)
  have "take (PF_DOMAIN_MAX - 1) d = d" using assms(2) by simp
  thus ?thesis
    unfolding pf_dns_cache_add_def option.case Some using assms
    by (intro dns_inv_update [OF assms(1) Some]) (simp_all add: entry_ok_def)
qed

lemma dns_add_matched_inv:
  "dns_inv now dns \<Longrightarrow> length d < PF_DOMAIN_MAX \<Longrightarrow> dns_inv now (dns_add_matched E now dns d ip)"
  unfolding dns_add_matched_def Let_def by (rule pf_dns_cache_add_inv)

lemma clamp_ttl_range: "30 \<le> clamp_ttl w \<and> clamp_ttl w \<le> PF_DNS_TTL"
  by (auto simp: clamp_ttl_def Let_def PF_DNS_TTL_def word_less_def)

lemma dns_store_ip_inv:
  assumes inv: "dns_inv now dns" and d: "length d < PF_DOMAIN_MAX" and t: "ttl \<le> PF_DNS_TTL"
  shows "dns_inv now (dns_store_ip E now dns d ip ttl)"
proof (cases "cache_find_slot now dns d")
  case None
  thus ?thesis using inv by (simp add: dns_store_ip_def)
next
  case (Some k)
  have "entry_ok now (dns_cache dns ! k)"
    using inv cache_find_slot_Some(1) [OF Some] by (simp add: dns_inv_def)
  thus ?thesis
    unfolding dns_store_ip_def Some option.case Let_def
    using inv d t dns_inv_update [OF inv Some] dns_add_matched_inv [OF inv d]
    by (auto simp: entry_ok_def)
qed

lemma dns_record_inv:
  assumes "dns_inv now dns" "length d < PF_DOMAIN_MAX" "dns_record E now d ptr dns = Some (dns', q)"
  shows "dns_inv now dns'"
  using assms clamp_ttl_range
  by (auto simp: dns_record_def Let_def dns_store_ip_inv split: option.splits list.splits if_splits)

lemma dns_answers_inv:
  "dns_inv now dns \<Longrightarrow> length d < PF_DOMAIN_MAX \<Longrightarrow> dns_inv now (dns_answers E now d n ptr dns)"
  by (induction n arbitrary: ptr dns) (auto split: option.splits intro: dns_record_inv)

lemma dns_message_inv:
  assumes "dns_inv now dns"
  shows "dns_inv now (dns_message E now data dns)"
proof -
  have "length (fst (qname_loop ps [] PF_DOMAIN_MAX)) < PF_DOMAIN_MAX" for ps
    by (rule qname_loop_bound) (simp add: PF_DOMAIN_MAX_def)
  hence "length (cstring (fst (dns_parse_qname ps PF_DOMAIN_MAX))) < PF_DOMAIN_MAX" for ps
    unfolding dns_parse_qname_def using cstring_length le_less_trans by blast
  moreover have "cstring [] = []" by (simp add: cstring_def)
  ultimately show ?thesis
    unfolding dns_message_def Let_def using assms
    by (auto split: prod.splits if_splits intro!: dns_add_matched_inv dns_answers_inv) (metis fst_conv)+
qed

lemma dns_callback_inv: "dns_inv now dns \<Longrightarrow> dns_inv now (dns_callback E now payload dns)"
  by (simp add: dns_callback_def Let_def dns_message_inv)

section \<open>Lookup after a response\<close>

lemma dns_lookup_loop_find:
  "dns_lookup_loop now ip es = find (\<lambda>e. dns_live now e \<and> de_resolved_ip e \<noteq> [] \<and> de_resolved_ip e = ip) es"
  by (induction es) (auto simp: dns_live_def)

lemma pf_dns_lookup_Some:
  assumes "e \<in> set (dns_cache dns)" "dns_live now e" "de_resolved_ip e = ip" "ip \<noteq> []"
  shows "\<exists>e'. pf_dns_lookup now dns (Some ip) = Some e' \<and> de_resolved_ip e' = ip \<and> dns_live now e'"
proof -
  have "find (\<lambda>e. dns_live now e \<and> de_resolved_ip e \<noteq> [] \<and> de_resolved_ip e = ip) (dns_cache dns) \<noteq> None"
    using assms by (auto simp: find_None_iff)
  then obtain e' where "pf_dns_lookup now dns (Some ip) = Some e'"
    by (auto simp: pf_dns_lookup_def dns_lookup_loop_find)
  moreover from this have "de_resolved_ip e' = ip \<and> dns_live now e'"
    unfolding pf_dns_lookup_def option.case dns_lookup_loop_find by (auto dest: find_is_member)
  ultimately show ?thesis by blast
qed

text \<open>A response to a query for the name \<open>ls\<close> with one A record, in an IPv4 and UDP envelope.\<close>

definition enc_a_response :: "byte \<Rightarrow> byte \<Rightarrow> bytes list \<Rightarrow> u32 \<Rightarrow> u32 \<Rightarrow> bytes" where
  "enc_a_response i0 i1 ls ttl ip = [i0, i1, 0x81, 0x80, 0, 1, 0, 1, 0, 0, 0, 0] @ enc_name ls @ [0, 1, 0, 1]
     @ [0xC0, 0x0C, 0, 1, 0, 1] @ be32 ttl @ [0, 4] @ be32 ip"

definition ip_udp :: "bytes \<Rightarrow> bytes \<Rightarrow> bytes \<Rightarrow> bytes" where
  "ip_udp h1 h2 payload = 0x45 # h1 @ 17 # h2 @ payload"

definition name_ok :: "bytes list \<Rightarrow> bool" where
  "name_ok ls \<longleftrightarrow> ls \<noteq> [] \<and> (\<forall>l \<in> set ls. label_ok l \<and> 0 \<notin> set l) \<and> length (dotted ls) < PF_DOMAIN_MAX"

lemma dotted_set: "set (dotted ls) \<subseteq> insert 0x2E (\<Union> (set ` set ls))"
  by (induction ls rule: dotted.induct) auto

lemma dotted_nonempty: "name_ok ls \<Longrightarrow> dotted ls \<noteq> []"
  by (cases ls rule: dotted.cases) (auto simp: name_ok_def label_ok_def)

lemma cstring_dotted:
  assumes "name_ok ls"
  shows "cstring (dotted ls) = map (\<lambda>b. char_of (unat b)) (dotted ls)"
proof -
  have "0 \<notin> set (dotted ls)" using assms dotted_set [of ls] by (auto simp: name_ok_def)
  hence "takeWhile (\<lambda>b. b \<noteq> 0) (dotted ls) = dotted ls" by (auto simp: takeWhile_eq_all_conv)
  thus ?thesis by (simp only: cstring_def)
qed

lemma dns_parse_qname_enc:
  "name_ok ls \<Longrightarrow> dns_parse_qname (enc_name ls @ r) PF_DOMAIN_MAX = (dotted ls, Some r)"
  using qname_loop_name [of ls "[]" PF_DOMAIN_MAX r] by (simp add: dns_parse_qname_def name_ok_def)

lemma ip_udp_callback:
  assumes "length h1 = 8" "length h2 = 18"
  shows "dns_callback E now (ip_udp h1 h2 data) dns = dns_message E now data dns"
proof -
  have "ip_udp h1 h2 data ! 9 = 17" using assms(1) by (simp add: ip_udp_def nth_Cons' nth_append)
  moreover have "drop 28 (ip_udp h1 h2 data) = data" using assms by (simp add: ip_udp_def)
  moreover have "ip_udp h1 h2 data ! 0 AND 0x0F = 5" by (simp add: ip_udp_def)
  moreover have "length (ip_udp h1 h2 data) = 28 + length data" using assms by (simp add: ip_udp_def)
  ultimately show ?thesis by (simp add: dns_callback_def Let_def)
qed

lemma dns_record_a:
  assumes "be32 ttl = [l0, l1, l2, l3]" "be32 ip = [a, b, c, d]"
  shows "dns_record E now dm ([0xC0, 0x0C, 0, 1, 0, 1] @ be32 ttl @ [0, 4] @ be32 ip) dns
     = Some (dns_store_ip E now dns dm (inet_ntop4 ip) (clamp_ttl ttl), [])"
proof -
  have "u16be 0 1 = 1" "u16be 0 4 = 4" by (simp_all add: u16be_def)
  thus ?thesis using u32be_be32 [OF assms(1)] u32be_be32 [OF assms(2)] assms
    by (simp add: dns_record_def Let_def)
qed

lemma dns_message_a_response:
  assumes "name_ok ls"
  shows "dns_message E now (enc_a_response i0 i1 ls ttl ip) dns
     = dns_store_ip E now dns (cstring (dotted ls)) (inet_ntop4 ip) (clamp_ttl ttl)"
proof -
  have q: "u16be 0 1 = 1" "unat (u16be 0 1) = Suc 0" by (simp_all add: u16be_def)
  obtain l0 l1 l2 l3 where t: "be32 ttl = [l0, l1, l2, l3]" by (auto simp: be32_def)
  obtain a b c d where i: "be32 ip = [a, b, c, d]" by (auto simp: be32_def)
  have "cstring (dotted ls) \<noteq> []" using cstring_dotted [OF assms] dotted_nonempty [OF assms] by simp
  thus ?thesis
    using dns_parse_qname_enc [OF assms] dns_record_a [OF t i]
    by (simp add: dns_message_def enc_a_response_def Let_def q)
qed

lemma dns_store_ip_entry:
  assumes s: "cache_find_slot now dns d = Some k" and d: "length d < PF_DOMAIN_MAX"
    and ttl: "0 < ttl" "ttl \<le> PF_DNS_TTL" and ip: "length ip < 46"
  shows "\<exists>e \<in> set (dns_cache (dns_store_ip E now dns d ip ttl)). dns_live now e \<and> de_resolved_ip e = ip
     \<and> strcasecmp_eq (de_domain e) d \<and> now + ttl \<le> de_expires e \<and> de_expires e \<le> now + PF_DNS_TTL"
proof -
  have k: "k < length (dns_cache dns)" by (rule cache_find_slot_Some(1) [OF s])
  have "dns_store_ip E now dns d ip ttl = dns \<lparr> dns_cache := (dns_cache dns)[k :=
      dns_cache (dns_store_ip E now dns d ip ttl) ! k] \<rparr> \<and>
     (let e = dns_cache (dns_store_ip E now dns d ip ttl) ! k in dns_live now e \<and> de_resolved_ip e = ip
     \<and> strcasecmp_eq (de_domain e) d \<and> now + ttl \<le> de_expires e \<and> de_expires e \<le> now + PF_DNS_TTL)"
    using s k d ttl ip
    by (auto simp: dns_store_ip_def dns_add_matched_def pf_dns_cache_add_def Let_def dns_live_def PF_DNS_TTL_def)
  moreover have "dns_cache (dns \<lparr> dns_cache := (dns_cache dns)[k := x] \<rparr>) ! k = x
     \<and> x \<in> set (dns_cache (dns \<lparr> dns_cache := (dns_cache dns)[k := x] \<rparr>))" for x
    using k by (simp add: set_update_memI)
  ultimately show ?thesis unfolding Let_def by metis
qed

section \<open>Properties\<close>

text \<open>
  The DNS cache invariant (fixed size, at most one live entry per domain up to case, no entry
  that outlives the 300 second cap, strings that fit) holds of the initial cache and is kept by every
  packet the queue callback processes, at any later time.
\<close>

theorem dns_callback_keeps_invariant:
  "dns_inv now0 (pf_dns_init rs)
   \<and> (dns_inv now0 dns \<longrightarrow> now0 \<le> now \<longrightarrow> dns_inv now (dns_callback E now payload dns))"
  using dns_inv_init dns_inv_later dns_callback_inv by blast

theorem dns_callback_keeps_invariant_witness:
  "dns_inv 7 (dns_callback demo_fnm 7 [0x45, 0, 0] (pf_dns_init []))"
  using dns_callback_keeps_invariant [of 5 "[]" "pf_dns_init []" 7 demo_fnm "[0x45, 0, 0]"] by simp



text \<open>
  \<^verbatim>\<open>dns_parse_qname\<close> inverts the label encoding of names: from the encoding of any well-formed
  name it writes the dotted name and returns the pointer right behind it; and whatever the input,
  it writes less than the size of the output buffer.
\<close>

theorem dns_parse_qname_roundtrip:
  "(name_ok ls \<longrightarrow> dns_parse_qname (enc_name ls @ rest) PF_DOMAIN_MAX = (dotted ls, Some rest))
   \<and> length (fst (dns_parse_qname ps PF_DOMAIN_MAX)) < PF_DOMAIN_MAX"
  using dns_parse_qname_enc qname_loop_bound [of "[]" PF_DOMAIN_MAX ps]
  by (auto simp: dns_parse_qname_def PF_DOMAIN_MAX_def)

theorem dns_parse_qname_roundtrip_witness:
  "dns_parse_qname (enc_name [[0x73, 0x6B, 0x79], [0x63, 0x68]] @ [0, 1, 0, 1]) PF_DOMAIN_MAX
     = ([0x73, 0x6B, 0x79, 0x2E, 0x63, 0x68], Some [0, 1, 0, 1])"
proof -
  have "name_ok [[0x73, 0x6B, 0x79], [0x63, 0x68]]" by (simp add: name_ok_def label_ok_def PF_DOMAIN_MAX_def)
  thus ?thesis using dns_parse_qname_roundtrip [of "[[0x73, 0x6B, 0x79], [0x63, 0x68]]" "[0, 1, 0, 1]" "[]"] by simp
qed

end
