(* ===== verification/Net.thy ===== *)
theory Net
  imports Clib
begin

text \<open>
  Stream sockets as the connection code sees them: the segments that later \<^verbatim>\<open>recv\<close> calls
  deliver (an empty segment, or the end of the list, is a return value \<^verbatim>\<open>\<le> 0\<close>), the sizes
  that later \<^verbatim>\<open>send\<close> calls accept (0, or the end, is an error), the bytes sent so far and
  whether the descriptor is open.  On top: the loops \<^verbatim>\<open>send_all\<close> and \<^verbatim>\<open>recv_all\<close> and
  \<^verbatim>\<open>tcp_connect\<close>, which \<^verbatim>\<open>proxy_socks.c\<close>, \<^verbatim>\<open>proxy_http.c\<close> and \<^verbatim>\<open>chain.c\<close> each
  define with the same body.
\<close>

record sock =
  sk_rx :: "bytes list"
  sk_tx :: bytes
  sk_snd :: "nat list"
  sk_open :: bool

definition sk_close :: "sock \<Rightarrow> sock" where
  "sk_close s = s \<lparr> sk_open := False \<rparr>"

text \<open>\<^verbatim>\<open>recv(fd, buf, n, 0)\<close>: \<open>None\<close> for a return value \<^verbatim>\<open>\<le> 0\<close>.\<close>

definition sk_recv :: "nat \<Rightarrow> sock \<Rightarrow> bytes option \<times> sock" where
  "sk_recv n s = (case sk_rx s of
       [] \<Rightarrow> (None, s)
     | c # cs \<Rightarrow>
         if c = [] \<or> n = 0 then (None, s \<lparr> sk_rx := cs \<rparr>)
         else if length c \<le> n then (Some c, s \<lparr> sk_rx := cs \<rparr>)
         else (Some (take n c), s \<lparr> sk_rx := drop n c # cs \<rparr>))"

text \<open>\<^verbatim>\<open>send(fd, buf, len, 0)\<close>: how many bytes were taken, \<open>None\<close> for a return value \<^verbatim>\<open>\<le> 0\<close>.\<close>

definition sk_send :: "bytes \<Rightarrow> sock \<Rightarrow> nat option \<times> sock" where
  "sk_send b s = (case sk_snd s of
       [] \<Rightarrow> (None, s)
     | k # ks \<Rightarrow>
         (let n = min k (length b) in
          if n = 0 then (None, s \<lparr> sk_snd := ks \<rparr>)
          else (Some n, s \<lparr> sk_snd := ks, sk_tx := sk_tx s @ take n b \<rparr>)))"

lemma sk_recv_len:
  "sk_recv n s = (Some c, s') \<Longrightarrow> 0 < length c \<and> length c \<le> n"
  by (auto simp: sk_recv_def split: list.splits if_splits)

lemma sk_send_len: "sk_send b s = (Some n, s') \<Longrightarrow> 0 < n \<and> n \<le> length b"
  by (auto simp: sk_send_def Let_def split: list.splits if_splits)

function recv_all :: "nat \<Rightarrow> sock \<Rightarrow> bytes option \<times> sock" where
  "recv_all n s = (if n = 0 then (Some [], s)
     else case sk_recv n s of
       (None, s') \<Rightarrow> (None, s')
     | (Some c, s') \<Rightarrow>
         (case recv_all (n - length c) s' of
            (None, s'') \<Rightarrow> (None, s'')
          | (Some d, s'') \<Rightarrow> (Some (c @ d), s'')))"
  by pat_completeness auto
termination
  by (relation "measure fst") (auto dest: sk_recv_len [OF sym])

function send_all :: "bytes \<Rightarrow> sock \<Rightarrow> bool \<times> sock" where
  "send_all b s = (if b = [] then (True, s)
     else case sk_send b s of
       (None, s') \<Rightarrow> (False, s')
     | (Some n, s') \<Rightarrow> send_all (drop n b) s')"
  by pat_completeness auto
termination
  by (relation "measure (\<lambda>(b, s). length b)") (auto dest: sk_send_len [OF sym])

declare recv_all.simps [simp del] send_all.simps [simp del]

section \<open>Delivery does not depend on segmentation\<close>

text \<open>The bytes a socket still delivers before the first failing \<^verbatim>\<open>recv\<close>.\<close>

definition sk_pending :: "sock \<Rightarrow> bytes" where
  "sk_pending s = concat (takeWhile (\<lambda>c. c \<noteq> []) (sk_rx s))"

text \<open>How many \<^verbatim>\<open>send\<close> calls to come make progress before the first failure.\<close>

definition sk_credit :: "sock \<Rightarrow> nat" where
  "sk_credit s = length (takeWhile (\<lambda>k. k \<noteq> 0) (sk_snd s))"

lemma sk_recv_frame:
  assumes "sk_recv n s = (c, s')"
  shows "sk_tx s' = sk_tx s" "sk_snd s' = sk_snd s" "sk_open s' = sk_open s"
  using assms by (auto simp: sk_recv_def split: list.splits if_splits)

lemma sk_recv_pending:
  assumes "sk_recv n s = (Some c, s')"
  shows "sk_pending s = c @ sk_pending s'"
  using assms by (auto simp: sk_recv_def sk_pending_def split: list.splits if_splits)

lemma sk_recv_fails:
  "sk_recv n s = (None, s') \<Longrightarrow> 0 < n \<Longrightarrow> sk_pending s = []"
  by (auto simp: sk_recv_def sk_pending_def split: list.splits if_splits)

lemma recv_all_frame:
  "recv_all n s = (r, s') \<Longrightarrow> sk_tx s' = sk_tx s \<and> sk_snd s' = sk_snd s \<and> sk_open s' = sk_open s"
proof (induction n s arbitrary: r s' rule: recv_all.induct)
  case (1 n s)
  show ?case
    using 1(2) 1(1) sk_recv_frame
    by (subst (asm) recv_all.simps) (fastforce split: prod.splits option.splits if_splits)
qed

lemma recv_all_Some:
  "recv_all n s = (Some d, s') \<Longrightarrow> length d = n \<and> sk_pending s = d @ sk_pending s'"
proof (induction n s arbitrary: d s' rule: recv_all.induct)
  case (1 n s)
  show ?case
  proof (cases "n = 0")
    case True
    thus ?thesis using 1(2) by (simp add: recv_all.simps)
  next
    case False
    then obtain c t e where a: "sk_recv n s = (Some c, t)" "recv_all (n - length c) t = (Some e, s')" "d = c @ e"
      using 1(2) by (subst (asm) recv_all.simps) (auto split: prod.splits option.splits)
    have "length e = n - length c \<and> sk_pending t = e @ sk_pending s'"
      using 1(1) [OF False] a by (metis (no_types))
    thus ?thesis using a sk_recv_len [OF a(1)] sk_recv_pending [OF a(1)] by auto
  qed
qed

lemma recv_all_enough:
  "n \<le> length (sk_pending s) \<Longrightarrow> \<exists>d s'. recv_all n s = (Some d, s')"
proof (induction n s rule: recv_all.induct)
  case (1 n s)
  show ?case
  proof (cases "n = 0")
    case True
    thus ?thesis by (simp add: recv_all.simps)
  next
    case False
    obtain r t where rt: "sk_recv n s = (r, t)" by force
    obtain c where c: "r = Some c" using rt False 1(2) sk_recv_fails [of n s t] by (cases r) auto
    have "n - length c \<le> length (sk_pending t)"
      using sk_recv_pending [of n s c t] rt c 1(2) by auto
    then obtain d s' where "recv_all (n - length c) t = (Some d, s')"
      using 1(1) [OF False rt [symmetric] c] by blast
    thus ?thesis using False rt c recv_all.simps [of n s] by simp
  qed
qed

lemma recv_all_exact:
  assumes "sk_pending s = d @ r" "length d = n"
  shows "\<exists>s'. recv_all n s = (Some d, s') \<and> sk_pending s' = r \<and> sk_tx s' = sk_tx s
    \<and> sk_snd s' = sk_snd s \<and> sk_open s' = sk_open s"
proof -
  have "n \<le> length (sk_pending s)" using assms by simp
  then obtain e s' where e: "recv_all n s = (Some e, s')" using recv_all_enough by blast
  have l: "length e = length d" and "sk_pending s = e @ sk_pending s'"
    using recv_all_Some [OF e] assms(2) by simp_all
  hence "e @ sk_pending s' = d @ r" using assms(1) by simp
  hence "e = d" "sk_pending s' = r" using append_eq_append_conv [of e d] l by blast+
  thus ?thesis using e recv_all_frame [OF e] by blast
qed

lemma sk_send_frame:
  assumes "sk_send b s = (r, s')"
  shows "sk_rx s' = sk_rx s" "sk_open s' = sk_open s"
  using assms by (auto simp: sk_send_def Let_def split: list.splits if_splits)

lemma sk_send_Some:
  assumes "sk_send b s = (Some n, s')"
  shows "sk_tx s' = sk_tx s @ take n b" "sk_credit s = Suc (sk_credit s')"
  using assms by (auto simp: sk_send_def sk_credit_def Let_def min_def split: list.splits if_splits)

lemma sk_send_None: "sk_send b s = (None, s') \<Longrightarrow> b \<noteq> [] \<Longrightarrow> sk_credit s = 0"
  by (auto simp: sk_send_def sk_credit_def Let_def min_def split: list.splits if_splits)

lemma send_all_frame:
  "send_all b s = (r, s') \<Longrightarrow> sk_rx s' = sk_rx s \<and> sk_open s' = sk_open s"
proof (induction b s arbitrary: r s' rule: send_all.induct)
  case (1 b s)
  show ?case
    using 1(2) 1(1) sk_send_frame
    by (subst (asm) send_all.simps) (fastforce split: prod.splits option.splits if_splits)
qed

lemma send_all_True: "send_all b s = (True, s') \<Longrightarrow> sk_tx s' = sk_tx s @ b"
proof (induction b s arbitrary: s' rule: send_all.induct)
  case (1 b s)
  show ?case
  proof (cases "b = []")
    case True
    thus ?thesis using 1(2) by (simp add: send_all.simps)
  next
    case False
    then obtain n t where a: "sk_send b s = (Some n, t)" "send_all (drop n b) t = (True, s')"
      using 1(2) by (subst (asm) send_all.simps) (auto split: prod.splits option.splits)
    have "sk_tx s' = sk_tx t @ drop n b" using 1(1) [OF False] a by (metis (no_types))
    thus ?thesis using sk_send_Some(1) [OF a(1)] by simp
  qed
qed

text \<open>A prefix of the data has been sent when \<^verbatim>\<open>send_all\<close> fails.\<close>

lemma send_all_prefix: "send_all b s = (r, s') \<Longrightarrow> \<exists>n. sk_tx s' = sk_tx s @ take n b"
proof (induction b s arbitrary: r s' rule: send_all.induct)
  case (1 b s)
  show ?case
  proof (cases "b = []")
    case True
    thus ?thesis using 1(2) by (simp add: send_all.simps)
  next
    case False
    obtain x t where a: "sk_send b s = (x, t)" by force
    show ?thesis
    proof (cases x)
      case None
      hence "s' = t" using 1(2) a False by (subst (asm) send_all.simps) simp
      moreover have "sk_tx t = sk_tx s" using a None
        by (auto simp: sk_send_def Let_def split: list.splits if_splits)
      ultimately show ?thesis by (metis append_Nil2 take0)
    next
      case (Some n)
      have "send_all (drop n b) t = (r, s')" using 1(2) a Some False by (subst (asm) send_all.simps) simp
      then obtain m where "sk_tx s' = sk_tx t @ take m (drop n b)"
        using 1(1) [OF False] a Some by (metis (no_types))
      hence "sk_tx s' = sk_tx s @ take n b @ take m (drop n b)"
        using sk_send_Some(1) [of b s n t] a Some by simp
      thus ?thesis by (metis take_add)
    qed
  qed
qed

lemma send_all_credit:
  "length b \<le> sk_credit s \<Longrightarrow> \<exists>s'. send_all b s = (True, s') \<and> sk_credit s \<le> length b + sk_credit s'"
proof (induction b s rule: send_all.induct)
  case (1 b s)
  show ?case
  proof (cases "b = []")
    case True
    thus ?thesis by (simp add: send_all.simps)
  next
    case False
    obtain x t where a: "sk_send b s = (x, t)" by force
    obtain n where n: "x = Some n" using a False 1(2) sk_send_None [of b s t] by (cases x) auto
    have l: "0 < n \<and> n \<le> length b" "sk_credit s = Suc (sk_credit t)"
      using a n sk_send_len sk_send_Some by blast+
    hence "length (drop n b) \<le> sk_credit t" using 1(2) by (simp add: le_diff_conv)
    then obtain s' where "send_all (drop n b) t = (True, s') \<and> sk_credit t \<le> length (drop n b) + sk_credit s'"
      using 1(1) [OF False a [symmetric] n] by blast
    moreover have "send_all b s = send_all (drop n b) t" using False a n send_all.simps [of b s] by simp
    ultimately show ?thesis using l by auto
  qed
qed

lemma send_all_exact:
  assumes "length b \<le> sk_credit s"
  shows "\<exists>s'. send_all b s = (True, s') \<and> sk_tx s' = sk_tx s @ b \<and> sk_pending s' = sk_pending s
    \<and> sk_open s' = sk_open s \<and> sk_credit s \<le> length b + sk_credit s'"
proof -
  obtain s' where s: "send_all b s = (True, s')" "sk_credit s \<le> length b + sk_credit s'"
    using send_all_credit [OF assms] by blast
  thus ?thesis using send_all_True [OF s(1)] send_all_frame [OF s(1)] by (auto simp: sk_pending_def)
qed

section \<open>Exchange steps\<close>

text \<open>
  One step of a handshake: send or receive, go on with the continuation, or take the failure
  branch: \<open>fail_keep\<close> where the caller keeps the descriptor, \<open>fail_close\<close> where it is closed.
\<close>

definition fail_keep :: "sock \<Rightarrow> bool \<times> sock" where
  "fail_keep s = (False, s)"

definition fail_close :: "sock \<Rightarrow> bool \<times> sock" where
  "fail_close s = (False, sk_close s)"

definition send_or :: "(sock \<Rightarrow> bool \<times> sock) \<Rightarrow> bytes \<Rightarrow> sock \<Rightarrow> (sock \<Rightarrow> bool \<times> sock) \<Rightarrow> bool \<times> sock" where
  "send_or f b s k = (case send_all b s of (True, s') \<Rightarrow> k s' | (False, s') \<Rightarrow> f s')"

definition recv_or :: "(sock \<Rightarrow> bool \<times> sock) \<Rightarrow> nat \<Rightarrow> sock \<Rightarrow> (bytes \<Rightarrow> sock \<Rightarrow> bool \<times> sock) \<Rightarrow> bool \<times> sock" where
  "recv_or f n s k = (case recv_all n s of (Some d, s') \<Rightarrow> k d s' | (None, s') \<Rightarrow> f s')"

text \<open>A socket state during a handshake: what was sent, what is still to come, credit left, open.\<close>

definition sk_at :: "bytes \<Rightarrow> bytes \<Rightarrow> nat \<Rightarrow> sock \<Rightarrow> bool" where
  "sk_at out pend credit s \<longleftrightarrow> sk_tx s = out \<and> sk_pending s = pend \<and> credit \<le> sk_credit s \<and> sk_open s"

text \<open>The routine ends in success, in a state with these bytes sent and these left unread.\<close>

definition ends_at :: "bool \<times> sock \<Rightarrow> bytes \<Rightarrow> bytes \<Rightarrow> nat \<Rightarrow> bool" where
  "ends_at r out pend credit \<longleftrightarrow> fst r \<and> sk_at out pend credit (snd r)"

locale handshake_transport =
  fixes snd_step :: "(sock \<Rightarrow> bool \<times> sock) \<Rightarrow> bytes \<Rightarrow> sock \<Rightarrow> (sock \<Rightarrow> bool \<times> sock) \<Rightarrow> bool \<times> sock"
    and rcv_step :: "(sock \<Rightarrow> bool \<times> sock) \<Rightarrow> nat \<Rightarrow> sock \<Rightarrow> (bytes \<Rightarrow> sock \<Rightarrow> bool \<times> sock) \<Rightarrow> bool \<times> sock"
  assumes snd_step_ok: "sk_at out pend c s \<Longrightarrow> length b \<le> c \<Longrightarrow>
      \<exists>s'. sk_at (out @ b) pend (c - length b) s' \<and> snd_step f b s k = k s'"
    and rcv_step_ok: "sk_at out (d @ pend) c s \<Longrightarrow>
      \<exists>s'. sk_at out pend c s' \<and> rcv_step f (length d) s kr = kr d s'"
begin

lemma snd_step_ends:
  assumes "sk_at out pend c s" "length b \<le> c"
    and "\<And>s'. sk_at (out @ b) pend (c - length b) s' \<Longrightarrow> ends_at (k s') o2 p2 c2"
  shows "ends_at (snd_step f b s k) o2 p2 c2"
  using snd_step_ok [OF assms(1,2), where f = f and k = k] assms(3) by auto

lemma rcv_step_ends:
  assumes "sk_at out (d @ pend) c s" "n = length d"
    and "\<And>s'. sk_at out pend c s' \<Longrightarrow> ends_at (k d s') o2 p2 c2"
  shows "ends_at (rcv_step f n s k) o2 p2 c2"
  using rcv_step_ok [OF assms(1), where f = f and kr = k] assms(2,3) by auto

end

interpretation stream: handshake_transport send_or recv_or
proof
  fix out pend b :: bytes and c :: nat and s :: sock and f k
  assume a: "sk_at out pend c s" "length b \<le> c"
  hence "length b \<le> sk_credit s" by (simp add: sk_at_def)
  then obtain s' where "send_all b s = (True, s') \<and> sk_tx s' = sk_tx s @ b \<and> sk_pending s' = sk_pending s
    \<and> sk_open s' = sk_open s \<and> sk_credit s \<le> length b + sk_credit s'"
    using send_all_exact by blast
  thus "\<exists>s'. sk_at (out @ b) pend (c - length b) s' \<and> send_or f b s k = k s'"
    using a by (intro exI [of _ s']) (auto simp: send_or_def sk_at_def)
next
  fix out d pend :: bytes and c :: nat and s :: sock and f k
  assume a: "sk_at out (d @ pend) c s"
  then obtain s' where "recv_all (length d) s = (Some d, s') \<and> sk_pending s' = pend \<and> sk_tx s' = sk_tx s
    \<and> sk_snd s' = sk_snd s \<and> sk_open s' = sk_open s"
    using recv_all_exact [of s d pend] by (auto simp: sk_at_def)
  thus "\<exists>s'. sk_at out pend c s' \<and> recv_or f (length d) s k = k d s'"
    using a by (intro exI [of _ s']) (auto simp: recv_or_def sk_at_def sk_credit_def)
qed

lemma ends_at_True: "sk_at out pend c s \<Longrightarrow> ends_at (True, s) out pend c"
  by (simp add: ends_at_def)

text \<open>What a successful step has done.\<close>

lemma send_or_True:
  assumes "send_or f b s k = (True, s')" "\<And>t. \<not> fst (f t)"
  obtains t where "k t = (True, s')" "sk_tx t = sk_tx s @ b"
  using assms send_all_True [of b s] by (auto simp: send_or_def split: prod.splits bool.splits) (metis fst_conv)

lemma recv_or_True:
  assumes "recv_or f n s k = (True, s')" "\<And>t. \<not> fst (f t)"
  obtains d t where "k d t = (True, s')" "sk_tx t = sk_tx s"
  using assms recv_all_frame [of n s] by (auto simp: recv_or_def split: prod.splits option.splits) (metis fst_conv)+

lemma fail_not_True [simp]: "\<not> fst (fail_keep t)" "\<not> fst (fail_close t)"
  "fail_keep s \<noteq> (True, t)" "fail_close s \<noteq> (True, t)"
  by (simp_all add: fail_keep_def fail_close_def)

section \<open>Descriptors are not leaked\<close>

text \<open>A routine started on an open socket ends with it open exactly when it reports success.\<close>

definition open_iff_ok :: "bool \<times> sock \<Rightarrow> bool" where
  "open_iff_ok r \<longleftrightarrow> sk_open (snd r) = fst r"

lemma open_iff_ok_simps [simp]:
  "open_iff_ok (fail_close s)" "sk_open s \<Longrightarrow> open_iff_ok (True, s)"
  by (simp_all add: open_iff_ok_def fail_close_def sk_close_def)

lemma send_or_open:
  "sk_open s \<Longrightarrow> (\<And>s'. sk_open s' \<Longrightarrow> open_iff_ok (k s')) \<Longrightarrow> open_iff_ok (send_or fail_close b s k)"
  by (auto simp: send_or_def dest: send_all_frame split: prod.splits bool.splits)

lemma recv_or_open:
  "sk_open s \<Longrightarrow> (\<And>d s'. sk_open s' \<Longrightarrow> open_iff_ok (k d s')) \<Longrightarrow> open_iff_ok (recv_or fail_close n s k)"
  by (auto simp: recv_or_def dest: recv_all_frame split: prod.splits option.splits)

section \<open>\<^verbatim>\<open>tcp_connect\<close>\<close>

text \<open>
  What the system answers for one address of the \<^verbatim>\<open>getaddrinfo\<close> list: no descriptor, a descriptor
  whose \<^verbatim>\<open>connect\<close> fails, or a connected one.  The resolver and the network are the parameter
  \<open>net\<close>; \<open>None\<close> is a failing \<^verbatim>\<open>getaddrinfo\<close>.
\<close>

datatype addr_outcome = No_socket | Connect_fails sock | Connected sock

type_synonym network = "string \<Rightarrow> int \<Rightarrow> addr_outcome list option"

text \<open>The descriptors that were created, in order, and the connected one.\<close>

fun try_addrs :: "addr_outcome list \<Rightarrow> sock list \<Rightarrow> sock list \<times> sock option" where
  "try_addrs [] made = (made, None)"
| "try_addrs (No_socket # rp) made = try_addrs rp made"
| "try_addrs (Connect_fails s # rp) made = try_addrs rp (made @ [sk_close s])"
| "try_addrs (Connected s # rp) made = (made, Some (s \<lparr> sk_open := True \<rparr>))"

definition tcp_connect :: "network \<Rightarrow> string \<Rightarrow> int \<Rightarrow> sock list \<times> sock option" where
  "tcp_connect net host port = (case net host port of None \<Rightarrow> ([], None) | Some res \<Rightarrow> try_addrs res [])"

text \<open>The result of a connect routine: success, and every descriptor it made, the last one the result.\<close>

type_synonym connect_result = "bool \<times> sock list"

definition on_connection :: "sock list \<times> sock option \<Rightarrow> (sock \<Rightarrow> bool \<times> sock) \<Rightarrow> connect_result" where
  "on_connection c k = (case c of (made, None) \<Rightarrow> (False, made)
     | (made, Some s) \<Rightarrow> (case k s of (ok, s') \<Rightarrow> (ok, made @ [s'])))"

definition no_leak :: "connect_result \<Rightarrow> bool" where
  "no_leak r \<longleftrightarrow> (if fst r then snd r \<noteq> [] \<and> sk_open (last (snd r)) \<and> (\<forall>s \<in> set (butlast (snd r)). \<not> sk_open s)
     else \<forall>s \<in> set (snd r). \<not> sk_open s)"

lemma try_addrs_closed:
  "try_addrs rp made = (made', r) \<Longrightarrow> \<forall>s \<in> set made. \<not> sk_open s \<Longrightarrow>
   (\<forall>s \<in> set made'. \<not> sk_open s) \<and> (\<forall>s. r = Some s \<longrightarrow> sk_open s)"
  by (induction rp made rule: try_addrs.induct) (auto simp: sk_close_def)

lemma on_connection_no_leak:
  assumes "\<And>s. sk_open s \<Longrightarrow> open_iff_ok (k s)"
  shows "no_leak (on_connection (tcp_connect net h p) k)"
proof -
  obtain made r where t: "tcp_connect net h p = (made, r)" by force
  have m: "(\<forall>s \<in> set made. \<not> sk_open s) \<and> (\<forall>s. r = Some s \<longrightarrow> sk_open s)"
  proof (cases "net h p")
    case None
    thus ?thesis using t by (auto simp: tcp_connect_def)
  next
    case (Some rp)
    hence "try_addrs rp [] = (made, r)" using t by (simp add: tcp_connect_def)
    thus ?thesis by (rule try_addrs_closed) simp
  qed
  show ?thesis
  proof (cases r)
    case None
    thus ?thesis using m t by (simp add: no_leak_def on_connection_def)
  next
    case (Some s)
    have "open_iff_ok (k s)" using assms m Some by blast
    thus ?thesis using m t Some by (auto simp: no_leak_def on_connection_def open_iff_ok_def split: prod.splits)
  qed
qed

end
