(* ===== verification/Socks.thy ===== *)
theory Socks
  imports Net Types
begin

text \<open>
  \<^verbatim>\<open>proxy_socks.c\<close>: the SOCKS4a and SOCKS5 clients.  Each routine is the sequence of
  sends, receives, tests and early returns of the source; every failure after the TCP connection
  closes the descriptor.
\<close>

definition port_hi :: "int \<Rightarrow> byte" where "port_hi p = word_of_int (p div 256 mod 256)"
definition port_lo :: "int \<Rightarrow> byte" where "port_lo p = word_of_int (p mod 256)"

definition opt_str :: "string \<Rightarrow> string option" where
  "opt_str s = (if s \<noteq> [] then Some s else None)"

section \<open>SOCKS4a\<close>

definition socks4_request :: "string \<Rightarrow> string \<Rightarrow> int \<Rightarrow> bytes" where
  "socks4_request uid dom_name dst_port =
     [0x04, 0x01, port_hi dst_port, port_lo dst_port, 0x00, 0x00, 0x00, 0x01]
     @ bytes_of uid @ [0x00] @ bytes_of dom_name @ [0x00]"

definition pf_socks4_connect ::
  "network \<Rightarrow> string option \<Rightarrow> int \<Rightarrow> string option \<Rightarrow> int \<Rightarrow> string option \<Rightarrow> connect_result" where
  "pf_socks4_connect net proxy_host proxy_port dst_host dst_port userid =
     (case (proxy_host, dst_host) of (Some ph, Some dh) \<Rightarrow>
        if dst_port < 1 \<or> dst_port > 65535 then (False, [])
        else let uid = (case userid of None \<Rightarrow> [] | Some u \<Rightarrow> u) in
          if 8 + length uid + 1 + length dh + 1 > PF_BUF_SIZE then (False, [])
          else on_connection (tcp_connect net ph proxy_port) (\<lambda>s.
            send_or fail_close (socks4_request uid dh dst_port) s (\<lambda>s.
            recv_or fail_close 8 s (\<lambda>resp s.
            if resp ! 1 \<noteq> 0x5A then fail_close s else (True, s))))
      | _ \<Rightarrow> (False, []))"

section \<open>SOCKS5\<close>

definition socks5_greeting :: "bool \<Rightarrow> bytes" where
  "socks5_greeting has_auth = 0x05 # (if has_auth then [0x02, 0x00, 0x02] else [0x01, 0x00])"

definition socks5_credentials :: "string \<Rightarrow> string \<Rightarrow> bytes" where
  "socks5_credentials u p = [0x01, of_nat (length u)] @ bytes_of u @ [of_nat (length p)] @ bytes_of p"

definition socks5_request :: "string \<Rightarrow> int \<Rightarrow> bytes" where
  "socks5_request d port = [0x05, 0x01, 0x00, 0x03, of_nat (length d)] @ bytes_of d @ [port_hi port, port_lo port]"

text \<open>Step 5: the bound address is consumed.\<close>

definition socks5_drain :: "byte \<Rightarrow> sock \<Rightarrow> bool \<times> sock" where
  "socks5_drain atyp s =
     (if atyp = 0x01 then recv_or fail_close (4 + 2) s (\<lambda>_ s. (True, s))
      else if atyp = 0x04 then recv_or fail_close (16 + 2) s (\<lambda>_ s. (True, s))
      else if atyp = 0x03 then recv_or fail_close 1 s (\<lambda>d s. recv_or fail_close (unat (d ! 0) + 2) s (\<lambda>_ s. (True, s)))
      else fail_close s)"

text \<open>Steps 3 to 5.\<close>

definition socks5_command :: "string \<Rightarrow> int \<Rightarrow> sock \<Rightarrow> bool \<times> sock" where
  "socks5_command dh dst_port s =
     send_or fail_close (socks5_request dh dst_port) s (\<lambda>s.
     recv_or fail_close 4 s (\<lambda>resp s.
     if resp ! 1 \<noteq> 0x00 then fail_close s else socks5_drain (resp ! 3) s))"

definition pf_socks5_connect ::
  "network \<Rightarrow> string option \<Rightarrow> int \<Rightarrow> string option \<Rightarrow> int \<Rightarrow> string option \<Rightarrow> string option \<Rightarrow> connect_result" where
  "pf_socks5_connect net proxy_host proxy_port dst_host dst_port username password =
     (case (proxy_host, dst_host) of (Some ph, Some dh) \<Rightarrow>
        if dst_port < 1 \<or> dst_port > 65535 then (False, [])
        else let has_auth = (case username of Some u \<Rightarrow> u \<noteq> [] | None \<Rightarrow> False);
                 user = (if has_auth then the username else []);
                 pass = (if has_auth then (case password of Some p \<Rightarrow> p | None \<Rightarrow> []) else []) in
          if length dh > 255 then (False, [])
          else if length user > 255 \<or> length pass > 255 then (False, [])
          else on_connection (tcp_connect net ph proxy_port) (\<lambda>s.
            send_or fail_close (socks5_greeting has_auth) s (\<lambda>s.
            recv_or fail_close 2 s (\<lambda>buf s.
            if buf ! 0 \<noteq> 0x05 then fail_close s
            else let auth_method = buf ! 1 in
              if auth_method = 0xFF then fail_close s
              else if auth_method = 0x02 then
                (if \<not> has_auth then fail_close s
                 else send_or fail_close (socks5_credentials user pass) s (\<lambda>s.
                   recv_or fail_close 2 s (\<lambda>buf s.
                   if buf ! 1 \<noteq> 0x00 then fail_close s else socks5_command dh dst_port s)))
              else socks5_command dh dst_port s)))
      | _ \<Rightarrow> (False, []))"

text \<open>
  \<^verbatim>\<open>pf_socks_test\<close>: the latency in milliseconds, or -1.  The clock readings are arguments
  (seconds, nanoseconds); the descriptor is closed.
\<close>

definition elapsed_ms :: "int \<times> int \<Rightarrow> int \<times> int \<Rightarrow> int" where
  "elapsed_ms t0 t1 = int32_of ((fst t1 - fst t0) * 1000 +
     (let dn = snd t1 - snd t0 in if dn \<ge> 0 then dn div 1000000 else - ((- dn) div 1000000)))"

definition close_last :: "connect_result \<Rightarrow> connect_result" where
  "close_last r = (fst r, butlast (snd r) @ [sk_close (last (snd r))])"

definition pf_socks_test :: "network \<Rightarrow> int \<times> int \<Rightarrow> int \<times> int \<Rightarrow> pf_proxy \<Rightarrow> int \<times> sock list" where
  "pf_socks_test net t0 t1 proxy =
     (case px_type proxy of
        PF_PROXY_SOCKS4 \<Rightarrow>
          (let r = pf_socks4_connect net (Some (px_host proxy)) (int (unat (px_port proxy))) (Some ''httpbin.org'') 443
                     (opt_str (px_username proxy)) in
           if \<not> fst r then (-1, snd r) else (elapsed_ms t0 t1, snd (close_last r)))
      | PF_PROXY_SOCKS5 \<Rightarrow>
          (let r = pf_socks5_connect net (Some (px_host proxy)) (int (unat (px_port proxy))) (Some ''httpbin.org'') 443
                     (opt_str (px_username proxy)) (opt_str (px_password proxy)) in
           if \<not> fst r then (-1, snd r) else (elapsed_ms t0 t1, snd (close_last r)))
      | _ \<Rightarrow> (-1, []))"

section \<open>Message formats\<close>

text \<open>A server's view: the request is read back from the bytes (RFC 1928, RFC 1929, SOCKS4a).\<close>

definition parse_port :: "byte \<Rightarrow> byte \<Rightarrow> int" where
  "parse_port a b = int (unat (u16be a b))"

definition parse_socks5_request :: "bytes \<Rightarrow> (bytes \<times> int) option" where
  "parse_socks5_request m = (case m of
     v # c # r # t # n # rest \<Rightarrow>
       if v = 5 \<and> c = 1 \<and> r = 0 \<and> t = 3 \<and> length rest = unat n + 2
       then Some (take (unat n) rest, parse_port (rest ! unat n) (rest ! (unat n + 1)))
       else None
   | _ \<Rightarrow> None)"

definition parse_socks5_credentials :: "bytes \<Rightarrow> (bytes \<times> bytes) option" where
  "parse_socks5_credentials m = (case m of
     v # n # rest \<Rightarrow>
       (case drop (unat n) rest of k # rest2 \<Rightarrow>
          if v = 1 \<and> unat n \<le> length rest \<and> length rest2 = unat k then Some (take (unat n) rest, rest2) else None
        | _ \<Rightarrow> None)
   | _ \<Rightarrow> None)"

definition parse_socks4_request :: "bytes \<Rightarrow> (bytes \<times> bytes \<times> int) option" where
  "parse_socks4_request m = (case m of
     v # c # p1 # p0 # a # b # c' # d # rest \<Rightarrow>
       (let uid = takeWhile (\<lambda>x. x \<noteq> 0) rest; r1 = drop (length uid + 1) rest;
            host = takeWhile (\<lambda>x. x \<noteq> 0) r1 in
        if v = 4 \<and> c = 1 \<and> a = 0 \<and> b = 0 \<and> c' = 0 \<and> d \<noteq> 0 \<and> drop (length host) r1 = [0]
        then Some (uid, host, parse_port p1 p0) else None)
   | _ \<Rightarrow> None)"

lemma unat_port:
  assumes "0 \<le> p" "p < 65536"
  shows "int (unat (port_hi p)) = p div 256" "int (unat (port_lo p)) = p mod 256"
proof -
  have "p div 256 < 256" using assms by linarith
  thus "int (unat (port_hi p)) = p div 256" "int (unat (port_lo p)) = p mod 256"
    using assms by (simp_all add: port_hi_def port_lo_def uint_word_of_int)
qed

lemma parse_port_port:
  assumes "1 \<le> p" "p \<le> 65535"
  shows "parse_port (port_hi p) (port_lo p) = p"
  using unat_port [of p] assms by (simp add: parse_port_def unat_u16be)

lemma unat_byte_length: "length xs \<le> 255 \<Longrightarrow> unat (of_nat (length xs) :: byte) = length xs"
  by (rule unat_of_nat_lt) simp

lemma parse_socks5_request_enc:
  assumes "length d \<le> 255" "1 \<le> p" "p \<le> 65535"
  shows "parse_socks5_request (socks5_request d p) = Some (bytes_of d, p)"
  using assms unat_byte_length [OF assms(1)] parse_port_port [OF assms(2,3)]
  by (simp add: parse_socks5_request_def socks5_request_def nth_append)

lemma parse_socks5_credentials_enc:
  assumes "length u \<le> 255" "length p \<le> 255"
  shows "parse_socks5_credentials (socks5_credentials u p) = Some (bytes_of u, bytes_of p)"
  using unat_byte_length [OF assms(1)] unat_byte_length [OF assms(2)]
  by (simp add: parse_socks5_credentials_def socks5_credentials_def)

lemma bytes_of_no_nul: "CHR 0x00 \<notin> set s \<Longrightarrow> \<forall>x \<in> set (bytes_of s). x \<noteq> 0"
proof
  fix x assume a: "CHR 0x00 \<notin> set s" "x \<in> set (bytes_of s)"
  then obtain c where c: "c \<in> set s" "x = of_char c" by (auto simp: bytes_of_def)
  have "[c] = cstring (bytes_of [c])" using a c by (subst cstring_bytes_of) auto
  thus "x \<noteq> 0" using c by (auto simp: cstring_def bytes_of_def)
qed

lemma takeWhile_bytes_of:
  assumes "CHR 0x00 \<notin> set s"
  shows "takeWhile (\<lambda>x. x \<noteq> 0) (bytes_of s @ 0 # r) = bytes_of s"
  using bytes_of_no_nul [OF assms] by (simp add: takeWhile_append)

lemma parse_socks4_request_enc:
  assumes "CHR 0x00 \<notin> set u" "CHR 0x00 \<notin> set d" "1 \<le> p" "p \<le> 65535"
  shows "parse_socks4_request (socks4_request u d p) = Some (bytes_of u, bytes_of d, p)"
  using takeWhile_bytes_of [OF assms(1)] takeWhile_bytes_of [OF assms(2)] parse_port_port [OF assms(3,4)]
  by (simp add: parse_socks4_request_def socks4_request_def Let_def)

section \<open>No descriptor is leaked\<close>

lemma socks5_drain_open: "sk_open s \<Longrightarrow> open_iff_ok (socks5_drain t s)"
  by (auto simp: socks5_drain_def intro!: recv_or_open)

lemma socks5_command_open: "sk_open s \<Longrightarrow> open_iff_ok (socks5_command d p s)"
  by (auto simp: socks5_command_def intro!: recv_or_open send_or_open socks5_drain_open)

lemma pf_socks5_connect_no_leak: "no_leak (pf_socks5_connect net ph pp dh dp u p)"
  unfolding pf_socks5_connect_def Let_def
  by (auto simp: no_leak_def [of "(False, [])"] split: option.splits
      intro!: on_connection_no_leak send_or_open recv_or_open socks5_command_open)

lemma pf_socks4_connect_no_leak: "no_leak (pf_socks4_connect net ph pp dh dp u)"
  unfolding pf_socks4_connect_def Let_def
  by (auto simp: no_leak_def [of "(False, [])"] split: option.splits
      intro!: on_connection_no_leak send_or_open recv_or_open)

lemma close_last_closed: "no_leak r \<Longrightarrow> fst r \<Longrightarrow> \<forall>s \<in> set (snd (close_last r)). \<not> sk_open s"
  by (auto simp: no_leak_def close_last_def sk_close_def)

lemma test_result_closed:
  "no_leak r \<Longrightarrow> \<forall>s \<in> set (snd (if \<not> fst r then (x, snd r) else (y, snd (close_last r)))). \<not> sk_open s"
  using close_last_closed [of r] by (auto simp: no_leak_def split: if_splits)

lemma pf_socks_test_closed: "\<forall>s \<in> set (snd (pf_socks_test net t0 t1 p)). \<not> sk_open s"
proof (cases "px_type p")
  case PF_PROXY_SOCKS4
  show ?thesis unfolding pf_socks_test_def PF_PROXY_SOCKS4 pf_proxy_type.case Let_def
    by (rule test_result_closed [OF pf_socks4_connect_no_leak])
next
  case PF_PROXY_SOCKS5
  show ?thesis unfolding pf_socks_test_def PF_PROXY_SOCKS5 pf_proxy_type.case Let_def
    by (rule test_result_closed [OF pf_socks5_connect_no_leak])
qed (simp_all add: pf_socks_test_def)

section \<open>A successful SOCKS5 exchange\<close>

text \<open>The bound-address field of a reply, per address type.\<close>

definition bound_addr :: "byte \<Rightarrow> bytes \<Rightarrow> bool" where
  "bound_addr atyp bnd \<longleftrightarrow> (atyp = 1 \<and> length bnd = 6) \<or> (atyp = 4 \<and> length bnd = 18)
     \<or> (atyp = 3 \<and> bnd \<noteq> [] \<and> length (tl bnd) = unat (hd bnd) + 2)"

lemma socks5_drain_ends:
  assumes "sk_at out (bnd @ rest) c s" "bound_addr atyp bnd"
  shows "ends_at (socks5_drain atyp s) out rest c"
proof -
  consider "atyp = 1" "length bnd = 6" | "atyp = 4" "length bnd = 18"
    | "atyp = 3" "bnd \<noteq> []" "length (tl bnd) = unat (hd bnd) + 2"
    using assms(2) by (auto simp: bound_addr_def)
  thus ?thesis
  proof cases
    case 3
    have "bnd = hd bnd # tl bnd" using 3(2) by simp
    hence a: "sk_at out ([hd bnd] @ (tl bnd @ rest)) c s" using assms(1) by (metis append_Cons append_Nil)
    have "ends_at (recv_or fail_close (unat ([hd bnd] ! 0) + 2) s' (\<lambda>_ s. (True, s))) out rest c"
      if "sk_at out (tl bnd @ rest) c s'" for s'
      by (rule stream.rcv_step_ends [OF that]) (use 3 in \<open>simp_all add: ends_at_True\<close>)
    hence "ends_at (recv_or fail_close 1 s (\<lambda>d s. recv_or fail_close (unat (d ! 0) + 2) s (\<lambda>_ s. (True, s)))) out rest c"
      by (intro stream.rcv_step_ends [OF a]) simp_all
    thus ?thesis using 3(1) by (simp add: socks5_drain_def)
  qed (use assms(1) in \<open>auto simp: socks5_drain_def intro!: stream.rcv_step_ends [where d = bnd and pend = rest] elim: ends_at_True\<close>)
qed

lemma socks5_command_ends:
  assumes "sk_at out ([v, 0, r, atyp] @ bnd @ rest) c s" "bound_addr atyp bnd"
    and "length (socks5_request dh port) \<le> c"
  shows "ends_at (socks5_command dh port s) (out @ socks5_request dh port) rest (c - length (socks5_request dh port))"
  unfolding socks5_command_def
  using assms
  by (auto intro!: stream.snd_step_ends [OF assms(1)] stream.rcv_step_ends [where d = "[v, 0, r, atyp]" and pend = "bnd @ rest"]
      intro: socks5_drain_ends)

section \<open>Properties\<close>

text \<open>
  The requests the SOCKS clients send are read back by a server as meant: the SOCKS5 CONNECT
  request as the destination host and port, the RFC 1929 message as the user name and password,
  and the SOCKS4a request as the user id, host and port.
\<close>

theorem socks_requests_roundtrip:
  assumes "1 \<le> port" "port \<le> 65535" "length host \<le> 255" "length u \<le> 255" "length p \<le> 255"
    and "CHR 0x00 \<notin> set u" "CHR 0x00 \<notin> set host"
  shows "parse_socks5_request (socks5_request host port) = Some (bytes_of host, port)
    \<and> parse_socks5_credentials (socks5_credentials u p) = Some (bytes_of u, bytes_of p)
    \<and> parse_socks4_request (socks4_request u host port) = Some (bytes_of u, bytes_of host, port)"
  using parse_socks5_request_enc [OF assms(3,1,2)] parse_socks5_credentials_enc [OF assms(4,5)]
    parse_socks4_request_enc [OF assms(6,7,1,2)] by simp

theorem socks_requests_roundtrip_witness:
  "parse_socks5_request (socks5_request ''sky.ch'' 443) = Some (bytes_of ''sky.ch'', 443)"
  using socks_requests_roundtrip [of 443 "''sky.ch''" "''bob''" "''pw''"] by simp

end
