(* ===== verification/Http_Connect.thy ===== *)
theory Http_Connect
  imports Socks
begin

text \<open>
  \<^verbatim>\<open>proxy_http.c\<close>: the HTTP CONNECT client.  The Base64 routine \<^verbatim>\<open>EVP_EncodeBlock\<close>
  belongs to OpenSSL and is the parameter \<open>evp\<close>.
\<close>

definition crlf :: string where "crlf = [CHR 0x0D, CHR 0x0A]"

definition RESP_BUF_SIZE :: nat where "RESP_BUF_SIZE = 4096"

section \<open>The request\<close>

definition connect_line :: "string \<Rightarrow> int \<Rightarrow> string" where
  "connect_line dh port = ''CONNECT '' @ dh @ '':'' @ show_nat (nat port) @ '' HTTP/1.1'' @ crlf
     @ ''Host: '' @ dh @ '':'' @ show_nat (nat port) @ crlf"

definition auth_line :: "string \<Rightarrow> string" where
  "auth_line b64 = ''Proxy-Authorization: Basic '' @ b64 @ crlf"

definition creds_of :: "string \<Rightarrow> string option \<Rightarrow> string" where
  "creds_of u password = u @ '':'' @ (case password of Some p \<Rightarrow> p | None \<Rightarrow> [])"

definition base64_encode :: "(bytes \<Rightarrow> string) \<Rightarrow> string \<Rightarrow> nat \<Rightarrow> string option" where
  "base64_encode evp src dst_size = (let out = evp (bytes_of src) in
     if length out \<ge> dst_size then None else Some out)"

section \<open>The response\<close>

text \<open>Read until the header terminator shows up in the (NUL-terminated) buffer.\<close>

definition header_end :: string where "header_end = crlf @ crlf"

function http_read_loop :: "bytes \<Rightarrow> sock \<Rightarrow> bytes option \<times> sock" where
  "http_read_loop resp s =
     (if length resp < RESP_BUF_SIZE - 1 then
        (case sk_recv (RESP_BUF_SIZE - 1 - length resp) s of
           (None, s') \<Rightarrow> (None, s')
         | (Some c, s') \<Rightarrow>
             if strstr (cstring (resp @ c)) header_end \<noteq> None then (Some (resp @ c), s')
             else http_read_loop (resp @ c) s')
      else (None, s))"
  by pat_completeness auto
termination
proof (relation "measure (\<lambda>(r, s). RESP_BUF_SIZE - 1 - length r)")
  fix resp :: bytes and s x t c
  assume a: "length resp < RESP_BUF_SIZE - 1" "(x, t) = sk_recv (RESP_BUF_SIZE - 1 - length resp) s" "x = Some c"
  hence "0 < length c" using sk_recv_len by metis
  hence "RESP_BUF_SIZE - 1 - length (resp @ c) < RESP_BUF_SIZE - 1 - length resp"
    using a(1) unfolding length_append by linarith
  thus "((resp @ c, t), resp, s) \<in> measure (\<lambda>(r, s). RESP_BUF_SIZE - 1 - length r)" by simp
qed simp

declare http_read_loop.simps [simp del]

definition http_status :: "string \<Rightarrow> int option" where
  "http_status resp = (case strchr resp (CHR '' '') of None \<Rightarrow> None
     | Some sp \<Rightarrow> Some (int32_of (strtol10 (drop (sp + 1) resp))))"

definition pf_http_connect ::
  "(bytes \<Rightarrow> string) \<Rightarrow> network \<Rightarrow> string option \<Rightarrow> int \<Rightarrow> string option \<Rightarrow> int \<Rightarrow> string option \<Rightarrow> string option \<Rightarrow> connect_result" where
  "pf_http_connect evp net proxy_host proxy_port dst_host dst_port username password =
     (case (proxy_host, dst_host) of (Some ph, Some dh) \<Rightarrow>
        if dst_port < 1 \<or> dst_port > 65535 then (False, [])
        else let has_auth = (case username of Some u \<Rightarrow> u \<noteq> [] | None \<Rightarrow> False) in
          on_connection (tcp_connect net ph proxy_port) (\<lambda>s.
            let auth = (if has_auth then
                  (let creds = creds_of (the username) password in
                   if length creds \<ge> 386 then None
                   else map_option auth_line (base64_encode evp creds 512))
                else Some []) in
            case auth of None \<Rightarrow> fail_close s
            | Some a \<Rightarrow>
              (let req = connect_line dh dst_port @ a @ crlf in
               if length req \<ge> PF_BUF_SIZE then fail_close s
               else send_or fail_close (bytes_of req) s (\<lambda>s.
                 case http_read_loop [] s of
                   (None, s) \<Rightarrow> fail_close s
                 | (Some resp, s) \<Rightarrow>
                     (case http_status (cstring resp) of
                        None \<Rightarrow> fail_close s
                      | Some status_code \<Rightarrow>
                          if status_code = 407 then fail_close s
                          else if status_code \<noteq> 200 then fail_close s
                          else (True, s)))))
      | _ \<Rightarrow> (False, []))"

definition pf_http_test ::
  "(bytes \<Rightarrow> string) \<Rightarrow> network \<Rightarrow> int \<times> int \<Rightarrow> int \<times> int \<Rightarrow> pf_proxy \<Rightarrow> int \<times> sock list" where
  "pf_http_test evp net t0 t1 proxy =
     (if px_type proxy \<noteq> PF_PROXY_HTTP then (-1, [])
      else let r = pf_http_connect evp net (Some (px_host proxy)) (int (unat (px_port proxy))) (Some ''httpbin.org'') 443
                     (opt_str (px_username proxy)) (opt_str (px_password proxy)) in
        if \<not> fst r then (-1, snd r) else (elapsed_ms t0 t1, snd (close_last r)))"

section \<open>Descriptors\<close>

lemma http_read_loop_frame:
  "http_read_loop resp s = (r, s') \<Longrightarrow> sk_tx s' = sk_tx s \<and> sk_open s' = sk_open s"
proof (induction resp s arbitrary: r s' rule: http_read_loop.induct)
  case (1 resp s)
  show ?case
    using 1(2) 1(1) sk_recv_frame
    by (subst (asm) http_read_loop.simps) (fastforce split: prod.splits option.splits if_splits)
qed

lemma pf_http_connect_no_leak: "no_leak (pf_http_connect evp net ph pp dh dp u p)"
proof -
  have "open_iff_ok (case http_read_loop [] s of (None, s) \<Rightarrow> fail_close s
     | (Some resp, s) \<Rightarrow> (case http_status (cstring resp) of None \<Rightarrow> fail_close s
        | Some c \<Rightarrow> if c = 407 then fail_close s else if c \<noteq> 200 then fail_close s else (True, s)))"
    if "sk_open s" for s
    using that http_read_loop_frame [of "[]" s] by (auto split: prod.splits option.splits)
  thus ?thesis
    unfolding pf_http_connect_def Let_def
    by (auto simp: no_leak_def [of "(False, [])"] split: option.splits
        intro!: on_connection_no_leak send_or_open)
qed

lemma pf_http_test_closed: "\<forall>s \<in> set (snd (pf_http_test evp net t0 t1 p)). \<not> sk_open s"
proof (cases "px_type p = PF_PROXY_HTTP")
  case True
  show ?thesis unfolding pf_http_test_def Let_def True
    using test_result_closed [OF pf_http_connect_no_leak] by (simp only: simp_thms if_False)
qed (simp add: pf_http_test_def)

section \<open>The reading loop\<close>

text \<open>
  The loop stops with a prefix of the pending bytes that contains the terminator: all the segments
  up to the one that completes it.
\<close>

lemma http_read_loop_Some:
  "http_read_loop resp s = (Some d, s') \<Longrightarrow>
   (\<exists>c. d = resp @ c \<and> sk_pending s = c @ sk_pending s') \<and> length d < RESP_BUF_SIZE
     \<and> strstr (cstring d) header_end \<noteq> None"
proof (induction resp s arbitrary: d s' rule: http_read_loop.induct)
  case (1 resp s)
  show ?case
  proof (cases "length resp < RESP_BUF_SIZE - 1")
    case True
    obtain x t where x: "sk_recv (RESP_BUF_SIZE - 1 - length resp) s = (x, t)" by force
    then obtain c where c: "x = Some c" using 1(2) True by (cases x) (simp_all add: http_read_loop.simps [of resp s])
    have l: "length c \<le> RESP_BUF_SIZE - 1 - length resp" "sk_pending s = c @ sk_pending t"
      using x c sk_recv_len sk_recv_pending by blast+
    show ?thesis
    proof (cases "strstr (cstring (resp @ c)) header_end = None")
      case False
      thus ?thesis using 1(2) True x c l by (auto simp: http_read_loop.simps [of resp s])
    next
      case t: True
      hence "http_read_loop (resp @ c) t = (Some d, s')"
        using 1(2) True x c by (simp add: http_read_loop.simps [of resp s])
      thus ?thesis using 1(1) [OF True x [symmetric] c] t l by auto
    qed
  next
    case False
    thus ?thesis using 1(2) by (simp add: http_read_loop.simps [of resp s])
  qed
qed

end
