(* ===== verification/Chain.thy ===== *)
theory Chain
  imports Http_Connect
begin

text \<open>
  \<^verbatim>\<open>chain.c\<close>: the handshakes on an already connected descriptor (which the caller closes on
  failure), the Base64 encoder of the file, and the multi-hop connection.
\<close>

section \<open>SOCKS on an existing descriptor\<close>

definition socks5_negotiate_on_fd ::
  "string option \<Rightarrow> int \<Rightarrow> string option \<Rightarrow> string option \<Rightarrow> sock \<Rightarrow> bool \<times> sock" where
  "socks5_negotiate_on_fd dst_host dst_port username password fd =
     (case dst_host of None \<Rightarrow> fail_keep fd | Some dh \<Rightarrow>
      if dst_port < 1 \<or> dst_port > 65535 then fail_keep fd
      else let has_auth = (case username of Some u \<Rightarrow> u \<noteq> [] | None \<Rightarrow> False);
               user = (if has_auth then the username else []);
               pass = (case password of Some p \<Rightarrow> if has_auth then p else [] | None \<Rightarrow> []);
               command = (\<lambda>fd.
                 send_or fail_keep ([0x05, 0x01, 0x00, 0x03, of_nat (length dh)] @ bytes_of dh
                     @ [port_hi dst_port, port_lo dst_port]) fd (\<lambda>fd.
                 recv_or fail_keep 4 fd (\<lambda>resp fd.
                 if resp ! 1 \<noteq> 0x00 then fail_keep fd
                 else let atyp = resp ! 3 in
                   if atyp = 0x01 then recv_or fail_keep 6 fd (\<lambda>_ fd. (True, fd))
                   else if atyp = 0x04 then recv_or fail_keep 18 fd (\<lambda>_ fd. (True, fd))
                   else if atyp = 0x03 then recv_or fail_keep 1 fd (\<lambda>dl fd.
                     recv_or fail_keep (unat (dl ! 0) + 2) fd (\<lambda>_ fd. (True, fd)))
                   else fail_keep fd))) in
        if length dh > 255 then fail_keep fd
        else if length user > 255 \<or> length pass > 255 then fail_keep fd
        else send_or fail_keep (if has_auth then [0x05, 0x02, 0x00, 0x02] else [0x05, 0x01, 0x00]) fd (\<lambda>fd.
          recv_or fail_keep 2 fd (\<lambda>buf fd.
          if buf ! 0 \<noteq> 0x05 then fail_keep fd
          else if buf ! 1 = 0xFF then fail_keep fd
          else if buf ! 1 = 0x02 then
            (if \<not> has_auth then fail_keep fd
             else send_or fail_keep ([0x01, of_nat (length user)] @ bytes_of user
                      @ [of_nat (length pass)] @ bytes_of pass) fd (\<lambda>fd.
               recv_or fail_keep 2 fd (\<lambda>buf fd.
               if buf ! 1 \<noteq> 0x00 then fail_keep fd else command fd)))
          else command fd)))"

definition socks4_negotiate_on_fd :: "string option \<Rightarrow> int \<Rightarrow> string option \<Rightarrow> sock \<Rightarrow> bool \<times> sock" where
  "socks4_negotiate_on_fd dst_host dst_port userid fd =
     (case dst_host of None \<Rightarrow> fail_keep fd | Some dh \<Rightarrow>
      if dst_port < 1 \<or> dst_port > 65535 then fail_keep fd
      else let uid = (case userid of None \<Rightarrow> [] | Some u \<Rightarrow> u) in
        if 8 + length uid + 1 + length dh + 1 > PF_BUF_SIZE then fail_keep fd
        else send_or fail_keep ([0x04, 0x01, port_hi dst_port, port_lo dst_port, 0x00, 0x00, 0x00, 0x01]
               @ bytes_of uid @ [0x00] @ bytes_of dh @ [0x00]) fd (\<lambda>fd.
          recv_or fail_keep 8 fd (\<lambda>resp fd.
          if resp ! 1 \<noteq> 0x5A then fail_keep fd else (True, fd))))"

section \<open>The Base64 encoder\<close>

definition b64chars :: string where
  "b64chars = ''ABCDEFGHIJKLMNOPQRSTUVWXYZabcdefghijklmnopqrstuvwxyz0123456789+/''"

definition b64_char :: "u32 \<Rightarrow> char" where
  "b64_char v = b64chars ! unat (v AND 0x3F)"

fun b64_loop :: "bytes \<Rightarrow> string" where
  "b64_loop [] = []"
| "b64_loop [a] =
     (let val = push_bit 16 (ucast a) :: u32 in
      [b64_char (drop_bit 18 val), b64_char (drop_bit 12 val), CHR ''='', CHR ''=''])"
| "b64_loop [a, b] =
     (let val = push_bit 16 (ucast a) OR push_bit 8 (ucast b) :: u32 in
      [b64_char (drop_bit 18 val), b64_char (drop_bit 12 val), b64_char (drop_bit 6 val), CHR ''=''])"
| "b64_loop (a # b # c # rest) =
     (let val = push_bit 16 (ucast a) OR push_bit 8 (ucast b) OR ucast c :: u32 in
      [b64_char (drop_bit 18 val), b64_char (drop_bit 12 val), b64_char (drop_bit 6 val), b64_char val]
      @ b64_loop rest)"

section \<open>HTTP CONNECT on an existing descriptor\<close>

definition http_negotiate_on_fd ::
  "string option \<Rightarrow> int \<Rightarrow> string option \<Rightarrow> string option \<Rightarrow> sock \<Rightarrow> bool \<times> sock" where
  "http_negotiate_on_fd dst_host dst_port username password fd =
     (case dst_host of None \<Rightarrow> fail_keep fd | Some dh \<Rightarrow>
      if dst_port < 1 \<or> dst_port > 65535 then fail_keep fd
      else let has_auth = (case username of Some u \<Rightarrow> u \<noteq> [] | None \<Rightarrow> False);
               clen = length (creds_of (the username) password);
               auth = (if has_auth then
                   (if clen \<ge> 384 then None
                    else Some (auth_line (b64_loop (bytes_of (creds_of (the username) password)))))
                 else Some []) in
        case auth of None \<Rightarrow> fail_keep fd
        | Some a \<Rightarrow>
          (let req = connect_line dh dst_port @ a @ crlf in
           if length req \<ge> PF_BUF_SIZE then fail_keep fd
           else send_or fail_keep (bytes_of req) fd (\<lambda>fd.
             case http_read_loop [] fd of
               (None, fd) \<Rightarrow> fail_keep fd
             | (Some resp, fd) \<Rightarrow>
                 (case strchr (cstring resp) (CHR '' '') of
                    None \<Rightarrow> fail_keep fd
                  | Some sp \<Rightarrow>
                      (let status_code = int32_of (strtol10 (drop (sp + 1) (cstring resp))) in
                       if status_code = 407 then fail_keep fd
                       else if status_code \<noteq> 200 then fail_keep fd
                       else (True, fd))))))"

section \<open>Chains\<close>

definition negotiate_hop_on_fd :: "pf_proxy \<Rightarrow> string \<Rightarrow> int \<Rightarrow> sock \<Rightarrow> bool \<times> sock" where
  "negotiate_hop_on_fd proxy next_host next_port fd =
     (case px_type proxy of
        PF_PROXY_SOCKS5 \<Rightarrow> socks5_negotiate_on_fd (Some next_host) next_port
            (opt_str (px_username proxy)) (opt_str (px_password proxy)) fd
      | PF_PROXY_SOCKS4 \<Rightarrow> socks4_negotiate_on_fd (Some next_host) next_port (opt_str (px_username proxy)) fd
      | PF_PROXY_HTTP \<Rightarrow> http_negotiate_on_fd (Some next_host) next_port
            (opt_str (px_username proxy)) (opt_str (px_password proxy)) fd
      | PF_PROXY_SSH \<Rightarrow> fail_keep fd)"

definition find_proxy :: "pf_proxy list \<Rightarrow> int \<Rightarrow> pf_proxy option" where
  "find_proxy proxies pid = find (\<lambda>p. sint (px_id p) = pid) proxies"

fun hop_lookup :: "pf_proxy list \<Rightarrow> u32 list \<Rightarrow> pf_proxy list option" where
  "hop_lookup proxies [] = Some []"
| "hop_lookup proxies (h # hs) =
     (case find_proxy proxies (sint h) of None \<Rightarrow> None
      | Some p \<Rightarrow> map_option (\<lambda>ps. p # ps) (hop_lookup proxies hs))"

fun negotiate_hops :: "pf_proxy list \<Rightarrow> string \<Rightarrow> int \<Rightarrow> sock \<Rightarrow> bool \<times> sock" where
  "negotiate_hops [] dst_host dst_port fd = (True, fd)"
| "negotiate_hops (p # ps) dst_host dst_port fd =
     (let (next_host, next_port) =
        (case ps of q # _ \<Rightarrow> (px_host q, int (unat (px_port q))) | [] \<Rightarrow> (dst_host, dst_port)) in
      case negotiate_hop_on_fd p next_host next_port fd of
        (False, fd) \<Rightarrow> fail_close fd
      | (True, fd) \<Rightarrow> negotiate_hops ps dst_host dst_port fd)"

definition pf_chain_connect ::
  "network \<Rightarrow> pf_chain \<Rightarrow> pf_proxy list \<Rightarrow> string option \<Rightarrow> int \<Rightarrow> connect_result" where
  "pf_chain_connect net chain proxies dst_host dst_port =
     (case dst_host of None \<Rightarrow> (False, []) | Some dh \<Rightarrow>
      if length (ch_hops chain) < 1 \<or> length (ch_hops chain) > PF_MAX_HOPS then (False, [])
      else if dst_port < 1 \<or> dst_port > 65535 then (False, [])
      else case hop_lookup proxies (ch_hops chain) of
        None \<Rightarrow> (False, [])
      | Some hop_proxies \<Rightarrow>
          (let first = hd hop_proxies in
           if px_type first = PF_PROXY_SSH then (False, [])
           else on_connection (tcp_connect net (px_host first) (int (unat (px_port first))))
             (negotiate_hops hop_proxies dh dst_port)))"

definition pf_chain_test ::
  "network \<Rightarrow> int \<times> int \<Rightarrow> int \<times> int \<Rightarrow> pf_chain \<Rightarrow> pf_proxy list \<Rightarrow> int \<times> sock list" where
  "pf_chain_test net t0 t1 chain proxies =
     (let r = pf_chain_connect net chain proxies (Some ''httpbin.org'') 443 in
      if \<not> fst r then (-1, snd r) else (elapsed_ms t0 t1, snd (close_last r)))"

section \<open>The single-proxy clients agree with the on-descriptor handshakes\<close>

definition close_on_fail :: "bool \<times> sock \<Rightarrow> bool \<times> sock" where
  "close_on_fail r = (if fst r then r else fail_close (snd r))"

lemma close_on_fail_simps [simp]:
  "close_on_fail (fail_keep s) = fail_close s" "close_on_fail (True, s) = (True, s)"
  by (simp_all add: close_on_fail_def fail_keep_def)

lemma close_on_fail_send [simp]:
  "close_on_fail (send_or fail_keep b s k) = send_or fail_close b s (\<lambda>s. close_on_fail (k s))"
  by (simp add: send_or_def split: prod.splits bool.splits)

lemma close_on_fail_recv [simp]:
  "close_on_fail (recv_or fail_keep n s k) = recv_or fail_close n s (\<lambda>d s. close_on_fail (k d s))"
  by (simp add: recv_or_def split: prod.splits option.splits)

lemma close_on_fail_if:
  "close_on_fail (if b then x else y) = (if b then close_on_fail x else close_on_fail y)"
  by simp

lemma on_connection_cong:
  "(\<And>s. k s = k' s) \<Longrightarrow> on_connection c k = on_connection c k'"
  by (metis ext)

lemma socks5_connect_negotiate:
  assumes "1 \<le> dp" "dp \<le> 65535" "length dh \<le> 255"
    and "\<And>x. u = Some x \<Longrightarrow> length x \<le> 255" "\<And>x. p = Some x \<Longrightarrow> length x \<le> 255"
  shows "pf_socks5_connect net (Some ph) pp (Some dh) dp u p =
    on_connection (tcp_connect net ph pp) (\<lambda>s. close_on_fail (socks5_negotiate_on_fd (Some dh) dp u p s))"
proof -
  have g: "\<not> (dp < 1 \<or> 65535 < dp)" "\<not> 255 < length dh" using assms by auto
  have l: "length (the u) \<le> 255" if "u \<noteq> None" using that assms(4) by auto
  have lp: "length (the p) \<le> 255" if "p \<noteq> None" using that assms(5) by auto
  show ?thesis
    unfolding pf_socks5_connect_def socks5_negotiate_on_fd_def socks5_command_def socks5_drain_def
      socks5_greeting_def socks5_credentials_def socks5_request_def Let_def
    using g l lp
    by (cases u; cases p) (auto simp: close_on_fail_if intro!: on_connection_cong cong: if_cong)
qed

lemma socks4_connect_negotiate:
  assumes "1 \<le> dp" "dp \<le> 65535" "8 + length (case u of None \<Rightarrow> [] | Some x \<Rightarrow> x) + 1 + length dh + 1 \<le> PF_BUF_SIZE"
  shows "pf_socks4_connect net (Some ph) pp (Some dh) dp u =
    on_connection (tcp_connect net ph pp) (\<lambda>s. close_on_fail (socks4_negotiate_on_fd (Some dh) dp u s))"
  unfolding pf_socks4_connect_def socks4_negotiate_on_fd_def socks4_request_def Let_def
  using assms by (auto simp: close_on_fail_if intro!: on_connection_cong cong: if_cong)

section \<open>Base64\<close>

definition b64_val :: "char \<Rightarrow> nat" where
  "b64_val c = (case find_index (\<lambda>x. x = c) b64chars of Some i \<Rightarrow> i | None \<Rightarrow> 0)"

text \<open>The decoder of RFC 4648 for padded groups of four characters.\<close>

fun b64_decode :: "string \<Rightarrow> bytes" where
  "b64_decode (w # x # y # z # r) =
     (let n = ((b64_val w * 64 + b64_val x) * 64 + b64_val y) * 64 + b64_val z in
      (if y = CHR ''='' then [of_nat (n div 65536)]
       else if z = CHR ''='' then [of_nat (n div 65536), of_nat (n div 256)]
       else [of_nat (n div 65536), of_nat (n div 256), of_nat n]) @ b64_decode r)"
| "b64_decode s = []"

lemma b64chars_table:
  assumes "i < 64"
  shows "b64_val (b64chars ! i) = i" "b64chars ! i \<noteq> CHR ''=''"
proof -
  have "list_all (\<lambda>i. b64_val (b64chars ! i) = i \<and> b64chars ! i \<noteq> CHR ''='') [0 ..< 64]"
    by code_simp
  thus "b64_val (b64chars ! i) = i" "b64chars ! i \<noteq> CHR ''=''"
    using assms by (auto simp: list_all_iff)
qed

lemma unat_and_63: "unat (v AND 0x3F :: u32) = unat v mod 64"
proof -
  have "v AND 0x3F = take_bit 6 v" by (simp add: take_bit_eq_mask mask_eq_exp_minus_1)
  hence "unat (v AND 0x3F) = take_bit 6 (unat v)" by (simp only: unsigned_take_bit_eq)
  thus ?thesis by (simp add: take_bit_eq_mod)
qed

lemma b64_char_val: "b64_val (b64_char v) = unat v mod 64" "b64_char v \<noteq> CHR ''=''"
  using b64chars_table [of "unat v mod 64"] by (simp_all add: b64_char_def unat_and_63)

lemma unat_b64_word:
  "unat (push_bit 16 (ucast a) OR push_bit 8 (ucast b) OR ucast c :: u32) = unat (a::byte) * 65536 + unat (b::byte) * 256 + unat (c::byte)"
proof -
  have d1: "push_bit 16 (ucast a) AND push_bit 8 (ucast b) = (0 :: u32)"
    by (rule bit_word_eqI) (auto simp: bit_simps dest: bit_imp_le_length)
  have d2: "(push_bit 16 (ucast a) OR push_bit 8 (ucast b)) AND ucast c = (0 :: u32)"
    by (rule bit_word_eqI) (auto simp: bit_simps dest: bit_imp_le_length)
  have "push_bit 16 (ucast a) OR push_bit 8 (ucast b) OR ucast c
      = (push_bit 16 (ucast a) + push_bit 8 (ucast b) + ucast c :: u32)"
    using d1 d2 by (simp add: disjunctive_add_eq_or or.assoc)
  also have "\<dots> = of_nat (unat a * 65536 + unat b * 256 + unat c)"
    by (simp add: push_bit_eq_mult)
  finally have e: "push_bit 16 (ucast a) OR push_bit 8 (ucast b) OR ucast c
      = (of_nat (unat a * 65536 + unat b * 256 + unat c) :: u32)" .
  have "unat a * 65536 + unat b * 256 + unat c < 2 ^ LENGTH(32)"
    using unat_byte_less [of a] unat_byte_less [of b] unat_byte_less [of c] by simp
  thus ?thesis unfolding e by (rule unat_of_nat_lt)
qed

lemmas unat_b64_word2 = unat_b64_word [where c = 0, simplified]
lemmas unat_b64_word1 = unat_b64_word [where b = 0 and c = 0, simplified]

lemma b64_digits:
  fixes n :: nat assumes "n < 16777216"
  shows "((n div 262144 mod 64 * 64 + n div 4096 mod 64) * 64 + n div 64 mod 64) * 64 + n mod 64 = n"
proof -
  have "n div 4096 = n div 64 div 64" "n div 262144 = n div 64 div 64 div 64"
    by (simp_all only: div_mult2_eq [symmetric]) simp_all
  moreover have "n div 262144 mod 64 = n div 262144" using assms by simp
  ultimately show ?thesis by (simp only: div_mult_mod_eq)
qed

lemma b64_val_pad: "b64_val (CHR ''='') = 0"
  by code_simp

lemma b64_group:
  fixes v :: u32
  assumes "unat v < 16777216"
  shows "((b64_val (b64_char (drop_bit 18 v)) * 64 + b64_val (b64_char (drop_bit 12 v))) * 64
      + b64_val (b64_char (drop_bit 6 v))) * 64 + b64_val (b64_char v) = unat v"
  using b64_digits [OF assms] assms by (simp add: b64_char_val unat_shr)

lemma byte_parts:
  "of_nat ((unat a * 65536 + unat b * 256 + unat c) div 65536) = (a :: byte)"
  "of_nat ((unat a * 65536 + unat b * 256 + unat c) div 256) = (b :: byte)"
  "of_nat (unat a * 65536 + unat b * 256 + unat c) = (c :: byte)"
proof -
  have l: "unat a < 256" "unat b < 256" "unat c < 256" by (rule unat_byte_less)+
  have m: "of_nat n = w \<longleftrightarrow> n mod 256 = unat w" for n and w :: byte
    by (simp add: word_unat_eq_iff unsigned_of_nat take_bit_eq_mod)
  have e: "(unat a * 65536 + unat b * 256 + unat c) div 65536 = unat a"
    "(unat a * 65536 + unat b * 256 + unat c) div 256 = unat a * 256 + unat b"
    "unat a * 65536 + unat b * 256 + unat c = (unat a * 256 + unat b) * 256 + unat c" using l by simp_all
  show "of_nat ((unat a * 65536 + unat b * 256 + unat c) div 65536) = (a :: byte)"
    unfolding m e(1) using l by simp
  show "of_nat ((unat a * 65536 + unat b * 256 + unat c) div 256) = (b :: byte)"
    unfolding m e(2) using l by simp
  have "((unat a * 256 + unat b) * 256 + unat c) mod 256 = unat c mod 256" by (rule mod_mult_self3)
  thus "of_nat (unat a * 65536 + unat b * 256 + unat c) = (c :: byte)"
    unfolding m e(3) using l by simp
qed

lemma b64_decode_encode: "b64_decode (b64_loop bs) = bs"
proof (induction bs rule: b64_loop.induct)
  case (2 a)
  let ?v = "push_bit 16 (ucast a) :: u32"
  have "unat ?v < 16777216" using unat_byte_less [of a] by (simp add: unat_b64_word1)
  moreover have "unat ?v mod 64 = 0" "unat ?v div 64 mod 64 = 0" unfolding unat_b64_word1 by simp_all
  ultimately show ?case using b64_group [of ?v] byte_parts(1) [of a 0 0]
    by (simp add: Let_def b64_char_val unat_b64_word1 unat_shr b64_val_pad)
next
  case (3 a b)
  let ?v = "push_bit 16 (ucast a) OR push_bit 8 (ucast b) :: u32"
  have "unat ?v < 16777216" using unat_byte_less [of a] unat_byte_less [of b] by (simp add: unat_b64_word2)
  thus ?case using b64_group [of ?v] byte_parts(1,2) [of a b 0]
    by (simp add: Let_def b64_char_val unat_b64_word2 unat_shr b64_val_pad)
next
  case (4 a b c r)
  let ?v = "push_bit 16 (ucast a) OR push_bit 8 (ucast b) OR ucast c :: u32"
  have "unat ?v < 16777216"
    using unat_byte_less [of a] unat_byte_less [of b] unat_byte_less [of c] by (simp add: unat_b64_word)
  thus ?case using 4 b64_group [of ?v] byte_parts [of a b c]
    by (simp add: Let_def b64_char_val(2) unat_b64_word)
qed simp

lemma b64_loop_length: "length (b64_loop bs) = (length bs + 2) div 3 * 4"
proof (induction bs rule: b64_loop.induct)
  case (4 a b c r)
  have "(length (a # b # c # r) + 2) div 3 = Suc ((length r + 2) div 3)" by simp
  thus ?case using 4 by (simp add: Let_def)
qed (simp_all add: Let_def)

section \<open>What a hop sends\<close>

definition has_user :: "pf_proxy \<Rightarrow> bool" where
  "has_user p \<longleftrightarrow> px_username p \<noteq> []"

text \<open>
  The bytes a handshake with proxy \<open>p\<close> may send to have it connect to \<open>nh:np\<close>.  In SOCKS5 the
  credentials are sent when the server selects that method.
\<close>

definition hop_sent :: "pf_proxy \<Rightarrow> string \<Rightarrow> int \<Rightarrow> bytes \<Rightarrow> bool" where
  "hop_sent p nh np m \<longleftrightarrow> (case px_type p of
      PF_PROXY_SOCKS5 \<Rightarrow> m = socks5_greeting (has_user p) @ socks5_request nh np
        \<or> has_user p \<and> m = socks5_greeting True @ socks5_credentials (px_username p) (px_password p) @ socks5_request nh np
    | PF_PROXY_SOCKS4 \<Rightarrow> m = socks4_request (px_username p) nh np
    | PF_PROXY_HTTP \<Rightarrow> m = bytes_of (connect_line nh np @ (if has_user p then
          auth_line (b64_loop (bytes_of (px_username p @ '':'' @ px_password p))) else []) @ crlf)
    | PF_PROXY_SSH \<Rightarrow> False)"

lemma opt_str_simps [simp]:
  "(case opt_str s of None \<Rightarrow> False | Some u \<Rightarrow> u \<noteq> []) = (s \<noteq> [])"
  "(case opt_str s of None \<Rightarrow> [] | Some u \<Rightarrow> u) = s"
  "s \<noteq> [] \<Longrightarrow> the (opt_str s) = s"
  by (auto simp: opt_str_def)

lemma socks5_negotiate_sent:
  assumes "socks5_negotiate_on_fd (Some nh) np (opt_str u) (opt_str p) s = (True, s')"
  shows "\<exists>m. sk_tx s' = sk_tx s @ m \<and> (m = socks5_greeting (u \<noteq> []) @ socks5_request nh np
     \<or> u \<noteq> [] \<and> m = socks5_greeting True @ socks5_credentials u p @ socks5_request nh np)"
  using assms
  by (auto simp: socks5_negotiate_on_fd_def Let_def socks5_greeting_def socks5_request_def socks5_credentials_def opt_str_def
      split: if_splits elim!: send_or_True recv_or_True)

lemma socks4_negotiate_sent:
  assumes "socks4_negotiate_on_fd (Some nh) np (opt_str u) s = (True, s')"
  shows "sk_tx s' = sk_tx s @ socks4_request u nh np"
  using assms
  by (auto simp: socks4_negotiate_on_fd_def Let_def socks4_request_def split: if_splits elim!: send_or_True recv_or_True)

lemma http_negotiate_sent:
  assumes "http_negotiate_on_fd (Some nh) np (opt_str u) (opt_str p) s = (True, s')"
  shows "sk_tx s' = sk_tx s @ bytes_of (connect_line nh np @ (if u \<noteq> [] then
          auth_line (b64_loop (bytes_of (u @ '':'' @ p))) else []) @ crlf)"
  using assms http_read_loop_frame
  by (auto simp: http_negotiate_on_fd_def Let_def creds_of_def split: if_splits option.splits prod.splits
      elim!: send_or_True)

lemma negotiate_hop_sent:
  assumes "negotiate_hop_on_fd p nh np s = (True, s')"
  shows "\<exists>m. sk_tx s' = sk_tx s @ m \<and> hop_sent p nh np m"
  using assms socks5_negotiate_sent socks4_negotiate_sent http_negotiate_sent
  by (cases "px_type p") (fastforce simp: negotiate_hop_on_fd_def hop_sent_def has_user_def)+

text \<open>Where hop \<open>i\<close> of the list is told to connect to.\<close>

definition hop_target :: "pf_proxy list \<Rightarrow> string \<Rightarrow> int \<Rightarrow> nat \<Rightarrow> string \<times> int" where
  "hop_target ps dh dp i = (if i + 1 < length ps then (px_host (ps ! (i + 1)), int (unat (px_port (ps ! (i + 1))))) else (dh, dp))"

lemma hop_target_Cons: "i < length ps \<Longrightarrow> hop_target (p # ps) dh dp (Suc i) = hop_target ps dh dp i"
  by (simp add: hop_target_def)

lemma negotiate_hops_sent:
  "negotiate_hops ps dh dp s = (True, s') \<Longrightarrow>
   \<exists>ms. length ms = length ps \<and> sk_tx s' = sk_tx s @ concat ms
     \<and> (\<forall>i < length ps. case hop_target ps dh dp i of (h, p) \<Rightarrow> hop_sent (ps ! i) h p (ms ! i))"
proof (induction ps arbitrary: s)
  case (Cons p ps)
  obtain h pt where t: "hop_target (p # ps) dh dp 0 = (h, pt)" by force
  have n: "(case ps of q # _ \<Rightarrow> (px_host q, int (unat (px_port q))) | [] \<Rightarrow> (dh, dp)) = (h, pt)"
    using t by (cases ps) (simp_all add: hop_target_def)
  obtain ok fd where f: "negotiate_hop_on_fd p h pt s = (ok, fd)" by force
  have ok: ok "negotiate_hops ps dh dp fd = (True, s')"
    using Cons.prems f n by (auto split: bool.splits)
  obtain m where m: "sk_tx fd = sk_tx s @ m" "hop_sent p h pt m" using negotiate_hop_sent [of p h pt s fd] f ok by auto
  obtain ms where ms: "length ms = length ps" "sk_tx s' = sk_tx fd @ concat ms"
    "\<forall>i < length ps. case hop_target ps dh dp i of (h, p) \<Rightarrow> hop_sent (ps ! i) h p (ms ! i)"
    using Cons.IH [OF ok(2)] by blast
  have "\<forall>i < length (p # ps). case hop_target (p # ps) dh dp i of (h, q) \<Rightarrow> hop_sent ((p # ps) ! i) h q ((m # ms) ! i)"
    using ms(3) m(2) t by (auto simp: less_Suc_eq_0_disj hop_target_Cons)
  thus ?case using ms m by (intro exI [of _ "m # ms"]) auto
qed simp

section \<open>Chains leak no descriptor\<close>

text \<open>A handshake on a descriptor leaves it open, whatever its outcome.\<close>

lemma send_or_keeps:
  "sk_open s \<Longrightarrow> (\<And>t. sk_open t \<Longrightarrow> sk_open (snd (k t))) \<Longrightarrow> sk_open (snd (send_or fail_keep b s k))"
  by (auto simp: send_or_def fail_keep_def dest: send_all_frame split: prod.splits bool.splits)

lemma recv_or_keeps:
  "sk_open s \<Longrightarrow> (\<And>d t. sk_open t \<Longrightarrow> sk_open (snd (k d t))) \<Longrightarrow> sk_open (snd (recv_or fail_keep n s k))"
  by (auto simp: recv_or_def fail_keep_def dest: recv_all_frame split: prod.splits option.splits)

lemma fail_keep_snd [simp]: "snd (fail_keep s) = s"
  by (simp add: fail_keep_def)

lemma negotiate_hop_keeps:
  assumes "sk_open s"
  shows "sk_open (snd (negotiate_hop_on_fd p nh np s))"
proof -
  have "sk_open (snd (socks5_negotiate_on_fd h q u w s))" for h q u w
    using assms unfolding socks5_negotiate_on_fd_def Let_def
    by (auto split: option.splits intro!: send_or_keeps recv_or_keeps)
  moreover have "sk_open (snd (socks4_negotiate_on_fd h q u s))" for h q u
    using assms unfolding socks4_negotiate_on_fd_def Let_def
    by (auto split: option.splits intro!: send_or_keeps recv_or_keeps)
  moreover have "sk_open (snd (http_negotiate_on_fd h q u w s))" for h q u w
    using assms http_read_loop_frame unfolding http_negotiate_on_fd_def Let_def
    by (auto split: option.splits prod.splits intro!: send_or_keeps)
  ultimately show ?thesis using assms by (cases "px_type p") (simp_all add: negotiate_hop_on_fd_def)
qed

lemma negotiate_hops_open: "sk_open s \<Longrightarrow> open_iff_ok (negotiate_hops ps dh dp s)"
proof (induction ps arbitrary: s)
  case (Cons p ps)
  obtain h pt where n: "(case ps of q # _ \<Rightarrow> (px_host q, int (unat (px_port q))) | [] \<Rightarrow> (dh, dp)) = (h, pt)"
    by force
  obtain ok fd where f: "negotiate_hop_on_fd p h pt s = (ok, fd)" by force
  have "sk_open fd" using negotiate_hop_keeps [OF Cons.prems, of p h pt] f by simp
  thus ?case using Cons.IH [of fd] f by (cases ok) (simp_all add: n)
qed simp

lemma pf_chain_connect_no_leak: "no_leak (pf_chain_connect net ch ps dh dp)"
  unfolding pf_chain_connect_def Let_def
  by (auto simp: no_leak_def [of "(False, [])"] split: option.splits
      intro!: on_connection_no_leak negotiate_hops_open)

lemma pf_chain_test_closed: "\<forall>s \<in> set (snd (pf_chain_test net t0 t1 ch ps)). \<not> sk_open s"
  unfolding pf_chain_test_def Let_def by (rule test_result_closed [OF pf_chain_connect_no_leak])

section \<open>A chain of SOCKS hops succeeds\<close>

text \<open>
  What a hop that accepts sends back (\<open>r\<close>) and what it is sent (\<open>m\<close>): an eight-byte grant for
  SOCKS4; a method choice, an authentication status where that method is chosen, and a reply with a
  bound address for SOCKS5.
\<close>

definition hop_accepts :: "pf_proxy \<Rightarrow> string \<Rightarrow> int \<Rightarrow> bytes \<Rightarrow> bytes \<Rightarrow> bool" where
  "hop_accepts p nh np m r \<longleftrightarrow> 1 \<le> np \<and> np \<le> 65535 \<and> length nh \<le> 255
     \<and> length (px_username p) \<le> 255 \<and> length (px_password p) \<le> 255
     \<and> (case px_type p of
       PF_PROXY_SOCKS4 \<Rightarrow> m = socks4_request (px_username p) nh np \<and> length r = 8 \<and> r ! 1 = 0x5A
     | PF_PROXY_SOCKS5 \<Rightarrow>
         (\<exists>k v x t bnd. k \<noteq> 0xFF \<and> k \<noteq> 2 \<and> bound_addr t bnd \<and> r = [5, k] @ [v, 0, x, t] @ bnd
            \<and> m = socks5_greeting (has_user p) @ socks5_request nh np)
       \<or> (\<exists>y v x t bnd. has_user p \<and> bound_addr t bnd \<and> r = [5, 2] @ [y, 0] @ [v, 0, x, t] @ bnd
            \<and> m = socks5_greeting True @ socks5_credentials (px_username p) (px_password p) @ socks5_request nh np)
     | _ \<Rightarrow> False)"

text \<open>The bound address, with the failure branch of this file.\<close>

lemma close_on_fail_ends: "ends_at (close_on_fail r) out pend c \<longleftrightarrow> ends_at r out pend c"
  by (auto simp: close_on_fail_def ends_at_def)

lemma socks5_negotiate_close:
  assumes "1 \<le> np" "np \<le> 65535" "length nh \<le> 255" "length u \<le> 255" "length p \<le> 255"
  shows "close_on_fail (socks5_negotiate_on_fd (Some nh) np (opt_str u) (opt_str p) s) =
    send_or fail_close (socks5_greeting (u \<noteq> [])) s (\<lambda>s.
      recv_or fail_close 2 s (\<lambda>buf s.
      if buf ! 0 \<noteq> 0x05 then fail_close s
      else if buf ! 1 = 0xFF then fail_close s
      else if buf ! 1 = 0x02 then
        (if u = [] then fail_close s
         else send_or fail_close (socks5_credentials u p) s (\<lambda>s.
           recv_or fail_close 2 s (\<lambda>buf s.
           if buf ! 1 \<noteq> 0x00 then fail_close s else socks5_command nh np s)))
      else socks5_command nh np s))"
  using assms unfolding socks5_negotiate_on_fd_def socks5_command_def socks5_drain_def
      socks5_greeting_def socks5_credentials_def socks5_request_def Let_def
  by (cases "u = []"; cases "p = []") (auto simp: close_on_fail_if opt_str_def cong: if_cong)

lemma socks5_hop_ends:
  assumes g: "1 \<le> np" "np \<le> 65535" "length nh \<le> 255" "length u \<le> 255" "length p \<le> 255"
    and s: "sk_at out ([5, k] @ a @ [v, 0, x, t] @ bnd @ rest) c s" and b: "bound_addr t bnd"
    and m: "k \<noteq> 0xFF \<and> k \<noteq> 2 \<and> a = [] \<and> m = socks5_greeting (u \<noteq> []) @ socks5_request nh np
      \<or> k = 2 \<and> (\<exists>y. a = [y, 0]) \<and> u \<noteq> [] \<and> m = socks5_greeting True @ socks5_credentials u p @ socks5_request nh np"
    and c: "length m \<le> c"
  shows "ends_at (socks5_negotiate_on_fd (Some nh) np (opt_str u) (opt_str p) s) (out @ m) rest (c - length m)"
proof -
  let ?cmd = "\<lambda>out c s. sk_at out ([v, 0, x, t] @ bnd @ rest) c s \<longrightarrow> length (socks5_request nh np) \<le> c
     \<longrightarrow> ends_at (socks5_command nh np s) (out @ socks5_request nh np) rest (c - length (socks5_request nh np))"
  have cmd: "?cmd out c s" for out c s using socks5_command_ends [OF _ b] by blast
  have "ends_at (close_on_fail (socks5_negotiate_on_fd (Some nh) np (opt_str u) (opt_str p) s)) (out @ m) rest (c - length m)"
    unfolding socks5_negotiate_close [OF g]
  proof (rule stream.snd_step_ends [OF s], goal_cases)
    case 1
    thus ?case using m c by auto
  next
    case (2 s1)
    show ?case
    proof (rule stream.rcv_step_ends [OF 2], goal_cases)
      case (2 s2)
      show ?case
      proof (cases "k = 2")
        case False
        thus ?thesis using m 2 cmd [of "out @ socks5_greeting (u \<noteq> [])" "c - length (socks5_greeting (u \<noteq> []))" s2] c
          by (auto simp: add.commute)
      next
        case True
        then obtain y where a: "a = [y, 0]" "u \<noteq> []" "m = socks5_greeting True @ socks5_credentials u p @ socks5_request nh np"
          using m by auto
        have "ends_at (send_or fail_close (socks5_credentials u p) s2 (\<lambda>s. recv_or fail_close 2 s (\<lambda>buf s.
             if buf ! 1 \<noteq> 0x00 then fail_close s else socks5_command nh np s))) (out @ m) rest (c - length m)"
        proof (rule stream.snd_step_ends [OF 2], goal_cases)
          case 1
          show ?case using a c by auto
        next
          case (2 s3)
          show ?case
          proof (rule stream.rcv_step_ends [OF 2 [unfolded a(1)]], goal_cases)
            case (2 s4)
            have "length (socks5_request nh np) \<le> c - length (socks5_greeting (u \<noteq> [])) - length (socks5_credentials u p)"
              using a c by simp
            thus ?case using cmd [rule_format, OF 2] a by (simp add: add.assoc)
          qed simp
        qed
        thus ?thesis using True a(2) by simp
      qed
    qed simp
  qed
  thus ?thesis by (simp only: close_on_fail_ends)
qed

lemma socks4_hop_ends:
  assumes "1 \<le> np" "np \<le> 65535" "length nh \<le> 255" "length u \<le> 255" "length r = 8" "r ! 1 = 0x5A"
    and s: "sk_at out (r @ rest) c s" and c: "length (socks4_request u nh np) \<le> c"
  shows "ends_at (socks4_negotiate_on_fd (Some nh) np (opt_str u) s) (out @ socks4_request u nh np) rest
    (c - length (socks4_request u nh np))"
proof -
  have g: "\<not> (np < 1 \<or> np > 65535)" "\<not> 8 + length u + 1 + length nh + 1 > PF_BUF_SIZE"
    using assms by (simp_all add: PF_BUF_SIZE_def)
  have "ends_at (send_or fail_keep (socks4_request u nh np) s (\<lambda>fd. recv_or fail_keep 8 fd (\<lambda>resp fd.
      if resp ! 1 \<noteq> 0x5A then fail_keep fd else (True, fd)))) (out @ socks4_request u nh np) rest
    (c - length (socks4_request u nh np))"
  proof (rule stream.snd_step_ends [OF s c], goal_cases)
    case (1 s1)
    show ?case by (rule stream.rcv_step_ends [OF 1]) (use assms in \<open>simp_all add: ends_at_True\<close>)
  qed
  thus ?thesis using g by (simp add: socks4_negotiate_on_fd_def Let_def socks4_request_def)
qed

lemma negotiate_hop_ends:
  assumes h: "hop_accepts p nh np m r" and s: "sk_at out (r @ rest) c s" and c: "length m \<le> c"
  shows "ends_at (negotiate_hop_on_fd p nh np s) (out @ m) rest (c - length m)"
proof -
  have g: "1 \<le> np" "np \<le> 65535" "length nh \<le> 255" "length (px_username p) \<le> 255" "length (px_password p) \<le> 255"
    using h by (auto simp: hop_accepts_def)
  show ?thesis
  proof (cases "px_type p")
    case PF_PROXY_SOCKS4
    thus ?thesis using h s c g by (auto simp: negotiate_hop_on_fd_def hop_accepts_def intro!: socks4_hop_ends)
  next
    case PF_PROXY_SOCKS5
    hence "(\<exists>k v x t bnd. k \<noteq> 0xFF \<and> k \<noteq> 2 \<and> bound_addr t bnd \<and> r = [5, k] @ [v, 0, x, t] @ bnd
            \<and> m = socks5_greeting (px_username p \<noteq> []) @ socks5_request nh np)
       \<or> (\<exists>y v x t bnd. px_username p \<noteq> [] \<and> bound_addr t bnd \<and> r = [5, 2] @ [y, 0] @ [v, 0, x, t] @ bnd
            \<and> m = socks5_greeting True @ socks5_credentials (px_username p) (px_password p) @ socks5_request nh np)"
      using h unfolding hop_accepts_def has_user_def by (simp only: pf_proxy_type.case)
    thus ?thesis
    proof (elim disjE exE conjE, goal_cases)
      case (1 k v x t bnd)
      have "sk_at out ([5, k] @ [] @ [v, 0, x, t] @ bnd @ rest) c s" using s 1 by simp
      from socks5_hop_ends [OF g this 1(3) _ c] show ?thesis
        using PF_PROXY_SOCKS5 1 by (simp add: negotiate_hop_on_fd_def)
    next
      case (2 y v x t bnd)
      have "sk_at out ([5, 2] @ [y, 0] @ [v, 0, x, t] @ bnd @ rest) c s" using s 2 by simp
      from socks5_hop_ends [OF g this 2(2) _ c] show ?thesis
        using PF_PROXY_SOCKS5 2 by (simp add: negotiate_hop_on_fd_def)
    qed
  qed (use h in \<open>auto simp: hop_accepts_def\<close>)
qed

lemma negotiate_hops_ends:
  assumes "length ms = length ps" "length rs = length ps"
    and "\<forall>i < length ps. case hop_target ps dh dp i of (h, q) \<Rightarrow> hop_accepts (ps ! i) h q (ms ! i) (rs ! i)"
    and "sk_at out (concat rs @ rest) c s" "length (concat ms) \<le> c"
  shows "ends_at (negotiate_hops ps dh dp s) (out @ concat ms) rest (c - length (concat ms))"
  using assms
proof (induction ps arbitrary: ms rs out c s)
  case Nil
  thus ?case by (simp add: ends_at_True)
next
  case (Cons p ps)
  obtain m ms' r rs' where e: "ms = m # ms'" "rs = r # rs'"
    using Cons.prems(1,2) by (metis length_Suc_conv length_Cons)
  obtain h pt where t: "hop_target (p # ps) dh dp 0 = (h, pt)" by force
  have n: "(case ps of q # _ \<Rightarrow> (px_host q, int (unat (px_port q))) | [] \<Rightarrow> (dh, dp)) = (h, pt)"
    using t by (cases ps) (simp_all add: hop_target_def)
  have a: "hop_accepts p h pt m r" using Cons.prems(3) t e by fastforce
  obtain ok fd where f: "negotiate_hop_on_fd p h pt s = (ok, fd)" by force
  have "ends_at (ok, fd) (out @ m) (concat rs' @ rest) (c - length m)"
    using negotiate_hop_ends [OF a, of out "concat rs' @ rest" c s] Cons.prems(4,5) e f by simp
  hence fd: ok "sk_at (out @ m) (concat rs' @ rest) (c - length m) fd" by (simp_all add: ends_at_def)
  have "case hop_target ps dh dp i of (h, q) \<Rightarrow> hop_accepts (ps ! i) h q (ms' ! i) (rs' ! i)" if "i < length ps" for i
    using Cons.prems(3) [rule_format, of "Suc i"] that e by (simp add: hop_target_Cons)
  hence "ends_at (negotiate_hops ps dh dp fd) ((out @ m) @ concat ms') rest (c - length m - length (concat ms'))"
    using Cons.prems e fd by (intro Cons.IH) auto
  thus ?case using f fd(1) e by (simp add: n)
qed

section \<open>HTTP\<close>

lemma http_connect_negotiate:
  assumes evp: "\<And>x. evp x = b64_loop x" and "1 \<le> dp" "dp \<le> 65535"
    and "length (creds_of (case u of None \<Rightarrow> [] | Some x \<Rightarrow> x) p) \<le> 381"
  shows "pf_http_connect evp net (Some ph) pp (Some dh) dp u p =
    on_connection (tcp_connect net ph pp) (\<lambda>s. close_on_fail (http_negotiate_on_fd (Some dh) dp u p s))"
proof -
  have g: "\<not> (dp < 1 \<or> dp > 65535)" using assms by simp
  have r: "close_on_fail (case http_read_loop [] s of (None, fd) \<Rightarrow> fail_keep fd
       | (Some resp, fd) \<Rightarrow> (case strchr (cstring resp) (CHR '' '') of None \<Rightarrow> fail_keep fd
          | Some sp \<Rightarrow> (let status_code = int32_of (strtol10 (drop (sp + 1) (cstring resp))) in
             if status_code = 407 then fail_keep fd else if status_code \<noteq> 200 then fail_keep fd else (True, fd))))
     = (case http_read_loop [] s of (None, s) \<Rightarrow> fail_close s
       | (Some resp, s) \<Rightarrow> (case http_status (cstring resp) of None \<Rightarrow> fail_close s
          | Some status_code \<Rightarrow> if status_code = 407 then fail_close s else if status_code \<noteq> 200 then fail_close s else (True, s)))" for s
    by (auto simp: http_status_def Let_def split: prod.splits option.splits)
  have "length (b64_loop (bytes_of (creds_of x p))) < 512" "length (creds_of x p) < 384"
    if "u = Some x" for x
    using assms(4) that by (auto simp: b64_loop_length)
  hence b: "base64_encode evp (creds_of x p) 512 = Some (b64_loop (bytes_of (creds_of x p)))"
      "\<not> length (creds_of x p) \<ge> 386" "\<not> length (creds_of x p) \<ge> 384" if "u = Some x" for x
    using that evp by (auto simp: base64_encode_def Let_def)
  show ?thesis
  proof (cases "u = None \<or> u = Some []")
    case True
    thus ?thesis unfolding pf_http_connect_def http_negotiate_on_fd_def using g r
      by (auto simp: Let_def close_on_fail_if intro!: on_connection_cong cong: if_cong)
  next
    case False
    then obtain x where "u = Some x" "x \<noteq> []" by auto
    thus ?thesis unfolding pf_http_connect_def http_negotiate_on_fd_def using g r b [of x]
      by (auto simp: Let_def close_on_fail_if intro!: on_connection_cong cong: if_cong)
  qed
qed

section \<open>Properties\<close>

text \<open>
  C27: the SOCKS5 client of \<^verbatim>\<open>proxy_socks.c\<close> is the SOCKS5 handshake of \<^verbatim>\<open>chain.c\<close> run on a fresh
  TCP connection to the proxy, closed when the handshake fails; and likewise the SOCKS4a clients.
\<close>

theorem socks_clients_equal_chain_handshakes:
  assumes "1 \<le> dp" "dp \<le> 65535" "length dh \<le> 255"
    and "length user \<le> 255" "length pass \<le> 255"
  shows "pf_socks5_connect net (Some ph) pp (Some dh) dp (Some user) (Some pass) =
      on_connection (tcp_connect net ph pp) (\<lambda>s. close_on_fail (socks5_negotiate_on_fd (Some dh) dp (Some user) (Some pass) s))
    \<and> pf_socks4_connect net (Some ph) pp (Some dh) dp (Some user) =
      on_connection (tcp_connect net ph pp) (\<lambda>s. close_on_fail (socks4_negotiate_on_fd (Some dh) dp (Some user) s))"
  using assms by (intro conjI socks5_connect_negotiate socks4_connect_negotiate) (auto simp: PF_BUF_SIZE_def)

theorem socks_clients_equal_chain_handshakes_witness:
  "pf_socks4_connect (\<lambda>_ _. None) (Some ''p'') 1080 (Some ''sky.ch'') 443 (Some []) =
      on_connection (tcp_connect (\<lambda>_ _. None) ''p'' 1080) (\<lambda>s. close_on_fail (socks4_negotiate_on_fd (Some ''sky.ch'') 443 (Some []) s))"
  using socks_clients_equal_chain_handshakes [of 443 "''sky.ch''" "[]" "[]" "\<lambda>_ _. None" "''p''" 1080] by simp

text \<open>
  C28: no connect routine leaks a descriptor: whatever the resolver, the network and the peers do,
  after a failure every descriptor the routine created is closed, and after a success exactly
  the one it returns is open; the three test routines close them all.
\<close>

theorem connect_routines_leak_no_descriptor:
  "no_leak (pf_socks4_connect net ph pp dh dp u) \<and> no_leak (pf_socks5_connect net ph pp dh dp u p)
   \<and> no_leak (pf_http_connect evp net ph pp dh dp u p) \<and> no_leak (pf_chain_connect net ch ps dh dp)
   \<and> list_all (\<lambda>s. \<not> sk_open s) (snd (pf_socks_test net t0 t1 proxy) @ snd (pf_http_test evp net t0 t1 proxy)
        @ snd (pf_chain_test net t0 t1 ch ps))"
  using pf_socks4_connect_no_leak pf_socks5_connect_no_leak pf_http_connect_no_leak pf_chain_connect_no_leak
    pf_socks_test_closed pf_http_test_closed pf_chain_test_closed
  by (simp add: list_all_iff ball_Un)

text \<open>
  C19: when a chain connects, the bytes sent on its single descriptor are, hop by hop and in order,
  the handshake with each proxy of the chain, telling proxy \<open>i\<close> to connect to proxy \<open>i + 1\<close> and the last
  one to the destination.
\<close>

theorem chain_sends_hops_in_order:
  assumes "pf_chain_connect net ch proxies (Some dh) dp = (True, fds)"
  shows "\<exists>ps ms made s. hop_lookup proxies (ch_hops ch) = Some ps \<and> length ms = length ps
     \<and> tcp_connect net (px_host (hd ps)) (int (unat (px_port (hd ps)))) = (made, Some s)
     \<and> sk_tx (last fds) = sk_tx s @ concat ms
     \<and> (\<forall>i < length ps. case hop_target ps dh dp i of (h, q) \<Rightarrow> hop_sent (ps ! i) h q (ms ! i))"
proof -
  obtain ps where ps: "hop_lookup proxies (ch_hops ch) = Some ps"
    "on_connection (tcp_connect net (px_host (hd ps)) (int (unat (px_port (hd ps))))) (negotiate_hops ps dh dp) = (True, fds)"
    using assms by (auto simp: pf_chain_connect_def Let_def split: option.splits if_splits)
  then obtain made s where c: "tcp_connect net (px_host (hd ps)) (int (unat (px_port (hd ps)))) = (made, Some s)"
    by (auto simp: on_connection_def split: prod.splits option.splits)
  then obtain s' where n: "negotiate_hops ps dh dp s = (True, s')" "fds = made @ [s']"
    using ps(2) by (auto simp: on_connection_def split: prod.splits)
  show ?thesis using negotiate_hops_sent [OF n(1)] ps(1) c n(2) by fastforce
qed

text \<open>A two-hop network for the witnesses: a SOCKS5 proxy that leads to a SOCKS4 proxy.\<close>

definition demo_proxy :: "u32 \<Rightarrow> pf_proxy_type \<Rightarrow> string \<Rightarrow> u16 \<Rightarrow> pf_proxy" where
  "demo_proxy i t h p = \<lparr> px_id = i, px_name = ''p'', px_type = t, px_host = h, px_port = p, px_username = [],
     px_password = [], px_ssh_key_path = [], px_health = PF_HEALTH_UNKNOWN, px_latency_ms = 0, px_last_check = 0,
     px_bytes_sent = 0, px_bytes_recv = 0, px_enabled = 1 \<rparr>"

definition demo_hops :: "pf_proxy list" where
  "demo_hops = [demo_proxy 1 PF_PROXY_SOCKS5 ''a'' 1080, demo_proxy 2 PF_PROXY_SOCKS4 ''b'' 1081]"

definition demo_chain :: pf_chain where
  "demo_chain = \<lparr> ch_id = 1, ch_name = ''c'', ch_hops = [1, 2], ch_enabled = 1 \<rparr>"

definition demo_sock :: sock where
  "demo_sock = \<lparr> sk_rx = [[5], [0, 5, 0, 0, 1, 9, 9], [9, 9, 1, 2, 0, 0x5A, 0, 0], [0, 0, 0, 0, 77]], sk_tx = [],
     sk_snd = replicate 40 3, sk_open = True \<rparr>"

definition demo_net :: network where
  "demo_net h p = (if h = ''a'' then Some [No_socket, Connected demo_sock] else None)"

lemma demo_proxy_simps [simp]:
  "px_type (demo_proxy i t h p) = t" "px_host (demo_proxy i t h p) = h" "px_port (demo_proxy i t h p) = p"
  "px_username (demo_proxy i t h p) = []" "px_password (demo_proxy i t h p) = []"
  by (simp_all add: demo_proxy_def)

definition demo_sent :: "bytes list" where
  "demo_sent = [socks5_greeting False @ socks5_request ''b'' 1081, socks4_request [] ''sky.ch'' 443]"

definition demo_replies :: "bytes list" where
  "demo_replies = [[5, 0] @ [5, 0, 0, 1] @ [9, 9, 9, 9, 1, 2], [0, 0x5A, 0, 0, 0, 0, 0, 0]]"

lemma demo_hops_accept:
  "\<forall>i < length demo_hops. case hop_target demo_hops ''sky.ch'' 443 i of
     (h, q) \<Rightarrow> hop_accepts (demo_hops ! i) h q (demo_sent ! i) (demo_replies ! i)"
proof -
  have b: "bound_addr 1 [9, 9, 9, 9, 1, 2]" by (simp add: bound_addr_def)
  have "hop_accepts (demo_proxy 1 PF_PROXY_SOCKS5 ''a'' 1080) ''b'' 1081 (demo_sent ! 0) (demo_replies ! 0)"
    unfolding hop_accepts_def has_user_def demo_proxy_simps pf_proxy_type.case
    by (intro conjI disjI1 exI [of _ "0::byte"] exI [of _ "5::byte"] exI [of _ "1::byte"] exI [of _ "[9, 9, 9, 9, 1, 2]"] b)
       (simp_all add: demo_sent_def demo_replies_def)
  moreover have "hop_accepts (demo_proxy 2 PF_PROXY_SOCKS4 ''b'' 1081) ''sky.ch'' 443 (demo_sent ! 1) (demo_replies ! 1)"
    by (simp add: hop_accepts_def demo_sent_def demo_replies_def)
  ultimately show ?thesis
    by (simp add: demo_hops_def hop_target_def less_Suc_eq_0_disj)
qed

lemma demo_tcp: "tcp_connect demo_net (px_host (hd demo_hops)) (int (unat (px_port (hd demo_hops)))) = ([], Some demo_sock)"
  by (simp add: tcp_connect_def demo_net_def demo_hops_def demo_sock_def)

lemma demo_sock_at: "sk_at [] (concat demo_replies @ [77]) (length (concat demo_sent)) demo_sock"
  by (simp add: sk_at_def demo_sock_def sk_pending_def sk_credit_def socks5_greeting_def socks5_request_def
      socks4_request_def demo_sent_def demo_replies_def)

lemma demo_lookup: "hop_lookup demo_hops (ch_hops demo_chain) = Some demo_hops"
  by code_simp

lemma demo_chain_connects: "\<exists>fds. pf_chain_connect demo_net demo_chain demo_hops (Some ''sky.ch'') 443 = (True, fds)"
proof -
  obtain ok s' where r: "negotiate_hops demo_hops ''sky.ch'' 443 demo_sock = (ok, s')" by force
  have "ends_at (ok, s') ([] @ concat demo_sent) [77] (length (concat demo_sent) - length (concat demo_sent))"
    unfolding r [symmetric]
    by (rule negotiate_hops_ends [OF _ _ demo_hops_accept demo_sock_at])
       (simp_all add: demo_hops_def demo_sent_def demo_replies_def)
  hence ok by (simp add: ends_at_def)
  moreover have "\<not> length (ch_hops demo_chain) < 1" "\<not> length (ch_hops demo_chain) > PF_MAX_HOPS"
    by (simp_all add: demo_chain_def PF_MAX_HOPS_def)
  moreover have "px_type (hd demo_hops) \<noteq> PF_PROXY_SSH" by (simp add: demo_hops_def)
  ultimately show ?thesis using r demo_tcp demo_lookup
    unfolding pf_chain_connect_def Let_def by (simp add: on_connection_def)
qed

theorem chain_sends_hops_in_order_witness:
  "\<exists>ps ms (s :: sock). hop_lookup demo_hops (ch_hops demo_chain) = Some ps \<and> length ms = length ps
     \<and> sk_tx (last (snd (pf_chain_connect demo_net demo_chain demo_hops (Some ''sky.ch'') 443))) = sk_tx s @ concat ms"
proof -
  obtain fds where f: "pf_chain_connect demo_net demo_chain demo_hops (Some ''sky.ch'') 443 = (True, fds)"
    using demo_chain_connects by blast
  obtain ps ms made and s :: sock where "hop_lookup demo_hops (ch_hops demo_chain) = Some ps" "length ms = length ps"
    "sk_tx (last fds) = sk_tx s @ concat ms"
    using chain_sends_hops_in_order [OF f] by blast
  thus ?thesis using f by (metis snd_conv)
qed

text \<open>
  C20: a chain of SOCKS hops connects whenever its proxies accept: however the replies are cut into
  segments and however few bytes each send takes, the chain succeeds, has sent the handshakes of all
  hops, and has consumed exactly their replies, so that the first byte read from the returned
  descriptor is the first byte of the tunnel.
\<close>

theorem chain_connects_and_consumes_exactly:
  assumes "1 \<le> dp" "dp \<le> 65535" "ch_hops ch \<noteq> []" "length (ch_hops ch) \<le> PF_MAX_HOPS"
    and "hop_lookup proxies (ch_hops ch) = Some ps" "px_type (hd ps) \<noteq> PF_PROXY_SSH"
    and "tcp_connect net (px_host (hd ps)) (int (unat (px_port (hd ps)))) = (made, Some s)"
    and "length ms = length ps" "length rs = length ps"
    and "\<forall>i < length ps. case hop_target ps dh dp i of (h, q) \<Rightarrow> hop_accepts (ps ! i) h q (ms ! i) (rs ! i)"
    and "sk_at [] (concat rs @ rest) (length (concat ms)) s"
  shows "\<exists>s'. pf_chain_connect net ch proxies (Some dh) dp = (True, made @ [s'])
     \<and> sk_tx s' = concat ms \<and> sk_pending s' = rest \<and> sk_open s'"
proof -
  obtain ok s' where r: "negotiate_hops ps dh dp s = (ok, s')" by force
  have "ends_at (ok, s') ([] @ concat ms) rest (length (concat ms) - length (concat ms))"
    unfolding r [symmetric] by (rule negotiate_hops_ends [OF assms(8-11)]) simp
  hence "ok \<and> sk_tx s' = concat ms \<and> sk_pending s' = rest \<and> sk_open s'" by (simp add: ends_at_def sk_at_def)
  moreover have "pf_chain_connect net ch proxies (Some dh) dp = (ok, made @ [s'])"
    using assms(1-7) r by (simp add: pf_chain_connect_def on_connection_def Suc_le_eq not_less)
  ultimately show ?thesis by auto
qed

theorem chain_connects_and_consumes_exactly_witness:
  "\<exists>s'. pf_chain_connect demo_net demo_chain demo_hops (Some ''sky.ch'') 443 = (True, [s']) \<and> sk_pending s' = [77]"
proof -
  have l: "length demo_sent = length demo_hops" "length demo_replies = length demo_hops" "px_type (hd demo_hops) \<noteq> PF_PROXY_SSH"
    "ch_hops demo_chain \<noteq> []" "length (ch_hops demo_chain) \<le> PF_MAX_HOPS"
    by (simp_all add: demo_hops_def demo_sent_def demo_replies_def demo_chain_def PF_MAX_HOPS_def)
  show ?thesis
    using chain_connects_and_consumes_exactly [OF _ _ l(4,5) demo_lookup l(3) demo_tcp l(1,2) demo_hops_accept demo_sock_at]
    by auto
qed

text \<open>
  The Base64 encoder of \<^verbatim>\<open>chain.c\<close> is inverted by the decoder of RFC 4648, and its output fits: for
  credentials within the field limits of \<^verbatim>\<open>pf_proxy_t\<close> it is shorter than its 512-byte buffer, and the
  CONNECT request built with it is shorter than the 8192-byte request buffer.
\<close>

theorem base64_roundtrip_and_fits:
  "b64_decode (b64_loop bs) = bs
   \<and> (length u < 128 \<longrightarrow> length p < 128 \<longrightarrow> length dh \<le> PF_DOMAIN_MAX \<longrightarrow> port \<le> 65535 \<longrightarrow>
        length (b64_loop (bytes_of (creds_of u (Some p)))) < 512
      \<and> length (connect_line dh port @ auth_line (b64_loop (bytes_of (creds_of u (Some p)))) @ crlf) < PF_BUF_SIZE)"
proof -
  have "length (b64_loop (bytes_of (creds_of u (Some p)))) \<le> 344" if "length u < 128" "length p < 128"
  proof -
    have "(length (bytes_of (creds_of u (Some p))) + 2) div 3 \<le> 86" using that by (simp add: creds_of_def)
    thus ?thesis by (simp add: b64_loop_length)
  qed
  moreover have "length (connect_line dh port) \<le> 600" if "length dh \<le> PF_DOMAIN_MAX" "port \<le> 65535"
    using that show_nat_port_length [of "nat port"] by (simp add: nat_le_iff connect_line_def crlf_def PF_DOMAIN_MAX_def)
  ultimately show ?thesis by (auto simp: b64_decode_encode auth_line_def crlf_def PF_BUF_SIZE_def)
qed

theorem base64_roundtrip_and_fits_witness:
  "length (b64_loop (bytes_of (creds_of ''bob'' (Some ''secret'')))) < 512"
  using base64_roundtrip_and_fits [of "[]" "''bob''" "''secret''" "''sky.ch''" 443] by (simp add: PF_DOMAIN_MAX_def)

text \<open>
  The HTTP CONNECT client of \<^verbatim>\<open>proxy_http.c\<close> is the HTTP handshake of \<^verbatim>\<open>chain.c\<close> on a fresh connection,
  given that OpenSSL's \<^verbatim>\<open>EVP_EncodeBlock\<close> is standard padded Base64 (\<open>b64_loop\<close>), for
  credentials of up to 381 characters.
\<close>

theorem http_client_equals_chain_handshake:
  assumes "\<And>x. evp x = b64_loop x" "1 \<le> dp" "dp \<le> 65535" "length u + length p \<le> 380"
  shows "pf_http_connect evp net (Some ph) pp (Some dh) dp (Some u) (Some p) =
    on_connection (tcp_connect net ph pp) (\<lambda>s. close_on_fail (http_negotiate_on_fd (Some dh) dp (Some u) (Some p) s))"
  using assms by (intro http_connect_negotiate) (auto simp: creds_of_def)

theorem http_client_equals_chain_handshake_witness:
  "pf_http_connect b64_loop demo_net (Some ''a'') 8080 (Some ''sky.ch'') 443 (Some ''bob'') (Some ''pw'') =
    on_connection (tcp_connect demo_net ''a'' 8080) (\<lambda>s. close_on_fail (http_negotiate_on_fd (Some ''sky.ch'') 443 (Some ''bob'') (Some ''pw'') s))"
  using http_client_equals_chain_handshake [of b64_loop 443 "''bob''" "''pw''" demo_net "''a''" 8080 "''sky.ch''"] by simp

end
