(* ===== verification/Config.thy ===== *)
theory Config
  imports Rules "HOL-Library.Char_ord" "HOL-Library.List_Lexorder"
begin

text \<open>
  \<^verbatim>\<open>config.c\<close>: the configuration database.  A table is the list of its rows in rowid order;
  the SQL statements of the file are functions on the tables with the constraints of the schema
  (AUTOINCREMENT, UNIQUE, foreign keys with \<^verbatim>\<open>PRAGMA foreign_keys=ON\<close>, ON DELETE CASCADE).
  The argument \<open>ok\<close> says of the i-th statement of a call whether the engine executes it; a
  statement that fails (engine fault or constraint) changes nothing.  The guards on null pointers
  are not modelled: a database is always present.
\<close>

section \<open>Schema\<close>

record proxy_row =
  pr_id :: int
  pr_name :: string
  pr_type :: string
  pr_host :: string
  pr_port :: int
  pr_username :: "string option"
  pr_password :: "string option"
  pr_ssh_key :: "string option"
  pr_enabled :: int
  pr_health :: pf_health
  pr_latency_ms :: int
  pr_check_interval :: int
  pr_created_at :: int
  pr_updated_at :: int

record chain_row =
  cr_id :: int
  cr_name :: string
  cr_enabled :: int
  cr_created_at :: int

record hop_row =
  hr_id :: int
  hr_chain_id :: int
  hr_proxy_id :: int
  hr_order :: int

record rule_row =
  rr_id :: int
  rr_name :: string
  rr_enabled :: int
  rr_priority :: int
  rr_match_app :: "string option"
  rr_match_domain :: "string option"
  rr_match_ip :: "string option"
  rr_match_port :: "int option"
  rr_action :: string
  rr_proxy_id :: "int option"
  rr_chain_id :: "int option"
  rr_created_at :: int
  rr_updated_at :: int

record pf_db =
  db_proxies :: "proxy_row list"
  db_chains :: "chain_row list"
  db_hops :: "hop_row list"
  db_rules :: "rule_row list"
  db_config :: "(int \<times> string \<times> string) list"
  db_seq_proxies :: int
  db_seq_chains :: int
  db_seq_hops :: int
  db_seq_rules :: int
  db_last_rowid :: int

definition pf_db_empty :: pf_db where
  "pf_db_empty = \<lparr> db_proxies = [], db_chains = [], db_hops = [], db_rules = [], db_config = [],
     db_seq_proxies = 0, db_seq_chains = 0, db_seq_hops = 0, db_seq_rules = 0, db_last_rowid = 0 \<rparr>"

type_synonym faults = "nat \<Rightarrow> bool"

text \<open>\<^verbatim>\<open>if (s[0]) bind_text else bind_null\<close>, and the integer variant.\<close>

definition bind_opt :: "string \<Rightarrow> string option" where
  "bind_opt s = (if s \<noteq> [] then Some s else None)"

definition bind_id :: "u32 \<Rightarrow> int option" where
  "bind_id w = (if w \<noteq> 0 then Some (sint w) else None)"

definition col_opt :: "nat \<Rightarrow> string option \<Rightarrow> string" where
  "col_opt cap c = (case c of None \<Rightarrow> [] | Some s \<Rightarrow> snprintf_s cap s)"

section \<open>Proxies\<close>

definition row_to_proxy :: "proxy_row \<Rightarrow> pf_proxy" where
  "row_to_proxy r = \<lparr> px_id = word_of_int (pr_id r), px_name = snprintf_s 64 (pr_name r),
     px_type = pf_proxy_type_from_str (Some (pr_type r)), px_host = snprintf_s (PF_DOMAIN_MAX + 1) (pr_host r),
     px_port = word_of_int (int32_of (pr_port r)), px_username = col_opt 128 (pr_username r),
     px_password = col_opt 128 (pr_password r), px_ssh_key_path = col_opt PF_PATH_MAX (pr_ssh_key r),
     px_health = pr_health r, px_latency_ms = word_of_int (int32_of (pr_latency_ms r)),
     px_last_check = pr_created_at r, px_bytes_sent = 0, px_bytes_recv = 0, px_enabled = int32_of (pr_enabled r) \<rparr>"

definition pf_config_proxy_list :: "faults \<Rightarrow> pf_db \<Rightarrow> nat \<Rightarrow> pf_err + pf_proxy list" where
  "pf_config_proxy_list ok db max_n =
     (if max_n = 0 then Inl PF_ERR_DB
      else if \<not> ok 0 then Inl PF_ERR_DB
      else Inr (map row_to_proxy (take max_n (sort_key pr_name (db_proxies db)))))"

definition pf_config_proxy_get :: "faults \<Rightarrow> pf_db \<Rightarrow> int \<Rightarrow> pf_err + pf_proxy" where
  "pf_config_proxy_get ok db pid =
     (if \<not> ok 0 then Inl PF_ERR_DB
      else case find (\<lambda>r. pr_id r = pid) (db_proxies db) of
        None \<Rightarrow> Inl PF_ERR_DB
      | Some r \<Rightarrow> Inr (row_to_proxy r))"

definition pf_config_proxy_add :: "faults \<Rightarrow> int \<Rightarrow> pf_db \<Rightarrow> pf_proxy \<Rightarrow> pf_err option \<times> pf_db" where
  "pf_config_proxy_add ok now db p =
     (if \<not> ok 0 then (Some PF_ERR_DB, db)
      else if px_name p \<in> set (map pr_name (db_proxies db)) then (Some PF_ERR_DB, db)
      else let i = db_seq_proxies db + 1 in
        (None, db \<lparr> db_proxies := db_proxies db @ [\<lparr> pr_id = i, pr_name = px_name p, pr_type = pf_proxy_type_str (px_type p),
            pr_host = px_host p, pr_port = int (unat (px_port p)), pr_username = bind_opt (px_username p),
            pr_password = bind_opt (px_password p), pr_ssh_key = bind_opt (px_ssh_key_path p), pr_enabled = px_enabled p,
            pr_health = px_health p, pr_latency_ms = sint (px_latency_ms p), pr_check_interval = 60,
            pr_created_at = now, pr_updated_at = now \<rparr>],
          db_seq_proxies := i, db_last_rowid := i \<rparr>))"

definition pf_config_proxy_update :: "faults \<Rightarrow> int \<Rightarrow> pf_db \<Rightarrow> pf_proxy \<Rightarrow> pf_err option \<times> pf_db" where
  "pf_config_proxy_update ok now db p =
     (let pid = sint (px_id p) in
      if \<not> ok 0 then (Some PF_ERR_DB, db)
      else if pid \<in> set (map pr_id (db_proxies db))
           \<and> (\<exists>r \<in> set (db_proxies db). pr_id r \<noteq> pid \<and> pr_name r = px_name p) then (Some PF_ERR_DB, db)
      else (None, db \<lparr> db_proxies := map (\<lambda>r. if pr_id r = pid then r \<lparr> pr_name := px_name p,
            pr_type := pf_proxy_type_str (px_type p), pr_host := px_host p, pr_port := int (unat (px_port p)),
            pr_username := bind_opt (px_username p), pr_password := bind_opt (px_password p),
            pr_ssh_key := bind_opt (px_ssh_key_path p), pr_enabled := px_enabled p, pr_health := px_health p,
            pr_latency_ms := sint (px_latency_ms p), pr_updated_at := now \<rparr> else r) (db_proxies db) \<rparr>))"

text \<open>Deleting is refused while a rule or a hop refers to the row.\<close>

definition proxy_referenced :: "pf_db \<Rightarrow> int \<Rightarrow> bool" where
  "proxy_referenced db pid \<longleftrightarrow> list_ex (\<lambda>r. rr_proxy_id r = Some pid) (db_rules db)
     \<or> list_ex (\<lambda>h. hr_proxy_id h = pid) (db_hops db)"

definition pf_config_proxy_delete :: "faults \<Rightarrow> pf_db \<Rightarrow> int \<Rightarrow> pf_err option \<times> pf_db" where
  "pf_config_proxy_delete ok db pid =
     (if \<not> ok 0 then (Some PF_ERR_DB, db)
      else if pid \<in> set (map pr_id (db_proxies db)) \<and> proxy_referenced db pid then (Some PF_ERR_DB, db)
      else (None, db \<lparr> db_proxies := filter (\<lambda>r. pr_id r \<noteq> pid) (db_proxies db) \<rparr>))"

definition pf_config_proxy_update_health ::
  "faults \<Rightarrow> int \<Rightarrow> pf_db \<Rightarrow> int \<Rightarrow> pf_health \<Rightarrow> int \<Rightarrow> pf_err option \<times> pf_db" where
  "pf_config_proxy_update_health ok now db pid health latency_ms =
     (if \<not> ok 0 then (Some PF_ERR_DB, db)
      else (None, db \<lparr> db_proxies := map (\<lambda>r. if pr_id r = pid
        then r \<lparr> pr_health := health, pr_latency_ms := latency_ms, pr_updated_at := now \<rparr> else r) (db_proxies db) \<rparr>))"

section \<open>Rules\<close>

definition row_to_rule :: "rule_row \<Rightarrow> pf_rule" where
  "row_to_rule r = \<lparr> r_id = word_of_int (rr_id r), r_name = snprintf_s 64 (rr_name r),
     r_priority = int32_of (rr_priority r), r_app_path = col_opt PF_PATH_MAX (rr_match_app r), r_uid = 0, r_gid = 0,
     r_domain = col_opt (PF_DOMAIN_MAX + 1) (rr_match_domain r), r_ip_cidr = col_opt 48 (rr_match_ip r),
     r_dst_port = (case rr_match_port r of None \<Rightarrow> 0 | Some p \<Rightarrow> word_of_int (int32_of p)), r_proto = 0,
     r_action = pf_action_from_str (Some (rr_action r)),
     r_proxy_id = (case rr_proxy_id r of None \<Rightarrow> 0 | Some p \<Rightarrow> word_of_int p),
     r_chain_id = (case rr_chain_id r of None \<Rightarrow> 0 | Some c \<Rightarrow> word_of_int c),
     r_enabled = int32_of (rr_enabled r) \<rparr>"

definition pf_config_rule_list :: "faults \<Rightarrow> pf_db \<Rightarrow> nat \<Rightarrow> pf_err + pf_rule list" where
  "pf_config_rule_list ok db max_n =
     (if max_n = 0 then Inl PF_ERR_DB
      else if \<not> ok 0 then Inl PF_ERR_DB
      else Inr (map row_to_rule (take max_n (sort_key rr_priority (db_rules db)))))"

definition pf_config_rule_get :: "faults \<Rightarrow> pf_db \<Rightarrow> int \<Rightarrow> pf_err + pf_rule" where
  "pf_config_rule_get ok db rid =
     (if \<not> ok 0 then Inl PF_ERR_DB
      else case find (\<lambda>r. rr_id r = rid) (db_rules db) of
        None \<Rightarrow> Inl PF_ERR_DB
      | Some r \<Rightarrow> Inr (row_to_rule r))"

definition proxy_fk :: "pf_db \<Rightarrow> int option \<Rightarrow> bool" where
  "proxy_fk db x = (case x of None \<Rightarrow> True | Some p \<Rightarrow> p \<in> set (map pr_id (db_proxies db)))"

definition chain_fk :: "pf_db \<Rightarrow> int option \<Rightarrow> bool" where
  "chain_fk db x = (case x of None \<Rightarrow> True | Some c \<Rightarrow> c \<in> set (map cr_id (db_chains db)))"

definition pf_config_rule_add :: "faults \<Rightarrow> int \<Rightarrow> pf_db \<Rightarrow> pf_rule \<Rightarrow> pf_err option \<times> pf_db" where
  "pf_config_rule_add ok now db r =
     (if \<not> ok 0 then (Some PF_ERR_DB, db)
      else if \<not> proxy_fk db (bind_id (r_proxy_id r)) \<or> \<not> chain_fk db (bind_id (r_chain_id r)) then (Some PF_ERR_DB, db)
      else let i = db_seq_rules db + 1 in
        (None, db \<lparr> db_rules := db_rules db @ [\<lparr> rr_id = i, rr_name = r_name r, rr_enabled = r_enabled r,
            rr_priority = r_priority r, rr_match_app = bind_opt (r_app_path r), rr_match_domain = bind_opt (r_domain r),
            rr_match_ip = bind_opt (r_ip_cidr r),
            rr_match_port = (if r_dst_port r \<noteq> 0 then Some (int (unat (r_dst_port r))) else None),
            rr_action = pf_action_str (r_action r), rr_proxy_id = bind_id (r_proxy_id r),
            rr_chain_id = bind_id (r_chain_id r), rr_created_at = now, rr_updated_at = now \<rparr>],
          db_seq_rules := i, db_last_rowid := i \<rparr>))"

definition pf_config_rule_update :: "faults \<Rightarrow> int \<Rightarrow> pf_db \<Rightarrow> pf_rule \<Rightarrow> pf_err option \<times> pf_db" where
  "pf_config_rule_update ok now db r =
     (let rid = sint (r_id r) in
      if \<not> ok 0 then (Some PF_ERR_DB, db)
      else if rid \<in> set (map rr_id (db_rules db)) \<and>
        (\<not> proxy_fk db (bind_id (r_proxy_id r)) \<or> \<not> chain_fk db (bind_id (r_chain_id r))) then (Some PF_ERR_DB, db)
      else (None, db \<lparr> db_rules := map (\<lambda>x. if rr_id x = rid then x \<lparr> rr_name := r_name r, rr_enabled := r_enabled r,
            rr_priority := r_priority r, rr_match_app := bind_opt (r_app_path r), rr_match_domain := bind_opt (r_domain r),
            rr_match_ip := bind_opt (r_ip_cidr r),
            rr_match_port := (if r_dst_port r \<noteq> 0 then Some (int (unat (r_dst_port r))) else None),
            rr_action := pf_action_str (r_action r), rr_proxy_id := bind_id (r_proxy_id r),
            rr_chain_id := bind_id (r_chain_id r), rr_updated_at := now \<rparr> else x) (db_rules db) \<rparr>))"

definition pf_config_rule_delete :: "faults \<Rightarrow> pf_db \<Rightarrow> int \<Rightarrow> pf_err option \<times> pf_db" where
  "pf_config_rule_delete ok db rid =
     (if \<not> ok 0 then (Some PF_ERR_DB, db)
      else (None, db \<lparr> db_rules := filter (\<lambda>r. rr_id r \<noteq> rid) (db_rules db) \<rparr>))"

section \<open>Chains\<close>

definition load_chain_hops :: "pf_db \<Rightarrow> u32 \<Rightarrow> u32 list" where
  "load_chain_hops db cid = take PF_MAX_HOPS (map (\<lambda>h. word_of_int (hr_proxy_id h))
     (sort_key hr_order (filter (\<lambda>h. hr_chain_id h = sint cid) (db_hops db))))"

definition row_to_chain :: "pf_db \<Rightarrow> chain_row \<Rightarrow> pf_chain" where
  "row_to_chain db r = \<lparr> ch_id = word_of_int (cr_id r), ch_name = snprintf_s 64 (cr_name r),
     ch_hops = load_chain_hops db (word_of_int (cr_id r)), ch_enabled = int32_of (cr_enabled r) \<rparr>"

text \<open>The hop query runs once per chain of the result.\<close>

definition pf_config_chain_list :: "faults \<Rightarrow> pf_db \<Rightarrow> nat \<Rightarrow> pf_err + pf_chain list" where
  "pf_config_chain_list ok db max_n =
     (if max_n = 0 then Inl PF_ERR_DB
      else if \<not> ok 0 then Inl PF_ERR_DB
      else let rows = take max_n (sort_key cr_name (db_chains db)) in
        if list_all (\<lambda>i. ok (i + 1)) [0 ..< length rows] then Inr (map (row_to_chain db) rows) else Inl PF_ERR_DB)"

definition pf_config_chain_get :: "faults \<Rightarrow> pf_db \<Rightarrow> int \<Rightarrow> pf_err + pf_chain" where
  "pf_config_chain_get ok db cid =
     (if \<not> ok 0 then Inl PF_ERR_DB
      else case find (\<lambda>r. cr_id r = cid) (db_chains db) of
        None \<Rightarrow> Inl PF_ERR_DB
      | Some r \<Rightarrow> if ok 1 then Inr (row_to_chain db r) else Inl PF_ERR_DB)"

text \<open>The loop that inserts hops \<open>i, i+1, ...\<close>; it stops at the first failing statement.\<close>

fun insert_hops :: "faults \<Rightarrow> nat \<Rightarrow> int \<Rightarrow> u32 list \<Rightarrow> nat \<Rightarrow> pf_db \<Rightarrow> pf_err option \<times> pf_db" where
  "insert_hops ok k cid [] i db = (None, db)"
| "insert_hops ok k cid (h # hs) i db =
     (if \<not> ok k then (Some PF_ERR_DB, db)
      else if cid \<notin> set (map cr_id (db_chains db)) \<or> sint h \<notin> set (map pr_id (db_proxies db))
           \<or> list_ex (\<lambda>x. hr_chain_id x = cid \<and> hr_order x = int i) (db_hops db) then (Some PF_ERR_DB, db)
      else let n = db_seq_hops db + 1 in
        insert_hops ok (k + 1) cid hs (i + 1)
          (db \<lparr> db_hops := db_hops db @ [\<lparr> hr_id = n, hr_chain_id = cid, hr_proxy_id = sint h, hr_order = int i \<rparr>],
               db_seq_hops := n, db_last_rowid := n \<rparr>))"

definition pf_config_chain_add :: "faults \<Rightarrow> int \<Rightarrow> pf_db \<Rightarrow> pf_chain \<Rightarrow> pf_err option \<times> pf_db" where
  "pf_config_chain_add ok now db c =
     (if \<not> ok 0 then (Some PF_ERR_DB, db)
      else if ch_name c \<in> set (map cr_name (db_chains db)) then (Some PF_ERR_DB, db)
      else let i = db_seq_chains db + 1;
               db1 = db \<lparr> db_chains := db_chains db @ [\<lparr> cr_id = i, cr_name = ch_name c, cr_enabled = ch_enabled c, cr_created_at = now \<rparr>],
                 db_seq_chains := i, db_last_rowid := i \<rparr> in
        insert_hops ok 1 (db_last_rowid db1) (take PF_MAX_HOPS (ch_hops c)) 0 db1)"

definition pf_config_chain_update :: "faults \<Rightarrow> pf_db \<Rightarrow> pf_chain \<Rightarrow> pf_err option \<times> pf_db" where
  "pf_config_chain_update ok db c =
     (let cid = sint (ch_id c) in
      if \<not> ok 0 then (Some PF_ERR_DB, db)
      else if cid \<in> set (map cr_id (db_chains db))
           \<and> (\<exists>r \<in> set (db_chains db). cr_id r \<noteq> cid \<and> cr_name r = ch_name c) then (Some PF_ERR_DB, db)
      else let db1 = db \<lparr> db_chains := map (\<lambda>r. if cr_id r = cid then r \<lparr> cr_name := ch_name c, cr_enabled := ch_enabled c \<rparr> else r)
                 (db_chains db) \<rparr> in
        if \<not> ok 1 then (Some PF_ERR_DB, db1)
        else let db2 = db1 \<lparr> db_hops := filter (\<lambda>h. hr_chain_id h \<noteq> cid) (db_hops db1) \<rparr> in
          insert_hops ok 2 cid (take PF_MAX_HOPS (ch_hops c)) 0 db2)"

definition pf_config_chain_delete :: "faults \<Rightarrow> pf_db \<Rightarrow> int \<Rightarrow> pf_err option \<times> pf_db" where
  "pf_config_chain_delete ok db cid =
     (if \<not> ok 0 then (Some PF_ERR_DB, db)
      else if cid \<in> set (map cr_id (db_chains db)) \<and> list_ex (\<lambda>r. rr_chain_id r = Some cid) (db_rules db)
        then (Some PF_ERR_DB, db)
      else (None, db \<lparr> db_chains := filter (\<lambda>r. cr_id r \<noteq> cid) (db_chains db),
                       db_hops := filter (\<lambda>h. \<not> (hr_chain_id h = cid \<and> cid \<in> set (map cr_id (db_chains db)))) (db_hops db) \<rparr>))"

section \<open>Key-value settings, last id, reference counts\<close>

definition pf_config_get :: "faults \<Rightarrow> pf_db \<Rightarrow> string \<Rightarrow> nat \<Rightarrow> pf_err + string" where
  "pf_config_get ok db key max_len =
     (if max_len = 0 then Inl PF_ERR_DB
      else if \<not> ok 0 then Inl PF_ERR_DB
      else case find (\<lambda>(i, k, v). k = key) (db_config db) of
        None \<Rightarrow> Inl PF_ERR_DB
      | Some (i, k, v) \<Rightarrow> Inr (snprintf_s max_len v))"

text \<open>\<^verbatim>\<open>INSERT OR REPLACE\<close>: the new row gets a rowid above every row of the table.\<close>

definition pf_config_set :: "faults \<Rightarrow> pf_db \<Rightarrow> string \<Rightarrow> string \<Rightarrow> pf_err option \<times> pf_db" where
  "pf_config_set ok db key value =
     (if \<not> ok 0 then (Some PF_ERR_DB, db)
      else let i = foldr max (map fst (db_config db)) 0 + 1 in
        (None, db \<lparr> db_config := filter (\<lambda>(i, k, v). k \<noteq> key) (db_config db) @ [(i, key, value)], db_last_rowid := i \<rparr>))"

definition pf_config_last_id :: "pf_db \<Rightarrow> int" where
  "pf_config_last_id db = int32_of (db_last_rowid db)"

definition pf_config_proxy_ref_count :: "faults \<Rightarrow> pf_db \<Rightarrow> int \<Rightarrow> int" where
  "pf_config_proxy_ref_count ok db pid =
     (if ok 0 then int (length (filter (\<lambda>r. rr_proxy_id r = Some pid) (db_rules db))) else 0)
   + (if ok 1 then int (length (filter (\<lambda>h. hr_proxy_id h = pid) (db_hops db))) else 0)"

definition pf_config_chain_ref_count :: "faults \<Rightarrow> pf_db \<Rightarrow> int \<Rightarrow> int" where
  "pf_config_chain_ref_count ok db cid =
     (if ok 0 then int (length (filter (\<lambda>r. rr_chain_id r = Some cid) (db_rules db))) else 0)"

text \<open>\<^verbatim>\<open>pf_rules_load\<close> of \<^verbatim>\<open>rules.c\<close>: the rule array is the rule list, or empty after an error.\<close>

definition pf_rules_load :: "faults \<Rightarrow> pf_db \<Rightarrow> pf_err option \<times> pf_rule list" where
  "pf_rules_load ok db = (case pf_config_rule_list ok db PF_MAX_RULES of
     Inl e \<Rightarrow> (Some e, []) | Inr rs \<Rightarrow> (None, rs))"

section \<open>Integrity\<close>

definition ids_ok :: "int list \<Rightarrow> int \<Rightarrow> bool" where
  "ids_ok ids sq \<longleftrightarrow> distinct ids \<and> (\<forall>i \<in> set ids. 1 \<le> i \<and> i \<le> sq) \<and> 0 \<le> sq"

definition db_inv :: "pf_db \<Rightarrow> bool" where
  "db_inv db \<longleftrightarrow>
     ids_ok (map pr_id (db_proxies db)) (db_seq_proxies db) \<and> ids_ok (map cr_id (db_chains db)) (db_seq_chains db)
   \<and> ids_ok (map hr_id (db_hops db)) (db_seq_hops db) \<and> ids_ok (map rr_id (db_rules db)) (db_seq_rules db)
   \<and> distinct (map pr_name (db_proxies db)) \<and> distinct (map cr_name (db_chains db))
   \<and> distinct (map (\<lambda>h. (hr_chain_id h, hr_order h)) (db_hops db))
   \<and> (\<forall>h \<in> set (db_hops db). hr_chain_id h \<in> set (map cr_id (db_chains db)) \<and> hr_proxy_id h \<in> set (map pr_id (db_proxies db)))
   \<and> (\<forall>r \<in> set (db_rules db). proxy_fk db (rr_proxy_id r) \<and> chain_fk db (rr_chain_id r))"

lemma ids_ok_append: "ids_ok ids sq \<Longrightarrow> ids_ok (ids @ [sq + 1]) (sq + 1)"
  by (force simp: ids_ok_def)

lemma ids_ok_filter: "ids_ok (map f xs) sq \<Longrightarrow> ids_ok (map f (filter P xs)) sq"
  by (auto simp: ids_ok_def distinct_map_filter)

lemma distinct_map_if:
  assumes "distinct (map k xs)" "distinct (map f xs)" "\<forall>x \<in> set xs. k x \<noteq> i \<longrightarrow> f x \<noteq> y"
    and "\<And>x. f (g x) = y"
  shows "distinct (map f (map (\<lambda>x. if k x = i then g x else x) xs))"
  using assms(1-3)
proof (induction xs)
  case (Cons x xs)
  have "y \<notin> (\<lambda>x. f (if k x = i then g x else x)) ` set xs" if "k x = i"
  proof
    assume "y \<in> (\<lambda>x. f (if k x = i then g x else x)) ` set xs"
    then obtain z where z: "z \<in> set xs" "y = f (if k z = i then g z else z)" by blast
    have "k z \<noteq> i" using that Cons.prems(1) z(1) by (auto simp: image_iff)
    thus False using z Cons.prems(3) by auto
  qed
  moreover have "f x \<notin> (\<lambda>x. f (if k x = i then g x else x)) ` set xs" if "k x \<noteq> i"
  proof
    assume "f x \<in> (\<lambda>x. f (if k x = i then g x else x)) ` set xs"
    then obtain z where z: "z \<in> set xs" "f x = f (if k z = i then g z else z)" by blast
    have "f x \<noteq> y" "f x \<noteq> f z" using that Cons.prems(2,3) z(1) by (auto simp: image_iff)
    thus False using z(2) assms(4) [of z] by (simp split: if_splits)
  qed
  moreover have "distinct (map f (map (\<lambda>x. if k x = i then g x else x) xs))"
    using Cons.prems by (intro Cons.IH) auto
  ultimately show ?case by (cases "k x = i") (simp_all add: assms(4) comp_def)
qed simp

lemma map_if_keep: "(\<And>x. f (g x) = f x) \<Longrightarrow> map f (map (\<lambda>x. if k x = i then g x else x) xs) = map f xs"
  by simp

lemma fk_mono:
  "set (map pr_id (db_proxies db)) \<subseteq> set (map pr_id (db_proxies db')) \<Longrightarrow> proxy_fk db x \<Longrightarrow> proxy_fk db' x"
  "set (map cr_id (db_chains db)) \<subseteq> set (map cr_id (db_chains db')) \<Longrightarrow> chain_fk db y \<Longrightarrow> chain_fk db' y"
  by (auto simp: proxy_fk_def chain_fk_def split: option.splits)

lemma fk_update [simp]:
  "proxy_fk (db \<lparr> db_rules := rs \<rparr>) = proxy_fk db" "chain_fk (db \<lparr> db_rules := rs \<rparr>) = chain_fk db"
  "proxy_fk (db \<lparr> db_hops := hs \<rparr>) = proxy_fk db" "chain_fk (db \<lparr> db_hops := hs \<rparr>) = chain_fk db"
  "proxy_fk (db \<lparr> db_chains := cs \<rparr>) = proxy_fk db" "chain_fk (db \<lparr> db_proxies := ps \<rparr>) = chain_fk db"
  "proxy_fk (db \<lparr> db_config := kv \<rparr>) = proxy_fk db" "chain_fk (db \<lparr> db_config := kv \<rparr>) = chain_fk db"
  "proxy_fk (db \<lparr> db_seq_proxies := n \<rparr>) = proxy_fk db" "chain_fk (db \<lparr> db_seq_proxies := n \<rparr>) = chain_fk db"
  "proxy_fk (db \<lparr> db_seq_chains := n \<rparr>) = proxy_fk db" "chain_fk (db \<lparr> db_seq_chains := n \<rparr>) = chain_fk db"
  "proxy_fk (db \<lparr> db_seq_hops := n \<rparr>) = proxy_fk db" "chain_fk (db \<lparr> db_seq_hops := n \<rparr>) = chain_fk db"
  "proxy_fk (db \<lparr> db_seq_rules := n \<rparr>) = proxy_fk db" "chain_fk (db \<lparr> db_seq_rules := n \<rparr>) = chain_fk db"
  "proxy_fk (db \<lparr> db_last_rowid := n \<rparr>) = proxy_fk db" "chain_fk (db \<lparr> db_last_rowid := n \<rparr>) = chain_fk db"
  by (simp_all add: proxy_fk_def chain_fk_def fun_eq_iff split: option.splits)

lemma db_inv_empty: "db_inv pf_db_empty"
  by (simp add: db_inv_def pf_db_empty_def ids_ok_def)

text \<open>Replacing one table: what has to be shown of the new rows.\<close>

lemma db_inv_proxies:
  assumes "db_inv db" "ids_ok (map pr_id xs) sq" "distinct (map pr_name xs)"
    and "\<forall>h \<in> set (db_hops db). hr_proxy_id h \<in> pr_id ` set xs"
    and "\<forall>r \<in> set (db_rules db). \<forall>p. rr_proxy_id r = Some p \<longrightarrow> p \<in> pr_id ` set xs"
  shows "db_inv (db \<lparr> db_proxies := xs, db_seq_proxies := sq, db_last_rowid := l \<rparr>)"
  using assms by (auto simp: db_inv_def proxy_fk_def chain_fk_def split: option.splits)

lemma db_inv_rules:
  assumes "db_inv db" "ids_ok (map rr_id xs) sq" "\<forall>r \<in> set xs. proxy_fk db (rr_proxy_id r) \<and> chain_fk db (rr_chain_id r)"
  shows "db_inv (db \<lparr> db_rules := xs, db_seq_rules := sq, db_last_rowid := l \<rparr>)"
  using assms by (simp add: db_inv_def)

lemma db_inv_chains:
  assumes "db_inv db" "ids_ok (map cr_id xs) sq" "distinct (map cr_name xs)"
    and "\<forall>h \<in> set (db_hops db). hr_chain_id h \<in> cr_id ` set xs"
    and "\<forall>r \<in> set (db_rules db). \<forall>c. rr_chain_id r = Some c \<longrightarrow> c \<in> cr_id ` set xs"
  shows "db_inv (db \<lparr> db_chains := xs, db_seq_chains := sq, db_last_rowid := l \<rparr>)"
  using assms by (auto simp: db_inv_def proxy_fk_def chain_fk_def split: option.splits)

lemma db_inv_hops:
  assumes "db_inv db" "ids_ok (map hr_id xs) sq" "distinct (map (\<lambda>h. (hr_chain_id h, hr_order h)) xs)"
    and "\<forall>h \<in> set xs. hr_chain_id h \<in> cr_id ` set (db_chains db) \<and> hr_proxy_id h \<in> pr_id ` set (db_proxies db)"
  shows "db_inv (db \<lparr> db_hops := xs, db_seq_hops := sq, db_last_rowid := l \<rparr>)"
  using assms by (simp add: db_inv_def)

lemma db_inv_refs:
  assumes "db_inv db"
  shows "h \<in> set (db_hops db) \<Longrightarrow> hr_chain_id h \<in> cr_id ` set (db_chains db) \<and> hr_proxy_id h \<in> pr_id ` set (db_proxies db)"
    and "r \<in> set (db_rules db) \<Longrightarrow> rr_proxy_id r = Some p \<Longrightarrow> p \<in> pr_id ` set (db_proxies db)"
    and "r \<in> set (db_rules db) \<Longrightarrow> rr_chain_id r = Some c \<Longrightarrow> c \<in> cr_id ` set (db_chains db)"
  using assms by (fastforce simp: db_inv_def proxy_fk_def chain_fk_def)+

lemma db_inv_keys:
  assumes "db_inv db"
  shows "ids_ok (map pr_id (db_proxies db)) (db_seq_proxies db)" "ids_ok (map cr_id (db_chains db)) (db_seq_chains db)"
    "ids_ok (map hr_id (db_hops db)) (db_seq_hops db)" "ids_ok (map rr_id (db_rules db)) (db_seq_rules db)"
    "distinct (map pr_name (db_proxies db))" "distinct (map cr_name (db_chains db))"
    "distinct (map (\<lambda>h. (hr_chain_id h, hr_order h)) (db_hops db))"
  using assms by (simp_all add: db_inv_def)

lemma same_db:
  "db \<lparr> db_proxies := xs, db_seq_proxies := db_seq_proxies db, db_last_rowid := db_last_rowid db \<rparr> = db \<lparr> db_proxies := xs \<rparr>"
  "db \<lparr> db_rules := rs, db_seq_rules := db_seq_rules db, db_last_rowid := db_last_rowid db \<rparr> = db \<lparr> db_rules := rs \<rparr>"
  "db \<lparr> db_chains := cs, db_seq_chains := db_seq_chains db, db_last_rowid := db_last_rowid db \<rparr> = db \<lparr> db_chains := cs \<rparr>"
  "db \<lparr> db_hops := hs, db_seq_hops := db_seq_hops db, db_last_rowid := db_last_rowid db \<rparr> = db \<lparr> db_hops := hs \<rparr>"
  by simp_all

lemmas db_inv_proxies0 = db_inv_proxies [where sq = "db_seq_proxies db" and l = "db_last_rowid db" and db = db for db, unfolded same_db]
lemmas db_inv_rules0 = db_inv_rules [where sq = "db_seq_rules db" and l = "db_last_rowid db" and db = db for db, unfolded same_db]
lemmas db_inv_chains0 = db_inv_chains [where sq = "db_seq_chains db" and l = "db_last_rowid db" and db = db for db, unfolded same_db]
lemmas db_inv_hops0 = db_inv_hops [where sq = "db_seq_hops db" and l = "db_last_rowid db" and db = db for db, unfolded same_db]

lemma db_inv_map_proxies:
  assumes "db_inv db" "map pr_id xs = map pr_id (db_proxies db)" "distinct (map pr_name xs)"
  shows "db_inv (db \<lparr> db_proxies := xs \<rparr>)"
proof -
  have "pr_id ` set xs = pr_id ` set (db_proxies db)" using arg_cong [OF assms(2), of set] by simp
  thus ?thesis
    using assms db_inv_keys(1) [OF assms(1)] db_inv_refs [OF assms(1)]
    by (intro db_inv_proxies0) (auto simp: assms(2))
qed

section \<open>Every operation keeps integrity\<close>

lemma proxy_add_inv: "db_inv db \<Longrightarrow> db_inv (snd (pf_config_proxy_add ok now db p))"
  unfolding pf_config_proxy_add_def Let_def
  using db_inv_keys(1,5) db_inv_refs
  by (fastforce simp: ids_ok_append intro!: db_inv_proxies)

lemma proxy_update_inv:
  assumes i: "db_inv db"
  shows "db_inv (snd (pf_config_proxy_update ok now db p))"
proof -
  let ?pid = "sint (px_id p)"
  let ?g = "\<lambda>r. r \<lparr> pr_name := px_name p, pr_type := pf_proxy_type_str (px_type p), pr_host := px_host p,
     pr_port := int (unat (px_port p)), pr_username := bind_opt (px_username p), pr_password := bind_opt (px_password p),
     pr_ssh_key := bind_opt (px_ssh_key_path p), pr_enabled := px_enabled p, pr_health := px_health p,
     pr_latency_ms := sint (px_latency_ms p), pr_updated_at := now \<rparr>"
  let ?xs = "map (\<lambda>r. if pr_id r = ?pid then ?g r else r) (db_proxies db)"
  have "db_inv (db \<lparr> db_proxies := ?xs \<rparr>)"
    if c: "\<not> (?pid \<in> set (map pr_id (db_proxies db)) \<and> (\<exists>r \<in> set (db_proxies db). pr_id r \<noteq> ?pid \<and> pr_name r = px_name p))"
  proof (cases "?pid \<in> set (map pr_id (db_proxies db))")
    case True
    hence "distinct (map pr_name ?xs)"
      using c db_inv_keys(1,5) [OF i] by (intro distinct_map_if [where y = "px_name p"]) (auto simp: ids_ok_def)
    thus ?thesis by (intro db_inv_map_proxies [OF i] map_if_keep) simp_all
  next
    case False
    hence "?xs = db_proxies db" by (intro map_idI) (force simp: image_iff)
    thus ?thesis using i by simp
  qed
  thus ?thesis using i by (simp add: pf_config_proxy_update_def Let_def)
qed

lemma proxy_delete_inv:
  assumes i: "db_inv db"
  shows "db_inv (snd (pf_config_proxy_delete ok db pid))"
proof -
  let ?xs = "filter (\<lambda>r. pr_id r \<noteq> pid) (db_proxies db)"
  have "db_inv (db \<lparr> db_proxies := ?xs \<rparr>)"
    if c: "\<not> (pid \<in> set (map pr_id (db_proxies db)) \<and> proxy_referenced db pid)"
  proof -
    have h: "\<forall>h \<in> set (db_hops db). hr_proxy_id h \<in> pr_id ` set ?xs"
      using c db_inv_refs(1) [OF i] by (fastforce simp: proxy_referenced_def list_ex_iff)
    have r: "\<forall>r \<in> set (db_rules db). \<forall>p. rr_proxy_id r = Some p \<longrightarrow> p \<in> pr_id ` set ?xs"
      using c db_inv_refs(2) [OF i] by (fastforce simp: proxy_referenced_def list_ex_iff)
    show ?thesis
      by (rule db_inv_proxies0 [OF i ids_ok_filter [OF db_inv_keys(1) [OF i]] _ h r])
         (simp add: distinct_map_filter db_inv_keys(5) [OF i])
  qed
  thus ?thesis using i by (simp add: pf_config_proxy_delete_def)
qed

lemma proxy_update_health_inv:
  assumes i: "db_inv db"
  shows "db_inv (snd (pf_config_proxy_update_health ok now db pid h l))"
proof -
  let ?xs = "map (\<lambda>r. if pr_id r = pid then r \<lparr> pr_health := h, pr_latency_ms := l, pr_updated_at := now \<rparr> else r) (db_proxies db)"
  have e: "map pr_id ?xs = map pr_id (db_proxies db)" "map pr_name ?xs = map pr_name (db_proxies db)"
    by (rule map_if_keep, simp)+
  have "db_inv (db \<lparr> db_proxies := ?xs \<rparr>)"
    by (rule db_inv_map_proxies [OF i e(1)]) (simp only: e(2) db_inv_keys(5) [OF i])
  thus ?thesis using i by (simp add: pf_config_proxy_update_health_def)
qed

lemma rule_add_inv: "db_inv db \<Longrightarrow> db_inv (snd (pf_config_rule_add ok now db r))"
  unfolding pf_config_rule_add_def Let_def
  using db_inv_keys(4) by (auto simp: ids_ok_append db_inv_def intro!: db_inv_rules)

lemma rule_update_inv:
  assumes i: "db_inv db"
  shows "db_inv (snd (pf_config_rule_update ok now db r))"
proof -
  let ?rid = "sint (r_id r)"
  let ?g = "\<lambda>x. x \<lparr> rr_name := r_name r, rr_enabled := r_enabled r,
     rr_priority := r_priority r, rr_match_app := bind_opt (r_app_path r), rr_match_domain := bind_opt (r_domain r),
     rr_match_ip := bind_opt (r_ip_cidr r),
     rr_match_port := (if r_dst_port r \<noteq> 0 then Some (int (unat (r_dst_port r))) else None),
     rr_action := pf_action_str (r_action r), rr_proxy_id := bind_id (r_proxy_id r),
     rr_chain_id := bind_id (r_chain_id r), rr_updated_at := now \<rparr>"
  let ?xs = "map (\<lambda>x. if rr_id x = ?rid then ?g x else x) (db_rules db)"
  have e: "map rr_id ?xs = map rr_id (db_rules db)" by (rule map_if_keep) simp
  have "db_inv (db \<lparr> db_rules := ?xs \<rparr>)"
    if c: "\<not> (?rid \<in> set (map rr_id (db_rules db)) \<and> (\<not> proxy_fk db (bind_id (r_proxy_id r)) \<or> \<not> chain_fk db (bind_id (r_chain_id r))))"
  proof -
    have "proxy_fk db (bind_id (r_proxy_id r)) \<and> chain_fk db (bind_id (r_chain_id r))"
      if "x \<in> set (db_rules db)" "rr_id x = ?rid" for x using c that by force
    hence "\<forall>x \<in> set ?xs. proxy_fk db (rr_proxy_id x) \<and> chain_fk db (rr_chain_id x)"
      using i by (auto simp: db_inv_def)
    thus ?thesis
      by (intro db_inv_rules0 [OF i]) (simp_all only: e db_inv_keys(4) [OF i])
  qed
  thus ?thesis using i by (simp add: pf_config_rule_update_def Let_def)
qed

lemma rule_delete_inv:
  assumes i: "db_inv db"
  shows "db_inv (snd (pf_config_rule_delete ok db rid))"
proof -
  have "db_inv (db \<lparr> db_rules := filter (\<lambda>r. rr_id r \<noteq> rid) (db_rules db) \<rparr>)"
    by (rule db_inv_rules0 [OF i ids_ok_filter [OF db_inv_keys(4) [OF i]]]) (use i in \<open>auto simp: db_inv_def\<close>)
  thus ?thesis using i by (simp add: pf_config_rule_delete_def)
qed

lemma insert_hops_inv: "db_inv db \<Longrightarrow> db_inv (snd (insert_hops ok k cid hs i db))"
proof (induction hs arbitrary: k i db)
  case (Cons h hs)
  show ?case
  proof (cases "\<not> ok k \<or> cid \<notin> set (map cr_id (db_chains db)) \<or> sint h \<notin> set (map pr_id (db_proxies db))
           \<or> list_ex (\<lambda>x. hr_chain_id x = cid \<and> hr_order x = int i) (db_hops db)")
    case True
    thus ?thesis using Cons.prems by auto
  next
    case False
    let ?n = "db_seq_hops db + 1"
    let ?row = "\<lparr> hr_id = ?n, hr_chain_id = cid, hr_proxy_id = sint h, hr_order = int i \<rparr>"
    have "db_inv (db \<lparr> db_hops := db_hops db @ [?row], db_seq_hops := ?n, db_last_rowid := ?n \<rparr>)"
      using False Cons.prems db_inv_keys(3,7) [OF Cons.prems] db_inv_refs(1) [OF Cons.prems]
      by (intro db_inv_hops) (auto simp: ids_ok_append list_ex_iff)
    thus ?thesis using False Cons.IH by (simp add: Let_def)
  qed
qed simp

lemma chain_add_inv:
  assumes i: "db_inv db"
  shows "db_inv (snd (pf_config_chain_add ok now db c))"
proof -
  let ?n = "db_seq_chains db + 1"
  have "db_inv (db \<lparr> db_chains := db_chains db @ [\<lparr> cr_id = ?n, cr_name = ch_name c, cr_enabled = ch_enabled c, cr_created_at = now \<rparr>],
      db_seq_chains := ?n, db_last_rowid := ?n \<rparr>)" if "ch_name c \<notin> set (map cr_name (db_chains db))"
    using that i db_inv_keys(2,6) [OF i] db_inv_refs [OF i]
    by (intro db_inv_chains) (auto simp: ids_ok_append)
  thus ?thesis using i insert_hops_inv by (simp add: pf_config_chain_add_def Let_def)
qed

lemma chain_update_inv:
  assumes i: "db_inv db"
  shows "db_inv (snd (pf_config_chain_update ok db c))"
proof -
  let ?cid = "sint (ch_id c)"
  let ?xs = "map (\<lambda>r. if cr_id r = ?cid then r \<lparr> cr_name := ch_name c, cr_enabled := ch_enabled c \<rparr> else r) (db_chains db)"
  let ?db1 = "db \<lparr> db_chains := ?xs \<rparr>"
  have ids: "map cr_id ?xs = map cr_id (db_chains db)" by (rule map_if_keep) simp
  hence im: "cr_id ` set ?xs = cr_id ` set (db_chains db)" by (metis set_map)
  have d1: "db_inv ?db1"
    if c: "\<not> (?cid \<in> set (map cr_id (db_chains db)) \<and> (\<exists>r \<in> set (db_chains db). cr_id r \<noteq> ?cid \<and> cr_name r = ch_name c))"
  proof (cases "?cid \<in> set (map cr_id (db_chains db))")
    case True
    hence d: "distinct (map cr_name ?xs)"
      using c db_inv_keys(2,6) [OF i] by (intro distinct_map_if [where y = "ch_name c"]) (auto simp: ids_ok_def)
    show ?thesis
      by (rule db_inv_chains0 [OF i _ d]) (use db_inv_keys(2) [OF i] db_inv_refs [OF i] in \<open>simp_all only: ids im, auto\<close>)
  next
    case False
    hence "?xs = db_chains db" by (intro map_idI) (force simp: image_iff)
    thus ?thesis using i by simp
  qed
  have d2: "db_inv (d \<lparr> db_hops := filter (\<lambda>h. hr_chain_id h \<noteq> ?cid) (db_hops d) \<rparr>)" if d: "db_inv d" for d
    by (rule db_inv_hops0 [OF d ids_ok_filter [OF db_inv_keys(3) [OF d]]])
       (use db_inv_keys(7) [OF d] db_inv_refs(1) [OF d] in \<open>auto simp: distinct_map_filter\<close>)
  show ?thesis
    using i d1 d2 [OF d1] insert_hops_inv unfolding pf_config_chain_update_def Let_def
    by (simp only: snd_conv split: if_split) blast
qed

lemma chain_delete_inv:
  assumes i: "db_inv db"
  shows "db_inv (snd (pf_config_chain_delete ok db cid))"
proof -
  let ?in = "cid \<in> set (map cr_id (db_chains db))"
  let ?hs = "filter (\<lambda>h. \<not> (hr_chain_id h = cid \<and> ?in)) (db_hops db)"
  let ?d1 = "db \<lparr> db_hops := ?hs \<rparr>"
  let ?cs = "filter (\<lambda>r. cr_id r \<noteq> cid) (db_chains db)"
  have d: "db_inv ?d1"
    by (rule db_inv_hops0 [OF i ids_ok_filter [OF db_inv_keys(3) [OF i]]])
       (use db_inv_keys(7) [OF i] db_inv_refs(1) [OF i] in \<open>auto simp: distinct_map_filter\<close>)
  have "db_inv (?d1 \<lparr> db_chains := ?cs \<rparr>)"
    if c: "\<not> (?in \<and> list_ex (\<lambda>r. rr_chain_id r = Some cid) (db_rules db))"
  proof -
    have h: "\<forall>h \<in> set (db_hops ?d1). hr_chain_id h \<in> cr_id ` set ?cs"
      using db_inv_refs(1) [OF i] by fastforce
    have r: "\<forall>r \<in> set (db_rules ?d1). \<forall>x. rr_chain_id r = Some x \<longrightarrow> x \<in> cr_id ` set ?cs"
      using c db_inv_refs(3) [OF i] by (fastforce simp: list_ex_iff)
    have k: "ids_ok (map cr_id ?cs) (db_seq_chains ?d1)" "distinct (map cr_name ?cs)"
      using db_inv_keys(2,6) [OF i] by (simp_all add: ids_ok_filter distinct_map_filter)
    show ?thesis
      by (rule db_inv_chains0 [OF d k h r])
  qed
  moreover have "?d1 \<lparr> db_chains := ?cs \<rparr> = db \<lparr> db_chains := ?cs, db_hops := ?hs \<rparr>" by simp
  ultimately show ?thesis using i unfolding pf_config_chain_delete_def by (simp only: snd_conv split: if_split) blast
qed

lemma config_set_inv: "db_inv db \<Longrightarrow> db_inv (snd (pf_config_set ok db k v))"
  unfolding pf_config_set_def Let_def by (auto simp: db_inv_def)

section \<open>Reachable databases\<close>

text \<open>
  The statement of the \<^verbatim>\<open>rule.reorder\<close> request (\<^verbatim>\<open>main.c\<close>): rule \<open>rid\<close> gets the priority \<open>prio\<close>.
\<close>

definition set_rule_priority :: "faults \<Rightarrow> nat \<Rightarrow> pf_db \<Rightarrow> int \<Rightarrow> int \<Rightarrow> bool \<times> pf_db" where
  "set_rule_priority ok k db rid prio = (if \<not> ok k then (False, db)
     else (True, db \<lparr> db_rules := map (\<lambda>x. if rr_id x = rid then x \<lparr> rr_priority := prio \<rparr> else x) (db_rules db) \<rparr>))"

inductive db_reach :: "pf_db \<Rightarrow> bool" where
  reach_empty: "db_reach pf_db_empty"
| reach_proxy_add: "db_reach db \<Longrightarrow> db_reach (snd (pf_config_proxy_add ok now db p))"
| reach_proxy_update: "db_reach db \<Longrightarrow> db_reach (snd (pf_config_proxy_update ok now db p))"
| reach_proxy_delete: "db_reach db \<Longrightarrow> db_reach (snd (pf_config_proxy_delete ok db i))"
| reach_proxy_health: "db_reach db \<Longrightarrow> db_reach (snd (pf_config_proxy_update_health ok now db i h l))"
| reach_rule_add: "db_reach db \<Longrightarrow> db_reach (snd (pf_config_rule_add ok now db r))"
| reach_rule_update: "db_reach db \<Longrightarrow> db_reach (snd (pf_config_rule_update ok now db r))"
| reach_rule_delete: "db_reach db \<Longrightarrow> db_reach (snd (pf_config_rule_delete ok db i))"
| reach_rule_priority: "db_reach db \<Longrightarrow> db_reach (snd (set_rule_priority ok k db i prio))"
| reach_chain_add: "db_reach db \<Longrightarrow> db_reach (snd (pf_config_chain_add ok now db c))"
| reach_chain_update: "db_reach db \<Longrightarrow> db_reach (snd (pf_config_chain_update ok db c))"
| reach_chain_delete: "db_reach db \<Longrightarrow> db_reach (snd (pf_config_chain_delete ok db i))"
| reach_config_set: "db_reach db \<Longrightarrow> db_reach (snd (pf_config_set ok db key v))"

lemma set_rule_priority_inv:
  assumes i: "db_inv db"
  shows "db_inv (snd (set_rule_priority ok k db rid prio))"
proof -
  let ?xs = "map (\<lambda>x. if rr_id x = rid then x \<lparr> rr_priority := prio \<rparr> else x) (db_rules db)"
  have e: "map rr_id ?xs = map rr_id (db_rules db)" by (rule map_if_keep) simp
  have "\<forall>x \<in> set ?xs. proxy_fk db (rr_proxy_id x) \<and> chain_fk db (rr_chain_id x)"
    using i by (auto simp: db_inv_def)
  hence "db_inv (db \<lparr> db_rules := ?xs \<rparr>)"
    by (intro db_inv_rules0 [OF i]) (simp_all only: e db_inv_keys(4) [OF i])
  thus ?thesis using i by (simp add: set_rule_priority_def)
qed

lemmas db_ops_inv = proxy_add_inv proxy_update_inv proxy_delete_inv proxy_update_health_inv rule_add_inv rule_update_inv
  rule_delete_inv set_rule_priority_inv chain_add_inv chain_update_inv chain_delete_inv config_set_inv

lemma db_reach_inv: "db_reach db \<Longrightarrow> db_inv db"
  by (induction rule: db_reach.induct) (simp_all add: db_inv_empty db_ops_inv)

section \<open>Stored and loaded records\<close>

lemma col_bind_opt: "length s < cap \<Longrightarrow> col_opt cap (bind_opt s) = s"
  by (simp add: col_opt_def bind_opt_def snprintf_s_id)

lemma bind_id_back: "(case bind_id w of None \<Rightarrow> 0 | Some p \<Rightarrow> word_of_int p) = w"
  by (simp add: bind_id_def)

lemma port_back: "word_of_int (int32_of (int (unat (p :: u16)))) = p"
proof -
  have "uint p < 65536" using unsigned_less [of p, where ?'a = int] by simp
  moreover have "- (2 ^ 31) \<le> uint p" by (rule order_trans [of _ 0]) simp_all
  ultimately have "int32_of (uint p) = uint p" by (intro int32_of_id) simp_all
  thus ?thesis by simp
qed

lemma int32_of_sint: "int32_of (sint (w :: u32)) = sint w"
  using sint_greater_eq [of w] sint_less [of w] by (intro int32_of_id) simp_all

lemma find_append_fresh:
  "\<forall>x \<in> set xs. k x \<noteq> i \<Longrightarrow> k y = i \<Longrightarrow> find (\<lambda>x. k x = i) (xs @ [y]) = Some y"
  by (induction xs) auto

definition int32_range :: "int \<Rightarrow> bool" where
  "int32_range x \<longleftrightarrow> - (2 ^ 31) \<le> x \<and> x < 2 ^ 31"

lemma rule_row_back:
  assumes "rule_fits r" "int32_range (r_priority r)" "int32_range (r_enabled r)"
  shows "row_to_rule \<lparr> rr_id = i, rr_name = r_name r, rr_enabled = r_enabled r,
            rr_priority = r_priority r, rr_match_app = bind_opt (r_app_path r), rr_match_domain = bind_opt (r_domain r),
            rr_match_ip = bind_opt (r_ip_cidr r),
            rr_match_port = (if r_dst_port r \<noteq> 0 then Some (int (unat (r_dst_port r))) else None),
            rr_action = pf_action_str (r_action r), rr_proxy_id = bind_id (r_proxy_id r),
            rr_chain_id = bind_id (r_chain_id r), rr_created_at = a, rr_updated_at = b \<rparr>
     = r \<lparr> r_id := word_of_int i, r_uid := 0, r_gid := 0, r_proto := 0 \<rparr>"
proof -
  have "(case if r_dst_port r \<noteq> 0 then Some (int (unat (r_dst_port r))) else None of None \<Rightarrow> 0
      | Some p \<Rightarrow> word_of_int (int32_of p)) = r_dst_port r"
    using port_back [of "r_dst_port r"] by simp
  thus ?thesis
    using assms unfolding row_to_rule_def
    by (simp add: rule_fits_def snprintf_s_id int32_of_id int32_range_def col_bind_opt bind_id_back)
qed

lemma proxy_row_back:
  assumes "proxy_fits p" "int32_range (px_enabled p)"
  shows "row_to_proxy \<lparr> pr_id = i, pr_name = px_name p, pr_type = pf_proxy_type_str (px_type p),
            pr_host = px_host p, pr_port = int (unat (px_port p)), pr_username = bind_opt (px_username p),
            pr_password = bind_opt (px_password p), pr_ssh_key = bind_opt (px_ssh_key_path p), pr_enabled = px_enabled p,
            pr_health = px_health p, pr_latency_ms = sint (px_latency_ms p), pr_check_interval = 60,
            pr_created_at = now, pr_updated_at = now \<rparr>
     = p \<lparr> px_id := word_of_int i, px_last_check := now, px_bytes_sent := 0, px_bytes_recv := 0 \<rparr>"
  using assms port_back [of "px_port p"] unfolding row_to_proxy_def
  by (simp add: proxy_fits_def snprintf_s_id int32_of_id int32_range_def col_bind_opt int32_of_sint)

lemma fresh_id: "ids_ok (map f xs) sq \<Longrightarrow> \<forall>x \<in> set xs. f x \<noteq> sq + 1"
  by (force simp: ids_ok_def)

section \<open>Rules in priority order\<close>

text \<open>
  What the rule search relies on: a rule array in ascending priority.  Its client is the search
  of \<^verbatim>\<open>rules.c\<close>; the database provides it.
\<close>

locale rule_source =
  fixes load :: "'db \<Rightarrow> pf_rule list"
  assumes load_sorted: "sorted_wrt (\<lambda>x y. r_priority x \<le> r_priority y) (load db)"
begin

lemma match_least_priority:
  assumes "pf_rules_match E (load db) a d i p = Some r"
  shows "r \<in> set (load db) \<and> rule_applies E a d i p r
    \<and> (\<forall>r' \<in> set (load db). rule_applies E a d i p r' \<longrightarrow> r_priority r \<le> r_priority r')"
  using assms find_is_member [of "rule_applies E a d i p" "load db"]
    find_sorted_least [OF load_sorted, of "rule_applies E a d i p"]
  by (auto simp: pf_rules_match_find)

lemma match_none: "pf_rules_match E (load db) a d i p = None \<longleftrightarrow> (\<forall>r \<in> set (load db). \<not> rule_applies E a d i p r)"
  by (auto simp: pf_rules_match_find find_None_iff)

end

text \<open>Priorities are written from C integers, so reading them back changes nothing.\<close>

definition prio_ok :: "pf_db \<Rightarrow> bool" where
  "prio_ok db \<longleftrightarrow> (\<forall>r \<in> set (db_rules db). int32_range (rr_priority r))"

lemma sorted_wrt_take: "sorted_wrt P xs \<Longrightarrow> sorted_wrt P (take n xs)"
  by (metis append_take_drop_id sorted_wrt_append)

lemma sorted_rules_rows: "sorted_wrt (\<lambda>x y. rr_priority x \<le> rr_priority y) (sort_key rr_priority rs)"
  using sorted_sort_key [of rr_priority rs] by (simp add: sorted_wrt_map)

text \<open>The rows that are loaded, restricted to those whose priority is a C integer.\<close>

definition loaded_rules :: "pf_db \<Rightarrow> pf_rule list" where
  "loaded_rules db = (if prio_ok db then snd (pf_rules_load (\<lambda>_. True) db) else [])"

lemma pf_rules_load_list:
  "snd (pf_rules_load (\<lambda>_. True) db) = map row_to_rule (take PF_MAX_RULES (sort_key rr_priority (db_rules db)))"
  by (simp add: pf_rules_load_def pf_config_rule_list_def PF_MAX_RULES_def)

interpretation rules_db: rule_source loaded_rules
proof
  fix db :: pf_db
  let ?t = "take PF_MAX_RULES (sort_key rr_priority (db_rules db))"
  have "sorted_wrt (\<lambda>x y. r_priority (row_to_rule x) \<le> r_priority (row_to_rule y)) ?t" if "prio_ok db"
  proof (rule sorted_wrt_mono_rel)
    show "sorted_wrt (\<lambda>x y. rr_priority x \<le> rr_priority y) ?t" by (rule sorted_wrt_take [OF sorted_rules_rows])
    fix x y assume "x \<in> set ?t" "y \<in> set ?t" and le: "rr_priority x \<le> rr_priority y"
    hence "x \<in> set (db_rules db)" "y \<in> set (db_rules db)" by (auto dest: in_set_takeD)
    thus "r_priority (row_to_rule x) \<le> r_priority (row_to_rule y)"
      using that le by (simp add: prio_ok_def row_to_rule_def int32_of_id int32_range_def)
  qed
  thus "sorted_wrt (\<lambda>x y. r_priority x \<le> r_priority y) (loaded_rules db)"
    by (simp add: loaded_rules_def pf_rules_load_list sorted_wrt_map)
qed

section \<open>Chains come back with their hops in order\<close>

lemma sint_word_of_pos: "0 \<le> i \<Longrightarrow> i < 2 ^ 31 \<Longrightarrow> sint (word_of_int i :: u32) = i"
  by (simp add: signed_of_int signed_take_bit_int_eq_self)

lemma insert_hops_all:
  assumes "\<forall>j. ok j" "cid \<in> set (map cr_id (db_chains db))" "\<forall>h \<in> set hs. sint h \<in> set (map pr_id (db_proxies db))"
    and "\<forall>x \<in> set (db_hops db). hr_chain_id x = cid \<longrightarrow> hr_order x < int i"
  shows "\<exists>db' rows. insert_hops ok k cid hs i db = (None, db') \<and> db_chains db' = db_chains db
     \<and> db_hops db' = db_hops db @ rows \<and> map hr_proxy_id rows = map sint hs
     \<and> map hr_order rows = map int [i ..< i + length hs] \<and> (\<forall>r \<in> set rows. hr_chain_id r = cid)"
  using assms(2-4)
proof (induction hs arbitrary: k i db)
  case (Cons h hs)
  let ?n = "db_seq_hops db + 1"
  let ?row = "\<lparr> hr_id = ?n, hr_chain_id = cid, hr_proxy_id = sint h, hr_order = int i \<rparr>"
  let ?db1 = "db \<lparr> db_hops := db_hops db @ [?row], db_seq_hops := ?n, db_last_rowid := ?n \<rparr>"
  have "\<not> list_ex (\<lambda>x. hr_chain_id x = cid \<and> hr_order x = int i) (db_hops db)"
    using Cons.prems(3) by (auto simp: list_ex_iff)
  hence s: "insert_hops ok k cid (h # hs) i db = insert_hops ok (k + 1) cid hs (i + 1) ?db1"
    using Cons.prems(1,2) assms(1) by (simp add: Let_def)
  obtain db' rows where r: "insert_hops ok (k + 1) cid hs (i + 1) ?db1 = (None, db')" "db_chains db' = db_chains ?db1"
    "db_hops db' = db_hops ?db1 @ rows" "map hr_proxy_id rows = map sint hs"
    "map hr_order rows = map int [i + 1 ..< i + 1 + length hs]" "\<forall>r \<in> set rows. hr_chain_id r = cid"
    using Cons.IH [of ?db1 "i + 1" "k + 1"] Cons.prems by fastforce
  have "[i ..< i + length (h # hs)] = i # [i + 1 ..< i + 1 + length hs]"
    using upt_conv_Cons [of i "i + length (h # hs)"] by (simp del: upt_Suc)
  thus ?case using s r by (intro exI [of _ db'] exI [of _ "?row # rows"]) auto
qed simp

lemma chain_add_get:
  assumes inv: "db_inv db" and ok: "\<forall>j. ok j" and fits: "chain_fits c" "int32_range (ch_enabled c)"
    and new: "ch_name c \<notin> set (map cr_name (db_chains db))" "db_seq_chains db + 1 < 2 ^ 31"
    and hops: "\<forall>h \<in> set (ch_hops c). sint h \<in> set (map pr_id (db_proxies db))"
  shows "\<exists>db'. pf_config_chain_add ok now db c = (None, db') \<and>
    pf_config_chain_get ok db' (db_seq_chains db + 1) = Inr (c \<lparr> ch_id := word_of_int (db_seq_chains db + 1) \<rparr>)"
proof -
  let ?i = "db_seq_chains db + 1"
  let ?row = "\<lparr> cr_id = ?i, cr_name = ch_name c, cr_enabled = ch_enabled c, cr_created_at = now \<rparr>"
  let ?db1 = "db \<lparr> db_chains := db_chains db @ [?row], db_seq_chains := ?i, db_last_rowid := ?i \<rparr>"
  have fresh: "\<forall>r \<in> set (db_chains db). cr_id r \<noteq> ?i" by (rule fresh_id [OF db_inv_keys(2) [OF inv]])
  hence nohop: "\<forall>x \<in> set (db_hops db). hr_chain_id x \<noteq> ?i" using db_inv_refs(1) [OF inv] by fastforce
  have take: "take PF_MAX_HOPS (ch_hops c) = ch_hops c" using fits by (simp add: chain_fits_def)
  obtain db' rows where r: "insert_hops ok 1 ?i (ch_hops c) 0 ?db1 = (None, db')" "db_chains db' = db_chains ?db1"
    "db_hops db' = db_hops ?db1 @ rows" "map hr_proxy_id rows = map sint (ch_hops c)"
    "map hr_order rows = map int [0 ..< 0 + length (ch_hops c)]" "\<forall>r \<in> set rows. hr_chain_id r = ?i"
    using insert_hops_all [of ok ?i ?db1 "ch_hops c" 0 1] ok hops nohop by fastforce
  have add: "pf_config_chain_add ok now db c = (None, db')"
    using ok new(1) r(1) take by (simp add: pf_config_chain_add_def Let_def)
  have si: "sint (word_of_int ?i :: u32) = ?i"
    using db_inv_keys(2) [OF inv] new(2) by (intro sint_word_of_pos) (simp_all add: ids_ok_def)
  have "filter (\<lambda>h. hr_chain_id h = ?i) (db_hops db') = rows"
    using r(3,6) nohop by (simp add: filter_empty_conv filter_id_conv)
  moreover have "sorted (map hr_order rows)" unfolding r(5) by (simp add: sorted_map sorted_wrt_upt)
  hence "sort_key hr_order rows = rows" by (rule sort_key_id_if_sorted)
  moreover have "map (\<lambda>h. word_of_int (hr_proxy_id h)) rows = (map word_of_int (map hr_proxy_id rows) :: u32 list)" by simp
  hence "map (\<lambda>h. word_of_int (hr_proxy_id h)) rows = ch_hops c" unfolding r(4) by (simp add: comp_def)
  ultimately have l: "load_chain_hops db' (word_of_int ?i) = ch_hops c"
    unfolding load_chain_hops_def si by (simp only: take)
  have "find (\<lambda>r. cr_id r = ?i) (db_chains db') = Some ?row"
    unfolding r(2) using find_append_fresh [OF fresh, of ?row] by simp
  hence "pf_config_chain_get ok db' ?i = Inr (row_to_chain db' ?row)" using ok by (simp add: pf_config_chain_get_def)
  moreover have "row_to_chain db' ?row = c \<lparr> ch_id := word_of_int ?i \<rparr>"
    using fits l by (simp add: row_to_chain_def chain_fits_def snprintf_s_id int32_of_id int32_range_def)
  ultimately show ?thesis using add by auto
qed

section \<open>What a failing insertion leaves\<close>

lemma insert_hops_frame:
  "db_chains (snd (insert_hops ok k cid hs i db)) = db_chains db \<and> db_proxies (snd (insert_hops ok k cid hs i db)) = db_proxies db"
  by (induction hs arbitrary: k i db) (simp_all add: Let_def)

lemma insert_hops_missing:
  "\<exists>h \<in> set hs. sint h \<notin> set (map pr_id (db_proxies db)) \<Longrightarrow> fst (insert_hops ok k cid hs i db) = Some PF_ERR_DB"
proof (induction hs arbitrary: k i db)
  case (Cons h hs)
  show ?case
  proof (cases "sint h \<in> set (map pr_id (db_proxies db))")
    case True
    hence "fst (insert_hops ok k' cid hs j db') = Some PF_ERR_DB" if "db_proxies db' = db_proxies db" for k' j db'
      using Cons.prems that by (intro Cons.IH) auto
    thus ?thesis by (simp add: Let_def)
  qed simp
qed simp

definition demo_proxy :: "string \<Rightarrow> pf_proxy" where
  "demo_proxy n = \<lparr> px_id = 0, px_name = n, px_type = PF_PROXY_SOCKS5, px_host = ''127.0.0.1'', px_port = 1080,
     px_username = ''u'', px_password = [], px_ssh_key_path = [], px_health = PF_HEALTH_UNKNOWN, px_latency_ms = 0,
     px_last_check = 0, px_bytes_sent = 0, px_bytes_recv = 0, px_enabled = 1 \<rparr>"

definition demo_db :: pf_db where
  "demo_db = snd (pf_config_proxy_add (\<lambda>_. True) 5 pf_db_empty (demo_proxy ''home''))"

lemma demo_db_inv: "db_inv demo_db"
  unfolding demo_db_def by (intro proxy_add_inv db_inv_empty)

lemma demo_db_fields:
  "map pr_id (db_proxies demo_db) = [1]" "map pr_name (db_proxies demo_db) = [''home'']" "db_chains demo_db = []"
  "db_hops demo_db = []" "db_rules demo_db = []" "db_seq_proxies demo_db = 1" "db_seq_chains demo_db = 0" "db_seq_rules demo_db = 0"
  by (simp_all add: demo_db_def pf_config_proxy_add_def pf_db_empty_def demo_proxy_def)

section \<open>Properties\<close>

text \<open>
  C21: referential integrity: in every database reachable from the empty one by the operations of
  \<^verbatim>\<open>config.c\<close>, whatever statements the engine fails, identifiers and names are unique, identifiers
  are never above the counters that allot them, every hop refers to an existing chain and proxy and
  every rule to an existing proxy and chain.
\<close>

theorem config_reachable_integrity: "db_reach db \<Longrightarrow> db_inv db"
  by (rule db_reach_inv)

theorem config_reachable_integrity_witness:
  "db_inv (snd (pf_config_set (\<lambda>_. True) pf_db_empty ''dns_proxy_id'' ''3''))"
  using config_reachable_integrity [OF reach_config_set [OF reach_empty]] .

text \<open>
  A rule, a proxy and a chain that are added come back unchanged, up to the allotted id (and the
  fields that are not stored): the new rows are found under the id the counter allots, and the hops
  of the chain are in their order.
\<close>

theorem config_add_get_roundtrip:
  assumes "db_inv db" "\<forall>j. ok j"
    and "rule_fits r" "int32_range (r_priority r)" "int32_range (r_enabled r)"
    and "proxy_fk db (bind_id (r_proxy_id r))" "chain_fk db (bind_id (r_chain_id r))"
    and "proxy_fits p" "int32_range (px_enabled p)" "px_name p \<notin> set (map pr_name (db_proxies db))"
    and "chain_fits c" "int32_range (ch_enabled c)" "ch_name c \<notin> set (map cr_name (db_chains db))"
    and "db_seq_chains db + 1 < 2 ^ 31" "\<forall>h \<in> set (ch_hops c). sint h \<in> set (map pr_id (db_proxies db))"
  shows "(\<exists>db'. pf_config_rule_add ok now db r = (None, db') \<and> pf_config_rule_get ok db' (db_seq_rules db + 1)
        = Inr (r \<lparr> r_id := word_of_int (db_seq_rules db + 1), r_uid := 0, r_gid := 0, r_proto := 0 \<rparr>))
    \<and> (\<exists>db'. pf_config_proxy_add ok now db p = (None, db') \<and> pf_config_proxy_get ok db' (db_seq_proxies db + 1)
        = Inr (p \<lparr> px_id := word_of_int (db_seq_proxies db + 1), px_last_check := now, px_bytes_sent := 0, px_bytes_recv := 0 \<rparr>))
    \<and> (\<exists>db'. pf_config_chain_add ok now db c = (None, db') \<and>
        pf_config_chain_get ok db' (db_seq_chains db + 1) = Inr (c \<lparr> ch_id := word_of_int (db_seq_chains db + 1) \<rparr>))"
proof (intro conjI)
  show "\<exists>db'. pf_config_rule_add ok now db r = (None, db') \<and> pf_config_rule_get ok db' (db_seq_rules db + 1)
        = Inr (r \<lparr> r_id := word_of_int (db_seq_rules db + 1), r_uid := 0, r_gid := 0, r_proto := 0 \<rparr>)"
    using assms(2,6,7) find_append_fresh [OF fresh_id [OF db_inv_keys(4) [OF assms(1)]]]
    by (simp add: pf_config_rule_add_def pf_config_rule_get_def Let_def rule_row_back [OF assms(3-5)] del: find.simps)
  show "\<exists>db'. pf_config_proxy_add ok now db p = (None, db') \<and> pf_config_proxy_get ok db' (db_seq_proxies db + 1)
        = Inr (p \<lparr> px_id := word_of_int (db_seq_proxies db + 1), px_last_check := now, px_bytes_sent := 0, px_bytes_recv := 0 \<rparr>)"
    using assms(2,10) find_append_fresh [OF fresh_id [OF db_inv_keys(1) [OF assms(1)]]]
    by (simp add: pf_config_proxy_add_def pf_config_proxy_get_def Let_def proxy_row_back [OF assms(8,9), simplified] del: find.simps)
  show "\<exists>db'. pf_config_chain_add ok now db c = (None, db') \<and>
        pf_config_chain_get ok db' (db_seq_chains db + 1) = Inr (c \<lparr> ch_id := word_of_int (db_seq_chains db + 1) \<rparr>)"
    by (rule chain_add_get [OF assms(1,2,11-15)])
qed

definition demo_chain :: "string \<Rightarrow> u32 list \<Rightarrow> pf_chain" where
  "demo_chain n hs = \<lparr> ch_id = 0, ch_name = n, ch_hops = hs, ch_enabled = 1 \<rparr>"

theorem config_add_get_roundtrip_witness:
  "\<exists>db'. pf_config_chain_add (\<lambda>_. True) 9 demo_db (demo_chain ''two'' [1, 1]) = (None, db')
     \<and> pf_config_chain_get (\<lambda>_. True) db' 1 = Inr ((demo_chain ''two'' [1, 1]) \<lparr> ch_id := 1 \<rparr>)"
proof -
  have "rule_fits (demo_rule 1 10 ''firefox'' ''*.sky.ch'' [] PF_ACTION_DIRECT)" "proxy_fits (demo_proxy ''work'')"
    "chain_fits (demo_chain ''two'' [1, 1])"
    by (simp_all add: rule_fits_def proxy_fits_def chain_fits_def demo_rule_def demo_proxy_def demo_chain_def
        PF_PATH_MAX_def PF_DOMAIN_MAX_def PF_MAX_HOPS_def)
  thus ?thesis
    using config_add_get_roundtrip [where db = demo_db and ok = "\<lambda>_. True" and now = 9 and c = "demo_chain ''two'' [1, 1]"
        and p = "demo_proxy ''work''" and r = "demo_rule 1 10 ''firefox'' ''*.sky.ch'' [] PF_ACTION_DIRECT", OF demo_db_inv]
    by (simp add: demo_db_fields proxy_fk_def chain_fk_def bind_id_def demo_rule_def demo_proxy_def demo_chain_def int32_range_def
        del: list.map)
qed

text \<open>
  A proxy (or a chain) that exists is deleted exactly when its reference count is zero; otherwise
  the database is unchanged and the call reports a database error.
\<close>

theorem delete_iff_unreferenced:
  assumes "\<forall>j. ok j" "pid \<in> set (map pr_id (db_proxies db))" "cid \<in> set (map cr_id (db_chains db))"
  shows "pf_config_proxy_delete ok db pid =
      (if pf_config_proxy_ref_count ok db pid = 0
       then (None, db \<lparr> db_proxies := filter (\<lambda>r. pr_id r \<noteq> pid) (db_proxies db) \<rparr>) else (Some PF_ERR_DB, db))
    \<and> pf_config_chain_delete ok db cid =
      (if pf_config_chain_ref_count ok db cid = 0
       then (None, db \<lparr> db_chains := filter (\<lambda>r. cr_id r \<noteq> cid) (db_chains db),
                        db_hops := filter (\<lambda>h. hr_chain_id h \<noteq> cid) (db_hops db) \<rparr>) else (Some PF_ERR_DB, db))"
proof
  have "proxy_referenced db pid \<longleftrightarrow> pf_config_proxy_ref_count ok db pid \<noteq> 0"
    using assms(1) by (simp add: proxy_referenced_def pf_config_proxy_ref_count_def list_ex_iff filter_empty_conv
        flip: of_nat_add)
  thus "pf_config_proxy_delete ok db pid = (if pf_config_proxy_ref_count ok db pid = 0
       then (None, db \<lparr> db_proxies := filter (\<lambda>r. pr_id r \<noteq> pid) (db_proxies db) \<rparr>) else (Some PF_ERR_DB, db))"
    using assms(1,2) by (simp add: pf_config_proxy_delete_def)
  have "list_ex (\<lambda>r. rr_chain_id r = Some cid) (db_rules db) \<longleftrightarrow> pf_config_chain_ref_count ok db cid \<noteq> 0"
    using assms(1) by (auto simp: pf_config_chain_ref_count_def list_ex_iff filter_empty_conv)
  thus "pf_config_chain_delete ok db cid = (if pf_config_chain_ref_count ok db cid = 0
       then (None, db \<lparr> db_chains := filter (\<lambda>r. cr_id r \<noteq> cid) (db_chains db),
                        db_hops := filter (\<lambda>h. hr_chain_id h \<noteq> cid) (db_hops db) \<rparr>) else (Some PF_ERR_DB, db))"
    using assms(1,3) by (simp add: pf_config_chain_delete_def)
qed

theorem delete_iff_unreferenced_witness:
  "fst (pf_config_proxy_delete (\<lambda>_. True) (snd (pf_config_chain_add (\<lambda>_. True) 9 demo_db (demo_chain ''two'' [1, 1]))) 1) = Some PF_ERR_DB"
proof -
  let ?d = "snd (pf_config_chain_add (\<lambda>_. True) 9 demo_db (demo_chain ''two'' [1, 1]))"
  have "1 \<in> set (map pr_id (db_proxies ?d))" "1 \<in> set (map cr_id (db_chains ?d))"
    "pf_config_proxy_ref_count (\<lambda>_. True) ?d 1 \<noteq> 0" by code_simp+
  thus ?thesis using delete_iff_unreferenced [of "\<lambda>_. True" 1 ?d 1] by simp
qed

text \<open>
  C22: the search over the rules as they are loaded from the database picks a stored rule that applies
  and has the least priority number among all stored rules that apply (up to 1024 rules are loaded).
\<close>

theorem loaded_match_least_priority:
  assumes "prio_ok db" "length (db_rules db) \<le> PF_MAX_RULES"
    and "pf_rules_match E (snd (pf_rules_load (\<lambda>_. True) db)) a d i p = Some r"
  shows "\<exists>row \<in> set (db_rules db). r = row_to_rule row \<and> rule_applies E a d i p r
    \<and> (\<forall>row' \<in> set (db_rules db). rule_applies E a d i p (row_to_rule row') \<longrightarrow> rr_priority row \<le> rr_priority row')"
proof -
  have l: "loaded_rules db = map row_to_rule (sort_key rr_priority (db_rules db))"
    using assms(1,2) by (simp add: loaded_rules_def pf_rules_load_list)
  have prio: "r_priority (row_to_rule x) = rr_priority x" if "x \<in> set (db_rules db)" for x
    using assms(1) that by (simp add: prio_ok_def row_to_rule_def int32_of_id int32_range_def)
  have "pf_rules_match E (loaded_rules db) a d i p = Some r" using assms(1,3) by (simp add: loaded_rules_def)
  note m = rules_db.match_least_priority [OF this]
  then obtain row where row: "row \<in> set (db_rules db)" "r = row_to_rule row" by (auto simp: l)
  have "rr_priority row \<le> rr_priority row'"
    if "row' \<in> set (db_rules db)" "rule_applies E a d i p (row_to_rule row')" for row'
    using m that row prio by (auto simp: l)
  thus ?thesis using row m by blast
qed

definition demo_rules_db :: pf_db where
  "demo_rules_db = snd (pf_config_rule_add (\<lambda>_. True) 2
     (snd (pf_config_rule_add (\<lambda>_. True) 1 demo_db (demo_rule 0 20 [] ''*.sky.ch'' [] PF_ACTION_BLOCK)))
       (demo_rule 0 10 [] ''live.sky.ch'' [] PF_ACTION_DIRECT))"

theorem loaded_match_least_priority_witness:
  "\<exists>row \<in> set (db_rules demo_rules_db).
     pf_rules_match demo_fnm (snd (pf_rules_load (\<lambda>_. True) demo_rules_db)) None (Some ''live.sky.ch'') None 443 = Some (row_to_rule row)
     \<and> rr_priority row = 10"
proof -
  have "prio_ok demo_rules_db" by code_simp
  moreover have "length (db_rules demo_rules_db) = 2"
    by (simp add: demo_rules_db_def pf_config_rule_add_def demo_db_fields proxy_fk_def chain_fk_def bind_id_def demo_rule_def
        del: set_map list.map)
  hence "length (db_rules demo_rules_db) \<le> PF_MAX_RULES" by (simp add: PF_MAX_RULES_def)
  moreover obtain r where r: "pf_rules_match demo_fnm (snd (pf_rules_load (\<lambda>_. True) demo_rules_db)) None (Some ''live.sky.ch'') None 443 = Some r"
    "r_priority r = 10"
  proof -
    have "map_option r_priority (pf_rules_match demo_fnm (snd (pf_rules_load (\<lambda>_. True) demo_rules_db)) None (Some ''live.sky.ch'') None 443) = Some 10"
      by code_simp
    thus ?thesis using that by auto
  qed
  ultimately obtain row where row: "row \<in> set (db_rules demo_rules_db)" "r = row_to_rule row"
    using loaded_match_least_priority [OF _ _ r(1)] by blast
  have "\<forall>x \<in> set (db_rules demo_rules_db). r_priority (row_to_rule x) = rr_priority x" by code_simp
  thus ?thesis using row r by auto
qed

text \<open>
  A setting that is written is read back, truncated to the reader's buffer, and no other setting
  changes.
\<close>

theorem config_set_get:
  assumes "ok 0" "0 < n"
  shows "\<exists>db'. pf_config_set ok db k v = (None, db') \<and> pf_config_get ok db' k n = Inr (snprintf_s n v)
    \<and> (\<forall>k'. k' \<noteq> k \<longrightarrow> pf_config_get ok db' k' n = pf_config_get ok db k' n)"
proof -
  have f: "find (\<lambda>(i, k, v). k = k') (filter (\<lambda>(i, k, v). k \<noteq> c) xs) = find (\<lambda>(i, k, v). k = k') xs" if "k' \<noteq> c"
    for k' c :: string and xs :: "(int \<times> string \<times> string) list" using that by (induction xs) auto
  have n: "find (\<lambda>(i, k, v). k = c) (filter (\<lambda>(i, k, v). k \<noteq> c) xs) = None"
    for c :: string and xs :: "(int \<times> string \<times> string) list" by (auto simp: find_None_iff)
  have a: "find P (xs @ ys) = (case find P xs of None \<Rightarrow> find P ys | Some x \<Rightarrow> Some x)"
    for P and xs ys :: "(int \<times> string \<times> string) list" by (induction xs) auto
  show ?thesis
    using assms by (simp add: pf_config_set_def pf_config_get_def Let_def a n f split: option.split)
qed

theorem config_set_get_witness:
  "\<exists>db'. pf_config_set (\<lambda>_. True) pf_db_empty ''dns_proxy_id'' ''3'' = (None, db') \<and> pf_config_get (\<lambda>_. True) db' ''dns_proxy_id'' 16 = Inr ''3''"
  using config_set_get [of "\<lambda>_. True" 16 pf_db_empty "''dns_proxy_id''" "''3''"] by (auto simp: snprintf_s_id)

text \<open>
  Adding a chain is not atomic.  When a hop names a proxy that does not exist, the call reports
  an error but the row of the chain stays in the database, so every later attempt to add a chain of
  that name fails too.
\<close>

theorem chain_add_failure_keeps_row:
  assumes "ok 0" "ch_name c \<notin> set (map cr_name (db_chains db))" "chain_fits c"
    and "\<exists>h \<in> set (ch_hops c). sint h \<notin> set (map pr_id (db_proxies db))"
  shows "\<exists>db'. pf_config_chain_add ok now db c = (Some PF_ERR_DB, db') \<and> ch_name c \<in> set (map cr_name (db_chains db'))
    \<and> (\<forall>ok' now'. fst (pf_config_chain_add ok' now' db' c) = Some PF_ERR_DB)"
proof -
  let ?i = "db_seq_chains db + 1"
  let ?row = "\<lparr> cr_id = ?i, cr_name = ch_name c, cr_enabled = ch_enabled c, cr_created_at = now \<rparr>"
  let ?db1 = "db \<lparr> db_chains := db_chains db @ [?row], db_seq_chains := ?i, db_last_rowid := ?i \<rparr>"
  let ?r = "insert_hops ok 1 ?i (ch_hops c) 0 ?db1"
  have e: "pf_config_chain_add ok now db c = ?r"
    using assms(1-3) by (simp add: pf_config_chain_add_def Let_def chain_fits_def)
  have "fst ?r = Some PF_ERR_DB" using assms(4) by (intro insert_hops_missing) simp
  moreover have n: "ch_name c \<in> set (map cr_name (db_chains (snd ?r)))" using insert_hops_frame by simp
  moreover have "fst (pf_config_chain_add ok' now' (snd ?r) c) = Some PF_ERR_DB" for ok' now'
    using n by (simp add: pf_config_chain_add_def)
  ultimately show ?thesis using e by (intro exI [of _ "snd ?r"]) (simp add: prod_eq_iff)
qed

theorem chain_add_failure_keeps_row_witness:
  "\<exists>db'. pf_config_chain_add (\<lambda>_. True) 9 pf_db_empty (demo_chain ''two'' [7]) = (Some PF_ERR_DB, db')
     \<and> (\<forall>ok' now'. fst (pf_config_chain_add ok' now' db' (demo_chain ''two'' [7])) = Some PF_ERR_DB)"
  using chain_add_failure_keeps_row [of "\<lambda>_. True" "demo_chain ''two'' [7]" pf_db_empty 9]
  by (auto simp: demo_chain_def pf_db_empty_def chain_fits_def PF_MAX_HOPS_def)

end
