(* ===== verification/Capture.thy ===== *)
theory Capture
  imports Types "HOL-Library.Multiset" "HOL-Library.Sublist"
begin

text \<open>
  The capture pipeline: \<^verbatim>\<open>capture_queue.c\<close>, the bounded ring between the relay threads and the
  capture worker, and \<^verbatim>\<open>capture_worker.c\<close>, its consumer.  Each queue operation runs under the
  queue's mutex and is one atomic step; the write to the eventfd is a step of its own.  A freed
  message is reported in the result of the operation that frees it.  Indices are 32-bit and wrap.
\<close>

section \<open>The ring\<close>

definition PF_CAPTURE_QUEUE_SIZE :: u32 where "PF_CAPTURE_QUEUE_SIZE = push_bit 12 1"
definition PF_CAPTURE_QUEUE_MASK :: u32 where "PF_CAPTURE_QUEUE_MASK = PF_CAPTURE_QUEUE_SIZE - 1"

record pf_capture_msg =
  cm_data :: bytes
  cm_is_request :: bool
  cm_is_tls :: bool
  cm_dst_port :: int
  cm_conn_id :: u64
  cm_ts_sec :: u64
  cm_domain :: string
  cm_dst_ip :: string

record pf_capture_queue =
  cq_head :: u32
  cq_tail :: u32
  cq_slots :: "pf_capture_msg option list"
  cq_eventfd :: nat
  cq_dropped :: u64
  cq_enqueued :: u64

unbundle bit_operations_syntax

definition cq_index :: "u32 \<Rightarrow> nat" where
  "cq_index i = unat (i AND PF_CAPTURE_QUEUE_MASK)"

definition pf_capture_queue_init :: pf_capture_queue where
  "pf_capture_queue_init = \<lparr> cq_head = 0, cq_tail = 0, cq_slots = replicate (unat PF_CAPTURE_QUEUE_SIZE) None,
     cq_eventfd = 0, cq_dropped = 0, cq_enqueued = 0 \<rparr>"

text \<open>Reading, clearing and passing the slot at the tail; the three places of the file do this.\<close>

definition cq_pop :: "pf_capture_queue \<Rightarrow> pf_capture_msg option \<times> pf_capture_queue" where
  "cq_pop q = (cq_slots q ! cq_index (cq_tail q),
     q \<lparr> cq_slots := (cq_slots q)[cq_index (cq_tail q) := None], cq_tail := cq_tail q + 1 \<rparr>)"

text \<open>The locked part of \<^verbatim>\<open>pf_capture_queue_push\<close>: the new queue and the message that is freed.\<close>

definition cq_push_locked :: "pf_capture_queue \<Rightarrow> pf_capture_msg \<Rightarrow> pf_capture_queue \<times> pf_capture_msg list" where
  "cq_push_locked q msg =
     (let used = cq_head q - cq_tail q;
          (q1, freed) = (if used \<ge> PF_CAPTURE_QUEUE_SIZE
            then let (drop, q') = cq_pop q in (q' \<lparr> cq_dropped := cq_dropped q' + 1 \<rparr>, case drop of None \<Rightarrow> [] | Some d \<Rightarrow> [d])
            else (q, []))
      in (q1 \<lparr> cq_slots := (cq_slots q1)[cq_index (cq_head q1) := Some msg], cq_head := cq_head q1 + 1,
              cq_enqueued := cq_enqueued q1 + 1 \<rparr>, freed))"

text \<open>The write of 1 to the eventfd; at the limit of the counter it does not count.\<close>

definition cq_wake :: "pf_capture_queue \<Rightarrow> pf_capture_queue" where
  "cq_wake q = (if cq_eventfd q < 2 ^ 64 - 2 then q \<lparr> cq_eventfd := cq_eventfd q + 1 \<rparr> else q)"

definition pf_capture_queue_push ::
  "pf_capture_queue \<Rightarrow> pf_capture_msg option \<Rightarrow> int \<times> pf_capture_queue \<times> pf_capture_msg list" where
  "pf_capture_queue_push q m = (case m of None \<Rightarrow> (-1, q, [])
     | Some msg \<Rightarrow> let (q1, freed) = cq_push_locked q msg in (0, cq_wake q1, freed))"

fun cq_drain_loop :: "nat \<Rightarrow> pf_capture_queue \<Rightarrow> pf_capture_msg option list \<times> pf_capture_queue" where
  "cq_drain_loop 0 q = ([], q)"
| "cq_drain_loop (Suc n) q =
     (if cq_tail q \<noteq> cq_head q
      then let (m, q1) = cq_pop q; (out, q2) = cq_drain_loop n q1 in (m # out, q2)
      else ([], q))"

definition pf_capture_queue_drain :: "pf_capture_queue \<Rightarrow> int \<Rightarrow> pf_capture_msg option list \<times> pf_capture_queue" where
  "pf_capture_queue_drain q max_n = (if max_n \<le> 0 then ([], q) else cq_drain_loop (nat max_n) q)"

text \<open>\<^verbatim>\<open>pf_capture_queue_close\<close>: every slot from tail to head is freed; the result lists what is freed.\<close>

function cq_close_loop :: "pf_capture_queue \<Rightarrow> pf_capture_msg option list \<times> pf_capture_queue" where
  "cq_close_loop q =
     (if cq_tail q \<noteq> cq_head q
      then let (m, q1) = cq_pop q; (out, q2) = cq_close_loop q1 in (m # out, q2)
      else ([], q))"
  by pat_completeness auto

lemma head_tail_step: "t \<noteq> h \<Longrightarrow> unat (h - t) = Suc (unat (h - (t + 1)))" for h t :: u32
proof -
  assume "t \<noteq> h"
  hence "h - t \<noteq> 0" by simp
  hence "unat (h - t) = Suc (unat (h - t - 1))" by (metis Suc_pred' unat_gt_0 unat_minus_one)
  thus ?thesis by (simp add: algebra_simps)
qed

lemma cq_pop_fields [simp]:
  "cq_head (snd (cq_pop q)) = cq_head q" "cq_tail (snd (cq_pop q)) = cq_tail q + 1"
  "cq_eventfd (snd (cq_pop q)) = cq_eventfd q"
  "cq_slots (snd (cq_pop q)) = (cq_slots q)[cq_index (cq_tail q) := None]"
  by (simp_all add: cq_pop_def)

termination cq_close_loop
  by (relation "measure (\<lambda>q. unat (cq_head q - cq_tail q))")
     (auto simp: cq_pop_def dest: head_tail_step)

declare cq_close_loop.simps [simp del]

section \<open>The queue as a list\<close>

abbreviation cap :: nat where "cap \<equiv> 4096"

lemma cq_size [simp]: "unat PF_CAPTURE_QUEUE_SIZE = cap"
  by (simp add: PF_CAPTURE_QUEUE_SIZE_def push_bit_eq_mult)

lemma cq_mask: "PF_CAPTURE_QUEUE_MASK = mask 12"
  by (simp add: PF_CAPTURE_QUEUE_MASK_def PF_CAPTURE_QUEUE_SIZE_def push_bit_eq_mult mask_eq_exp_minus_1)

lemma cq_index_mod: "cq_index i = unat i mod cap"
proof -
  have "i AND PF_CAPTURE_QUEUE_MASK = take_bit 12 i" by (simp add: cq_mask take_bit_eq_mask)
  thus ?thesis by (simp add: cq_index_def take_bit_eq_mod unat_mod_distrib)
qed

lemma cq_index_add: "cq_index (t + of_nat i) = (cq_index t + i) mod cap"
proof -
  have "unat (t + of_nat i) = (unat t + i) mod 2 ^ 32"
    by (simp add: unat_word_ariths unat_of_nat mod_simps)
  hence "unat (t + of_nat i) mod cap = (unat t + i) mod 2 ^ 32 mod cap" by simp
  also have "... = (unat t + i) mod cap" by (rule mod_mod_cancel) simp
  finally show ?thesis by (simp add: cq_index_mod mod_simps)
qed

definition cq_items :: "pf_capture_queue \<Rightarrow> pf_capture_msg list" where
  "cq_items q = map (\<lambda>i. the (cq_slots q ! ((cq_index (cq_tail q) + i) mod cap))) [0 ..< unat (cq_head q - cq_tail q)]"

text \<open>The window from tail to head holds messages, every other slot is empty.\<close>

definition cq_inv :: "pf_capture_queue \<Rightarrow> bool" where
  "cq_inv q \<longleftrightarrow> length (cq_slots q) = cap \<and> unat (cq_head q - cq_tail q) \<le> cap
     \<and> (\<forall>i < cap. cq_slots q ! ((cq_index (cq_tail q) + i) mod cap) \<noteq> None \<longleftrightarrow> i < unat (cq_head q - cq_tail q))"

lemma ring_neq: "i < cap \<Longrightarrow> j < cap \<Longrightarrow> i \<noteq> j \<Longrightarrow> (t + i) mod cap \<noteq> (t + j) mod cap" for t :: nat
proof (induction i j rule: linorder_wlog)
  case (le i j)
  show ?case
  proof
    assume "(t + i) mod cap = (t + j) mod cap"
    hence "cap dvd (t + j) - (t + i)" using le by (subst mod_eq_dvd_iff_nat [symmetric]) simp_all
    thus False using le by (auto dest: dvd_imp_le)
  qed
qed (metis)

lemma cq_inv_init: "cq_inv pf_capture_queue_init" "cq_items pf_capture_queue_init = []"
  by (simp_all add: cq_inv_def cq_items_def pf_capture_queue_init_def)

lemma cq_length_items: "length (cq_items q) = unat (cq_head q - cq_tail q)"
  by (simp add: cq_items_def)

lemma cq_empty_iff: "cq_tail q = cq_head q \<longleftrightarrow> cq_items q = []"
  by (metis cq_length_items length_0_conv unat_eq_zero right_minus_eq)

lemma cq_index_less [simp]: "cq_index i < cap" by (simp add: cq_index_mod)

lemma cq_index_Suc: "cq_index (t + 1) = (cq_index t + 1) mod cap"
  using cq_index_add [of t 1] by simp

lemma cq_pop_items:
  assumes inv: "cq_inv q" and ne: "cq_items q \<noteq> []"
  shows "fst (cq_pop q) = Some (hd (cq_items q)) \<and> cq_inv (snd (cq_pop q)) \<and> cq_items (snd (cq_pop q)) = tl (cq_items q)"
proof -
  let ?n = "unat (cq_head q - cq_tail q)" and ?t = "cq_index (cq_tail q)" and ?q' = "snd (cq_pop q)"
  let ?n' = "unat (cq_head ?q' - cq_tail ?q')"
  have n: "?n = Suc ?n'" using ne cq_empty_iff head_tail_step by simp
  have len: "length (cq_slots q) = cap" "?n \<le> cap" using inv by (simp_all add: cq_inv_def)
  have slot: "cq_slots ?q' ! ((cq_index (cq_tail ?q') + i) mod cap) = (if Suc i = cap then None else cq_slots q ! ((?t + Suc i) mod cap))"
    if "i < cap" for i
  proof -
    have e: "(cq_index (cq_tail ?q') + i) mod cap = (?t + Suc i) mod cap" by (simp add: cq_index_Suc mod_simps)
    show ?thesis
    proof (cases "Suc i = cap")
      case True
      hence "(?t + Suc i) mod cap = ?t" by simp
      thus ?thesis using True len e by (simp add: nth_list_update)
    next
      case False
      hence "(?t + Suc i) mod cap \<noteq> (?t + 0) mod cap" using that by (intro ring_neq) simp_all
      thus ?thesis using False len e by (simp add: nth_list_update)
    qed
  qed
  have some: "cq_slots q ! ((?t + i) mod cap) \<noteq> None \<longleftrightarrow> i < ?n" if "i < cap" for i using inv that by (simp add: cq_inv_def)
  have "cq_slots q ! ?t \<noteq> None" using some [of 0] n by simp
  moreover have "[0 ..< ?n] = 0 # map Suc [0 ..< ?n']" unfolding n by (simp add: map_Suc_upt upt_conv_Cons del: upt_Suc)
  hence "cq_items q = the (cq_slots q ! ?t) # map (\<lambda>i. the (cq_slots q ! ((?t + Suc i) mod cap))) [0 ..< ?n']"
    by (simp add: cq_items_def comp_def)
  moreover have "map (\<lambda>i. the (cq_slots q ! ((?t + Suc i) mod cap))) [0 ..< ?n'] = cq_items ?q'"
    unfolding cq_items_def by (rule map_cong) (use slot len n in auto)
  moreover have "cq_slots ?q' ! ((cq_index (cq_tail ?q') + i) mod cap) \<noteq> None \<longleftrightarrow> i < ?n'" if "i < cap" for i
    unfolding slot [OF that] using some [of "Suc i"] that n len(2) by (cases "Suc i = cap") auto
  hence "cq_inv ?q'" unfolding cq_inv_def using len n by simp
  ultimately show ?thesis by (auto simp: cq_pop_def)
qed

lemma cq_put_items:
  assumes inv: "cq_inv q" and room: "length (cq_items q) < cap"
  shows "let q' = q \<lparr> cq_slots := (cq_slots q)[cq_index (cq_head q) := Some m], cq_head := cq_head q + 1, cq_enqueued := e \<rparr>
    in cq_inv q' \<and> cq_items q' = cq_items q @ [m]"
proof -
  let ?n = "unat (cq_head q - cq_tail q)" and ?t = "cq_index (cq_tail q)"
  let ?q' = "q \<lparr> cq_slots := (cq_slots q)[cq_index (cq_head q) := Some m], cq_head := cq_head q + 1, cq_enqueued := e \<rparr>"
  have len: "length (cq_slots q) = cap" "?n < cap" using inv room by (simp_all add: cq_inv_def cq_length_items)
  have "cq_index (cq_tail q + of_nat ?n) = (?t + ?n) mod cap" by (rule cq_index_add)
  hence h: "cq_index (cq_head q) = (?t + ?n) mod cap" by simp
  have n': "unat (cq_head ?q' - cq_tail ?q') = Suc ?n"
  proof -
    have "cq_head ?q' - cq_tail ?q' = (cq_head q - cq_tail q) + 1" by simp
    thus ?thesis using len by (simp only: unat_word_ariths) simp
  qed
  have slot: "cq_slots ?q' ! ((?t + i) mod cap) = (if i = ?n then Some m else cq_slots q ! ((?t + i) mod cap))" if "i < cap" for i
    using ring_neq [of i ?n ?t] len that h by (auto simp: nth_list_update)
  have "cq_inv ?q'"
    using inv n' len slot unfolding cq_inv_def by (simp add: less_Suc_eq)
  moreover have "cq_items ?q' = cq_items q @ [m]"
    unfolding cq_items_def n' using slot len by simp
  ultimately show ?thesis by (simp add: Let_def)
qed

lemma cq_push_locked_items:
  assumes inv: "cq_inv q" and r: "cq_push_locked q m = (q', freed)"
  shows "cq_inv q' \<and> freed @ cq_items q' = cq_items q @ [m] \<and> length freed = (if length (cq_items q) < cap then 0 else 1)
    \<and> cq_eventfd q' = cq_eventfd q"
proof (cases "length (cq_items q) < cap")
  case True
  hence "\<not> cq_head q - cq_tail q \<ge> PF_CAPTURE_QUEUE_SIZE" by (simp add: word_le_nat_alt cq_length_items)
  thus ?thesis using r cq_put_items [OF inv True] True by (auto simp: cq_push_locked_def Let_def)
next
  case False
  hence full: "cq_head q - cq_tail q \<ge> PF_CAPTURE_QUEUE_SIZE" by (simp add: word_le_nat_alt cq_length_items)
  have ne: "cq_items q \<noteq> []" using False by auto
  note p = cq_pop_items [OF inv ne]
  let ?q1 = "(snd (cq_pop q)) \<lparr> cq_dropped := cq_dropped (snd (cq_pop q)) + 1 \<rparr>"
  have i1: "cq_inv ?q1" "cq_items ?q1 = tl (cq_items q)" using p by (simp_all add: cq_inv_def cq_items_def)
  have "length (cq_items q) \<le> cap" using inv by (simp add: cq_inv_def cq_length_items)
  hence "length (cq_items ?q1) < cap" using i1 False by simp
  note put = cq_put_items [OF i1(1) this, where m = m and e = "cq_enqueued ?q1 + 1"]
  have "cq_push_locked q m = (?q1 \<lparr> cq_slots := (cq_slots ?q1)[cq_index (cq_head ?q1) := Some m], cq_head := cq_head ?q1 + 1,
     cq_enqueued := cq_enqueued ?q1 + 1 \<rparr>, [hd (cq_items q)])"
    using full p by (simp add: cq_push_locked_def Let_def split_beta)
  thus ?thesis using r put i1(2) ne False by (auto simp: Let_def)
qed

lemma cq_drain_loop_items:
  "cq_inv q \<Longrightarrow> cq_inv (snd (cq_drain_loop n q)) \<and> fst (cq_drain_loop n q) = map Some (take n (cq_items q))
     \<and> cq_items (snd (cq_drain_loop n q)) = drop n (cq_items q) \<and> cq_eventfd (snd (cq_drain_loop n q)) = cq_eventfd q"
proof (induction n arbitrary: q)
  case (Suc n)
  show ?case
  proof (cases "cq_items q = []")
    case True
    thus ?thesis using Suc.prems cq_empty_iff [of q] by simp
  next
    case False
    have p: "fst (cq_pop q) = Some (hd (cq_items q))" "cq_inv (snd (cq_pop q))" "cq_items (snd (cq_pop q)) = tl (cq_items q)"
      using cq_pop_items [OF Suc.prems False] by auto
    have "cq_tail q \<noteq> cq_head q" using False cq_empty_iff by simp
    hence "cq_drain_loop (Suc n) q = (let (out, q2) = cq_drain_loop n (snd (cq_pop q)) in (Some (hd (cq_items q)) # out, q2))"
      using p(1) by (simp add: split_beta)
    moreover have "cq_items q = hd (cq_items q) # tl (cq_items q)" using False by simp
    ultimately show ?thesis using Suc.IH [OF p(2)] p(3)
      by (cases "cq_items q") (simp_all add: split_beta)
  qed
qed simp

lemma cq_close_loop_items:
  "cq_inv q \<Longrightarrow> fst (cq_close_loop q) = map Some (cq_items q) \<and> cq_items (snd (cq_close_loop q)) = [] \<and> cq_inv (snd (cq_close_loop q))"
proof (induction q rule: cq_close_loop.induct)
  case (1 q)
  show ?case
  proof (cases "cq_items q = []")
    case True
    thus ?thesis using 1(2) cq_empty_iff [of q] by (simp add: cq_close_loop.simps [of q])
  next
    case False
    have p: "fst (cq_pop q) = Some (hd (cq_items q))" "cq_inv (snd (cq_pop q))" "cq_items (snd (cq_pop q)) = tl (cq_items q)"
      using cq_pop_items [OF 1(2) False] by auto
    have ne: "cq_tail q \<noteq> cq_head q" using False cq_empty_iff by simp
    hence "cq_close_loop q = (let (out, q2) = cq_close_loop (snd (cq_pop q)) in (Some (hd (cq_items q)) # out, q2))"
      using p(1) by (subst cq_close_loop.simps) (simp add: split_beta)
    moreover have "(fst (cq_pop q), snd (cq_pop q)) = cq_pop q" by simp
    note 1(1) [OF ne this refl p(2)]
    ultimately show ?thesis using p(3) False by (cases "cq_items q") (simp_all add: split_beta)
  qed
qed

section \<open>The contract of a bounded FIFO that drops its oldest element\<close>

datatype 'm queue_op = Push 'm | Drain nat

fun pushes :: "'m queue_op list \<Rightarrow> 'm list" where
  "pushes [] = []"
| "pushes (Push m # ops) = m # pushes ops"
| "pushes (Drain n # ops) = pushes ops"

text \<open>A run: the final queue, what was delivered, what was dropped, and both in the order they left.\<close>

fun queue_run :: "('q \<Rightarrow> 'm \<Rightarrow> 'q \<times> 'm list) \<Rightarrow> ('q \<Rightarrow> nat \<Rightarrow> 'm list \<times> 'q) \<Rightarrow> 'q \<Rightarrow> 'm queue_op list
    \<Rightarrow> 'q \<times> 'm list \<times> 'm list \<times> 'm list" where
  "queue_run put get q [] = (q, [], [], [])"
| "queue_run put get q (Push m # ops) =
     (let (q1, ev) = put q m; (q2, del, drp, lft) = queue_run put get q1 ops in (q2, del, ev @ drp, ev @ lft))"
| "queue_run put get q (Drain n # ops) =
     (let (ys, q1) = get q n; (q2, del, drp, lft) = queue_run put get q1 ops in (q2, ys @ del, drp, ys @ lft))"

locale dropping_fifo =
  fixes items :: "'q \<Rightarrow> 'm list" and ok :: "'q \<Rightarrow> bool" and capacity :: nat
    and put :: "'q \<Rightarrow> 'm \<Rightarrow> 'q \<times> 'm list" and get :: "'q \<Rightarrow> nat \<Rightarrow> 'm list \<times> 'q"
  assumes put_ok: "ok q \<Longrightarrow> put q m = (q', ev) \<Longrightarrow> ok q'"
    and put_items: "ok q \<Longrightarrow> put q m = (q', ev) \<Longrightarrow> ev @ items q' = items q @ [m]"
    and put_evicts: "ok q \<Longrightarrow> put q m = (q', ev) \<Longrightarrow> length ev = (if length (items q) < capacity then 0 else 1)"
    and get_ok: "ok q \<Longrightarrow> get q n = (ys, q') \<Longrightarrow> ok q'"
    and get_items: "ok q \<Longrightarrow> get q n = (ys, q') \<Longrightarrow> ys = take n (items q) \<and> items q' = drop n (items q)"
begin

lemma run_fifo:
  "ok q \<Longrightarrow> queue_run put get q ops = (q', del, drp, lft) \<Longrightarrow>
    ok q' \<and> lft @ items q' = items q @ pushes ops \<and> mset lft = mset del + mset drp \<and> subseq del lft"
proof (induction ops arbitrary: q q' del drp lft rule: pushes.induct)
  case (2 m ops)
  obtain q1 ev where p: "put q m = (q1, ev)" by force
  obtain d' e' l' where r: "queue_run put get q1 ops = (q', d', e', l')" "del = d'" "drp = ev @ e'" "lft = ev @ l'"
    using 2(3) p by (auto split: prod.splits)
  have "ev @ items q1 @ pushes ops = items q @ m # pushes ops" using put_items [OF 2(2) p] by (metis append_assoc append_Cons append_Nil)
  thus ?case using 2(1) [OF put_ok [OF 2(2) p] r(1)] r(2-4) by (auto intro: list_emb_append2)
next
  case (3 n ops)
  obtain ys q1 where p: "get q n = (ys, q1)" by force
  obtain d' e' l' where r: "queue_run put get q1 ops = (q', d', e', l')" "del = ys @ d'" "drp = e'" "lft = ys @ l'"
    using 3(3) p by (auto split: prod.splits)
  have "ys @ items q1 = items q" using get_items [OF 3(2) p] by simp
  hence "ys @ items q1 @ pushes ops = items q @ pushes ops" by (metis append_assoc)
  thus ?case using 3(1) [OF get_ok [OF 3(2) p] r(1)] r(2-4) by (auto intro: list_emb_append_mono)
qed simp

lemma run_no_drop:
  "ok q \<Longrightarrow> queue_run put get q ops = (q', del, drp, lft) \<Longrightarrow> length (items q) + length (pushes ops) \<le> capacity
    \<Longrightarrow> drp = [] \<and> del = lft"
proof (induction ops arbitrary: q q' del drp lft rule: pushes.induct)
  case (2 m ops)
  obtain q1 ev where p: "put q m = (q1, ev)" by force
  have ev: "ev = []" using put_evicts [OF 2(2) p] 2(4) by simp
  hence "length (items q1) = Suc (length (items q))" using put_items [OF 2(2) p] by simp
  moreover obtain d' e' l' where r: "queue_run put get q1 ops = (q', d', e', l')" "del = d'" "drp = ev @ e'" "lft = ev @ l'"
    using 2(3) p by (auto split: prod.splits)
  ultimately show ?case using 2(1) [OF put_ok [OF 2(2) p] r(1)] 2(4) ev by simp
next
  case (3 n ops)
  obtain ys q1 where p: "get q n = (ys, q1)" by force
  have "length (items q1) \<le> length (items q)" using get_items [OF 3(2) p] by simp
  moreover obtain d' e' l' where r: "queue_run put get q1 ops = (q', d', e', l')" "del = ys @ d'" "drp = e'" "lft = ys @ l'"
    using 3(3) p by (auto split: prod.splits)
  ultimately show ?case using 3(1) [OF get_ok [OF 3(2) p] r(1)] 3(4) by simp
qed simp

end

definition cq_put :: "pf_capture_queue \<Rightarrow> pf_capture_msg \<Rightarrow> pf_capture_queue \<times> pf_capture_msg list" where
  "cq_put q m = snd (pf_capture_queue_push q (Some m))"

definition cq_get :: "pf_capture_queue \<Rightarrow> nat \<Rightarrow> pf_capture_msg list \<times> pf_capture_queue" where
  "cq_get q n = (let (out, q1) = pf_capture_queue_drain q (int n) in (map the out, q1))"

lemma cq_wake_same [simp]: "cq_items (cq_wake q) = cq_items q" "cq_inv (cq_wake q) = cq_inv q"
  by (simp_all add: cq_wake_def cq_items_def cq_inv_def)

lemma cq_drain_items:
  "cq_inv q \<Longrightarrow> cq_inv (snd (pf_capture_queue_drain q n)) \<and> fst (pf_capture_queue_drain q n) = map Some (take (nat n) (cq_items q))
     \<and> cq_items (snd (pf_capture_queue_drain q n)) = drop (nat n) (cq_items q)
     \<and> cq_eventfd (snd (pf_capture_queue_drain q n)) = cq_eventfd q"
  using cq_drain_loop_items [of q "nat n"] by (auto simp: pf_capture_queue_drain_def)

lemma cq_put_unfold: "cq_put q m = (cq_wake (fst (cq_push_locked q m)), snd (cq_push_locked q m))"
  by (simp add: cq_put_def pf_capture_queue_push_def split_beta Let_def)

interpretation cq: dropping_fifo cq_items cq_inv cap cq_put cq_get
proof unfold_locales
  fix q m q' ev assume i: "cq_inv q" and p: "cq_put q m = (q', ev)"
  note l = cq_push_locked_items [OF i, of m "fst (cq_push_locked q m)" ev]
  have "cq_push_locked q m = (fst (cq_push_locked q m), ev)" "q' = cq_wake (fst (cq_push_locked q m))"
    using p by (auto simp: cq_put_unfold prod_eq_iff)
  thus "cq_inv q'" "ev @ cq_items q' = cq_items q @ [m]" "length ev = (if length (cq_items q) < cap then 0 else 1)"
    using l by auto
next
  fix q n ys q' assume i: "cq_inv q" and p: "cq_get q n = (ys, q')"
  show "cq_inv q'" "ys = take n (cq_items q) \<and> cq_items q' = drop n (cq_items q)"
    using cq_drain_items [OF i, of "int n"] p by (auto simp: cq_get_def split_beta Let_def comp_def)
qed

section \<open>The worker\<close>

text \<open>
  \<^verbatim>\<open>worker_main\<close> as a program counter: at the loop test, blocked in \<^verbatim>\<open>read(eventfd)\<close>, at the second
  test of \<^verbatim>\<open>g_running\<close>, in the drain loop, or returned.  Producers are counted by the number of
  eventfd writes still to come after their locked section.  \<open>cw_seen\<close> lists what the callback got.
\<close>

definition DRAIN_BATCH :: int where "DRAIN_BATCH = 64"

datatype worker_pc = W_Test | W_Read | W_Retest | W_Drain | W_Exited

record capture_sys =
  cw_queue :: pf_capture_queue
  cw_running :: bool
  cw_pc :: worker_pc
  cw_unsent :: nat
  cw_stopping :: bool
  cw_seen :: "pf_capture_msg option list"

definition pf_capture_worker_start :: "bool \<Rightarrow> bool \<Rightarrow> pf_capture_queue \<Rightarrow> int \<times> capture_sys option" where
  "pf_capture_worker_start already_running thread_ok q =
     (if already_running then (-1, None)
      else if \<not> thread_ok then (-1, None)
      else (0, Some \<lparr> cw_queue = q, cw_running = True, cw_pc = W_Test, cw_unsent = 0, cw_stopping = False, cw_seen = [] \<rparr>))"

text \<open>One step of the worker thread; \<open>read_err\<close> is the errno of the read, if it fails (EINTR or another).\<close>

definition worker_step :: "bool option \<Rightarrow> capture_sys \<Rightarrow> capture_sys option" where
  "worker_step read_err s = (case cw_pc s of
     W_Test \<Rightarrow> Some (s \<lparr> cw_pc := if cw_running s then W_Read else W_Exited \<rparr>)
   | W_Read \<Rightarrow> (case read_err of
       Some eintr \<Rightarrow> Some (s \<lparr> cw_pc := if eintr then W_Test else W_Exited \<rparr>)
     | None \<Rightarrow> if cq_eventfd (cw_queue s) = 0 then None
              else Some (s \<lparr> cw_pc := W_Retest, cw_queue := (cw_queue s) \<lparr> cq_eventfd := 0 \<rparr> \<rparr>))
   | W_Retest \<Rightarrow> Some (s \<lparr> cw_pc := if cw_running s then W_Drain else W_Exited \<rparr>)
   | W_Drain \<Rightarrow> (let (batch, q) = pf_capture_queue_drain (cw_queue s) DRAIN_BATCH in
       if batch = [] then Some (s \<lparr> cw_queue := q, cw_pc := W_Test \<rparr>)
       else Some (s \<lparr> cw_queue := q, cw_seen := cw_seen s @ batch \<rparr>))
   | W_Exited \<Rightarrow> None)"

text \<open>\<^verbatim>\<open>pf_capture_worker_stop\<close> up to the join: clear the flag, then write to the eventfd.\<close>

inductive capture_step :: "capture_sys \<Rightarrow> capture_sys \<Rightarrow> bool" where
  step_push: "cq_push_locked (cw_queue s) m = (q, freed) \<Longrightarrow>
     capture_step s (s \<lparr> cw_queue := q, cw_unsent := cw_unsent s + 1 \<rparr>)"
| step_wake: "cw_unsent s > 0 \<Longrightarrow>
     capture_step s (s \<lparr> cw_queue := cq_wake (cw_queue s), cw_unsent := cw_unsent s - 1 \<rparr>)"
| step_stop: "cw_running s \<Longrightarrow> capture_step s (s \<lparr> cw_running := False, cw_stopping := True \<rparr>)"
| step_stop_wake: "cw_stopping s \<Longrightarrow>
     capture_step s (s \<lparr> cw_queue := cq_wake (cw_queue s), cw_stopping := False \<rparr>)"
| step_worker: "worker_step err s = Some s' \<Longrightarrow> capture_step s s'"

inductive_cases capture_stepE: "capture_step s s'"

inductive capture_reach :: "capture_sys \<Rightarrow> bool" where
  reach_start: "pf_capture_worker_start False True pf_capture_queue_init = (0, Some s) \<Longrightarrow> capture_reach s"
| reach_step: "capture_reach s \<Longrightarrow> capture_step s s' \<Longrightarrow> capture_reach s'"

text \<open>
  Outside the drain loop a message is never left without a wake-up to come, and after a stop the
  worker never blocks for good.
\<close>

definition no_lost_wakeup :: "capture_sys \<Rightarrow> bool" where
  "no_lost_wakeup s \<longleftrightarrow> cq_inv (cw_queue s)
     \<and> (cw_pc s \<in> {W_Test, W_Read} \<longrightarrow> cq_items (cw_queue s) \<noteq> [] \<longrightarrow> cq_eventfd (cw_queue s) > 0 \<or> cw_unsent s > 0)
     \<and> (cw_pc s = W_Read \<longrightarrow> \<not> cw_running s \<longrightarrow> cq_eventfd (cw_queue s) > 0 \<or> cw_stopping s)"

lemma cq_wake_event [simp]: "cq_eventfd (cq_wake q) > 0"
  by (simp add: cq_wake_def)

lemma cq_eventfd_same [simp]:
  "cq_items (q \<lparr> cq_eventfd := n \<rparr>) = cq_items q" "cq_inv (q \<lparr> cq_eventfd := n \<rparr>) = cq_inv q"
  by (simp_all add: cq_items_def cq_inv_def)

lemma worker_step_no_lost:
  assumes "no_lost_wakeup s" "worker_step err s = Some s'"
  shows "no_lost_wakeup s'"
proof (cases "cw_pc s")
  case W_Drain
  have i: "cq_inv (cw_queue s)" using assms(1) by (simp add: no_lost_wakeup_def)
  obtain batch q where d: "pf_capture_queue_drain (cw_queue s) DRAIN_BATCH = (batch, q)" by force
  have r: "cq_inv q" "batch = map Some (take 64 (cq_items (cw_queue s)))" "cq_items q = drop 64 (cq_items (cw_queue s))"
    using cq_drain_items [OF i, of DRAIN_BATCH] d by (simp_all add: DRAIN_BATCH_def)
  show ?thesis
    using assms(2) W_Drain d r by (auto simp: worker_step_def no_lost_wakeup_def split: if_splits)
qed (use assms in \<open>auto simp: worker_step_def no_lost_wakeup_def split: option.splits if_splits\<close>)

lemma capture_step_no_lost:
  assumes "no_lost_wakeup s" "capture_step s s'"
  shows "no_lost_wakeup s'"
  using assms(2)
proof cases
  case (step_push m q freed)
  have "cq_inv q" "cq_eventfd q = cq_eventfd (cw_queue s)"
    using cq_push_locked_items [OF _ step_push(2)] assms(1) by (simp_all add: no_lost_wakeup_def)
  thus ?thesis using assms(1) step_push(1) by (auto simp: no_lost_wakeup_def)
next
  case (step_worker err)
  thus ?thesis using worker_step_no_lost assms(1) by blast
qed (use assms(1) in \<open>auto simp: no_lost_wakeup_def\<close>)

lemma capture_reach_no_lost: "capture_reach s \<Longrightarrow> no_lost_wakeup s"
proof (induction rule: capture_reach.induct)
  case (reach_start s)
  thus ?case by (auto simp: no_lost_wakeup_def pf_capture_worker_start_def cq_inv_init)
next
  case (reach_step s s')
  thus ?case by (blast intro: capture_step_no_lost)
qed

text \<open>The inner loop of a wake-up when no producer interferes.\<close>

fun drain_steps :: "nat \<Rightarrow> capture_sys \<Rightarrow> capture_sys" where
  "drain_steps 0 s = s"
| "drain_steps (Suc n) s = (case worker_step None s of None \<Rightarrow> s | Some s' \<Rightarrow> if cw_pc s' = W_Drain then drain_steps n s' else s')"

lemma drain_steps_all:
  "cq_inv (cw_queue s) \<Longrightarrow> cw_pc s = W_Drain \<Longrightarrow> length (cq_items (cw_queue s)) \<le> 64 * n \<Longrightarrow>
    cw_pc (drain_steps (Suc n) s) = W_Test \<and> cq_items (cw_queue (drain_steps (Suc n) s)) = []
    \<and> cw_seen (drain_steps (Suc n) s) = cw_seen s @ map Some (cq_items (cw_queue s))"
proof (induction n arbitrary: s)
  case 0
  thus ?case using cq_drain_items [of "cw_queue s" DRAIN_BATCH]
    by (simp add: worker_step_def split_beta Let_def)
next
  case (Suc n)
  let ?q = "snd (pf_capture_queue_drain (cw_queue s) DRAIN_BATCH)"
  have d: "cq_inv ?q" "fst (pf_capture_queue_drain (cw_queue s) DRAIN_BATCH) = map Some (take 64 (cq_items (cw_queue s)))"
    "cq_items ?q = drop 64 (cq_items (cw_queue s))"
    using cq_drain_items [OF Suc.prems(1), of DRAIN_BATCH] by (simp_all add: DRAIN_BATCH_def)
  show ?case
  proof (cases "cq_items (cw_queue s) = []")
    case True
    thus ?thesis using d Suc.prems(2) by (simp add: worker_step_def split_beta Let_def)
  next
    case False
    let ?s = "s \<lparr> cw_queue := ?q, cw_seen := cw_seen s @ map Some (take 64 (cq_items (cw_queue s))) \<rparr>"
    have "worker_step None s = Some ?s" using d Suc.prems(2) False by (simp add: worker_step_def split_beta Let_def)
    hence "drain_steps (Suc (Suc n)) s = drain_steps (Suc n) ?s" using Suc.prems(2) by simp
    moreover have "map Some (take 64 (cq_items (cw_queue s))) @ map Some (drop 64 (cq_items (cw_queue s))) = map Some (cq_items (cw_queue s))"
      by (simp flip: map_append)
    ultimately show ?thesis using Suc.IH [of ?s] d Suc.prems by simp
  qed
qed

section \<open>Properties\<close>

text \<open>
  C11: the ring with wrapping 32-bit indices implements a bounded FIFO list: pushing appends, and on
  a full ring first frees exactly the oldest message; draining takes the oldest messages in order;
  closing frees exactly the messages that are left; the ring invariant is kept.
\<close>

theorem capture_queue_refines_fifo:
  assumes "cq_inv q"
  shows "(\<exists>q' freed. pf_capture_queue_push q (Some m) = (0, q', freed) \<and> cq_inv q'
      \<and> (if length (cq_items q) < 4096 then freed = [] \<and> cq_items q' = cq_items q @ [m]
         else freed = [hd (cq_items q)] \<and> cq_items q' = tl (cq_items q) @ [m]))
    \<and> (\<exists>q'. pf_capture_queue_drain q n = (map Some (take (nat n) (cq_items q)), q') \<and> cq_inv q'
      \<and> cq_items q' = drop (nat n) (cq_items q))
    \<and> (\<exists>q'. cq_close_loop q = (map Some (cq_items q), q') \<and> cq_items q' = [])"
proof (intro conjI)
  let ?r = "cq_push_locked q m"
  have p: "cq_inv (fst ?r) \<and> snd ?r @ cq_items (fst ?r) = cq_items q @ [m] \<and> length (snd ?r) = (if length (cq_items q) < cap then 0 else 1)"
    using cq_push_locked_items [OF assms, of m "fst ?r" "snd ?r"] by simp
  have "snd ?r = [hd (cq_items q)] \<and> cq_items (fst ?r) = tl (cq_items q) @ [m]" if "\<not> length (cq_items q) < 4096"
    using p that by (cases "cq_items q"; cases "snd ?r") auto
  thus "\<exists>q' freed. pf_capture_queue_push q (Some m) = (0, q', freed) \<and> cq_inv q'
      \<and> (if length (cq_items q) < 4096 then freed = [] \<and> cq_items q' = cq_items q @ [m]
         else freed = [hd (cq_items q)] \<and> cq_items q' = tl (cq_items q) @ [m])"
    using p by (auto simp: pf_capture_queue_push_def split_beta Let_def)
  show "\<exists>q'. pf_capture_queue_drain q n = (map Some (take (nat n) (cq_items q)), q') \<and> cq_inv q'
      \<and> cq_items q' = drop (nat n) (cq_items q)"
    using cq_drain_items [OF assms, of n] by (intro exI [of _ "snd (pf_capture_queue_drain q n)"]) (simp add: prod_eq_iff)
  show "\<exists>q'. cq_close_loop q = (map Some (cq_items q), q') \<and> cq_items q' = []"
    using cq_close_loop_items [OF assms] by (intro exI [of _ "snd (cq_close_loop q)"]) (simp add: prod_eq_iff)
qed

definition demo_msg :: pf_capture_msg where
  "demo_msg = \<lparr> cm_data = [71, 69, 84], cm_is_request = True, cm_is_tls = False, cm_dst_port = 80, cm_conn_id = 1, cm_ts_sec = 0,
     cm_domain = ''sky.ch'', cm_dst_ip = ''10.0.0.1'' \<rparr>"

theorem capture_queue_refines_fifo_witness:
  "\<exists>q'. pf_capture_queue_push (pf_capture_queue_init \<lparr> cq_head := - 1, cq_tail := - 1 \<rparr>) (Some demo_msg) = (0, q', []) \<and> cq_items q' = [demo_msg]"
proof -
  let ?q = "pf_capture_queue_init \<lparr> cq_head := - 1, cq_tail := - 1 \<rparr>"
  have "cq_inv ?q" "cq_items ?q = []" by (simp_all add: cq_inv_def cq_items_def pf_capture_queue_init_def)
  thus ?thesis using capture_queue_refines_fifo [of ?q demo_msg] by auto
qed

text \<open>
  Over every interleaving of pushes and drains the messages that leave the queue (delivered or
  dropped) followed by those still in it are exactly the pushed messages in order; every message
  that left was either delivered or freed, once; and with at most 4096 pushes nothing is dropped.
\<close>

theorem capture_run_fifo:
  assumes "queue_run cq_put cq_get pf_capture_queue_init ops = (q, delivered, dropped, lft)"
  shows "lft @ cq_items q = pushes ops \<and> mset lft = mset delivered + mset dropped \<and> subseq delivered (pushes ops)
    \<and> (length (pushes ops) \<le> 4096 \<longrightarrow> dropped = [] \<and> delivered @ cq_items q = pushes ops)"
proof -
  have "lft @ cq_items q = pushes ops" "mset lft = mset delivered + mset dropped" "subseq delivered lft"
    using cq.run_fifo [OF cq_inv_init(1) assms] by (simp_all add: cq_inv_init)
  moreover have "subseq delivered (lft @ cq_items q)" if "subseq delivered lft" using that by (rule list_emb_prefix)
  moreover have "dropped = [] \<and> delivered = lft" if "length (pushes ops) \<le> 4096"
    using cq.run_no_drop [OF cq_inv_init(1) assms] that by (simp add: cq_inv_init)
  ultimately show ?thesis by simp
qed

theorem capture_run_fifo_witness:
  "\<exists>q del lft. queue_run cq_put cq_get pf_capture_queue_init [Push demo_msg, Drain 64] = (q, del, [], lft) \<and> del @ cq_items q = [demo_msg]"
proof -
  obtain q del drp lft where r: "queue_run cq_put cq_get pf_capture_queue_init [Push demo_msg, Drain 64] = (q, del, drp, lft)"
    by (metis prod_cases4)
  show ?thesis using capture_run_fifo [OF r] r by auto
qed

text \<open>
  C12: no wake-up is lost.  In every reachable state of producers, worker and stop request, when the
  worker is blocked on the eventfd while messages are queued, the eventfd is readable or a producer
  is about to write it; when the worker has been told to stop, likewise; and one pass of the drain
  loop hands every queued message to the callback in order.
\<close>

theorem capture_no_lost_wakeup:
  assumes "capture_reach s"
  shows "(cw_pc s = W_Read \<and> cq_items (cw_queue s) \<noteq> [] \<longrightarrow> cq_eventfd (cw_queue s) > 0 \<or> cw_unsent s > 0)
    \<and> (cw_pc s = W_Read \<and> \<not> cw_running s \<longrightarrow> cq_eventfd (cw_queue s) > 0 \<or> cw_stopping s)
    \<and> (cw_pc s = W_Drain \<longrightarrow> cw_seen (drain_steps 65 s) = cw_seen s @ map Some (cq_items (cw_queue s))
         \<and> cw_pc (drain_steps 65 s) = W_Test)"
proof -
  have n: "no_lost_wakeup s" by (rule capture_reach_no_lost [OF assms])
  hence i: "cq_inv (cw_queue s)" by (simp add: no_lost_wakeup_def)
  have "length (cq_items (cw_queue s)) \<le> 64 * 64" using i by (simp add: cq_inv_def cq_length_items)
  hence "cw_pc s = W_Drain \<longrightarrow> cw_seen (drain_steps (Suc 64) s) = cw_seen s @ map Some (cq_items (cw_queue s))
         \<and> cw_pc (drain_steps (Suc 64) s) = W_Test"
    using drain_steps_all [OF i, of 64] by simp
  thus ?thesis using n by (simp add: no_lost_wakeup_def)
qed

theorem capture_no_lost_wakeup_witness:
  "\<exists>s. capture_reach s \<and> cw_pc s = W_Read \<and> cq_items (cw_queue s) = [demo_msg] \<and> (cq_eventfd (cw_queue s) > 0 \<or> cw_unsent s > 0)"
proof -
  obtain s0 where s0: "pf_capture_worker_start False True pf_capture_queue_init = (0, Some s0)"
    by (simp add: pf_capture_worker_start_def)
  hence f: "cw_queue s0 = pf_capture_queue_init" "cw_pc s0 = W_Test" "cw_running s0" by (auto simp: pf_capture_worker_start_def)
  let ?s1 = "s0 \<lparr> cw_pc := W_Read \<rparr>"
  have r1: "capture_reach ?s1"
    by (rule reach_step [OF reach_start [OF s0] step_worker [of None]]) (simp add: worker_step_def f)
  let ?p = "cq_push_locked (cw_queue ?s1) demo_msg"
  let ?s2 = "?s1 \<lparr> cw_queue := fst ?p, cw_unsent := cw_unsent ?s1 + 1 \<rparr>"
  have r2: "capture_reach ?s2" by (rule reach_step [OF r1 step_push [of _ _ _ "snd ?p"]]) simp
  have "cq_items (cw_queue ?s2) = [demo_msg]"
    using cq_push_locked_items [of "cw_queue ?s1" demo_msg "fst ?p" "snd ?p"] by (auto simp: f cq_inv_init)
  thus ?thesis using capture_no_lost_wakeup [OF r2] r2 by (intro exI [of _ ?s2]) simp
qed

end
