(* ===== verification/Http_Parser.thy ===== *)
theory Http_Parser
  imports Types
begin

text \<open>
  \<^verbatim>\<open>http_parser.c\<close>: the parser that the capture callback runs on intercepted HTTP traffic.  A
  buffer is a character list of length \<^verbatim>\<open>len\<close>.  \<^verbatim>\<open>strtol\<close> on the status line is not bounded by
  \<^verbatim>\<open>len\<close>; the argument \<open>after\<close> is the memory that follows the buffer.  Fixed \<^verbatim>\<open>char[N]\<close> fields are
  the C strings they hold: at most \<open>N - 1\<close> characters are copied and reading stops at a NUL.
\<close>

section \<open>Model\<close>

definition PF_HTTP_MAX_HEADERS :: nat where "PF_HTTP_MAX_HEADERS = 64"
definition PF_HTTP_MAX_HEADER_LEN :: nat where "PF_HTTP_MAX_HEADER_LEN = 4096"
definition PF_HTTP_MAX_URL_LEN :: nat where "PF_HTTP_MAX_URL_LEN = 2048"
definition PF_HTTP_MAX_BODY_LEN :: nat where "PF_HTTP_MAX_BODY_LEN = 256 * 1024"

abbreviation CR :: char where "CR \<equiv> CHR 0x0D"
abbreviation LF :: char where "LF \<equiv> CHR 0x0A"
abbreviation SP :: char where "SP \<equiv> CHR '' ''"

record pf_http_msg =
  hm_method :: string
  hm_url :: string
  hm_version :: string
  hm_headers :: "(string \<times> string) list"
  hm_body :: string
  hm_content_length :: u64
  hm_status_code :: int
  hm_status_text :: string
  hm_is_request :: bool
  hm_complete :: bool
  hm_header_end :: nat

definition http_zero :: pf_http_msg where
  "http_zero = \<lparr> hm_method = [], hm_url = [], hm_version = [], hm_headers = [], hm_body = [], hm_content_length = 0,
     hm_status_code = 0, hm_status_text = [], hm_is_request = False, hm_complete = False, hm_header_end = 0 \<rparr>"

fun find_header_end_loop :: "string \<Rightarrow> nat \<Rightarrow> nat" where
  "find_header_end_loop (a # b # c # d # s) i =
     (if a = CR \<and> b = LF \<and> c = CR \<and> d = LF then i + 4 else find_header_end_loop (b # c # d # s) (i + 1))"
| "find_header_end_loop _ i = 0"

definition find_header_end :: "string \<Rightarrow> nat" where
  "find_header_end buf = find_header_end_loop buf 0"

text \<open>Copying \<open>n\<close> characters into a zeroed \<^verbatim>\<open>char[cap]\<close>, cut to \<open>cap - 1\<close>, read as a C string.\<close>

definition field :: "nat \<Rightarrow> string \<Rightarrow> string" where
  "field cap s = takeWhile (\<lambda>c. c \<noteq> CHR 0x00) (take (cap - 1) s)"

function parse_headers :: "string \<Rightarrow> nat \<Rightarrow> (string \<times> string) list" where
  "parse_headers p count =
     (if p = [] \<or> count \<ge> PF_HTTP_MAX_HEADERS then []
      else if p ! 0 = CR \<and> 1 < length p \<and> p ! 1 = LF then []
      else case strchr p CR of
        None \<Rightarrow> []
      | Some eol \<Rightarrow> (case strchr (take eol p) (CHR '':'') of
          None \<Rightarrow> parse_headers (drop (eol + 2) p) count
        | Some colon \<Rightarrow>
            (field 256 (take colon p),
             field PF_HTTP_MAX_HEADER_LEN (dropWhile (\<lambda>c. c = SP \<or> c = CHR 0x09) (drop (colon + 1) (take eol p))))
            # parse_headers (drop (eol + 2) p) (count + 1)))"
  by pat_completeness auto
termination
  by (relation "measure (\<lambda>(p, _). length p)") auto

declare parse_headers.simps [simp del]

fun pf_http_get_header_loop :: "(string \<times> string) list \<Rightarrow> string \<Rightarrow> string option" where
  "pf_http_get_header_loop [] key = None"
| "pf_http_get_header_loop ((k, v) # hs) key = (if strcasecmp_eq k key then Some v else pf_http_get_header_loop hs key)"

definition pf_http_get_header :: "pf_http_msg \<Rightarrow> string \<Rightarrow> string option" where
  "pf_http_get_header msg key = pf_http_get_header_loop (hm_headers msg) key"

text \<open>The common tail of both parsers: headers, Content-Length, body.\<close>

definition http_finish :: "string \<Rightarrow> nat \<Rightarrow> nat \<Rightarrow> pf_http_msg \<Rightarrow> pf_http_msg" where
  "http_finish buf eol hend msg =
     (let m1 = msg \<lparr> hm_headers := parse_headers (drop (eol + 2) (take hend buf)) 0 \<rparr>;
          m2 = (case pf_http_get_header m1 ''Content-Length'' of None \<Rightarrow> m1
                | Some cl \<Rightarrow> m1 \<lparr> hm_content_length := word_of_int (strtol10 cl) \<rparr>)
      in if hend < length buf then m2 \<lparr> hm_body := take PF_HTTP_MAX_BODY_LEN (drop hend buf) \<rparr> else m2)"

definition pf_http_parse_request :: "string \<Rightarrow> pf_http_msg option" where
  "pf_http_parse_request buf =
     (if length buf < 10 then None
      else let hend = find_header_end buf in
        if hend = 0 then None
        else case strchr buf CR of
          None \<Rightarrow> None
        | Some eol \<Rightarrow> (let line = take eol buf in
            case strchr line SP of
              None \<Rightarrow> None
            | Some sp1 \<Rightarrow> (let p = drop (sp1 + 1) line in
                case strchr p SP of
                  None \<Rightarrow> None
                | Some sp2 \<Rightarrow> Some (http_finish buf eol hend (http_zero \<lparr> hm_is_request := True, hm_header_end := hend,
                    hm_complete := True, hm_method := field 16 (take sp1 line),
                    hm_url := field PF_HTTP_MAX_URL_LEN (take sp2 p), hm_version := field 16 (drop (sp2 + 1) p) \<rparr>)))))"

definition pf_http_parse_response :: "string \<Rightarrow> string \<Rightarrow> pf_http_msg option" where
  "pf_http_parse_response after buf =
     (if length buf < 10 then None
      else let hend = find_header_end buf in
        if hend = 0 then None
        else case strchr buf CR of
          None \<Rightarrow> None
        | Some eol \<Rightarrow> (let line = take eol buf in
            case strchr line SP of
              None \<Rightarrow> None
            | Some sp1 \<Rightarrow> (let p = drop (sp1 + 1) line;
                  code = int32_of (strtol10 (drop (sp1 + 1) (buf @ after)));
                  stx = (case strchr p SP of None \<Rightarrow> [] | Some sp2 \<Rightarrow> field 64 (drop (sp2 + 1) p))
                in Some (http_finish buf eol hend (http_zero \<lparr> hm_header_end := hend, hm_complete := True,
                    hm_version := field 16 (take sp1 line), hm_status_code := code, hm_status_text := stx \<rparr>)))))"

section \<open>Messages on the wire\<close>

fun header_lines :: "(string \<times> string) list \<Rightarrow> string" where
  "header_lines [] = [CR, LF]"
| "header_lines ((k, v) # hs) = k @ '': '' @ v @ [CR, LF] @ header_lines hs"

definition clean :: "string \<Rightarrow> bool" where
  "clean s \<longleftrightarrow> CR \<notin> set s \<and> CHR 0x00 \<notin> set s"

definition header_ok :: "string \<times> string \<Rightarrow> bool" where
  "header_ok h \<longleftrightarrow> clean (fst h) \<and> clean (snd h) \<and> CHR '':'' \<notin> set (fst h) \<and> length (fst h) < 256
     \<and> length (snd h) < PF_HTTP_MAX_HEADER_LEN \<and> (snd h = [] \<or> hd (snd h) \<noteq> SP \<and> hd (snd h) \<noteq> CHR 0x09)"

lemma field_id: "length s < cap \<Longrightarrow> CHR 0x00 \<notin> set s \<Longrightarrow> field cap s = s"
  by (simp add: field_def takeWhile_eq_all_conv)  (metis)

lemma field_length: "0 < cap \<Longrightarrow> length (field cap s) < cap"
proof -
  assume "0 < cap"
  moreover have "length (field cap s) \<le> length (take (cap - 1) s)" unfolding field_def by (rule length_takeWhile_le)
  ultimately show ?thesis by (simp add: less_eq_Suc_le) linarith
qed

lemma header_end_skip_char: "c \<noteq> CR \<Longrightarrow> find_header_end_loop (c # s) i = find_header_end_loop s (i + 1)"
proof -
  assume c: "c \<noteq> CR"
  show ?thesis
  proof (cases "length s < 3")
    case True
    then consider "s = []" | a where "s = [a]" | a b where "s = [a, b]"
      by (metis (no_types) length_0_conv length_Suc_conv less_Suc_eq numeral_3_eq_3 not_less_zero)
    thus ?thesis by cases simp_all
  next
    case False
    then obtain x y z t where "s = x # y # z # t"
      by (metis (no_types) Suc_le_length_iff leI numeral_3_eq_3)
    thus ?thesis using c by simp
  qed
qed

lemma header_end_skip: "CR \<notin> set l \<Longrightarrow> find_header_end_loop (l @ s) i = find_header_end_loop s (i + length l)"
  by (induction l arbitrary: i) (auto simp: header_end_skip_char)

lemma header_end_newline:
  assumes "s \<noteq> []" "hd s \<noteq> CR"
  shows "find_header_end_loop (CR # LF # s) i = find_header_end_loop s (i + 2)"
proof -
  have "find_header_end_loop (CR # LF # s) i = find_header_end_loop (LF # s) (i + 1)"
  proof (cases s)
    case (Cons c t)
    thus ?thesis using assms by (cases t) (simp_all)
  qed (use assms in simp)
  thus ?thesis by (simp add: header_end_skip_char)
qed

lemma header_lines_start: "hs \<noteq> [] \<Longrightarrow> \<forall>h \<in> set hs. header_ok h \<Longrightarrow> header_lines hs @ b \<noteq> [] \<and> hd (header_lines hs @ b) \<noteq> CR"
proof (cases hs)
  case (Cons h t)
  assume "\<forall>h \<in> set hs. header_ok h"
  hence "CR \<notin> set (fst h)" using Cons by (simp add: header_ok_def clean_def)
  thus ?thesis using Cons by (cases h; cases "fst h") auto
qed simp

lemma header_end_lines:
  "\<forall>h \<in> set hs. header_ok h \<Longrightarrow> find_header_end_loop ([CR, LF] @ header_lines hs @ b) i = i + 2 + length (header_lines hs)"
proof (induction hs arbitrary: i)
  case (Cons h hs)
  obtain k v where h: "h = (k, v)" by force
  have c: "CR \<notin> set (k @ '': '' @ v)" using Cons.prems h by (simp add: header_ok_def clean_def)
  have "find_header_end_loop ([CR, LF] @ header_lines (h # hs) @ b) i
      = find_header_end_loop ((k @ '': '' @ v) @ [CR, LF] @ header_lines hs @ b) (i + 2)"
    using header_end_newline [of "header_lines (h # hs) @ b" i] header_lines_start [of "h # hs" b] Cons.prems h by simp
  also have "... = find_header_end_loop ([CR, LF] @ header_lines hs @ b) (i + 2 + length (k @ '': '' @ v))"
    by (rule header_end_skip [OF c])
  finally show ?case using Cons.IH Cons.prems h by simp
qed simp

lemma header_end_message:
  assumes "CR \<notin> set line" "\<forall>h \<in> set hs. header_ok h"
  shows "find_header_end (line @ [CR, LF] @ header_lines hs @ b) = length line + 2 + length (header_lines hs)"
  using header_end_skip [OF assms(1), of "[CR, LF] @ header_lines hs @ b" 0] header_end_lines [OF assms(2), of b "length line"]
  by (simp add: find_header_end_def)

lemma take_line: "take (length l) (l @ s) = l" and drop_line: "drop (length l + 2) (l @ a # b # s) = s"
  by simp_all

lemma parse_headers_lines:
  "\<forall>h \<in> set hs. header_ok h \<Longrightarrow> n + length hs \<le> PF_HTTP_MAX_HEADERS \<Longrightarrow> parse_headers (header_lines hs) n = hs"
proof (induction hs arbitrary: n)
  case Nil
  show ?case by (subst parse_headers.simps) simp
next
  case (Cons h hs)
  obtain k v where h: "h = (k, v)" by force
  have ok: "CR \<notin> set k" "CR \<notin> set v" "CHR '':'' \<notin> set k" "CHR 0x00 \<notin> set k" "CHR 0x00 \<notin> set v" "length k < 256"
    "length v < PF_HTTP_MAX_HEADER_LEN" "v = [] \<or> hd v \<noteq> SP \<and> hd v \<noteq> CHR 0x09"
    using Cons.prems(1) h by (simp_all add: header_ok_def clean_def)
  let ?l = "k @ '': '' @ v"
  let ?p = "?l @ CR # LF # header_lines hs"
  have p: "header_lines (h # hs) = ?p" using h by simp
  have c: "CR \<notin> set ?l" using ok by simp
  have e: "strchr ?p CR = Some (length ?l)" by (rule strchr_append [OF c])
  have n0: "?p ! 0 \<noteq> CR" using ok(1) by (cases k) auto
  have col: "strchr ?l (CHR '':'') = Some (length k)" using strchr_append [OF ok(3), of "SP # v"] by simp
  have val: "dropWhile (\<lambda>c. c = SP \<or> c = CHR 0x09) (SP # v) = v" using ok(8) by (cases v) auto
  have "n < PF_HTTP_MAX_HEADERS" using Cons.prems(2) by simp
  hence "parse_headers ?p n = (field 256 k, field PF_HTTP_MAX_HEADER_LEN v) # parse_headers (header_lines hs) (n + 1)"
    using n0 val by (subst parse_headers.simps) (simp only: e option.case take_line drop_line col, simp)
  thus ?case unfolding p using Cons.IH [of "n + 1"] Cons.prems ok h by (simp add: field_id)
qed

lemma get_header_first:
  "pf_http_get_header_loop hs key = map_option snd (find (\<lambda>h. strcasecmp_eq (fst h) key) hs)"
  by (induction hs) auto

lemma http_finish_message:
  assumes "buf = line @ [CR, LF] @ header_lines hs @ body" "\<forall>h \<in> set hs. header_ok h" "length hs \<le> PF_HTTP_MAX_HEADERS"
    and "m = http_finish buf (length line) (length line + 2 + length (header_lines hs)) msg" "hm_body msg = []" "hm_content_length msg = 0"
  shows "hm_headers m = hs \<and> hm_body m = take PF_HTTP_MAX_BODY_LEN body
    \<and> hm_content_length m = (case find (\<lambda>h. strcasecmp_eq (fst h) ''Content-Length'') hs of None \<Rightarrow> 0 | Some h \<Rightarrow> word_of_int (strtol10 (snd h)))
    \<and> hm_method m = hm_method msg \<and> hm_url m = hm_url msg \<and> hm_version m = hm_version msg \<and> hm_status_code m = hm_status_code msg
    \<and> hm_status_text m = hm_status_text msg \<and> hm_header_end m = hm_header_end msg"
proof -
  have "drop (length line + 2) (take (length line + 2 + length (header_lines hs)) buf) = header_lines hs"
    using assms(1) by simp
  moreover have "drop (length line + 2 + length (header_lines hs)) buf = body" using assms(1) by simp
  moreover have "length line + 2 + length (header_lines hs) < length buf \<longleftrightarrow> body \<noteq> []" using assms(1) by (cases body) simp_all
  ultimately show ?thesis
    using assms(4-6) parse_headers_lines [OF assms(2), of 0] assms(3)
    by (auto simp: http_finish_def Let_def pf_http_get_header_def get_header_first simp del: PF_HTTP_MAX_BODY_LEN_def split: option.splits)
qed

section \<open>Bounds on arbitrary input\<close>

lemma parse_headers_bounds:
  "length (parse_headers p n) \<le> PF_HTTP_MAX_HEADERS - n \<and> (\<forall>(k, v) \<in> set (parse_headers p n). length k < 256 \<and> length v < PF_HTTP_MAX_HEADER_LEN)"
proof (induction p n rule: parse_headers.induct)
  case (1 p n)
  show ?case
  proof (cases "p = [] \<or> n \<ge> PF_HTTP_MAX_HEADERS \<or> p ! 0 = CR \<and> 1 < length p \<and> p ! 1 = LF \<or> strchr p CR = None")
    case True
    thus ?thesis by (subst (1 2) parse_headers.simps) auto
  next
    case False
    then obtain eol where e: "strchr p CR = Some eol" by auto
    have nt: "\<not> (p = [] \<or> PF_HTTP_MAX_HEADERS \<le> n)" "\<not> (p ! 0 = CR \<and> 1 < length p \<and> p ! 1 = LF)" using False by auto
    have l: "field PF_HTTP_MAX_HEADER_LEN v = w \<Longrightarrow> length w < PF_HTTP_MAX_HEADER_LEN" "field 256 v = w \<Longrightarrow> length w < 256" for v w
      using field_length [of 256 v] field_length [of PF_HTTP_MAX_HEADER_LEN v] by (auto simp: PF_HTTP_MAX_HEADER_LEN_def)
    show ?thesis
    proof (cases "strchr (take eol p) (CHR '':'')")
      case None
      thus ?thesis using 1(1) [OF nt e None] e nt by (subst (1 2) parse_headers.simps) simp
    next
      case (Some c)
      thus ?thesis using 1(2) [OF nt e Some] e nt by (subst (1 2) parse_headers.simps) (auto intro: l)
    qed
  qed
qed

lemma header_end_found:
  "find_header_end_loop s i \<noteq> 0 \<Longrightarrow> \<exists>a b. s = a @ [CR, LF, CR, LF] @ b \<and> find_header_end_loop s i = i + length a + 4"
proof (induction s i rule: find_header_end_loop.induct)
  case (1 a b c d s i)
  show ?case
  proof (cases "a = CR \<and> b = LF \<and> c = CR \<and> d = LF")
    case True
    thus ?thesis by (intro exI [of _ "[]"] exI [of _ s]) simp
  next
    case False
    hence e: "find_header_end_loop (a # b # c # d # s) i = find_header_end_loop (b # c # d # s) (i + 1)" by auto
    then obtain x y where xy: "b # c # d # s = x @ [CR, LF, CR, LF] @ y" "find_header_end_loop (b # c # d # s) (i + 1) = i + 1 + length x + 4"
      using 1 False by metis
    have "a # b # c # d # s = (a # x) @ [CR, LF, CR, LF] @ y" "find_header_end_loop (a # b # c # d # s) i = i + length (a # x) + 4"
      using xy e by simp_all
    thus ?thesis by blast
  qed
qed simp_all

lemma http_finish_fields:
  "hm_header_end (http_finish buf eol hend m) = hm_header_end m" "hm_method (http_finish buf eol hend m) = hm_method m"
  "hm_url (http_finish buf eol hend m) = hm_url m" "hm_version (http_finish buf eol hend m) = hm_version m"
  "hm_headers (http_finish buf eol hend m) = parse_headers (drop (eol + 2) (take hend buf)) 0"
  "hm_status_text (http_finish buf eol hend m) = hm_status_text m"
  "hm_body m = [] \<Longrightarrow> hm_body (http_finish buf eol hend m) = take PF_HTTP_MAX_BODY_LEN (drop hend buf)"
  by (auto simp: http_finish_def Let_def split: option.splits)

lemma http_parsed_cases:
  assumes "pf_http_parse_request buf = Some m \<or> pf_http_parse_response after buf = Some m"
  shows "find_header_end buf \<noteq> 0 \<and> (\<exists>eol me url ver stx m0. m = http_finish buf eol (find_header_end buf) m0 \<and> hm_body m0 = []
    \<and> hm_header_end m0 = find_header_end buf \<and> hm_method m0 = field 16 me \<and> hm_url m0 = field PF_HTTP_MAX_URL_LEN url
    \<and> hm_version m0 = field 16 ver \<and> hm_status_text m0 = field 64 stx)"
proof -
  have z: "field n [] = []" for n by (simp add: field_def)
  show ?thesis
    using assms
    by (elim disjE; simp add: pf_http_parse_request_def pf_http_parse_response_def Let_def http_zero_def split: if_splits option.splits)
       (metis z pf_http_msg.select_convs pf_http_msg.update_convs)+
qed

section \<open>Properties\<close>

definition http_request_text :: "string \<Rightarrow> string \<Rightarrow> string \<Rightarrow> (string \<times> string) list \<Rightarrow> string \<Rightarrow> string" where
  "http_request_text me url ver hs body = (me @ SP # url @ SP # ver) @ [CR, LF] @ header_lines hs @ body"

definition http_response_text :: "string \<Rightarrow> nat \<Rightarrow> string \<Rightarrow> (string \<times> string) list \<Rightarrow> string \<Rightarrow> string" where
  "http_response_text ver code stx hs body = (ver @ SP # show_nat code @ SP # stx) @ [CR, LF] @ header_lines hs @ body"

text \<open>
  A well-formed HTTP request parses back to its method, URL, version, headers in order, body (up
  to 256 KiB) and declared length, whatever the body contains.
\<close>

theorem http_request_roundtrip:
  assumes "clean me" "SP \<notin> set me" "length me < 16" "clean url" "SP \<notin> set url" "length url < PF_HTTP_MAX_URL_LEN"
    and "clean ver" "length ver < 16" "6 \<le> length me + length url + length ver"
    and "\<forall>h \<in> set hs. header_ok h" "length hs \<le> PF_HTTP_MAX_HEADERS"
  shows "\<exists>m. pf_http_parse_request (http_request_text me url ver hs body) = Some m
    \<and> hm_method m = me \<and> hm_url m = url \<and> hm_version m = ver \<and> hm_headers m = hs \<and> hm_body m = take PF_HTTP_MAX_BODY_LEN body
    \<and> hm_content_length m = (case find (\<lambda>h. strcasecmp_eq (fst h) ''Content-Length'') hs of None \<Rightarrow> 0 | Some h \<Rightarrow> word_of_int (strtol10 (snd h)))
    \<and> hm_header_end m + length body = length (http_request_text me url ver hs body)"
proof -
  let ?l = "me @ SP # url @ SP # ver"
  let ?buf = "http_request_text me url ver hs body"
  let ?he = "length ?l + 2 + length (header_lines hs)"
  have c: "CR \<notin> set ?l" using assms(1,4,7) by (simp add: clean_def)
  have he: "find_header_end ?buf = ?he" unfolding http_request_text_def by (rule header_end_message [OF c assms(10)])
  have eol: "strchr ?buf CR = Some (length ?l)" "take (length ?l) ?buf = ?l"
    unfolding http_request_text_def using strchr_append [OF c, of "LF # header_lines hs @ body"] by simp_all
  have sp: "strchr ?l SP = Some (length me)" "strchr (url @ SP # ver) SP = Some (length url)"
    by (rule strchr_append [OF assms(2)], rule strchr_append [OF assms(5)])
  have long: "\<not> length ?buf < 10" using assms(9) by (simp add: http_request_text_def)
  let ?m0 = "http_zero \<lparr> hm_is_request := True, hm_header_end := ?he, hm_complete := True, hm_method := me, hm_url := url, hm_version := ver \<rparr>"
  have f: "field 16 me = me" "field PF_HTTP_MAX_URL_LEN url = url" "field 16 ver = ver"
    using assms(1-8) by (simp_all add: field_id clean_def)
  have "pf_http_parse_request ?buf = Some (http_finish ?buf (length ?l) ?he ?m0)"
    unfolding pf_http_parse_request_def Let_def he eol option.case sp(1) using long sp(2) f by simp
  thus ?thesis
    using http_finish_message [OF http_request_text_def assms(10,11), of _ me url ver body ?m0]
    by (simp add: http_zero_def) (simp add: http_request_text_def)
qed

theorem http_request_roundtrip_witness:
  "\<exists>m. pf_http_parse_request (http_request_text ''POST'' ''/api'' ''HTTP/1.1'' [(''Host'', ''sky.ch''), (''content-length'', ''3'')] ''a=1'') = Some m
     \<and> hm_url m = ''/api'' \<and> hm_headers m = [(''Host'', ''sky.ch''), (''content-length'', ''3'')] \<and> hm_body m = ''a=1''"
  using http_request_roundtrip [of "''POST''" "''/api''" "''HTTP/1.1''" "[(''Host'', ''sky.ch''), (''content-length'', ''3'')]" "''a=1''"]
  by (auto simp: clean_def header_ok_def PF_HTTP_MAX_URL_LEN_def PF_HTTP_MAX_HEADER_LEN_def PF_HTTP_MAX_HEADERS_def PF_HTTP_MAX_BODY_LEN_def)

text \<open>
  A well-formed HTTP response parses back to its version, status code, status text, headers,
  body and declared length, whatever memory follows the buffer.
\<close>

theorem http_response_roundtrip:
  assumes "clean ver" "SP \<notin> set ver" "length ver < 16" "code < 2 ^ 31" "clean stx" "length stx < 64" "6 \<le> length ver"
    and "\<forall>h \<in> set hs. header_ok h" "length hs \<le> PF_HTTP_MAX_HEADERS"
  shows "\<exists>m. pf_http_parse_response after (http_response_text ver code stx hs body) = Some m
    \<and> hm_version m = ver \<and> hm_status_code m = int code \<and> hm_status_text m = stx \<and> hm_headers m = hs
    \<and> hm_body m = take PF_HTTP_MAX_BODY_LEN body
    \<and> hm_content_length m = (case find (\<lambda>h. strcasecmp_eq (fst h) ''Content-Length'') hs of None \<Rightarrow> 0 | Some h \<Rightarrow> word_of_int (strtol10 (snd h)))"
proof -
  let ?l = "ver @ SP # show_nat code @ SP # stx"
  let ?buf = "http_response_text ver code stx hs body"
  let ?he = "length ?l + 2 + length (header_lines hs)"
  have nd: "SP \<notin> set (show_nat code)" "CR \<notin> set (show_nat code)" by (rule show_nat_no_char, simp add: is_digit_def)+
  have c: "CR \<notin> set ?l" using assms(1,5) nd by (simp add: clean_def)
  have he: "find_header_end ?buf = ?he" unfolding http_response_text_def by (rule header_end_message [OF c assms(8)])
  have eol: "strchr ?buf CR = Some (length ?l)" "take (length ?l) ?buf = ?l"
    unfolding http_response_text_def using strchr_append [OF c, of "LF # header_lines hs @ body"] by simp_all
  have sp: "strchr ?l SP = Some (length ver)" "strchr (show_nat code @ SP # stx) SP = Some (length (show_nat code))"
    by (rule strchr_append [OF assms(2)], rule strchr_append [OF nd(1)])
  have "drop (length ver + 1) (?buf @ after) = show_nat code @ SP # stx @ [CR, LF] @ header_lines hs @ body @ after"
    by (simp add: http_response_text_def)
  hence code: "int32_of (strtol10 (drop (length ver + 1) (?buf @ after))) = int code"
    using atoi_show_nat [of "SP # stx @ [CR, LF] @ header_lines hs @ body @ after" code] assms(4) by (simp add: atoi_def is_digit_def)
  have long: "\<not> length ?buf < 10" using assms(7) by (simp add: http_response_text_def)
  let ?m0 = "http_zero \<lparr> hm_header_end := ?he, hm_complete := True, hm_version := ver, hm_status_code := int code, hm_status_text := stx \<rparr>"
  have f: "field 16 ver = ver" "field 64 stx = stx" using assms(1-6) by (simp_all add: field_id clean_def)
  have "pf_http_parse_response after ?buf = Some (http_finish ?buf (length ?l) ?he ?m0)"
    unfolding pf_http_parse_response_def Let_def he eol option.case sp(1) code using long sp(2) f by simp
  thus ?thesis
    using http_finish_message [OF http_response_text_def assms(8,9), of _ ver code stx body ?m0] by (simp add: http_zero_def)
qed

theorem http_response_roundtrip_witness:
  "\<exists>m. pf_http_parse_response ''99'' (http_response_text ''HTTP/1.1'' 200 ''OK'' [] []) = Some m \<and> hm_status_code m = 200 \<and> hm_status_text m = ''OK''"
  using http_response_roundtrip [of "''HTTP/1.1''" 200 "''OK''" "[]" "''99''" "[]"] by (auto simp: clean_def)



text \<open>
  The status code is not bounded by the buffer: with an empty status the conversion skips the line
  ends and reads the memory behind the message.
\<close>

lemma http_status_reads_past_end:
  "map_option hm_status_code (pf_http_parse_response ''777'' (''HTTP/1.1 '' @ [CR, LF, CR, LF])) = Some 777"
  by code_simp

end
