(* ===== verification/Body_Decode.thy ===== *)
theory Body_Decode
  imports Types
begin

text \<open>
  \<^verbatim>\<open>body_decode.c\<close>: decoding of captured bodies.  zlib, brotli and zstd are parameters: a record of
  the calls the file makes, each a function of its input and of the room in the output buffer.  A
  result is the bytes written with the size that is reported, or the error -1.
\<close>

section \<open>The codec libraries\<close>

datatype zlib_rc = Z_STREAM_END | Z_BUF_ERROR | Z_OTHER
datatype brotli_rc = BROTLI_SUCCESS | BROTLI_NEEDS_MORE_OUTPUT | BROTLI_OTHER
datatype zstd_rc = ZSTD_ERROR | ZSTD_FRAME_DONE | ZSTD_MORE

text \<open>
  \<open>inflate_all\<close> is \<^verbatim>\<open>inflate(Z_FINISH)\<close>, \<open>zstd_decompress\<close> returns \<open>None\<close> for an error, and
  \<open>zstd_stream st in room\<close> is one \<^verbatim>\<open>ZSTD_decompressStream\<close>: its code, the new context, how much
  input was used and the output written.
\<close>

record 'd codecs =
  inflate_init_ok :: bool
  inflate_all :: "bytes \<Rightarrow> nat \<Rightarrow> zlib_rc \<times> bytes"
  brotli_decompress :: "bytes \<Rightarrow> nat \<Rightarrow> brotli_rc \<times> bytes"
  zstd_decompress :: "bytes \<Rightarrow> nat \<Rightarrow> bytes option"
  zstd_create :: "'d option"
  zstd_stream :: "'d \<Rightarrow> bytes \<Rightarrow> nat \<Rightarrow> zstd_rc \<times> 'd \<times> nat \<times> bytes"

type_synonym decoded = "unit + (bytes \<times> nat)"

section \<open>Model\<close>

definition copy_identity :: "bytes \<Rightarrow> nat \<Rightarrow> decoded" where
  "copy_identity inp cap = (let n = (if length inp < cap then length inp else cap) in Inr (take n inp, n))"

text \<open>The two sizes are cast to a 32-bit \<^verbatim>\<open>uInt\<close>.\<close>

definition decode_gzip :: "'d codecs \<Rightarrow> bytes \<Rightarrow> nat \<Rightarrow> decoded" where
  "decode_gzip C inp cap =
     (if \<not> inflate_init_ok C then Inl ()
      else let avail_out = cap mod 2 ^ 32;
               (rc, out) = inflate_all C (take (length inp mod 2 ^ 32) inp) avail_out;
               produced = cap - (avail_out - length out)
           in if rc \<noteq> Z_STREAM_END \<and> \<not> (rc = Z_BUF_ERROR \<and> produced > 0) then Inl () else Inr (out, produced))"

definition decode_brotli :: "'d codecs \<Rightarrow> bytes \<Rightarrow> nat \<Rightarrow> decoded" where
  "decode_brotli C inp cap = (let (rc, out) = brotli_decompress C inp cap in
     if rc \<noteq> BROTLI_SUCCESS \<and> rc \<noteq> BROTLI_NEEDS_MORE_OUTPUT then Inl () else Inr (out, length out))"

text \<open>The do-while loop; \<open>acc\<close> is the output so far and \<open>inp\<close> the input from \<^verbatim>\<open>zin.pos\<close> on.\<close>

partial_function (option) zstd_loop :: "'d codecs \<Rightarrow> 'd \<Rightarrow> bytes \<Rightarrow> nat \<Rightarrow> bytes \<Rightarrow> bytes option" where
  "zstd_loop C st inp osize acc =
     (let (rc, st', used, out) = zstd_stream C st inp (osize - length acc);
          acc' = acc @ out; inp' = drop used inp
      in if rc = ZSTD_MORE \<and> length acc' < osize \<and> inp' \<noteq> [] then zstd_loop C st' inp' osize acc' else Some acc')"

declare zstd_loop.simps [code]

definition decode_zstd :: "'d codecs \<Rightarrow> bytes \<Rightarrow> nat \<Rightarrow> decoded option" where
  "decode_zstd C inp cap = (case zstd_decompress C inp cap of
     Some out \<Rightarrow> Some (Inr (out, length out))
   | None \<Rightarrow> (case zstd_create C of
       None \<Rightarrow> Some (Inl ())
     | Some st \<Rightarrow> (case zstd_loop C st inp cap [] of
         None \<Rightarrow> None
       | Some out \<Rightarrow> if length out = 0 then Some (Inl ()) else Some (Inr (out, length out)))))"

definition pf_body_decode :: "'d codecs \<Rightarrow> string option \<Rightarrow> bytes \<Rightarrow> nat \<Rightarrow> decoded option" where
  "pf_body_decode C enc inp cap =
     (if cap = 0 then Some (Inl ())
      else if inp = [] then Some (Inr ([], 0))
      else case enc of
        None \<Rightarrow> Some (copy_identity inp cap)
      | Some e \<Rightarrow>
          if e = [] \<or> strcasecmp_eq e ''identity'' then Some (copy_identity inp cap)
          else if strncasecmp_eq e ''gzip'' 4 \<or> strncasecmp_eq e ''x-gzip'' 6 \<or> strncasecmp_eq e ''deflate'' 7
            then Some (decode_gzip C inp cap)
          else if strncasecmp_eq e ''br'' 2 then Some (decode_brotli C inp cap)
          else if strncasecmp_eq e ''zstd'' 4 then decode_zstd C inp cap
          else Some (copy_identity inp cap))"

section \<open>Output never exceeds its buffer\<close>

text \<open>
  What the libraries document: no call writes more than the room it is given, and a streaming call
  that wants to go on has used input or written output.
\<close>

definition codecs_write_in_room :: "'d codecs \<Rightarrow> bool" where
  "codecs_write_in_room C \<longleftrightarrow> (\<forall>i n. length (snd (inflate_all C i n)) \<le> n \<and> length (snd (brotli_decompress C i n)) \<le> n
     \<and> (\<forall>out. zstd_decompress C i n = Some out \<longrightarrow> length out \<le> n) \<and> (\<forall>st. length (snd (snd (snd (zstd_stream C st i n)))) \<le> n))"

definition zstd_progresses :: "'d codecs \<Rightarrow> bool" where
  "zstd_progresses C \<longleftrightarrow> (\<forall>st i n rc st' used out. zstd_stream C st i n = (rc, st', used, out) \<longrightarrow> rc = ZSTD_MORE \<longrightarrow>
     i \<noteq> [] \<longrightarrow> 0 < n \<longrightarrow> 0 < used \<or> out \<noteq> [])"

lemma zstd_loop_returns:
  assumes "codecs_write_in_room C" "zstd_progresses C"
  shows "length acc < osize \<Longrightarrow> inp \<noteq> [] \<Longrightarrow> \<exists>out. zstd_loop C st inp osize acc = Some out \<and> length out \<le> osize"
proof (induction "length inp + (osize - length acc)" arbitrary: st inp acc rule: less_induct)
  case less
  obtain rc st' used out where s: "zstd_stream C st inp (osize - length acc) = (rc, st', used, out)" by (metis prod_cases4)
  have "length (snd (snd (snd (zstd_stream C st inp (osize - length acc))))) \<le> osize - length acc"
    using assms(1) unfolding codecs_write_in_room_def by blast
  hence room: "length (acc @ out) \<le> osize" using s less.prems(1) by simp
  show ?case
  proof (cases "rc = ZSTD_MORE \<and> length (acc @ out) < osize \<and> drop used inp \<noteq> []")
    case True
    have "0 < osize - length acc" using less.prems(1) by simp
    hence "0 < used \<or> out \<noteq> []" using assms(2) s True less.prems unfolding zstd_progresses_def by blast
    hence "0 < used \<or> 0 < length out" by simp
    moreover have "length acc + length out < osize" "used < length inp" using True by simp_all
    ultimately have "length (drop used inp) + (osize - length (acc @ out)) < length inp + (osize - length acc)"
      unfolding length_drop length_append by linarith
    thus ?thesis using less.hyps [of "drop used inp" "acc @ out" st'] True s
      by (subst zstd_loop.simps) (simp add: Let_def)
  next
    case False
    thus ?thesis using s room by (subst zstd_loop.simps) (auto simp: Let_def)
  qed
qed

lemma pf_body_decode_returns:
  assumes "codecs_write_in_room C" "zstd_progresses C" "cap < 2 ^ 32"
  shows "\<exists>r. pf_body_decode C enc inp cap = Some r \<and> (case r of Inl u \<Rightarrow> True | Inr (out, n) \<Rightarrow> n = length out \<and> n \<le> cap)"
proof -
  let ?fits = "\<lambda>r :: decoded. case r of Inl u \<Rightarrow> True | Inr (out, n) \<Rightarrow> n = length out \<and> n \<le> cap"
  have w: "length (snd (inflate_all C i n)) \<le> n" "length (snd (brotli_decompress C i n)) \<le> n"
    "zstd_decompress C i n = Some o1 \<Longrightarrow> length o1 \<le> n" for i n o1 using assms(1) by (auto simp: codecs_write_in_room_def)
  have id: "?fits (copy_identity inp cap)" by (simp add: copy_identity_def)
  have gz: "?fits (decode_gzip C inp cap)"
    using w(1) [of "take (length inp mod 2 ^ 32) inp" cap] assms(3) by (auto simp: decode_gzip_def Let_def split: prod.splits)
  have br: "?fits (decode_brotli C inp cap)"
    using w(2) [of inp cap] by (auto simp: decode_brotli_def Let_def split: prod.splits)
  have zs: "\<exists>r. decode_zstd C inp cap = Some r \<and> ?fits r" if "0 < cap" "inp \<noteq> []"
    using w(3) zstd_loop_returns [OF assms(1,2), of "[]" cap inp] that
    by (auto simp: decode_zstd_def split: option.splits) (metis option.distinct(1) option.inject)+
  show ?thesis
    unfolding pf_body_decode_def using id gz br zs by (auto split: option.split)
qed

section \<open>Properties\<close>

text \<open>
  C30: decoding a captured body always returns, whatever the encoding header says, and a decoded body
  never exceeds the buffer: the reported size is the number of bytes written.
\<close>

theorem body_decode_fits:
  assumes "codecs_write_in_room C" "zstd_progresses C" "cap < 2 ^ 32"
  shows "\<exists>r. pf_body_decode C enc inp cap = Some r \<and> (case r of Inl u \<Rightarrow> True | Inr (out, n) \<Rightarrow> n = length out \<and> n \<le> cap)"
  by (rule pf_body_decode_returns [OF assms])

definition demo_codecs :: "unit codecs" where
  "demo_codecs = \<lparr> inflate_init_ok = True, inflate_all = (\<lambda>i n. (Z_BUF_ERROR, take n i)), brotli_decompress = (\<lambda>i n. (BROTLI_OTHER, [])),
     zstd_decompress = (\<lambda>i n. None), zstd_create = Some (), zstd_stream = (\<lambda>d i n. (ZSTD_MORE, (), 1, take (min n 2) i)) \<rparr>"

theorem body_decode_fits_witness:
  "\<exists>out n. pf_body_decode demo_codecs (Some ''ZSTD'') [1, 2, 3] 4 = Some (Inr (out, n)) \<and> n = length out \<and> n \<le> 4"
proof -
  have "codecs_write_in_room demo_codecs" "zstd_progresses demo_codecs"
    by (simp_all add: codecs_write_in_room_def zstd_progresses_def demo_codecs_def min.coboundedI2)
  moreover have "pf_body_decode demo_codecs (Some ''ZSTD'') [1, 2, 3] 4 = Some (Inr ([1, 2, 2, 3], 4))" by code_simp
  ultimately show ?thesis using body_decode_fits [of demo_codecs 4 "Some ''ZSTD''" "[1, 2, 3]"] by simp
qed

end
