(* ===== verification/Stats.thy ===== *)
theory Stats
  imports Types
begin

text \<open>
  \<^verbatim>\<open>stats.c\<close>: the per-proxy counters.  Byte counters are 64-bit words; the \<^verbatim>\<open>int\<close> counters wrap as
  32-bit two's complement.
\<close>

section \<open>Model\<close>

record pf_stats_entry =
  se_proxy_id :: int
  se_bytes_tx :: u64
  se_bytes_rx :: u64
  se_connections :: int
  se_total_latency_ms :: int
  se_latency_count :: int

type_synonym pf_stats = "pf_stats_entry list"

definition stats_entry_zero :: "int \<Rightarrow> pf_stats_entry" where
  "stats_entry_zero pid = \<lparr> se_proxy_id = pid, se_bytes_tx = 0, se_bytes_rx = 0, se_connections = 0,
     se_total_latency_ms = 0, se_latency_count = 0 \<rparr>"

definition pf_stats_init :: pf_stats where "pf_stats_init = []"

text \<open>The index of the entry and the table, which may have grown; no index when the table is full.\<close>

definition find_or_create :: "pf_stats \<Rightarrow> int \<Rightarrow> nat option \<times> pf_stats" where
  "find_or_create st pid = (case find_index (\<lambda>e. se_proxy_id e = pid) st of
     Some i \<Rightarrow> (Some i, st)
   | None \<Rightarrow> if length st \<ge> PF_MAX_PROXIES then (None, st) else (Some (length st), st @ [stats_entry_zero pid]))"

definition stats_bump :: "u64 \<Rightarrow> u64 \<Rightarrow> int \<Rightarrow> pf_stats_entry \<Rightarrow> pf_stats_entry" where
  "stats_bump tx rx latency_ms e =
     (let e1 = e \<lparr> se_bytes_tx := se_bytes_tx e + tx, se_bytes_rx := se_bytes_rx e + rx, se_connections := int32_of (se_connections e + 1) \<rparr>
      in if latency_ms > 0 then e1 \<lparr> se_total_latency_ms := int32_of (se_total_latency_ms e1 + latency_ms),
           se_latency_count := int32_of (se_latency_count e1 + 1) \<rparr> else e1)"

definition pf_stats_update :: "pf_stats \<Rightarrow> int \<Rightarrow> u64 \<Rightarrow> u64 \<Rightarrow> int \<Rightarrow> pf_stats" where
  "pf_stats_update st pid tx rx latency_ms = (case find_or_create st pid of
     (None, st') \<Rightarrow> st'
   | (Some i, st') \<Rightarrow> st'[i := stats_bump tx rx latency_ms (st' ! i)])"

text \<open>One object of \<^verbatim>\<open>pf_stats_get_json\<close>: the counters and the mean latency (C division).\<close>

definition stats_json_entry :: "pf_stats_entry \<Rightarrow> int \<times> u64 \<times> u64 \<times> int \<times> int" where
  "stats_json_entry e = (se_proxy_id e, se_bytes_tx e, se_bytes_rx e, se_connections e,
     if se_latency_count e > 0 then sgn (se_total_latency_ms e) * (\<bar>se_total_latency_ms e\<bar> div se_latency_count e) else 0)"

definition pf_stats_get_json :: "pf_stats \<Rightarrow> (int \<times> u64 \<times> u64 \<times> int \<times> int) list" where
  "pf_stats_get_json st = map stats_json_entry st"

definition pf_stats_reset :: "pf_stats \<Rightarrow> pf_stats" where
  "pf_stats_reset st = map (\<lambda>e. stats_entry_zero (se_proxy_id e)) st"

section \<open>The table as a map\<close>

definition stats_inv :: "pf_stats \<Rightarrow> bool" where
  "stats_inv st \<longleftrightarrow> distinct (map se_proxy_id st) \<and> length st \<le> PF_MAX_PROXIES"

definition stats_of :: "pf_stats \<Rightarrow> int \<Rightarrow> pf_stats_entry option" where
  "stats_of st pid = find (\<lambda>e. se_proxy_id e = pid) st"

lemma stats_bump_id [simp]: "se_proxy_id (stats_bump a b c e) = se_proxy_id e"
  by (simp add: stats_bump_def Let_def)

lemma find_at_index:
  "find_index P xs = Some i \<Longrightarrow> find P xs = Some (xs ! i)"
  by (auto simp: find_index_Some find_Some_iff)

lemma stats_of_update_at:
  assumes "distinct (map se_proxy_id st)" "i < length st" "se_proxy_id e = se_proxy_id (st ! i)"
  shows "stats_of (st[i := e]) = (stats_of st)(se_proxy_id e \<mapsto> e)"
  using assms
proof (induction st arbitrary: i)
  case (Cons x st)
  show ?case
  proof (cases i)
    case 0
    thus ?thesis using Cons.prems by (auto simp: stats_of_def fun_eq_iff)
  next
    case (Suc j)
    have "stats_of (st[j := e]) = (stats_of st)(se_proxy_id e \<mapsto> e)"
      using Cons.IH [of j] Cons.prems Suc by (simp add: fun_upd_def)
    moreover have "se_proxy_id x \<noteq> se_proxy_id e" using Cons.prems Suc by (auto simp: image_iff)
    ultimately show ?thesis using Suc by (auto simp: stats_of_def fun_eq_iff)
  qed
qed simp

lemma stats_update_spec:
  assumes "stats_inv st"
  shows "stats_inv (pf_stats_update st pid tx rx lat) \<and> stats_of (pf_stats_update st pid tx rx lat) =
    (case stats_of st pid of Some e \<Rightarrow> (stats_of st)(pid \<mapsto> stats_bump tx rx lat e)
     | None \<Rightarrow> if length st \<ge> PF_MAX_PROXIES then stats_of st else (stats_of st)(pid \<mapsto> stats_bump tx rx lat (stats_entry_zero pid)))"
proof (cases "find_index (\<lambda>e. se_proxy_id e = pid) st")
  case (Some i)
  hence i: "i < length st" "se_proxy_id (st ! i) = pid" "stats_of st pid = Some (st ! i)"
    by (auto simp: find_index_Some stats_of_def find_at_index)
  let ?e = "stats_bump tx rx lat (st ! i)"
  have "pf_stats_update st pid tx rx lat = st[i := ?e]" using Some by (simp add: pf_stats_update_def find_or_create_def)
  moreover have "map se_proxy_id (st[i := ?e]) = map se_proxy_id st" by (rule list_update_id_map [OF i(1)]) simp
  ultimately show ?thesis using assms i stats_of_update_at [of st i ?e] by (simp add: stats_inv_def)
next
  case None
  hence n: "pid \<notin> set (map se_proxy_id st)" "stats_of st pid = None" by (auto simp: find_index_None stats_of_def find_None_iff)
  show ?thesis
  proof (cases "length st \<ge> PF_MAX_PROXIES")
    case True
    thus ?thesis using None n assms by (simp add: pf_stats_update_def find_or_create_def)
  next
    case False
    let ?e = "stats_bump tx rx lat (stats_entry_zero pid)"
    have "pf_stats_update st pid tx rx lat = st @ [?e]" using None False by (simp add: pf_stats_update_def find_or_create_def)
    moreover have "stats_of (st @ [?e]) = (stats_of st)(pid \<mapsto> ?e)"
      using n(1) by (induction st) (auto simp: stats_of_def fun_eq_iff stats_entry_zero_def)
    ultimately show ?thesis using assms n False by (simp add: stats_inv_def stats_entry_zero_def)
  qed
qed

section \<open>Runs of updates\<close>

type_synonym stats_upd = "int \<times> u64 \<times> u64 \<times> int"

definition stats_run :: "stats_upd list \<Rightarrow> pf_stats" where
  "stats_run us = foldl (\<lambda>st (pid, tx, rx, lat). pf_stats_update st pid tx rx lat) pf_stats_init us"

definition total :: "(stats_upd \<Rightarrow> 'a :: comm_monoid_add) \<Rightarrow> int \<Rightarrow> stats_upd list \<Rightarrow> 'a" where
  "total f pid us = sum_list (map f (filter (\<lambda>u. fst u = pid) us))"

lemma int32_of_plus: "int32_of (int32_of x + y) = int32_of (x + y)"
proof -
  have "((x + 2 ^ 31) mod 2 ^ 32 - 2 ^ 31 + y + 2 ^ 31) mod 2 ^ 32 = ((x + 2 ^ 31) mod 2 ^ 32 + y) mod 2 ^ 32" by simp
  also have "... = (x + y + 2 ^ 31) mod 2 ^ 32" by (simp add: mod_simps algebra_simps)
  finally show ?thesis by (simp add: int32_of_def)
qed

lemma total_snoc: "total f pid (us @ [u]) = (if fst u = pid then total f pid us + f u else total f pid us)"
  by (simp add: total_def)

lemma total_none: "pid \<notin> fst ` set us \<Longrightarrow> total f pid us = 0"
  unfolding total_def by (subst filter_False) force+

definition stats_tracks :: "stats_upd list \<Rightarrow> pf_stats_entry \<Rightarrow> int \<Rightarrow> bool" where
  "stats_tracks us e pid \<longleftrightarrow> se_proxy_id e = pid \<and> se_bytes_tx e = total (\<lambda>(_, tx, _, _). tx) pid us
     \<and> se_bytes_rx e = total (\<lambda>(_, _, rx, _). rx) pid us \<and> se_connections e = int32_of (total (\<lambda>_. 1) pid us)
     \<and> se_total_latency_ms e = int32_of (total (\<lambda>(_, _, _, l). max l 0) pid us)
     \<and> se_latency_count e = int32_of (total (\<lambda>(_, _, _, l). if l > 0 then 1 else 0) pid us)"

lemma stats_tracks_bump:
  assumes "stats_tracks us e pid"
  shows "stats_tracks (us @ [(pid, tx, rx, lat)]) (stats_bump tx rx lat e) pid"
  using assms by (simp add: stats_tracks_def stats_bump_def Let_def total_snoc int32_of_plus)

lemma stats_tracks_zero: "pid \<notin> fst ` set us \<Longrightarrow> stats_tracks us (stats_entry_zero pid) pid"
  by (simp add: stats_tracks_def total_none stats_entry_zero_def int32_of_def)

lemma stats_tracks_other: "p \<noteq> pid \<Longrightarrow> stats_tracks (us @ [(p, tx, rx, lat)]) e pid = stats_tracks us e pid"
  by (simp add: stats_tracks_def total_snoc)

lemma stats_of_None: "stats_of st pid = None \<longleftrightarrow> pid \<notin> se_proxy_id ` set st"
  by (auto simp: stats_of_def find_None_iff)

lemma stats_run_inv:
  assumes "card (fst ` set us) \<le> PF_MAX_PROXIES"
  shows "stats_inv (stats_run us) \<and> (\<forall>pid. case stats_of (stats_run us) pid of None \<Rightarrow> pid \<notin> fst ` set us
    | Some e \<Rightarrow> pid \<in> fst ` set us \<and> stats_tracks us e pid)"
  using assms
proof (induction us rule: rev_induct)
  case Nil
  show ?case by (simp add: stats_run_def pf_stats_init_def stats_inv_def stats_of_def)
next
  case (snoc u us)
  obtain p tx rx lat where u: "u = (p, tx, rx, lat)" by (metis prod_cases4)
  let ?st = "stats_run us"
  have "card (fst ` set us) \<le> card (fst ` set (us @ [u]))" by (intro card_mono) auto
  hence ih: "stats_inv ?st" "case stats_of ?st pid of None \<Rightarrow> pid \<notin> fst ` set us | Some e \<Rightarrow> pid \<in> fst ` set us \<and> stats_tracks us e pid" for pid
    using snoc by auto
  have run: "stats_run (us @ [u]) = pf_stats_update ?st p tx rx lat" by (simp add: stats_run_def u)
  have dom: "se_proxy_id ` set ?st = fst ` set us" (is "?L = ?R")
  proof (rule set_eqI)
    fix x show "x \<in> ?L \<longleftrightarrow> x \<in> ?R" using ih(2) [of x] stats_of_None [of ?st x] by (cases "stats_of ?st x") auto
  qed
  have room: "length ?st < PF_MAX_PROXIES" if "stats_of ?st p = None"
  proof -
    have "p \<notin> fst ` set us" using ih(2) [of p] that by simp
    hence "card (fst ` set us) < PF_MAX_PROXIES" using snoc.prems u by (simp add: card_insert_if)
    moreover have "length ?st = card (se_proxy_id ` set ?st)" using ih(1) by (metis stats_inv_def distinct_card length_map set_map)
    ultimately show ?thesis using dom by simp
  qed
  note spec = stats_update_spec [OF ih(1), of p tx rx lat]
  have "case stats_of (stats_run (us @ [u])) pid of None \<Rightarrow> pid \<notin> fst ` set (us @ [u])
    | Some e \<Rightarrow> pid \<in> fst ` set (us @ [u]) \<and> stats_tracks (us @ [u]) e pid" for pid
  proof (cases "pid = p")
    case True
    show ?thesis
      using spec ih(2) [of p] room True stats_tracks_bump [of us _ p tx rx lat] stats_tracks_zero [of p us]
      unfolding run [unfolded u] u by (auto split: option.splits)
  next
    case False
    hence "stats_of (stats_run (us @ [u])) pid = stats_of ?st pid" using spec room unfolding run by (auto split: option.splits)
    thus ?thesis using ih(2) [of pid] False u by (auto simp: stats_tracks_other split: option.splits)
  qed
  thus ?case using spec run by simp
qed

section \<open>Properties\<close>

text \<open>
  The statistics of a proxy are the sums over its own updates: after any sequence of updates for
  at most 256 proxies there is exactly one entry per proxy, its byte counters are the sums modulo
  2^64, its connection count the number of updates and its latency figures those of the positive
  samples; a reset keeps the proxies and starts the sums again.
\<close>

theorem stats_totals:
  assumes "card (fst ` set us) \<le> PF_MAX_PROXIES" "pid \<in> fst ` set us"
  shows "\<exists>e. stats_of (stats_run us) pid = Some e \<and> se_bytes_tx e = total (\<lambda>(_, tx, _, _). tx) pid us
    \<and> se_bytes_rx e = total (\<lambda>(_, _, rx, _). rx) pid us \<and> se_connections e = int32_of (total (\<lambda>_. 1) pid us)
    \<and> se_total_latency_ms e = int32_of (total (\<lambda>(_, _, _, l). max l 0) pid us)
    \<and> se_latency_count e = int32_of (total (\<lambda>(_, _, _, l). if l > 0 then 1 else 0) pid us)
    \<and> distinct (map se_proxy_id (stats_run us)) \<and> stats_of (pf_stats_reset (stats_run us)) pid = Some (stats_entry_zero pid)"
proof -
  note r = stats_run_inv [OF assms(1)]
  obtain e where e: "stats_of (stats_run us) pid = Some e" "stats_tracks us e pid"
    using r assms(2) by (auto split: option.splits)
  have "stats_of (pf_stats_reset st) pid = map_option (\<lambda>e. stats_entry_zero pid) (stats_of st pid)" for st
    by (induction st) (auto simp: stats_of_def pf_stats_reset_def stats_entry_zero_def)
  thus ?thesis using e r by (auto simp: stats_tracks_def stats_inv_def)
qed

theorem stats_totals_witness:
  "\<exists>e. stats_of (stats_run [(3, 10, 20, 7), (4, 1, 1, 0), (3, 5, 5, 0)]) 3 = Some e \<and> se_bytes_tx e = 15 \<and> se_connections e = 2"
  using stats_totals [of "[(3, 10, 20, 7), (4, 1, 1, 0), (3, 5, 5, 0)]" 3]
  by (auto simp: total_def PF_MAX_PROXIES_def int32_of_def card_insert_if)

end
