(* ===== verification/Dns_Resolver.thy ===== *)
theory Dns_Resolver
  imports Dns Config Chain
begin

text \<open>
  \<^verbatim>\<open>dns_resolver.c\<close>: the forwarder that answers DNS queries over HTTPS through a proxy, with its
  cache.  OpenSSL is a parameter (handshake, write and read on a session); the proxies are those of
  the configuration database and the connections those of \<^verbatim>\<open>proxy_socks.c\<close> and \<^verbatim>\<open>proxy_http.c\<close>.
\<close>

unbundle bit_operations_syntax

section \<open>The cache\<close>

definition DNS_CACHE_SIZE :: nat where "DNS_CACHE_SIZE = 512"
definition DNS_CACHE_TTL_S :: int where "DNS_CACHE_TTL_S = 60"
definition DNS_CACHE_RESP_MAX :: nat where "DNS_CACHE_RESP_MAX = 1024"

record dns_cache_entry =
  ce_name :: string
  ce_qtype :: u16
  ce_resp :: bytes
  ce_expires :: int

record doh_cache =
  dc_entries :: "dns_cache_entry list"
  dc_head :: nat

definition ce_zero :: dns_cache_entry where
  "ce_zero = \<lparr> ce_name = [], ce_qtype = 0, ce_resp = [], ce_expires = 0 \<rparr>"

definition g_dns_cache :: doh_cache where
  "g_dns_cache = \<lparr> dc_entries = replicate DNS_CACHE_SIZE ce_zero, dc_head = 0 \<rparr>"

text \<open>The label loop of \<^verbatim>\<open>extract_query_key\<close> from the current offset; \<open>name\<close> is what was written.\<close>

function key_loop :: "bytes \<Rightarrow> string \<Rightarrow> nat \<Rightarrow> (string \<times> bytes) option" where
  "key_loop q name name_cap = (case q of
     [] \<Rightarrow> None
   | lb # r \<Rightarrow>
       if lb = 0 then Some (name, r)
       else if lb AND 0xC0 \<noteq> 0 then None
       else if unat lb > length r \<or> length name + unat lb + 1 \<ge> name_cap then None
       else key_loop (drop (unat lb) r) (name @ map (\<lambda>b. tolower (char_of (unat b))) (take (unat lb) r) @ ''.'') name_cap)"
  by pat_completeness auto
termination
  by (relation "measure (\<lambda>(q, _). length q)") auto

declare key_loop.simps [simp del]

definition extract_query_key :: "bytes \<Rightarrow> nat \<Rightarrow> (string \<times> u16) option" where
  "extract_query_key q name_cap =
     (if length q < 12 \<or> name_cap < 2 then None
      else case key_loop (drop 12 q) [] name_cap of
        None \<Rightarrow> None
      | Some (name, r) \<Rightarrow>
          (let name' = (if name \<noteq> [] \<and> last name = CHR ''.'' then butlast name else name) in
           case r of a # b # c # d # _ \<Rightarrow> Some (takeWhile (\<lambda>c. c \<noteq> CHR 0x00) name', u16be a b)
           | _ \<Rightarrow> None))"

fun cache_lookup_loop :: "int \<Rightarrow> string \<Rightarrow> u16 \<Rightarrow> u16 \<Rightarrow> nat \<Rightarrow> dns_cache_entry list \<Rightarrow> bytes option" where
  "cache_lookup_loop now name qtype qid out_len [] = None"
| "cache_lookup_loop now name qtype qid out_len (e # es) =
     (if ce_expires e \<le> now \<or> ce_qtype e \<noteq> qtype \<or> ce_resp e = [] then cache_lookup_loop now name qtype qid out_len es
      else if ce_name e \<noteq> name then cache_lookup_loop now name qtype qid out_len es
      else if length (ce_resp e) + 2 > out_len then None
      else Some (hi8 qid # lo8 qid # ce_resp e))"

definition dns_cache_lookup :: "int \<Rightarrow> doh_cache \<Rightarrow> string \<Rightarrow> u16 \<Rightarrow> u16 \<Rightarrow> nat \<Rightarrow> bytes option" where
  "dns_cache_lookup now c name qtype qid out_len = cache_lookup_loop now name qtype qid out_len (dc_entries c)"

definition dns_cache_put :: "int \<Rightarrow> doh_cache \<Rightarrow> string \<Rightarrow> u16 \<Rightarrow> bytes \<Rightarrow> doh_cache" where
  "dns_cache_put now c name qtype resp =
     (if length resp < 2 \<or> length resp - 2 > DNS_CACHE_RESP_MAX then c
      else c \<lparr> dc_entries := (dc_entries c)[dc_head c := \<lparr> ce_name = snprintf_s 256 name, ce_qtype = qtype,
                 ce_resp = drop 2 resp, ce_expires = now + DNS_CACHE_TTL_S \<rparr>],
               dc_head := (dc_head c + 1) mod DNS_CACHE_SIZE \<rparr>)"

section \<open>The HTTPS exchange\<close>

text \<open>
  An OpenSSL session: the handshake on a connected socket, \<^verbatim>\<open>SSL_write\<close> of a whole buffer (whether
  all of it was written) and \<^verbatim>\<open>SSL_read\<close> of at most the given size (\<open>None\<close> for a value \<^verbatim>\<open>\<le> 0\<close>).
\<close>

record 's tls =
  tls_connect :: "sock \<Rightarrow> 's option"
  tls_write :: "'s \<Rightarrow> bytes \<Rightarrow> bool \<times> 's"
  tls_read :: "'s \<Rightarrow> nat \<Rightarrow> bytes option \<times> 's"

function ssl_read_full :: "'s tls \<Rightarrow> 's \<Rightarrow> nat \<Rightarrow> bytes \<Rightarrow> bytes option" where
  "ssl_read_full T s want buf =
     (if length buf < want then
        (case tls_read T s (want - length buf) of
           (None, _) \<Rightarrow> None
         | (Some c, s') \<Rightarrow> if c = [] then None else ssl_read_full T s' want (buf @ c))
      else Some buf)"
  by pat_completeness auto
termination
  by (relation "measure (\<lambda>(T, s, want, buf). want - length buf)") (auto simp: diff_less_mono2)

abbreviation terminator :: bytes where "terminator \<equiv> [0x0D, 0x0A, 0x0D, 0x0A]"

function scan_crlf :: "bytes \<Rightarrow> nat \<Rightarrow> nat option" where
  "scan_crlf buf i = (if i + 4 \<le> length buf then
     (if take 4 (drop i buf) = terminator then Some i else scan_crlf buf (i + 1)) else None)"
  by pat_completeness auto
termination
  by (relation "measure (\<lambda>(buf, i). length buf - i)") auto

function read_http_headers :: "'s tls \<Rightarrow> 's \<Rightarrow> nat \<Rightarrow> bytes \<Rightarrow> nat \<Rightarrow> (bytes \<times> nat \<times> 's) option" where
  "read_http_headers T s cap_n buf scanned =
     (if length buf < cap_n then
        (case tls_read T s (cap_n - length buf) of
           (None, _) \<Rightarrow> None
         | (Some c, s') \<Rightarrow>
             if c = [] then None
             else (case scan_crlf (buf @ c) (if scanned \<ge> 3 then scanned - 3 else 0) of
                 Some i \<Rightarrow> Some (buf @ c, i + 4, s')
               | None \<Rightarrow> read_http_headers T s' cap_n (buf @ c) (length (buf @ c))))
      else None)"
  by pat_completeness auto
termination
  by (relation "measure (\<lambda>(T, s, cap_n, buf, scanned). cap_n - length buf)") (auto simp: diff_less_mono2)

declare ssl_read_full.simps [simp del] scan_crlf.simps [simp del] read_http_headers.simps [simp del]

text \<open>\<open>mem\<close> is the header buffer with what follows it; \<open>hlen\<close> bounds the search but not \<^verbatim>\<open>atoi\<close>.\<close>

function parse_content_length :: "string \<Rightarrow> nat \<Rightarrow> nat \<Rightarrow> int" where
  "parse_content_length mem hlen p =
     (if p + 16 < hlen then
        (if (mem ! p = CHR ''C'' \<or> mem ! p = CHR ''c'') \<and> strncasecmp_eq (drop p mem) ''Content-Length:'' 15
         then atoi (let v = take (hlen - (p + 15)) (drop (p + 15) mem) in
                    drop (p + 15 + length (takeWhile (\<lambda>c. c = CHR '' '' \<or> c = CHR 0x09) v)) mem)
         else (case strchr (take (hlen - p) (drop p mem)) (CHR 0x0A) of
             None \<Rightarrow> -1
           | Some nl \<Rightarrow> parse_content_length mem hlen (p + nl + 1)))
      else -1)"
  by pat_completeness auto
termination
  by (relation "measure (\<lambda>(mem, hlen, p). hlen - p)") auto

declare parse_content_length.simps [simp del]

definition usable_dns_proxy :: "pf_proxy \<Rightarrow> bool" where
  "usable_dns_proxy p \<longleftrightarrow> px_enabled p \<noteq> 0 \<and> (px_type p = PF_PROXY_SOCKS5 \<or> px_type p = PF_PROXY_HTTP)"

text \<open>The three statements of the database are numbered by the call that runs them.\<close>

definition pick_dns_proxy :: "(nat \<Rightarrow> faults) \<Rightarrow> pf_db \<Rightarrow> pf_proxy option" where
  "pick_dns_proxy ok db =
     (let val = (case pf_config_get (ok 0) db ''dns_proxy_id'' 32 of Inl _ \<Rightarrow> ''0'' | Inr v \<Rightarrow> v);
          configured = atoi val;
          chosen = (if configured > 0 then
             (case pf_config_proxy_get (ok 1) db configured of
                Inr p \<Rightarrow> if usable_dns_proxy p then Some p else None
              | Inl _ \<Rightarrow> None) else None)
      in case chosen of Some p \<Rightarrow> Some p
         | None \<Rightarrow> (case pf_config_proxy_list (ok 2) db PF_MAX_PROXIES of
             Inl _ \<Rightarrow> None
           | Inr ps \<Rightarrow> find usable_dns_proxy ps))"

definition connect_via_proxy ::
  "(bytes \<Rightarrow> string) \<Rightarrow> network \<Rightarrow> pf_proxy \<Rightarrow> string \<Rightarrow> int \<Rightarrow> connect_result" where
  "connect_via_proxy evp net p host port =
     (if px_type p = PF_PROXY_SOCKS5 then
        pf_socks5_connect net (Some (px_host p)) (int (unat (px_port p))) (Some host) port (Some (px_username p)) (Some (px_password p))
      else if px_type p = PF_PROXY_HTTP then
        pf_http_connect evp net (Some (px_host p)) (int (unat (px_port p))) (Some host) port (Some (px_username p)) (Some (px_password p))
      else (False, []))"

definition PF_VERSION :: string where "PF_VERSION = ''0.4.1-alpha''"

definition doh_request :: "string \<Rightarrow> nat \<Rightarrow> string" where
  "doh_request host query_len = ''POST /dns-query HTTP/1.1'' @ crlf @ ''Host: '' @ host @ crlf
     @ ''User-Agent: ProxiFlare/'' @ PF_VERSION @ crlf @ ''Content-Type: application/dns-message'' @ crlf
     @ ''Accept: application/dns-message'' @ crlf @ ''Content-Length: '' @ show_nat query_len @ crlf
     @ ''Connection: close'' @ crlf @ crlf"

text \<open>From the session to the answer; \<open>junk\<close> is the uninitialised rest of the header buffer.\<close>

definition doh_exchange :: "'s tls \<Rightarrow> bytes \<Rightarrow> string \<Rightarrow> bytes \<Rightarrow> 's \<Rightarrow> bytes option" where
  "doh_exchange T junk host query s =
     (let req = doh_request host (length query) in
      if length req \<ge> 512 then None
      else case tls_write T s (bytes_of req) of (False, _) \<Rightarrow> None | (True, s1) \<Rightarrow>
      (case tls_write T s1 query of (False, _) \<Rightarrow> None | (True, s2) \<Rightarrow>
       (case read_http_headers T s2 8192 [] 0 of None \<Rightarrow> None | Some (hbuf, body_off, s3) \<Rightarrow>
         (let mem = chars_of (hbuf @ junk) in
          if \<not> strncmp_eq mem ''HTTP/1.1 200'' 12 \<and> \<not> strncmp_eq mem ''HTTP/1.0 200'' 12 then None
          else let clen_s = parse_content_length mem body_off 0 in
            if clen_s \<le> 0 \<or> clen_s > 4096 then None
            else let clen = nat clen_s;
                     have0 = (if length hbuf > body_off then length hbuf - body_off else 0);
                     have1 = (if have0 > clen then clen else have0);
                     body = take have1 (drop body_off hbuf)
                 in if have1 < clen
                    then (case ssl_read_full T s3 (clen - have1) [] of None \<Rightarrow> None | Some rest \<Rightarrow> Some (body @ rest))
                    else Some body))))"

record doh_resolver =
  rv_doh_host :: string
  rv_doh_port :: int

definition pf_dns_resolver_init :: "bool \<Rightarrow> bool \<Rightarrow> doh_resolver option" where
  "pf_dns_resolver_init socket_ok bind_ok =
     (if \<not> socket_ok then None else if \<not> bind_ok then None
      else Some \<lparr> rv_doh_host = snprintf_s 128 ''cloudflare-dns.com'', rv_doh_port = 443 \<rparr>)"

text \<open>One query: the datagram sent back, if any, the new cache, and the descriptors it created.\<close>

definition dns_worker ::
  "'s tls \<Rightarrow> bytes \<Rightarrow> (bytes \<Rightarrow> string) \<Rightarrow> network \<Rightarrow> (nat \<Rightarrow> faults) \<Rightarrow> pf_db \<Rightarrow> doh_resolver \<Rightarrow> int \<Rightarrow> int
    \<Rightarrow> bytes \<Rightarrow> doh_cache \<Rightarrow> bytes option \<times> doh_cache \<times> sock list" where
  "dns_worker T junk evp net ok db r t0 t1 query c =
     (let qid = (case query of a # b # _ \<Rightarrow> u16be a b | _ \<Rightarrow> 0);
          key = extract_query_key query 256;
          hit = (case key of None \<Rightarrow> None | Some (qname, qtype) \<Rightarrow> dns_cache_lookup t0 c qname qtype qid (DNS_CACHE_RESP_MAX + 2))
      in case hit of Some ans \<Rightarrow> (Some ans, c, [])
         | None \<Rightarrow>
        (case pick_dns_proxy ok db of None \<Rightarrow> (None, c, [])
         | Some proxy \<Rightarrow>
          (let tun = connect_via_proxy evp net proxy (rv_doh_host r) (rv_doh_port r) in
           if \<not> fst tun then (None, c, snd tun)
           else let fds = snd (close_last tun) in
             case tls_connect T (last (snd tun)) of None \<Rightarrow> (None, c, fds)
             | Some s \<Rightarrow>
               (case doh_exchange T junk (rv_doh_host r) query s of None \<Rightarrow> (None, c, fds)
                | Some body \<Rightarrow> (Some body,
                    (case key of None \<Rightarrow> c | Some (qname, qtype) \<Rightarrow> dns_cache_put t1 c qname qtype body), fds)))))"

text \<open>\<^verbatim>\<open>pf_dns_resolver_process\<close>: one datagram of at most 1500 bytes becomes one worker.\<close>

definition pf_dns_resolver_process :: "bytes option \<Rightarrow> bool \<Rightarrow> bool \<Rightarrow> bytes option" where
  "pf_dns_resolver_process pkt alloc_ok thread_ok = (case pkt of None \<Rightarrow> None
     | Some p \<Rightarrow> (let q = take 1500 p in
         if length q < 12 then None else if \<not> alloc_ok then None else if \<not> thread_ok then None else Some q))"

section \<open>What the cache holds\<close>

text \<open>A put: name, type, answer and time.  The cache after a sequence of puts.\<close>

type_synonym cache_put = "string \<times> u16 \<times> bytes \<times> int"

definition cache_run :: "cache_put list \<Rightarrow> doh_cache" where
  "cache_run ps = foldl (\<lambda>c (n, t, resp, tm). dns_cache_put tm c n t resp) g_dns_cache ps"

definition put_ok :: "cache_put \<Rightarrow> bool" where
  "put_ok p = (case p of (n, t, resp, tm) \<Rightarrow> length n < 256 \<and> 2 < length resp \<and> length resp - 2 \<le> DNS_CACHE_RESP_MAX)"

definition entry_of :: "cache_put \<Rightarrow> dns_cache_entry" where
  "entry_of p = (case p of (n, t, resp, tm) \<Rightarrow> \<lparr> ce_name = n, ce_qtype = t, ce_resp = drop 2 resp, ce_expires = tm + DNS_CACHE_TTL_S \<rparr>)"

lemma cache_run_snoc:
  "put_ok p \<Longrightarrow> cache_run (ps @ [p]) = (let c = cache_run ps in
     c \<lparr> dc_entries := (dc_entries c)[dc_head c := entry_of p], dc_head := (dc_head c + 1) mod DNS_CACHE_SIZE \<rparr>)"
  by (auto simp: cache_run_def put_ok_def entry_of_def dns_cache_put_def snprintf_s_id Let_def split: prod.splits)

lemma cache_run_slots:
  "\<forall>p \<in> set ps. put_ok p \<Longrightarrow>
    length (dc_entries (cache_run ps)) = DNS_CACHE_SIZE \<and> dc_head (cache_run ps) = length ps mod DNS_CACHE_SIZE
    \<and> (\<forall>j < length ps. length ps \<le> j + DNS_CACHE_SIZE \<longrightarrow> dc_entries (cache_run ps) ! (j mod DNS_CACHE_SIZE) = entry_of (ps ! j))
    \<and> set (dc_entries (cache_run ps)) \<subseteq> insert ce_zero (entry_of ` set ps)"
proof (induction ps rule: rev_induct)
  case Nil
  show ?case by (auto simp: cache_run_def g_dns_cache_def DNS_CACHE_SIZE_def)
next
  case (snoc p ps)
  let ?c = "cache_run ps" and ?n = "length ps" and ?k = DNS_CACHE_SIZE
  have k: "0 < ?k" by (simp add: DNS_CACHE_SIZE_def)
  have ih: "length (dc_entries ?c) = ?k" "dc_head ?c = ?n mod ?k"
    "j < ?n \<Longrightarrow> ?n \<le> j + ?k \<Longrightarrow> dc_entries ?c ! (j mod ?k) = entry_of (ps ! j)"
    "set (dc_entries ?c) \<subseteq> insert ce_zero (entry_of ` set ps)" for j
    using snoc by auto
  have r: "cache_run (ps @ [p]) = ?c \<lparr> dc_entries := (dc_entries ?c)[?n mod ?k := entry_of p], dc_head := (?n mod ?k + 1) mod ?k \<rparr>"
    using snoc.prems cache_run_snoc [of p ps] ih(2) by (simp add: Let_def)
  have "dc_entries (cache_run (ps @ [p])) ! (j mod ?k) = entry_of ((ps @ [p]) ! j)" if "j < Suc ?n" "Suc ?n \<le> j + ?k" for j
  proof (cases "j = ?n")
    case True
    thus ?thesis using r ih(1) k by (simp add: nth_list_update)
  next
    case False
    hence "j < ?n" using that by simp
    moreover have "j mod ?k \<noteq> ?n mod ?k" using recent_slot_neq [of j ?n ?k] that \<open>j < ?n\<close> by simp
    ultimately show ?thesis using r ih(1) ih(3) [of j] k that by (simp add: nth_list_update nth_append)
  qed
  moreover have "set (dc_entries (cache_run (ps @ [p]))) \<subseteq> insert ce_zero (entry_of ` set (ps @ [p]))"
    using r ih(4) set_update_subset_insert [of "dc_entries ?c" "?n mod ?k" "entry_of p"] by auto
  ultimately show ?case using r ih(1) by (simp add: mod_Suc_eq)
qed

lemma cache_lookup_Some:
  "cache_lookup_loop now n t qid L es = Some out \<Longrightarrow>
    \<exists>e \<in> set es. ce_expires e > now \<and> ce_qtype e = t \<and> ce_name e = n \<and> out = hi8 qid # lo8 qid # ce_resp e \<and> ce_resp e \<noteq> []"
  by (induction es) (auto split: if_splits)

lemma cache_lookup_hit:
  "e \<in> set es \<Longrightarrow> ce_expires e > now \<Longrightarrow> ce_qtype e = t \<Longrightarrow> ce_name e = n \<Longrightarrow> ce_resp e \<noteq> [] \<Longrightarrow>
    \<forall>e \<in> set es. length (ce_resp e) + 2 \<le> L \<Longrightarrow> cache_lookup_loop now n t qid L es \<noteq> None"
  by (induction es) auto

section \<open>The key of a query\<close>

lemma label_no_high_bits:
  assumes "n < 64"
  shows "(of_nat n :: byte) AND 0xC0 = 0"
proof -
  have "(of_nat n :: byte) = take_bit 6 (of_nat n)" using assms by (simp add: take_bit_of_nat take_bit_nat_eq_self)
  hence "(of_nat n :: byte) = of_nat n AND mask 6" by (simp add: take_bit_eq_mask)
  hence "(of_nat n :: byte) AND 0xC0 = (of_nat n AND mask 6) AND 0xC0" by (rule arg_cong [of _ _ "\<lambda>x. x AND 0xC0"])
  also have "... = of_nat n AND (mask 6 AND 0xC0)" by (rule and.assoc)
  also have "mask 6 AND (0xC0 :: byte) = 0" by (simp add: mask_eq_exp_minus_1)
  finally show ?thesis by simp
qed

definition lower :: "bytes \<Rightarrow> string" where
  "lower bs = map (\<lambda>b. tolower (char_of (unat b))) bs"

lemma key_loop_label:
  assumes "label_ok l" "length name + length l + 1 < n"
  shows "key_loop (enc_label l @ r) name n = key_loop r (name @ lower l @ ''.'') n"
proof -
  have u: "unat (of_nat (length l) :: byte) = length l" using assms(1) by (intro unat_of_nat_lt) (simp add: label_ok_def)
  moreover have "(of_nat (length l) :: byte) \<noteq> 0" using assms(1) u by (metis label_ok_def less_irrefl unsigned_0)
  moreover have "(of_nat (length l) :: byte) AND 0xC0 = 0" using assms(1) by (intro label_no_high_bits) (simp add: label_ok_def)
  ultimately show ?thesis using assms(2) by (subst key_loop.simps) (simp add: enc_label_def lower_def)
qed

definition dotted_all :: "bytes list \<Rightarrow> string" where
  "dotted_all ls = concat (map (\<lambda>l. lower l @ ''.'') ls)"

lemma key_loop_name:
  "\<forall>l \<in> set ls. label_ok l \<Longrightarrow> length name + length (dotted_all ls) < n \<Longrightarrow>
    key_loop (enc_name ls @ r) name n = Some (name @ dotted_all ls, r)"
proof (induction ls arbitrary: name)
  case Nil
  show ?case by (subst key_loop.simps) (simp add: enc_name_def dotted_all_def)
next
  case (Cons l ls)
  have "enc_name (l # ls) @ r = enc_label l @ enc_name ls @ r" by (simp add: enc_name_def)
  moreover have "key_loop (enc_label l @ enc_name ls @ r) name n = key_loop (enc_name ls @ r) (name @ lower l @ ''.'') n"
    using Cons.prems by (intro key_loop_label) (simp_all add: dotted_all_def lower_def)
  moreover have "key_loop (enc_name ls @ r) (name @ lower l @ ''.'') n = Some ((name @ lower l @ ''.'') @ dotted_all ls, r)"
    using Cons.prems by (intro Cons.IH) (simp_all add: dotted_all_def)
  ultimately show ?case by (simp add: dotted_all_def)
qed

lemma dotted_all_dotted: "ls \<noteq> [] \<Longrightarrow> dotted_all ls = lower (dotted ls) @ ''.''"
proof (induction ls rule: dotted.induct)
  case (3 l k ls)
  have "tolower (char_of (46 :: nat)) = CHR ''.''" by code_simp
  thus ?case using 3 by (simp add: dotted_all_def lower_def)
qed (simp_all add: dotted_all_def)

lemma lower_no_nul: "0 \<notin> set bs \<Longrightarrow> CHR 0x00 \<notin> set (lower bs)"
proof -
  have "tolower c = CHR 0x00 \<Longrightarrow> c = CHR 0x00" for c
    by (auto simp: tolower_def char_of_eq_iff take_bit_nat_eq_self split: if_splits)
  moreover have "b = 0" if "char_of (unat b) = CHR 0x00" for b :: byte
  proof -
    have "(of_char (char_of (unat b) :: char) :: nat) = of_char (CHR 0x00)" using that by (rule arg_cong)
    thus ?thesis using unat_byte_less [of b] by (simp add: unat_eq_zero)
  qed
  ultimately show "0 \<notin> set bs \<Longrightarrow> CHR 0x00 \<notin> set (lower bs)" unfolding lower_def by (metis (no_types, lifting) image_iff list.set_map)
qed

section \<open>Reading does not depend on how the session delivers\<close>

text \<open>
  What OpenSSL documents of \<^verbatim>\<open>SSL_read\<close> on a stream with \<open>pending s\<close> still to come: it returns at
  least one and at most the wanted number of bytes, in order, as long as there are some.
\<close>

definition tls_stream :: "'s tls \<Rightarrow> ('s \<Rightarrow> bytes) \<Rightarrow> bool" where
  "tls_stream T pending \<longleftrightarrow> (\<forall>s n. 0 < n \<longrightarrow> pending s \<noteq> [] \<longrightarrow>
     (\<exists>c s'. tls_read T s n = (Some c, s') \<and> c \<noteq> [] \<and> length c \<le> n \<and> pending s = c @ pending s'))"

lemma tls_streamE:
  assumes "tls_stream T pending" "0 < n" "pending s \<noteq> []"
  obtains c s' where "tls_read T s n = (Some c, s')" "c \<noteq> []" "length c \<le> n" "pending s = c @ pending s'"
  using assms unfolding tls_stream_def by meson

lemma ssl_read_full_pending:
  assumes "tls_stream T pending"
  shows "want \<le> length buf + length (pending s) \<Longrightarrow> length buf \<le> want \<Longrightarrow>
    ssl_read_full T s want buf = Some (buf @ take (want - length buf) (pending s))"
proof (induction "want - length buf" arbitrary: buf s rule: less_induct)
  case less
  show ?case
  proof (cases "length buf < want")
    case False
    thus ?thesis by (subst ssl_read_full.simps) simp
  next
    case True
    hence "pending s \<noteq> []" "0 < want - length buf" using less.prems by auto
    then obtain c s' where c: "tls_read T s (want - length buf) = (Some c, s')" "c \<noteq> []" "length c \<le> want - length buf"
      "pending s = c @ pending s'" using tls_streamE [OF assms] by metis
    have "0 < length c" using c(2) by simp
    hence "want - length (buf @ c) < want - length buf" using True unfolding length_append by linarith
    hence "ssl_read_full T s' want (buf @ c) = Some ((buf @ c) @ take (want - length (buf @ c)) (pending s'))"
      using less.prems c(3,4) by (intro less.hyps) auto
    thus ?thesis using True c by (subst ssl_read_full.simps) simp
  qed
qed

definition occ :: "bytes \<Rightarrow> nat \<Rightarrow> bool" where
  "occ b i \<longleftrightarrow> i + 4 \<le> length b \<and> take 4 (drop i b) = terminator"

lemma scan_crlf_Some: "occ b k \<Longrightarrow> i \<le> k \<Longrightarrow> \<forall>j. i \<le> j \<and> j < k \<longrightarrow> \<not> occ b j \<Longrightarrow> scan_crlf b i = Some k"
proof (induction "k - i" arbitrary: i)
  case 0
  hence "i = k" by simp
  thus ?case using 0 by (subst scan_crlf.simps) (simp add: occ_def)
next
  case (Suc n)
  hence ik: "i < k" by simp
  hence "\<not> occ b i" "i + 4 \<le> length b" using Suc.prems by (auto simp: occ_def)
  hence "scan_crlf b i = scan_crlf b (i + 1)" by (subst scan_crlf.simps) (simp add: occ_def)
  moreover have "scan_crlf b (i + 1) = Some k" using Suc ik by (intro Suc.hyps) auto
  ultimately show ?case by simp
qed

lemma scan_crlf_None: "\<forall>j \<ge> i. \<not> occ b j \<Longrightarrow> scan_crlf b i = None"
proof (induction b i rule: scan_crlf.induct)
  case (1 b i)
  thus ?case by (subst scan_crlf.simps) (auto simp: occ_def)
qed

lemma occ_prefix: "i + 4 \<le> length a \<Longrightarrow> occ (a @ b) i \<longleftrightarrow> occ a i"
  by (auto simp: occ_def)

definition first_terminator :: "bytes \<Rightarrow> bool" where
  "first_terminator h \<longleftrightarrow> 4 \<le> length h \<and> (\<forall>i. occ h i \<longleftrightarrow> i = length h - 4)"

lemma read_http_headers_pending:
  assumes T: "tls_stream T pending" and h: "first_terminator h" "length h \<le> n"
  shows "buf @ pending s = h @ rest \<Longrightarrow> length buf < length h \<Longrightarrow>
    \<exists>hbuf s'. read_http_headers T s n buf (length buf) = Some (hbuf, length h, s') \<and> hbuf @ pending s' = h @ rest
      \<and> length h \<le> length hbuf"
proof (induction "length h - length buf" arbitrary: buf s rule: less_induct)
  case less
  have bn: "length buf < n" using less.prems(2) h(2) by simp
  have "pending s \<noteq> []" using less.prems by auto
  then obtain c s' where c: "tls_read T s (n - length buf) = (Some c, s')" "c \<noteq> []" "length c \<le> n - length buf" "pending s = c @ pending s'"
    using tls_streamE [OF T, of "n - length buf" s] bn by auto
  let ?b = "buf @ c" and ?from = "if length buf \<ge> 3 then length buf - 3 else 0"
  have eq: "?b @ pending s' = h @ rest" using less.prems(1) c(4) by simp
  have o: "occ ?b i \<longleftrightarrow> occ (h @ rest) i" if "i + 4 \<le> length ?b" for i
    unfolding eq [symmetric] by (rule occ_prefix [OF that, symmetric])
  have oh: "occ (h @ rest) i \<longleftrightarrow> i = length h - 4" if "i + 4 \<le> length h" for i
    using occ_prefix [OF that] h(1) by (simp add: first_terminator_def)
  have h4: "4 \<le> length h" using h(1) by (simp add: first_terminator_def)
  show ?case
  proof (cases "length h \<le> length ?b")
    case True
    have "occ ?b (length h - 4)" using o [of "length h - 4"] oh [of "length h - 4"] True h4 by simp
    moreover have "\<not> occ ?b j" if "j < length h - 4" for j using o [of j] oh [of j] True that h4 by auto
    moreover have "?from \<le> length h - 4" using less.prems(2) h4 by auto
    ultimately have "scan_crlf ?b ?from = Some (length h - 4)" by (intro scan_crlf_Some) auto
    hence "read_http_headers T s n buf (length buf) = Some (?b, length h, s')"
      using bn c h4 by (subst read_http_headers.simps) simp
    thus ?thesis using eq True by blast
  next
    case False
    have "\<not> occ ?b j" for j
    proof
      assume j: "occ ?b j"
      hence l: "j + 4 \<le> length ?b" by (simp add: occ_def)
      hence "j = length h - 4" using o [OF l] oh [of j] j False by simp
      thus False using l False h4 by simp
    qed
    hence "scan_crlf ?b ?from = None" by (intro scan_crlf_None) simp
    hence "read_http_headers T s n buf (length buf) = read_http_headers T s' n ?b (length ?b)"
      using bn c by (subst read_http_headers.simps) simp
    moreover have "0 < length c" using c(2) by simp
    hence "length h - length ?b < length h - length buf" using less.prems(2) unfolding length_append by linarith
    ultimately show ?thesis using less.hyps [of ?b s'] eq False by simp
  qed
qed

section \<open>The declared length\<close>

lemma no_match_short:
  assumes "CHR 0x0A \<notin> set l" "\<not> (15 \<le> length l \<and> strncasecmp_eq l ''Content-Length:'' 15)"
  shows "\<not> strncasecmp_eq (l @ CHR 0x0A # r) ''Content-Length:'' 15"
proof (cases "15 \<le> length l")
  case True
  thus ?thesis using assms(2) by (simp add: strncasecmp_eq_def)
next
  case False
  have nl: "tolower (CHR 0x0A) = CHR 0x0A" by code_simp
  have "15 - length l = Suc (14 - length l)" using False by simp
  hence "take 15 (l @ CHR 0x0A # r) = l @ CHR 0x0A # take (14 - length l) r" using False by simp
  hence "CHR 0x0A \<in> set (map tolower (take 15 (l @ CHR 0x0A # r)))" using nl by force
  moreover have "CHR 0x0A \<notin> set (map tolower (take 15 ''Content-Length:''))" by code_simp
  ultimately show ?thesis unfolding strncasecmp_eq_def by metis
qed

lemma content_length_skip:
  assumes "CHR 0x0A \<notin> set l" "\<not> (15 \<le> length l \<and> strncasecmp_eq l ''Content-Length:'' 15)"
    and "length a + length l + 1 + 16 < hlen" "mem = a @ l @ CHR 0x0A # r"
  shows "parse_content_length mem hlen (length a) = parse_content_length mem hlen (length a + length l + 1)"
proof -
  have d: "drop (length a) mem = l @ CHR 0x0A # r" using assms(4) by simp
  have n: "take (hlen - length a) (l @ CHR 0x0A # r) = l @ CHR 0x0A # take (hlen - length a - length l - 1) r"
    using assms(3) by (simp add: take_Cons')
  have "strchr (take (hlen - length a) (drop (length a) mem)) (CHR 0x0A) = Some (length l)"
    unfolding d n by (rule strchr_append [OF assms(1)])
  thus ?thesis
    using assms(3) no_match_short [OF assms(1,2), of r] by (subst parse_content_length.simps) (simp add: d)
qed

lemma content_length_found:
  assumes "mem = a @ ''Content-Length: '' @ show_nat n @ CHR 0x0D # r" "length a + 16 < hlen" "n < 2 ^ 31"
  shows "parse_content_length mem hlen (length a) = int n"
proof -
  have s: "hd (show_nat n) \<noteq> CHR '' '' \<and> hd (show_nat n) \<noteq> CHR 0x09"
    using show_nat_digits [of "hd (show_nat n)" n] show_nat_nonempty [of n] by (auto simp: is_digit_def)
  have d: "drop (length a) mem = ''Content-Length: '' @ show_nat n @ CHR 0x0D # r" "mem ! length a = CHR ''C''"
    using assms(1) by (simp_all add: nth_append)
  have m: "strncasecmp_eq (drop (length a) mem) ''Content-Length:'' 15" by (simp add: d strncasecmp_eq_def)
  have e: "drop (length a + 15) mem = CHR '' '' # show_nat n @ CHR 0x0D # r" using assms(1) by simp
  have "\<exists>k. hlen - (length a + 15) = Suc (Suc k)" using assms(2) by presburger
  then obtain k where k: "hlen - (length a + 15) = Suc (Suc k)" by blast
  obtain c cs where c: "show_nat n = c # cs" by (cases "show_nat n") (use show_nat_nonempty [of n] in auto)
  have "takeWhile (\<lambda>c. c = CHR '' '' \<or> c = CHR 0x09) (take (hlen - (length a + 15)) (drop (length a + 15) mem)) = ['' '' ! 0]"
    unfolding e k using s by (simp add: c)
  moreover have "drop (length a + 15 + 1) mem = show_nat n @ CHR 0x0D # r" using assms(1) by simp
  moreover have "atoi (show_nat n @ CHR 0x0D # r) = int n" by (rule atoi_show_nat) (simp_all only: assms(3), simp add: is_digit_def)
  ultimately show ?thesis using assms(2) d(2) m by (subst parse_content_length.simps) (simp add: Let_def)
qed

text \<open>A response head: lines, the declared length, and the rest up to the blank line.\<close>

definition plain_line :: "string \<Rightarrow> bool" where
  "plain_line l \<longleftrightarrow> CHR 0x0A \<notin> set l \<and> \<not> (15 \<le> length l \<and> strncasecmp_eq l ''Content-Length:'' 15)"

definition doh_head :: "string list \<Rightarrow> nat \<Rightarrow> string \<Rightarrow> string" where
  "doh_head ls n post = concat (map (\<lambda>l. l @ [CHR 0x0A]) ls) @ ''Content-Length: '' @ show_nat n @ CHR 0x0D # post"

lemma content_length_head:
  assumes "n < 2 ^ 31"
  shows "\<forall>l \<in> set ls. plain_line l \<Longrightarrow> mem = a @ doh_head ls n post @ r \<Longrightarrow> hlen = length (a @ doh_head ls n post) \<Longrightarrow>
    parse_content_length mem hlen (length a) = int n"
proof (induction ls arbitrary: a)
  case Nil
  have "0 < length (show_nat n)" using show_nat_nonempty [of n] by simp
  hence "length a + 16 < hlen" using Nil by (simp add: doh_head_def)
  thus ?case using Nil assms content_length_found [of mem a n "post @ r" hlen] by (simp add: doh_head_def)
next
  case (Cons l ls)
  let ?a = "a @ l @ [CHR 0x0A]"
  have "doh_head (l # ls) n post = l @ [CHR 0x0A] @ doh_head ls n post" by (simp add: doh_head_def)
  hence m: "mem = ?a @ doh_head ls n post @ r" "hlen = length (?a @ doh_head ls n post)" using Cons.prems by simp_all
  have "16 < length (doh_head ls n post)" using show_nat_nonempty [of n] by (simp add: doh_head_def)
  hence "parse_content_length mem hlen (length a) = parse_content_length mem hlen (length ?a)"
    using content_length_skip [of l a hlen mem "doh_head ls n post @ r"] Cons.prems(1) m by (simp add: plain_line_def)
  also have "... = int n" by (rule Cons.IH [OF _ m]) (use Cons.prems in simp)
  finally show ?case .
qed

lemma split_within: "a @ p = b @ q \<Longrightarrow> length a \<le> length b \<Longrightarrow> a @ take (length b - length a) p = b"
  by (auto simp: append_eq_append_conv2)

lemma doh_exchange_answer:
  assumes T: "tls_stream T pending" and w: "tls_write T s (bytes_of (doh_request host (length query))) = (True, s1)" "tls_write T s1 query = (True, s2)"
    and p: "pending s2 = bytes_of (doh_head ls (length body) post) @ body @ extra" and l: "\<forall>l \<in> set ls. plain_line l"
    and st: "strncmp_eq (doh_head ls (length body) post) ''HTTP/1.1 200'' 12" "12 \<le> length (doh_head ls (length body) post)"
    and h: "first_terminator (bytes_of (doh_head ls (length body) post))" "length (doh_head ls (length body) post) \<le> 8192"
    and b: "0 < length body" "length body \<le> 4096" and r: "length (doh_request host (length query)) < 512"
  shows "doh_exchange T junk host query s = Some body"
proof -
  let ?h = "doh_head ls (length body) post"
  obtain hbuf s3 where hb: "read_http_headers T s2 8192 [] 0 = Some (hbuf, length ?h, s3)"
    "hbuf @ pending s3 = bytes_of ?h @ body @ extra" "length ?h \<le> length hbuf"
  proof -
    have "0 < length ?h" using st(2) by linarith
    thus ?thesis using that read_http_headers_pending [OF T h(1), of 8192 "[]" s2 "body @ extra"] h(2) p by auto
  qed
  define more where "more = drop (length ?h) hbuf"
  have hm: "hbuf = bytes_of ?h @ more" "more @ pending s3 = body @ extra"
  proof -
    have t: "take (length ?h) (hbuf @ pending s3) = bytes_of ?h" "drop (length ?h) (hbuf @ pending s3) = body @ extra" unfolding hb(2) by simp_all
    thus "hbuf = bytes_of ?h @ more" using hb(3) by (metis append_take_drop_id more_def take_append diff_is_0_eq take_0 append_Nil2)
    show "more @ pending s3 = body @ extra" using t(2) hb(3) by (simp add: more_def)
  qed
  have mem: "chars_of (hbuf @ junk) = ?h @ chars_of (more @ junk)" unfolding hm(1) using chars_of_bytes_of [of ?h "more @ junk"] by simp
  have len: "parse_content_length (?h @ chars_of (more @ junk)) (length ?h) 0 = int (length body)"
    using content_length_head [OF _ l, of "length body" "?h @ chars_of (more @ junk)" "[]" post "chars_of (more @ junk)" "length ?h"] b(2) by simp
  have sc: "strncmp_eq (?h @ chars_of (more @ junk)) ''HTTP/1.1 200'' 12" using st by (simp add: strncmp_eq_def)
  have lh: "length hbuf = length ?h + length more" using hm(1) by simp
  have ex: "doh_exchange T junk host query s = (let have1 = (if length more > length body then length body else length more) in
      if have1 < length body then (case ssl_read_full T s3 (length body - have1) [] of None \<Rightarrow> None | Some rest \<Rightarrow> Some (take have1 more @ rest))
      else Some (take have1 more))"
    using r w hb(1) sc len b unfolding doh_exchange_def Let_def mem [symmetric] by (simp add: lh flip: more_def split: option.split)
  show ?thesis
  proof (cases "length more < length body")
    case True
    have "ssl_read_full T s3 (length body - length more) [] = Some (take (length body - length more) (pending s3))"
      using ssl_read_full_pending [OF T, of "length body - length more" "[]" s3] arg_cong [OF hm(2), of length] True by simp
    moreover have "more @ take (length body - length more) (pending s3) = body" using split_within [OF hm(2)] True by simp
    ultimately show ?thesis
      using ex True by (simp add: Let_def)
  next
    case False
    hence "take (length body) more = body" using split_within [OF hm(2) [symmetric]] by (metis append_eq_conv_conj linorder_not_less)
    thus ?thesis
      using ex False by (cases "length more = length body") (simp_all add: Let_def)
  qed
qed

section \<open>Connections of a worker\<close>

lemma connect_via_proxy_no_leak: "no_leak (connect_via_proxy evp net p host port)"
  by (simp add: connect_via_proxy_def pf_socks5_connect_no_leak pf_http_connect_no_leak) (simp add: no_leak_def)

lemma connect_via_proxy_net:
  assumes "net (px_host p) (int (unat (px_port p))) = net' (px_host p) (int (unat (px_port p)))"
  shows "connect_via_proxy evp net p host port = connect_via_proxy evp net' p host port"
proof -
  have t: "tcp_connect net (px_host p) (int (unat (px_port p))) = tcp_connect net' (px_host p) (int (unat (px_port p)))"
    by (simp only: tcp_connect_def assms)
  show ?thesis unfolding connect_via_proxy_def pf_socks5_connect_def pf_http_connect_def by (simp only: option.case prod.case t)
qed

section \<open>Properties\<close>

text \<open>
  The answer cache is sound and complete.  After any sequence of storable answers, a hit is an
  answer stored for the same name and type less than 60 seconds ago, with the two id bytes of the
  new query; and an answer that is among the last 512 stored and not expired is a hit.
\<close>

theorem doh_cache_sound_complete:
  assumes "\<forall>p \<in> set ps. put_ok p"
  shows "(\<forall>out. dns_cache_lookup now (cache_run ps) name qtype qid 1026 = Some out \<longrightarrow>
      (\<exists>resp tm. (name, qtype, resp, tm) \<in> set ps \<and> now < tm + 60 \<and> out = hi8 qid # lo8 qid # drop 2 resp))
    \<and> (\<forall>j < length ps. length ps \<le> j + 512 \<longrightarrow> (\<exists>resp tm. ps ! j = (name, qtype, resp, tm) \<and> now < tm + 60)
        \<longrightarrow> dns_cache_lookup now (cache_run ps) name qtype qid 1026 \<noteq> None)"
proof -
  note r = cache_run_slots [OF assms]
  let ?es = "dc_entries (cache_run ps)"
  have sound: "\<exists>resp tm. (name, qtype, resp, tm) \<in> set ps \<and> now < tm + 60 \<and> out = hi8 qid # lo8 qid # drop 2 resp"
    if hit: "dns_cache_lookup now (cache_run ps) name qtype qid 1026 = Some out" for out
  proof -
    obtain e where e: "e \<in> set ?es" "ce_expires e > now" "ce_qtype e = qtype" "ce_name e = name" "out = hi8 qid # lo8 qid # ce_resp e" "ce_resp e \<noteq> []"
      using hit cache_lookup_Some [of now name qtype qid 1026 ?es out] unfolding dns_cache_lookup_def by blast
    hence "e \<noteq> ce_zero" by (auto simp: ce_zero_def)
    then obtain n t resp tm where "(n, t, resp, tm) \<in> set ps" "e = entry_of (n, t, resp, tm)" using e(1) r by (metis (no_types) imageE insertE prod_cases4 subsetD)
    thus ?thesis using e by (auto simp: entry_of_def DNS_CACHE_TTL_S_def)
  qed
  have complete: "dns_cache_lookup now (cache_run ps) name qtype qid 1026 \<noteq> None"
    if j: "j < length ps" "length ps \<le> j + 512" "ps ! j = (name, qtype, resp, tm)" "now < tm + 60" for j resp tm
  proof -
    let ?e = "entry_of (ps ! j)"
    have "?es ! (j mod DNS_CACHE_SIZE) = ?e" "j mod DNS_CACHE_SIZE < length ?es" using r j by (simp_all add: DNS_CACHE_SIZE_def)
    hence "?e \<in> set ?es" by (metis nth_mem)
    moreover have "put_ok (ps ! j)" using assms j(1) by simp
    hence "ce_resp ?e \<noteq> []" using j(3) by (auto simp: entry_of_def put_ok_def)
    moreover have "\<forall>e \<in> set ?es. length (ce_resp e) + 2 \<le> 1026"
    proof
      fix e assume "e \<in> set ?es"
      hence "e = ce_zero \<or> (\<exists>p \<in> set ps. e = entry_of p)" using r by blast
      thus "length (ce_resp e) + 2 \<le> 1026" using assms by (auto simp: ce_zero_def entry_of_def put_ok_def DNS_CACHE_RESP_MAX_def split: prod.splits)
    qed
    ultimately show ?thesis
      unfolding dns_cache_lookup_def using j(3,4) by (intro cache_lookup_hit [of ?e]) (simp_all add: entry_of_def DNS_CACHE_TTL_S_def)
  qed
  show ?thesis using sound complete by blast
qed

theorem doh_cache_sound_complete_witness:
  "dns_cache_lookup 50 (cache_run [(''sky.ch'', 1, [9, 9, 7, 7], 0)]) ''sky.ch'' 1 0x0102 1026 = Some [1, 2, 7, 7]"
proof -
  let ?ps = "[(''sky.ch'', 1 :: u16, [9, 9, 7, 7] :: bytes, 0 :: int)]"
  have ok: "\<forall>p \<in> set ?ps. put_ok p" by (simp add: put_ok_def DNS_CACHE_RESP_MAX_def)
  have "hi8 0x0102 = 1" "lo8 0x0102 = 2" by code_simp+
  moreover note sc = doh_cache_sound_complete [OF ok, where now = 50 and name = "''sky.ch''" and qtype = 1 and qid = "0x0102"]
  moreover obtain out where "dns_cache_lookup 50 (cache_run ?ps) ''sky.ch'' 1 0x0102 1026 = Some out" using sc by fastforce
  ultimately show ?thesis by auto
qed

text \<open>
  The cache key of a query is its name in lower case with dots, and its type, so that queries
  for the same name in any case share an answer.
\<close>

theorem query_key_of_name:
  assumes "length hdr = 12" "name_ok ls"
  shows "extract_query_key (hdr @ enc_name ls @ [t1, t2, c1, c2] @ rest) 256 = Some (lower (dotted ls), u16be t1 t2)"
proof -
  have ls: "ls \<noteq> []" "\<forall>l \<in> set ls. label_ok l" "length (dotted ls) < 253" "0 \<notin> set (dotted ls)"
    using assms(2) dotted_set [of ls] by (auto simp: name_ok_def PF_DOMAIN_MAX_def)
  have len: "length (dotted_all ls) < 256" using ls(3) dotted_all_dotted [OF ls(1)] by (simp add: lower_def)
  have "key_loop (enc_name ls @ [t1, t2, c1, c2] @ rest) [] 256 = Some (lower (dotted ls) @ ''.'', [t1, t2, c1, c2] @ rest)"
    using key_loop_name [OF ls(2), of "[]" 256 "[t1, t2, c1, c2] @ rest"] len dotted_all_dotted [OF ls(1)] by simp
  moreover have "takeWhile (\<lambda>c. c \<noteq> CHR 0x00) (lower (dotted ls)) = lower (dotted ls)"
    using lower_no_nul [OF ls(4)] by (auto simp: takeWhile_eq_all_conv)
  ultimately show ?thesis using assms(1) by (simp add: extract_query_key_def)
qed

theorem query_key_of_name_witness:
  "extract_query_key (replicate 12 0 @ enc_name [[0x53, 0x4B, 0x59], [0x63, 0x68]] @ [0, 1, 0, 1]) 256 = Some (''sky.ch'', 1)"
proof -
  have "name_ok [[0x53, 0x4B, 0x59], [0x63, 0x68]]" by (simp add: name_ok_def label_ok_def PF_DOMAIN_MAX_def)
  moreover have "lower (dotted [[0x53, 0x4B, 0x59], [0x63, 0x68]]) = ''sky.ch''" "u16be 0 1 = 1" by code_simp+
  ultimately show ?thesis using query_key_of_name [of "replicate 12 0" _ 0 1 0 1 "[]"] by simp
qed


definition demo_tls :: "bytes \<Rightarrow> bytes tls" where
  "demo_tls resp = \<lparr> tls_connect = (\<lambda>_. Some resp), tls_write = (\<lambda>s _. (True, s)),
     tls_read = (\<lambda>s n. if s = [] then (None, s) else (Some (take (min n 7) s), drop (min n 7) s)) \<rparr>"

lemma demo_tls_stream: "tls_stream (demo_tls resp) id"
  by (auto simp: tls_stream_def demo_tls_def)

definition demo_dns_proxy :: pf_proxy where
  "demo_dns_proxy = (Config.demo_proxy ''home'') \<lparr> px_password := ''p'' \<rparr>"

definition demo_dns_db :: pf_db where
  "demo_dns_db = snd (pf_config_proxy_add (\<lambda>_. True) 5 pf_db_empty demo_dns_proxy)"

definition demo_dns_net :: network where
  "demo_dns_net h p = Some [Connected \<lparr> sk_rx = [[5, 0], [5, 0], [0, 1, 9, 9], [9, 9, 1, 2]], sk_tx = [], sk_snd = replicate 40 3, sk_open = True \<rparr>]"

lemma first_terminator_code:
  "first_terminator h \<longleftrightarrow> 4 \<le> length h \<and> list_all (\<lambda>i. (take 4 (drop i h) = terminator) = (i = length h - 4)) [0 ..< length h - 3]"
proof -
  have "(\<forall>i. (i + 4 \<le> n \<and> P i) = (i = n - 4)) = (\<forall>i \<in> {0 ..< n - 3}. P i = (i = n - 4))" if "4 \<le> n" for n :: nat and P
  proof -
    have "i + 4 \<le> n \<longleftrightarrow> i \<in> {0 ..< n - 3}" "i = n - 4 \<longrightarrow> i \<in> {0 ..< n - 3}" for i using that by auto
    thus ?thesis by blast
  qed
  from this [of "length h" "\<lambda>i. take 4 (drop i h) = terminator"] show ?thesis
    unfolding first_terminator_def occ_def list_all_iff set_upt by (intro conj_cong refl)
qed

definition demo_query :: bytes where
  "demo_query = [1, 2, 1, 0, 0, 1, 0, 0, 0, 0, 0, 0, 3, 0x73, 0x6B, 0x79, 2, 0x63, 0x68, 0, 0, 1, 0, 1]"

lemma demo_dns_connect:
  "\<exists>s. connect_via_proxy evp demo_dns_net (demo_dns_proxy \<lparr> px_id := 1, px_last_check := 5 \<rparr>) ''cloudflare-dns.com'' 443 = (True, [s])"
proof -
  let ?s = "\<lparr> sk_rx = [[5, 0], [5, 0], [0, 1, 9, 9], [9, 9, 1, 2]], sk_tx = [], sk_snd = replicate 40 3, sk_open = True \<rparr>"
  let ?m = "socks5_greeting True @ socks5_request ''cloudflare-dns.com'' 443"
  have "sk_at [] ([5, 0] @ [] @ [5, 0, 0, 1] @ [9, 9, 9, 9, 1, 2] @ []) 40 ?s" by (simp add: sk_at_def sk_pending_def sk_credit_def)
  moreover have "length ?m \<le> 40" by (simp add: socks5_greeting_def socks5_request_def)
  ultimately have e: "ends_at (socks5_negotiate_on_fd (Some ''cloudflare-dns.com'') 443 (opt_str ''u'') (opt_str ''p'') ?s) ([] @ ?m) [] (40 - length ?m)"
    by (intro socks5_hop_ends [where k = 0 and a = "[]" and v = 5 and x = 0 and t = 1 and bnd = "[9, 9, 9, 9, 1, 2]"]) (simp_all add: bound_addr_def)
  let ?r = "close_on_fail (socks5_negotiate_on_fd (Some ''cloudflare-dns.com'') 443 (Some ''u'') (Some ''p'') ?s)"
  have "fst ?r" using e by (simp add: ends_at_def close_on_fail_def opt_str_def)
  moreover have "connect_via_proxy evp demo_dns_net (demo_dns_proxy \<lparr> px_id := 1, px_last_check := 5 \<rparr>) ''cloudflare-dns.com'' 443
     = on_connection ([], Some ?s) (\<lambda>s. close_on_fail (socks5_negotiate_on_fd (Some ''cloudflare-dns.com'') 443 (Some ''u'') (Some ''p'') s))"
    using socks5_connect_negotiate [of 443 "''cloudflare-dns.com''" "Some ''u''" "Some ''p''" demo_dns_net "''127.0.0.1''" 1080]
    by (simp add: connect_via_proxy_def demo_dns_proxy_def Config.demo_proxy_def tcp_connect_def demo_dns_net_def)
  ultimately show ?thesis by (auto simp: on_connection_def split: prod.splits)
qed


text \<open>
  No query leaks.  A worker opens connections to the picked proxy only: on networks that agree
  about the address of that proxy it does the same, without a usable proxy it opens nothing, and
  whatever happens every descriptor it opened is closed when it ends.
\<close>

theorem doh_worker_only_through_proxy:
  "(\<forall>p. pick_dns_proxy ok db = Some p \<longrightarrow> net (px_host p) (int (unat (px_port p))) = net' (px_host p) (int (unat (px_port p)))
      \<longrightarrow> dns_worker T junk evp net ok db r t0 t1 query c = dns_worker T junk evp net' ok db r t0 t1 query c)
    \<and> (pick_dns_proxy ok db = None \<longrightarrow> snd (snd (dns_worker T junk evp net ok db r t0 t1 query c)) = [])
    \<and> (\<forall>s \<in> set (snd (snd (dns_worker T junk evp net ok db r t0 t1 query c))). \<not> sk_open s)"
proof (intro conjI impI allI)
  fix p assume p: "pick_dns_proxy ok db = Some p" "net (px_host p) (int (unat (px_port p))) = net' (px_host p) (int (unat (px_port p)))"
  show "dns_worker T junk evp net ok db r t0 t1 query c = dns_worker T junk evp net' ok db r t0 t1 query c"
    unfolding dns_worker_def p(1) option.case connect_via_proxy_net [of net p net', OF p(2)] ..
next
  assume "pick_dns_proxy ok db = None"
  thus "snd (snd (dns_worker T junk evp net ok db r t0 t1 query c)) = []" by (auto simp: dns_worker_def Let_def split: option.splits)
next
  show "\<forall>s \<in> set (snd (snd (dns_worker T junk evp net ok db r t0 t1 query c))). \<not> sk_open s"
  proof -
    have o: "\<forall>s \<in> set (snd (connect_via_proxy evp net p h q)). \<not> sk_open s" if "\<not> fst (connect_via_proxy evp net p h q)" for p h q
      using connect_via_proxy_no_leak [of evp net p h q] that by (simp add: no_leak_def)
    have c: "\<forall>s \<in> set (snd (close_last (connect_via_proxy evp net p h q))). \<not> sk_open s" if "fst (connect_via_proxy evp net p h q)" for p h q
      using close_last_closed [OF connect_via_proxy_no_leak that] .
    show ?thesis unfolding dns_worker_def Let_def using o c by (simp split: option.split)
  qed
qed

theorem doh_worker_only_through_proxy_witness:
  "dns_worker (demo_tls []) [] (\<lambda>_. []) (\<lambda>h p. if h = ''127.0.0.1'' then None else demo_dns_net h p) (\<lambda>_ _. True) demo_dns_db
      \<lparr> rv_doh_host = ''cloudflare-dns.com'', rv_doh_port = 443 \<rparr> 0 1 demo_query g_dns_cache
   = dns_worker (demo_tls []) [] (\<lambda>_. []) (\<lambda>_ _. None) (\<lambda>_ _. True) demo_dns_db
      \<lparr> rv_doh_host = ''cloudflare-dns.com'', rv_doh_port = 443 \<rparr> 0 1 demo_query g_dns_cache"
proof -
  let ?p = "demo_dns_proxy \<lparr> px_id := 1, px_last_check := 5 \<rparr>"
  have "pick_dns_proxy (\<lambda>_ _. True) demo_dns_db = Some ?p" by code_simp
  moreover have "px_host ?p = ''127.0.0.1''" by (simp add: demo_dns_proxy_def Config.demo_proxy_def)
  ultimately show ?thesis
    using doh_worker_only_through_proxy [of "\<lambda>_ _. True" demo_dns_db "\<lambda>h p. if h = ''127.0.0.1'' then None else demo_dns_net h p" "\<lambda>_ _. None"] by simp blast
qed

text \<open>
  The key is not injective on names with a NUL byte in a label: the query for a name that continues
  after the NUL is answered from, and fills, the slot of the shorter name.
\<close>

lemma query_key_cut_at_nul:
  "extract_query_key (replicate 12 0 @ enc_name [[0x61, 0, 0x62], [0x63]] @ [0, 1, 0, 1]) 256
   = extract_query_key (replicate 12 0 @ enc_name [[0x61]] @ [0, 1, 0, 1]) 256"
  by code_simp

end
