(* ===== verification/Ring.thy ===== *)
theory Ring
  imports Prelude
begin

text \<open>
  The rings of \<^verbatim>\<open>main.c\<close> that keep the latest log events and the latest inspected messages: an array,
  the position of the next write and the number of entries.  Both rings are written and read by the
  same code over different arrays; the locale \<open>ring_buffer\<close> proves once what they hold.
\<close>

record 'a ring =
  rg_slots :: "'a option list"
  rg_head :: nat
  rg_count :: nat

definition ring_empty :: "nat \<Rightarrow> 'a ring" where
  "ring_empty N = \<lparr> rg_slots = replicate N None, rg_head = 0, rg_count = 0 \<rparr>"

definition ring_put :: "nat \<Rightarrow> 'a \<Rightarrow> 'a ring \<Rightarrow> 'a ring" where
  "ring_put N x g = g \<lparr> rg_slots := (rg_slots g)[rg_head g := Some x], rg_head := (rg_head g + 1) mod N,
     rg_count := (if rg_count g < N then rg_count g + 1 else rg_count g) \<rparr>"

text \<open>The i-th oldest entry.\<close>

definition ring_nth :: "nat \<Rightarrow> 'a ring \<Rightarrow> nat \<Rightarrow> 'a option" where
  "ring_nth N g i = rg_slots g ! ((rg_head g + N - rg_count g + i) mod N)"

definition ring_of :: "nat \<Rightarrow> 'a list \<Rightarrow> 'a ring" where
  "ring_of N xs = foldl (\<lambda>g x. ring_put N x g) (ring_empty N) xs"

lemma ring_of_snoc: "ring_of N (xs @ [x]) = ring_put N x (ring_of N xs)"
  by (simp add: ring_of_def)

text \<open>The last \<open>N\<close> elements of a list.\<close>

definition last_n :: "nat \<Rightarrow> 'a list \<Rightarrow> 'a list" where
  "last_n N xs = drop (length xs - N) xs"

lemma last_n_length [simp]: "length (last_n N xs) = min (length xs) N"
  by (simp add: last_n_def)

lemma last_n_map: "last_n N (map f xs) = map f (last_n N xs)"
  by (simp add: last_n_def drop_map)

locale ring_buffer =
  fixes N :: nat
  assumes N_pos: "0 < N"
begin

lemma ring_slots:
  "length (rg_slots (ring_of N xs)) = N \<and> rg_count (ring_of N xs) = min (length xs) N \<and> rg_head (ring_of N xs) = length xs mod N
    \<and> (\<forall>j < length xs. length xs \<le> j + N \<longrightarrow> rg_slots (ring_of N xs) ! (j mod N) = Some (xs ! j))"
proof (induction xs rule: rev_induct)
  case Nil
  show ?case by (simp add: ring_of_def ring_empty_def)
next
  case (snoc x xs)
  let ?g = "ring_of N xs" and ?n = "length xs"
  have "rg_slots (ring_put N x ?g) ! (j mod N) = Some ((xs @ [x]) ! j)" if "j < Suc ?n" "Suc ?n \<le> j + N" for j
  proof (cases "j = ?n")
    case True
    thus ?thesis using snoc N_pos by (simp add: ring_put_def)
  next
    case False
    hence "j < ?n" using that by simp
    moreover have "j mod N \<noteq> ?n mod N" using recent_slot_neq [of j ?n N] that \<open>j < ?n\<close> by simp
    ultimately show ?thesis using snoc that by (simp add: ring_put_def nth_append)
  qed
  thus ?case unfolding ring_of_snoc using snoc by (simp add: ring_put_def mod_Suc_eq)
qed

lemma ring_count [simp]: "rg_count (ring_of N xs) = min (length xs) N"
  using ring_slots [of xs] by blast

lemma ring_nth_of:
  assumes "i < min (length xs) N"
  shows "ring_nth N (ring_of N xs) i = Some (last_n N xs ! i)"
proof -
  let ?n = "length xs" and ?c = "min (length xs) N"
  note s = ring_slots [of xs]
  have "(rg_head (ring_of N xs) + N - ?c + i) mod N = (?n - ?c + i) mod N"
  proof (cases "?n < N")
    case True
    thus ?thesis using s by simp
  next
    case False
    hence "?n - ?c + i + N = ?n + i" by simp
    hence "(?n - ?c + i) mod N = (?n + i) mod N" by (metis mod_add_self2)
    thus ?thesis using s False by (simp add: mod_simps)
  qed
  moreover have "?n - ?c + i < ?n" "?n \<le> (?n - ?c + i) + N" using assms by auto
  hence "rg_slots (ring_of N xs) ! ((?n - ?c + i) mod N) = Some (xs ! (?n - ?c + i))" using s by blast
  moreover have "?n - ?c = ?n - N" by simp
  ultimately show ?thesis using assms by (simp add: ring_nth_def last_n_def add.commute)
qed

lemma ring_map_of: "map (\<lambda>i. f (ring_nth N (ring_of N xs) i)) [0 ..< rg_count (ring_of N xs)] = map (\<lambda>x. f (Some x)) (last_n N xs)"
  by (rule nth_equalityI) (simp_all add: ring_nth_of)

end

end
