(* ===== verification/Routing.thy ===== *)
theory Routing
  imports Dns Config Chain Ring
begin

text \<open>
  The routing decision of \<^verbatim>\<open>main.c\<close>: \<^verbatim>\<open>proxy_connect_for_tproxy\<close>, the callback that decides for
  every redirected connection whether it goes through a proxy, through a chain, directly or
  nowhere; \<^verbatim>\<open>on_process_event\<close>, which puts processes under routing; and the ring of log events
  with its reader \<^verbatim>\<open>log.recent\<close>.
\<close>

section \<open>The log ring\<close>

definition PF_LOG_RING_SIZE :: nat where "PF_LOG_RING_SIZE = 2000"

record log_event =
  ev_ts :: int
  ev_app :: string
  ev_rule :: string
  ev_proxy :: string
  ev_proxy_id :: u32
  ev_domain :: string
  ev_dst_ip :: string
  ev_dst_port :: int
  ev_action :: string
  ev_success :: int

record log_ring =
  lg_ring :: "(u64 \<times> log_event) ring"
  lg_seq :: u64

definition g_log_ring :: log_ring where
  "g_log_ring = \<lparr> lg_ring = ring_empty PF_LOG_RING_SIZE, lg_seq = 0 \<rparr>"

definition log_store :: "log_event \<Rightarrow> log_ring \<Rightarrow> log_ring" where
  "log_store ev g = g \<lparr> lg_seq := lg_seq g + 1, lg_ring := ring_put PF_LOG_RING_SIZE (lg_seq g + 1, ev) (lg_ring g) \<rparr>"

definition log_recent :: "log_ring \<Rightarrow> int \<Rightarrow> (u64 \<times> log_event) list" where
  "log_recent g since_seq = concat (map (\<lambda>i.
     case ring_nth PF_LOG_RING_SIZE (lg_ring g) i of
       None \<Rightarrow> []
     | Some (sq, ev) \<Rightarrow> if int (unat sq) > since_seq then [(sq, ev)] else []) [0 ..< rg_count (lg_ring g)])"

section \<open>Choosing a rule\<close>

text \<open>The optional criteria of a rule, the application aside.\<close>

definition criteria_ok :: "fnm_env \<Rightarrow> string option \<Rightarrow> string \<Rightarrow> int \<Rightarrow> pf_rule \<Rightarrow> bool" where
  "criteria_ok E match_domain dst_ip dst_port r \<longleftrightarrow>
     (r_domain r = [] \<or> match_domain \<noteq> None \<and> pf_match_domain E (Some (r_domain r)) match_domain)
   \<and> (r_ip_cidr r = [] \<or> pf_match_ip (Some (r_ip_cidr r)) (Some dst_ip))
   \<and> (r_dst_port r = 0 \<or> dst_port = int (unat (r_dst_port r)))"

definition has_specifics :: "pf_rule \<Rightarrow> bool" where
  "has_specifics r \<longleftrightarrow> r_domain r \<noteq> [] \<or> r_ip_cidr r \<noteq> [] \<or> r_dst_port r \<noteq> 0"

definition app_proxy_rule :: "pf_rule \<Rightarrow> bool" where
  "app_proxy_rule r \<longleftrightarrow> \<not> (r_enabled r = 0 \<or> r_action r \<noteq> PF_ACTION_PROXY \<or> r_app_path r = [] \<or> r_proxy_id r = 0)"

fun scan_app_rules ::
  "fnm_env \<Rightarrow> string option \<Rightarrow> string \<Rightarrow> int \<Rightarrow> pf_rule list \<Rightarrow> pf_rule option \<Rightarrow> pf_rule option \<Rightarrow> pf_rule option \<times> pf_rule option" where
  "scan_app_rules E d ip port [] best_specific best_catchall = (best_specific, best_catchall)"
| "scan_app_rules E d ip port (r # rs) best_specific best_catchall =
     (if \<not> app_proxy_rule r then scan_app_rules E d ip port rs best_specific best_catchall
      else if \<not> criteria_ok E d ip port r then scan_app_rules E d ip port rs best_specific best_catchall
      else if has_specifics r
        then scan_app_rules E d ip port rs (if best_specific = None then Some r else best_specific) best_catchall
      else scan_app_rules E d ip port rs best_specific (if best_catchall = None then Some r else best_catchall))"

definition choose_rule :: "fnm_env \<Rightarrow> pf_rule list \<Rightarrow> string option \<Rightarrow> string \<Rightarrow> int \<Rightarrow> pf_rule option" where
  "choose_rule E rs match_domain dst_ip dst_port =
     (let rule = pf_rules_match E rs None match_domain (Some dst_ip) dst_port in
      case rule of
        Some r \<Rightarrow> if r_action r = PF_ACTION_DIRECT
          then (case scan_app_rules E match_domain dst_ip dst_port rs None None of (s, c) \<Rightarrow> if s \<noteq> None then s else c) else Some r
      | None \<Rightarrow> (case scan_app_rules E match_domain dst_ip dst_port rs None None of (s, c) \<Rightarrow> if s \<noteq> None then s else c))"

section \<open>The callback\<close>

datatype route = R_DIRECT | R_BLOCK | R_FD

definition match_domain_of :: "int \<Rightarrow> pf_dns \<Rightarrow> string \<Rightarrow> string \<Rightarrow> string option" where
  "match_domain_of now dns dst_ip domain =
     (if domain \<noteq> [] then Some domain
      else if dst_ip \<noteq> [] then (case pf_dns_lookup now dns (Some dst_ip) of
          Some e \<Rightarrow> if de_domain e \<noteq> [] then Some (de_domain e) else None
        | None \<Rightarrow> None)
      else None)"

definition connect_single :: "(bytes \<Rightarrow> string) \<Rightarrow> network \<Rightarrow> pf_proxy \<Rightarrow> string \<Rightarrow> int \<Rightarrow> connect_result" where
  "connect_single evp net p target dst_port = (case px_type p of
     PF_PROXY_SOCKS5 \<Rightarrow> pf_socks5_connect net (Some (px_host p)) (int (unat (px_port p))) (Some target) dst_port
        (Some (px_username p)) (Some (px_password p))
   | PF_PROXY_SOCKS4 \<Rightarrow> pf_socks4_connect net (Some (px_host p)) (int (unat (px_port p))) (Some target) dst_port (Some (px_username p))
   | PF_PROXY_HTTP \<Rightarrow> pf_http_connect evp net (Some (px_host p)) (int (unat (px_port p))) (Some target) dst_port
        (Some (px_username p)) (Some (px_password p))
   | PF_PROXY_SSH \<Rightarrow> (False, []))"

definition route_event :: "int \<Rightarrow> pf_rule \<Rightarrow> string \<Rightarrow> string option \<Rightarrow> string \<Rightarrow> int \<Rightarrow> bool \<Rightarrow> log_event" where
  "route_event now r via_name match_domain dst_ip dst_port ok = \<lparr> ev_ts = now,
     ev_app = (if r_app_path r \<noteq> [] then r_app_path r else r_name r), ev_rule = r_name r, ev_proxy = via_name,
     ev_proxy_id = r_proxy_id r, ev_domain = (case match_domain of None \<Rightarrow> [] | Some d \<Rightarrow> d), ev_dst_ip = dst_ip,
     ev_dst_port = dst_port, ev_action = pf_action_str (r_action r), ev_success = (if ok then 1 else 0) \<rparr>"

definition direct_event :: "int \<Rightarrow> pf_rule list \<Rightarrow> pf_rule option \<Rightarrow> string option \<Rightarrow> string \<Rightarrow> int \<Rightarrow> log_event" where
  "direct_event now rs rule match_domain dst_ip dst_port = \<lparr> ev_ts = now,
     ev_app = (case rule of Some r \<Rightarrow> r_app_path r
       | None \<Rightarrow> (case find (\<lambda>r. r_enabled r \<noteq> 0 \<and> r_app_path r \<noteq> []) rs of Some r \<Rightarrow> r_app_path r | None \<Rightarrow> [])),
     ev_rule = (case rule of Some r \<Rightarrow> r_name r | None \<Rightarrow> []), ev_proxy = ''direct'', ev_proxy_id = 0,
     ev_domain = (case match_domain of None \<Rightarrow> [] | Some d \<Rightarrow> d), ev_dst_ip = dst_ip,
     ev_dst_port = dst_port, ev_action = ''DIRECT'', ev_success = 1 \<rparr>"

text \<open>
  The answer of the callback, the descriptors it created, and the log ring.  \<open>ok i\<close> are the faults
  of the i-th database call.
\<close>

definition proxy_connect_for_tproxy ::
  "fnm_env \<Rightarrow> (bytes \<Rightarrow> string) \<Rightarrow> network \<Rightarrow> (nat \<Rightarrow> faults) \<Rightarrow> pf_db \<Rightarrow> int \<Rightarrow> pf_dns \<Rightarrow> pf_rule list
    \<Rightarrow> string \<Rightarrow> int \<Rightarrow> string \<Rightarrow> log_ring \<Rightarrow> route \<times> sock list \<times> log_ring" where
  "proxy_connect_for_tproxy E evp net ok db now dns rs dst_ip dst_port domain g =
     (let match_domain = match_domain_of now dns dst_ip domain;
          rule = choose_rule E rs match_domain dst_ip dst_port;
          target = (case match_domain of Some d \<Rightarrow> d | None \<Rightarrow> dst_ip)
      in case rule of
        None \<Rightarrow> (R_DIRECT, [], log_store (direct_event now rs None match_domain dst_ip dst_port) g)
      | Some r \<Rightarrow>
          if r_action r = PF_ACTION_DIRECT
          then (R_DIRECT, [], log_store (direct_event now rs (Some r) match_domain dst_ip dst_port) g)
          else if r_action r = PF_ACTION_BLOCK \<or> r_action r = PF_ACTION_REJECT then (R_BLOCK, [], g)
          else if r_action r = PF_ACTION_PROXY \<and> r_proxy_id r \<noteq> 0 then
            (case pf_config_proxy_get (ok 0) db (sint (r_proxy_id r)) of
               Inl _ \<Rightarrow> (R_DIRECT, [], g)
             | Inr p \<Rightarrow>
                 if px_enabled p = 0 then (R_DIRECT, [], g)
                 else let c = connect_single evp net p target dst_port in
                   (if fst c then R_FD else R_DIRECT, snd c,
                    log_store (route_event now r (px_name p) match_domain dst_ip dst_port (fst c)) g))
          else if r_action r = PF_ACTION_CHAIN \<and> r_chain_id r \<noteq> 0 then
            (case pf_config_chain_get (ok 0) db (sint (r_chain_id r)) of
               Inl _ \<Rightarrow> (R_DIRECT, [], g)
             | Inr ch \<Rightarrow>
                 if ch_enabled ch = 0 then (R_DIRECT, [], g)
                 else let ps = (case pf_config_proxy_list (ok 1) db PF_MAX_PROXIES of Inl _ \<Rightarrow> [] | Inr ps \<Rightarrow> ps);
                          c = pf_chain_connect net ch ps (Some target) dst_port in
                   (if fst c then R_FD else R_DIRECT, snd c,
                    log_store (route_event now r (ch_name ch) match_domain dst_ip dst_port (fst c)) g))
          else (R_DIRECT, [], g))"

section \<open>Processes\<close>

text \<open>\<^verbatim>\<open>on_process_event\<close>: the cgroup operation that follows an exec or an exit.\<close>

datatype cgroup_op = Assign_pid int int | Remove_pid int | No_op

definition on_process_event :: "fnm_env \<Rightarrow> pf_rule list \<Rightarrow> int \<Rightarrow> string \<Rightarrow> bool \<Rightarrow> cgroup_op" where
  "on_process_event E rs pid exe_path is_exec =
     (if is_exec then
        (let rule0 = pf_rules_match_app_any E rs (Some exe_path);
             retry = (case rule0 of None \<Rightarrow> True | Some r \<Rightarrow> r_action r = PF_ACTION_DIRECT);
             base = (case strrchr exe_path (CHR ''/'') of None \<Rightarrow> exe_path | Some i \<Rightarrow> drop (i + 1) exe_path);
             rule = (if retry then pf_rules_match_app_any E rs (Some base) else rule0)
         in case rule of None \<Rightarrow> No_op
            | Some r \<Rightarrow> if r_action r \<noteq> PF_ACTION_DIRECT \<and> r_app_path r \<noteq> [] then Assign_pid (sint (r_id r)) pid else No_op)
      else Remove_pid pid)"

section \<open>Characterisation of the choice\<close>

lemma scan_app_rules_find:
  "scan_app_rules E d ip port rs s c =
    (if s = None then find (\<lambda>r. app_proxy_rule r \<and> criteria_ok E d ip port r \<and> has_specifics r) rs else s,
     if c = None then find (\<lambda>r. app_proxy_rule r \<and> criteria_ok E d ip port r \<and> \<not> has_specifics r) rs else c)"
  by (induction rs arbitrary: s c) auto

definition app_match :: "fnm_env \<Rightarrow> pf_rule list \<Rightarrow> string option \<Rightarrow> string \<Rightarrow> int \<Rightarrow> pf_rule option" where
  "app_match E rs d ip port = (case find (\<lambda>r. app_proxy_rule r \<and> criteria_ok E d ip port r \<and> has_specifics r) rs of
     Some r \<Rightarrow> Some r | None \<Rightarrow> find (\<lambda>r. app_proxy_rule r \<and> criteria_ok E d ip port r \<and> \<not> has_specifics r) rs)"

lemma choose_rule_cases:
  "choose_rule E rs d ip port = (case pf_rules_match E rs None d (Some ip) port of
     Some r \<Rightarrow> if r_action r = PF_ACTION_DIRECT then app_match E rs d ip port else Some r
   | None \<Rightarrow> app_match E rs d ip port)"
  by (simp add: choose_rule_def scan_app_rules_find app_match_def Let_def split: option.split)

lemma app_match_Some: "app_match E rs d ip port = Some r \<Longrightarrow> r \<in> set rs \<and> app_proxy_rule r \<and> criteria_ok E d ip port r"
  by (auto simp: app_match_def find_Some_iff split: option.splits)

lemma matched_rule_no_app:
  assumes "pf_rules_match E rs None d i p = Some r"
  shows "r \<in> set rs \<and> r_enabled r \<noteq> 0 \<and> r_app_path r = []"
  using assms find_is_member unfolding pf_rules_match_find by (fastforce simp: rule_applies_def)

section \<open>The ring holds the last events\<close>

interpretation log_buffer: ring_buffer PF_LOG_RING_SIZE
  by unfold_locales (simp add: PF_LOG_RING_SIZE_def)

definition log_run :: "log_event list \<Rightarrow> log_ring" where
  "log_run evs = foldl (\<lambda>g ev. log_store ev g) g_log_ring evs"

definition numbered :: "log_event list \<Rightarrow> (u64 \<times> log_event) list" where
  "numbered evs = map (\<lambda>j. (of_nat (Suc j), evs ! j)) [0 ..< length evs]"

lemma numbered_snoc: "numbered (evs @ [e]) = numbered evs @ [(of_nat (Suc (length evs)), e)]"
  by (simp add: numbered_def nth_append)

lemma log_run_ring: "lg_ring (log_run evs) = ring_of PF_LOG_RING_SIZE (numbered evs) \<and> lg_seq (log_run evs) = of_nat (length evs)"
proof (induction evs rule: rev_induct)
  case Nil
  show ?case by (simp add: log_run_def g_log_ring_def ring_of_def numbered_def)
next
  case (snoc e evs)
  have "log_run (evs @ [e]) = log_store e (log_run evs)" by (simp add: log_run_def)
  thus ?case using snoc by (simp add: log_store_def numbered_snoc ring_of_snoc add.commute)
qed

lemma concat_map_filter: "concat (map (\<lambda>x. if P x then [x] else []) xs) = filter P xs"
  by (induction xs) auto

section \<open>Properties\<close>

text \<open>
  Polling the log returns exactly the events newer than the given number among the last 2000,
  oldest first and numbered consecutively from 1.
\<close>

theorem log_recent_last_events:
  "log_recent (log_run evs) since = filter (\<lambda>(sq, ev). int (unat sq) > since)
     (drop (length evs - 2000) (map (\<lambda>j. (of_nat (Suc j), evs ! j)) [0 ..< length evs]))"
proof -
  let ?f = "\<lambda>x. case x of None \<Rightarrow> [] | Some (sq, ev) \<Rightarrow> if int (unat sq) > since then [(sq, ev)] else []"
  let ?P = "\<lambda>x. case x of (sq, ev) \<Rightarrow> int (unat sq) > since"
  have "log_recent (log_run evs) since = concat (map (\<lambda>x. ?f (Some x)) (last_n PF_LOG_RING_SIZE (numbered evs)))"
    unfolding log_recent_def using log_run_ring log_buffer.ring_map_of [of ?f "numbered evs"] by (simp only:)
  also have "(\<lambda>x. ?f (Some x)) = (\<lambda>x. if ?P x then [x] else [])" by (auto simp: fun_eq_iff)
  finally show ?thesis by (simp add: concat_map_filter last_n_def numbered_def PF_LOG_RING_SIZE_def)
qed

text \<open>
  C6: a redirected connection is dropped exactly when the first rule without an application pattern
  that applies to it says BLOCK or REJECT; rules of the other kinds never drop a connection.
\<close>

theorem route_block_iff:
  "fst (proxy_connect_for_tproxy E evp net ok db now dns rs dst_ip dst_port domain g) = R_BLOCK \<longleftrightarrow>
     (\<exists>r. pf_rules_match E rs None (match_domain_of now dns dst_ip domain) (Some dst_ip) dst_port = Some r
        \<and> r_action r \<in> {PF_ACTION_BLOCK, PF_ACTION_REJECT})"
proof -
  let ?d = "match_domain_of now dns dst_ip domain"
  have "fst (proxy_connect_for_tproxy E evp net ok db now dns rs dst_ip dst_port domain g) = R_BLOCK \<longleftrightarrow>
    (\<exists>r. choose_rule E rs ?d dst_ip dst_port = Some r \<and> r_action r \<in> {PF_ACTION_BLOCK, PF_ACTION_REJECT})"
    by (auto simp: proxy_connect_for_tproxy_def Let_def split: option.splits sum.splits if_splits)
  also have "... \<longleftrightarrow> (\<exists>r. pf_rules_match E rs None ?d (Some dst_ip) dst_port = Some r \<and> r_action r \<in> {PF_ACTION_BLOCK, PF_ACTION_REJECT})"
  proof -
    have "app_match E rs ?d dst_ip dst_port = Some r \<Longrightarrow> r_action r = PF_ACTION_PROXY" for r
      using app_match_Some [of E rs ?d dst_ip dst_port r] by (auto simp: app_proxy_rule_def)
    thus ?thesis by (auto simp: choose_rule_cases split: option.splits if_splits)
  qed
  finally show ?thesis .
qed

text \<open>What it takes to be routed: the rule, and the connection it opens.\<close>

definition tunnel_by ::
  "(bytes \<Rightarrow> string) \<Rightarrow> network \<Rightarrow> (nat \<Rightarrow> faults) \<Rightarrow> pf_db \<Rightarrow> pf_rule \<Rightarrow> string \<Rightarrow> int \<Rightarrow> sock list \<Rightarrow> bool" where
  "tunnel_by evp net ok db r target port fds \<longleftrightarrow>
     (\<exists>p. r_action r = PF_ACTION_PROXY \<and> pf_config_proxy_get (ok 0) db (sint (r_proxy_id r)) = Inr p \<and> px_enabled p \<noteq> 0
        \<and> connect_single evp net p target port = (True, fds))
   \<or> (\<exists>ch. r_action r = PF_ACTION_CHAIN \<and> pf_config_chain_get (ok 0) db (sint (r_chain_id r)) = Inr ch \<and> ch_enabled ch \<noteq> 0
        \<and> pf_chain_connect net ch (case pf_config_proxy_list (ok 1) db PF_MAX_PROXIES of Inl _ \<Rightarrow> [] | Inr ps \<Rightarrow> ps)
            (Some target) port = (True, fds))"

lemma route_fd_tunnel:
  assumes "fst (proxy_connect_for_tproxy E evp net ok db now dns rs dst_ip dst_port domain g) = R_FD"
    and "match_domain_of now dns dst_ip domain = md"
  obtains r where "choose_rule E rs md dst_ip dst_port = Some r"
    and "tunnel_by evp net ok db r (case md of Some d \<Rightarrow> d | None \<Rightarrow> dst_ip) dst_port
      (fst (snd (proxy_connect_for_tproxy E evp net ok db now dns rs dst_ip dst_port domain g)))"
proof (cases "choose_rule E rs md dst_ip dst_port")
  case None
  thus ?thesis using assms by (simp add: proxy_connect_for_tproxy_def)
next
  case (Some r)
  let ?P = "pf_config_proxy_get (ok 0) db (sint (r_proxy_id r))" and ?C = "pf_config_chain_get (ok 0) db (sint (r_chain_id r))"
  have "tunnel_by evp net ok db r (case md of Some d \<Rightarrow> d | None \<Rightarrow> dst_ip) dst_port
      (fst (snd (proxy_connect_for_tproxy E evp net ok db now dns rs dst_ip dst_port domain g)))"
  proof (cases "r_action r")
    case PF_ACTION_PROXY
    thus ?thesis using assms Some by (cases ?P) (auto simp: proxy_connect_for_tproxy_def tunnel_by_def Let_def prod_eq_iff split: if_splits)
  next
    case PF_ACTION_CHAIN
    thus ?thesis using assms Some by (cases ?C) (auto simp: proxy_connect_for_tproxy_def tunnel_by_def Let_def prod_eq_iff split: if_splits)
  qed (use assms Some in \<open>simp_all add: proxy_connect_for_tproxy_def\<close>)
  with Some show ?thesis by (rule that)
qed

lemma choose_rule_sound:
  assumes "choose_rule E rs md dst_ip dst_port = Some r"
  shows "r \<in> set rs \<and> r_enabled r \<noteq> 0 \<and> criteria_ok E md dst_ip dst_port r"
    and "r_app_path r \<noteq> [] \<and> \<not> has_specifics r \<Longrightarrow> r' \<in> set rs \<Longrightarrow> app_proxy_rule r' \<Longrightarrow> criteria_ok E md dst_ip dst_port r'
      \<Longrightarrow> \<not> has_specifics r'"
proof -
  consider (rule) "pf_rules_match E rs None md (Some dst_ip) dst_port = Some r" | (app) "app_match E rs md dst_ip dst_port = Some r"
    using assms by (auto simp: choose_rule_cases split: option.splits if_splits)
  note c = this
  show "r \<in> set rs \<and> r_enabled r \<noteq> 0 \<and> criteria_ok E md dst_ip dst_port r"
  proof (cases rule: c)
    case rule
    hence m: "r \<in> set rs" "rule_applies E None md (Some dst_ip) dst_port r" unfolding pf_rules_match_find by (auto simp: find_Some_iff)
    hence "criteria_ok E md dst_ip dst_port r" by (cases md) (auto simp: rule_applies_def criteria_ok_def)
    thus ?thesis using m matched_rule_no_app [OF rule] by simp
  next
    case app
    thus ?thesis using app_match_Some [OF app] by (auto simp: app_proxy_rule_def)
  qed
  show "\<not> has_specifics r'" if t: "r_app_path r \<noteq> [] \<and> \<not> has_specifics r" "r' \<in> set rs" "app_proxy_rule r'" "criteria_ok E md dst_ip dst_port r'"
  proof (cases rule: c)
    case rule
    thus ?thesis using t(1) matched_rule_no_app [OF rule] by simp
  next
    case app
    thus ?thesis using t by (auto simp: app_match_def find_Some_iff find_None_iff split: option.splits)
  qed
qed

text \<open>
  C3: a connection leaves through a descriptor that the callback opened only if the chosen rule is
  enabled, its domain, address and port criteria hold and it names a proxy or a chain that is stored
  and enabled; then the descriptor is the tunnel through exactly that proxy or chain to the domain
  (or, without one, the address) and port of the connection.  A rule for applications that is not
  restricted to a domain, an address or a port is used only if no restricted one applies.
\<close>

theorem route_fd_through_rule:
  assumes "proxy_connect_for_tproxy E evp net ok db now dns rs dst_ip dst_port domain g = (R_FD, fds, g')"
    and "match_domain_of now dns dst_ip domain = md" "target = (case md of Some d \<Rightarrow> d | None \<Rightarrow> dst_ip)"
  shows "\<exists>r \<in> set rs. r_enabled r \<noteq> 0 \<and> criteria_ok E md dst_ip dst_port r \<and> tunnel_by evp net ok db r target dst_port fds
    \<and> (r_app_path r \<noteq> [] \<and> \<not> has_specifics r
        \<longrightarrow> \<not> (\<exists>r' \<in> set rs. app_proxy_rule r' \<and> criteria_ok E md dst_ip dst_port r' \<and> has_specifics r'))"
proof -
  obtain r where r: "choose_rule E rs md dst_ip dst_port = Some r" "tunnel_by evp net ok db r target dst_port fds"
    using route_fd_tunnel [of E evp net ok db now dns rs dst_ip dst_port domain g md] assms by auto
  show ?thesis using choose_rule_sound [OF r(1)] r(2) by blast
qed

definition demo_route_rules :: "pf_rule list" where
  "demo_route_rules = [demo_rule 1 10 ''firefox'' [] [] PF_ACTION_PROXY, demo_rule 2 20 ''firefox'' ''*.sky.ch'' [] PF_ACTION_PROXY]"

definition demo_route :: "network \<Rightarrow> route \<times> sock list \<times> log_ring" where
  "demo_route net = proxy_connect_for_tproxy demo_fnm (\<lambda>_. []) net (\<lambda>_ _. True) demo_db 7 \<lparr> dns_cache = [], dns_ruleset = [] \<rparr>
     demo_route_rules ''10.1.2.3'' 443 ''live.sky.ch'' g_log_ring"

definition demo_route_net :: network where
  "demo_route_net h p = Some [Connected \<lparr> sk_rx = [[5, 0], [5, 0], [0, 1, 9, 9], [9, 9, 1, 2]], sk_tx = [], sk_snd = replicate 40 3, sk_open = True \<rparr>]"

theorem route_fd_through_rule_witness:
  "\<exists>r \<in> set demo_route_rules. r_id r = 2 \<and> tunnel_by (\<lambda>_. []) demo_route_net (\<lambda>_ _. True) demo_db r ''live.sky.ch'' 443 (fst (snd (demo_route demo_route_net)))"
proof -
  have fd: "fst (demo_route demo_route_net) = R_FD" by code_simp
  have md: "match_domain_of 7 \<lparr> dns_cache = [], dns_ruleset = [] \<rparr> ''10.1.2.3'' ''live.sky.ch'' = Some ''live.sky.ch''"
    by (simp add: match_domain_of_def)
  have two: "r_id r = 2 \<or> r_app_path r \<noteq> [] \<and> \<not> has_specifics r" if "r \<in> set demo_route_rules" for r
    using that by (auto simp: demo_route_rules_def demo_rule_def has_specifics_def)
  have sp: "\<exists>r' \<in> set demo_route_rules. app_proxy_rule r' \<and> criteria_ok demo_fnm (Some ''live.sky.ch'') ''10.1.2.3'' 443 r' \<and> has_specifics r'"
    by code_simp
  have "demo_route demo_route_net = (R_FD, fst (snd (demo_route demo_route_net)), snd (snd (demo_route demo_route_net)))"
    using fd by (simp add: prod_eq_iff)
  note route_fd_through_rule [OF this [unfolded demo_route_def] md refl]
  with two sp show ?thesis unfolding demo_route_def by fastforce
qed

text \<open>
  C32: routing fails open.  When the chosen rule says PROXY and the proxy is missing, disabled or does
  not connect, the answer is DIRECT, so that the caller connects to the destination itself.
\<close>

theorem route_fails_open:
  assumes "choose_rule E rs (match_domain_of now dns dst_ip domain) dst_ip dst_port = Some r"
    and "r_action r = PF_ACTION_PROXY"
    and "\<forall>p. pf_config_proxy_get (ok 0) db (sint (r_proxy_id r)) = Inr p \<and> px_enabled p \<noteq> 0
      \<longrightarrow> \<not> fst (connect_single evp net p (case match_domain_of now dns dst_ip domain of Some d \<Rightarrow> d | None \<Rightarrow> dst_ip) dst_port)"
  shows "fst (proxy_connect_for_tproxy E evp net ok db now dns rs dst_ip dst_port domain g) = R_DIRECT"
  using assms by (auto simp: proxy_connect_for_tproxy_def Let_def split: sum.split)

theorem route_fails_open_witness: "fst (demo_route (\<lambda>_ _. None)) = R_DIRECT"
proof -
  let ?d = "\<lparr> dns_cache = [], dns_ruleset = [] \<rparr>" and ?r = "demo_rule 2 20 ''firefox'' ''*.sky.ch'' [] PF_ACTION_PROXY"
  have c: "choose_rule demo_fnm demo_route_rules (match_domain_of 7 ?d ''10.1.2.3'' ''live.sky.ch'') ''10.1.2.3'' 443 = Some ?r"
    by code_simp
  have n: "\<not> fst (connect_single (\<lambda>_. []) (\<lambda>_ _. None) p t 443)" for p t
    by (cases "px_type p") (auto simp: connect_single_def pf_socks5_connect_def pf_socks4_connect_def pf_http_connect_def
      tcp_connect_def on_connection_def Let_def split: option.split)
  show ?thesis unfolding demo_route_def
    by (rule route_fails_open [OF c]) (simp_all add: demo_rule_def n)
qed

end
