(* ===== verification/Json.thy ===== *)
theory Json
  imports Types Complex_Main
begin

text \<open>
  The JSON values the daemon exchanges with its clients, as \<^verbatim>\<open>cJSON\<close> represents them, and the
  conversions of \<^verbatim>\<open>main.c\<close> between them and proxies, rules and chains.  Numbers are doubles in the
  code; every finite double is a rational, and the casts of the code from double to an integer type
  truncate towards zero where C defines them.  Where C does not (a value out of range, or
  \<^verbatim>\<open>snprintf("%s", NULL)\<close>) the result is a field of the record \<open>c_undef\<close>.
\<close>

section \<open>Values and accessors\<close>

datatype json = J_Null | J_Bool bool | J_Number rat | J_String string | J_Array "json list" | J_Object "(string \<times> json) list"

definition cJSON_GetObjectItem :: "json \<Rightarrow> string \<Rightarrow> json option" where
  "cJSON_GetObjectItem j name = (case j of
     J_Object kvs \<Rightarrow> map_option snd (find (\<lambda>(k, v). strcasecmp_eq name k) kvs)
   | _ \<Rightarrow> None)"

definition cJSON_GetObjectItemCaseSensitive :: "json \<Rightarrow> string \<Rightarrow> json option" where
  "cJSON_GetObjectItemCaseSensitive j name = (case j of
     J_Object kvs \<Rightarrow> map_option snd (find (\<lambda>(k, v). name = k) kvs)
   | _ \<Rightarrow> None)"

definition valuedouble :: "json \<Rightarrow> rat" where
  "valuedouble j = (case j of J_Number q \<Rightarrow> q | _ \<Rightarrow> 0)"

definition valuestring :: "json \<Rightarrow> string option" where
  "valuestring j = (case j of J_String s \<Rightarrow> Some s | _ \<Rightarrow> None)"

definition cJSON_IsTrue :: "json \<Rightarrow> bool" where
  "cJSON_IsTrue j \<longleftrightarrow> j = J_Bool True"

section \<open>Casts\<close>

record c_undef =
  ub_u32 :: "rat \<Rightarrow> u32"
  ub_u16 :: "rat \<Rightarrow> u16"
  ub_int :: "rat \<Rightarrow> int"
  ub_null_string :: string

definition trunc0 :: "rat \<Rightarrow> int" where
  "trunc0 q = (if 0 \<le> q then \<lfloor>q\<rfloor> else \<lceil>q\<rceil>)"

definition cast_u32 :: "c_undef \<Rightarrow> rat \<Rightarrow> u32" where
  "cast_u32 U q = (if 0 \<le> trunc0 q \<and> trunc0 q < 2 ^ 32 then of_int (trunc0 q) else ub_u32 U q)"

definition cast_u16 :: "c_undef \<Rightarrow> rat \<Rightarrow> u16" where
  "cast_u16 U q = (if 0 \<le> trunc0 q \<and> trunc0 q < 2 ^ 16 then of_int (trunc0 q) else ub_u16 U q)"

definition cast_int :: "c_undef \<Rightarrow> rat \<Rightarrow> int" where
  "cast_int U q = (if - (2 ^ 31) \<le> trunc0 q \<and> trunc0 q < 2 ^ 31 then trunc0 q else ub_int U q)"

text \<open>\<^verbatim>\<open>snprintf(dst, cap, "%s", v->valuestring)\<close>.\<close>

definition copy_str :: "c_undef \<Rightarrow> nat \<Rightarrow> json \<Rightarrow> string" where
  "copy_str U cap v = snprintf_s cap (case valuestring v of Some s \<Rightarrow> s | None \<Rightarrow> ub_null_string U)"

text \<open>\<^verbatim>\<open>v->valuedouble > 0 ? (uint32_t)v->valuedouble : 0\<close>.\<close>

definition cast_ref :: "c_undef \<Rightarrow> json \<Rightarrow> u32" where
  "cast_ref U v = (if 0 < valuedouble v then cast_u32 U (valuedouble v) else 0)"

section \<open>Serialisation\<close>

definition j_int :: "int \<Rightarrow> json" where "j_int i = J_Number (of_int i)"

definition proxy_to_json :: "pf_proxy \<Rightarrow> json" where
  "proxy_to_json p = J_Object [
     (''id'', j_int (uint (px_id p))), (''name'', J_String (px_name p)), (''type'', J_String (pf_proxy_type_str (px_type p))),
     (''host'', J_String (px_host p)), (''port'', j_int (uint (px_port p))), (''username'', J_String (px_username p)),
     (''password'', J_String (px_password p)), (''health'', J_String (pf_health_str (px_health p))),
     (''latency_ms'', j_int (uint (px_latency_ms p))), (''enabled'', J_Bool (px_enabled p \<noteq> 0))]"

definition rule_to_json :: "pf_rule \<Rightarrow> json" where
  "rule_to_json r = J_Object [
     (''id'', j_int (uint (r_id r))), (''name'', J_String (r_name r)), (''priority'', j_int (r_priority r)),
     (''match_app'', J_String (r_app_path r)), (''match_domain'', J_String (r_domain r)), (''match_ip'', J_String (r_ip_cidr r)),
     (''match_port'', J_String (if r_dst_port r > 0 then snprintf_s 8 (show_nat (unat (r_dst_port r))) else [])),
     (''action'', J_String (pf_action_str (r_action r))), (''proxy_id'', j_int (uint (r_proxy_id r))),
     (''chain_id'', j_int (uint (r_chain_id r))), (''enabled'', J_Bool (r_enabled r \<noteq> 0))]"

definition chain_to_json :: "pf_chain \<Rightarrow> json" where
  "chain_to_json c = J_Object [
     (''id'', j_int (uint (ch_id c))), (''name'', J_String (ch_name c)), (''enabled'', J_Bool (ch_enabled c \<noteq> 0)),
     (''hop_proxy_ids'', J_Array (map (\<lambda>h. j_int (uint h)) (ch_hops c)))]"

section \<open>Deserialisation\<close>

text \<open>\<^verbatim>\<open>if ((v = cJSON_GetObjectItem(params, name))) field = f(v);\<close> the field keeps its value otherwise.\<close>

definition on_item :: "json \<Rightarrow> string \<Rightarrow> (json \<Rightarrow> 'a \<Rightarrow> 'a) \<Rightarrow> 'a \<Rightarrow> 'a" where
  "on_item params name f x = (case cJSON_GetObjectItem params name of Some v \<Rightarrow> f v x | None \<Rightarrow> x)"

definition on_item2 :: "json \<Rightarrow> string \<Rightarrow> string \<Rightarrow> (json \<Rightarrow> 'a \<Rightarrow> 'a) \<Rightarrow> 'a \<Rightarrow> 'a" where
  "on_item2 params n1 n2 f x = (case cJSON_GetObjectItem params n1 of Some v \<Rightarrow> f v x
     | None \<Rightarrow> on_item params n2 f x)"

definition proxy_zero :: pf_proxy where
  "proxy_zero = \<lparr> px_id = 0, px_name = [], px_type = PF_PROXY_SOCKS4, px_host = [], px_port = 0, px_username = [],
     px_password = [], px_ssh_key_path = [], px_health = PF_HEALTH_UNKNOWN, px_latency_ms = 0, px_last_check = 0,
     px_bytes_sent = 0, px_bytes_recv = 0, px_enabled = 0 \<rparr>"

definition rule_zero :: pf_rule where
  "rule_zero = \<lparr> r_id = 0, r_name = [], r_priority = 0, r_app_path = [], r_uid = 0, r_gid = 0, r_domain = [], r_ip_cidr = [],
     r_dst_port = 0, r_proto = 0, r_action = PF_ACTION_DIRECT, r_proxy_id = 0, r_chain_id = 0, r_enabled = 0 \<rparr>"

definition proxy_from_json :: "c_undef \<Rightarrow> json \<Rightarrow> pf_proxy" where
  "proxy_from_json U params = (let p = proxy_zero;
     p = on_item params ''id'' (\<lambda>v p. p \<lparr> px_id := cast_u32 U (valuedouble v) \<rparr>) p;
     p = on_item params ''name'' (\<lambda>v p. p \<lparr> px_name := copy_str U 64 v \<rparr>) p;
     p = on_item params ''type'' (\<lambda>v p. p \<lparr> px_type := pf_proxy_type_from_str (valuestring v) \<rparr>) p;
     p = on_item params ''host'' (\<lambda>v p. p \<lparr> px_host := copy_str U (PF_DOMAIN_MAX + 1) v \<rparr>) p;
     p = on_item params ''port'' (\<lambda>v p. p \<lparr> px_port := cast_u16 U (valuedouble v) \<rparr>) p;
     p = on_item params ''username'' (\<lambda>v p. p \<lparr> px_username := copy_str U 128 v \<rparr>) p;
     p = on_item params ''password'' (\<lambda>v p. p \<lparr> px_password := copy_str U 128 v \<rparr>) p;
     p = on_item params ''ssh_key_path'' (\<lambda>v p. p \<lparr> px_ssh_key_path := copy_str U PF_PATH_MAX v \<rparr>) p;
     p = p \<lparr> px_enabled := 1 \<rparr>
   in on_item params ''enabled'' (\<lambda>v p. p \<lparr> px_enabled := (if cJSON_IsTrue v then 1 else 0) \<rparr>) p)"

definition port_from_json :: "c_undef \<Rightarrow> json \<Rightarrow> u16 \<Rightarrow> u16" where
  "port_from_json U v old = (case v of
     J_String s \<Rightarrow> if s \<noteq> [] then of_int (atoi s) else old
   | J_Number q \<Rightarrow> cast_u16 U q
   | _ \<Rightarrow> old)"

text \<open>\<^verbatim>\<open>if (v->valuestring) snprintf(dst, cap, "%s", v->valuestring);\<close>\<close>

definition copy_if_str :: "nat \<Rightarrow> json \<Rightarrow> string \<Rightarrow> string" where
  "copy_if_str cap v old = (case valuestring v of Some s \<Rightarrow> snprintf_s cap s | None \<Rightarrow> old)"

definition rule_from_json :: "c_undef \<Rightarrow> json \<Rightarrow> pf_rule" where
  "rule_from_json U params = (let r = rule_zero;
     r = on_item params ''id'' (\<lambda>v r. r \<lparr> r_id := cast_u32 U (valuedouble v) \<rparr>) r;
     r = on_item params ''name'' (\<lambda>v r. r \<lparr> r_name := copy_str U 64 v \<rparr>) r;
     r = on_item params ''priority'' (\<lambda>v r. r \<lparr> r_priority := cast_int U (valuedouble v) \<rparr>) r;
     r = on_item2 params ''match_app'' ''app_path'' (\<lambda>v r. r \<lparr> r_app_path := copy_if_str PF_PATH_MAX v (r_app_path r) \<rparr>) r;
     r = on_item2 params ''match_domain'' ''domain'' (\<lambda>v r. r \<lparr> r_domain := copy_if_str (PF_DOMAIN_MAX + 1) v (r_domain r) \<rparr>) r;
     r = on_item2 params ''match_ip'' ''ip_cidr'' (\<lambda>v r. r \<lparr> r_ip_cidr := copy_if_str 48 v (r_ip_cidr r) \<rparr>) r;
     r = on_item2 params ''match_port'' ''dst_port'' (\<lambda>v r. r \<lparr> r_dst_port := port_from_json U v (r_dst_port r) \<rparr>) r;
     r = on_item params ''action'' (\<lambda>v r. r \<lparr> r_action := pf_action_from_str (valuestring v) \<rparr>) r;
     r = on_item params ''proxy_id'' (\<lambda>v r. r \<lparr> r_proxy_id := cast_ref U v \<rparr>) r;
     r = on_item params ''chain_id'' (\<lambda>v r. r \<lparr> r_chain_id := cast_ref U v \<rparr>) r;
     r = r \<lparr> r_enabled := 1 \<rparr>
   in on_item params ''enabled'' (\<lambda>v r. r \<lparr> r_enabled := (if cJSON_IsTrue v then 1 else 0) \<rparr>) r)"

definition chain_from_json :: "c_undef \<Rightarrow> json \<Rightarrow> pf_chain" where
  "chain_from_json U params = (let c = \<lparr> ch_id = 0, ch_name = [], ch_hops = [], ch_enabled = 0 \<rparr>;
     c = on_item params ''id'' (\<lambda>v c. c \<lparr> ch_id := cast_u32 U (valuedouble v) \<rparr>) c;
     c = on_item params ''name'' (\<lambda>v c. c \<lparr> ch_name := copy_str U 64 v \<rparr>) c;
     c = c \<lparr> ch_enabled := 1 \<rparr>;
     c = on_item params ''enabled'' (\<lambda>v c. c \<lparr> ch_enabled := (if cJSON_IsTrue v then 1 else 0) \<rparr>) c
   in on_item2 params ''hop_proxy_ids'' ''hops'' (\<lambda>v c. case v of
        J_Array hops \<Rightarrow> c \<lparr> ch_hops := map (\<lambda>h. cast_u32 U (valuedouble h)) (take PF_MAX_HOPS hops) \<rparr>
      | _ \<Rightarrow> c) c)"

section \<open>Casts of integers\<close>

lemma trunc0_of_int [simp]: "trunc0 (of_int i) = i"
  by (simp add: trunc0_def)

text \<open>\<open>unsigned w\<close> is the normal form of \<open>of_int (uint w)\<close>.\<close>

lemma trunc0_unsigned [simp]: "trunc0 (unsigned w) = uint w"
  using trunc0_of_int [of "uint w"] by simp

lemma cast_u32_unsigned [simp]: "cast_u32 U (unsigned w) = w"
  using uint_bounded [of w] by (simp add: cast_u32_def)

lemma cast_u16_unsigned [simp]: "cast_u16 U (unsigned w) = w"
  using uint_bounded [of w] by (simp add: cast_u16_def)

lemma cast_int_of_int: "- (2 ^ 31) \<le> i \<Longrightarrow> i < 2 ^ 31 \<Longrightarrow> cast_int U (of_int i) = i"
  by (simp add: cast_int_def)

lemma valuedouble_j_int [simp]: "valuedouble (j_int i) = of_int i"
  by (simp add: valuedouble_def j_int_def)

lemma cast_ref_uint [simp]: "cast_ref U (j_int (uint w)) = w"
proof (cases "w = 0")
  case False
  hence "0 < uint w" using uint_ge_0 [of w] uint_0_iff [of w] by linarith
  hence "(0 :: rat) < of_int (uint w)" by (simp only: of_int_0_less_iff)
  thus ?thesis by (simp add: cast_ref_def)
qed (simp add: cast_ref_def)

lemma copy_str_id [simp]: "length s < cap \<Longrightarrow> copy_str U cap (J_String s) = s"
  by (simp add: copy_str_def valuestring_def snprintf_s_id)

lemma copy_if_str_id [simp]: "length s < cap \<Longrightarrow> copy_if_str cap (J_String s) old = s"
  by (simp add: copy_if_str_def valuestring_def snprintf_s_id)

lemma port_from_json_show:
  "port_from_json U (J_String (if w > 0 then snprintf_s 8 (show_nat (unat w)) else [])) 0 = w"
proof -
  have "unat w < 2 ^ LENGTH(16)" by (rule unsigned_less)
  hence w: "unat w < 65536" by simp
  hence "length (show_nat (unat w)) < 8" using show_nat_port_length [of "unat w"] by simp
  moreover have "atoi (show_nat (unat w)) = int (unat w)" using atoi_show_nat [of "[]" "unat w"] w by simp
  ultimately show ?thesis by (simp add: port_from_json_def snprintf_s_id word_gt_0)
qed

section \<open>Round trip\<close>



end
