(* ===== verification/Ipc.thy ===== *)
theory Ipc
  imports Json "HOL-Library.Multiset"
begin

text \<open>
  \<^verbatim>\<open>ipc.c\<close>: the local server for JSON requests, one per line.  A client is its slot in the table
  together with what the kernel will do with it: the results of the coming reads and writes, and the
  bytes written so far.  Parsing and printing of JSON values belong to the vendored \<^verbatim>\<open>cJSON\<close> library
  and are parameters, as is the request handler the server was started with.
\<close>

section \<open>Clients and the table\<close>

datatype read_result = Rd_Data string | Rd_Again | Rd_Error | Rd_Eof
datatype write_result = Wr_Sent nat | Wr_Intr | Wr_Again | Wr_Error

record pf_ipc_client =
  ic_fd :: int
  ic_buf :: string
  ic_log :: bool
  ic_stats :: bool
  ic_rx :: "read_result list"
  ic_wr :: "write_result list"
  ic_out :: string

record pf_ipc =
  ip_listen_fd :: int
  ip_clients :: "pf_ipc_client list"
  ip_client_count :: int
  ip_closed :: "int list"

record cjson =
  cj_parse :: "string \<Rightarrow> json option"
  cj_print :: "json \<Rightarrow> string option"

type_synonym 's ipc_handler = "'s \<Rightarrow> string \<Rightarrow> json option \<Rightarrow> json option \<times> 's"

definition client_zero :: pf_ipc_client where
  "client_zero = \<lparr> ic_fd = -1, ic_buf = [], ic_log = False, ic_stats = False, ic_rx = [], ic_wr = [], ic_out = [] \<rparr>"

text \<open>\<^verbatim>\<open>pf_ipc_init\<close> once the listening socket is set up; \<open>ip_closed\<close> records the calls of \<^verbatim>\<open>close\<close> on client descriptors.\<close>

definition pf_ipc_init :: "int \<Rightarrow> pf_ipc" where
  "pf_ipc_init fd = \<lparr> ip_listen_fd = fd, ip_clients = replicate PF_MAX_CLIENTS client_zero, ip_client_count = 0, ip_closed = [] \<rparr>"

section \<open>Accepting\<close>

text \<open>What \<^verbatim>\<open>accept\<close> gives: nothing, or a descriptor, the peer's user if it is known, whether the
  descriptor could be made non-blocking, and the behaviour of the connection.\<close>

datatype accept_result = Acc_None | Acc_Conn int "u32 option" bool "read_result list" "write_result list"

fun pf_ipc_accept :: "accept_result \<Rightarrow> pf_ipc \<Rightarrow> int \<times> pf_ipc" where
  "pf_ipc_accept Acc_None ipc = (-1, ipc)"
| "pf_ipc_accept (Acc_Conn cfd uid nonblock rx wr) ipc =
     (let reject = (-1, ipc \<lparr> ip_closed := ip_closed ipc @ [cfd] \<rparr>) in
      if (case uid of Some u \<Rightarrow> u \<noteq> 0 \<and> u < 1000 | None \<Rightarrow> False) then reject
      else if ip_client_count ipc \<ge> int PF_MAX_CLIENTS then reject
      else if \<not> nonblock then reject
      else (case find_index (\<lambda>c. ic_fd c < 0) (ip_clients ipc) of
        None \<Rightarrow> reject
      | Some i \<Rightarrow> (int i, ipc \<lparr> ip_clients := (ip_clients ipc)[i := (ip_clients ipc ! i)
           \<lparr> ic_fd := cfd, ic_buf := [], ic_log := False, ic_stats := False, ic_rx := rx, ic_wr := wr, ic_out := [] \<rparr>],
           ip_client_count := ip_client_count ipc + 1 \<rparr>)))"

section \<open>Sending\<close>

fun ipc_write_loop :: "write_result list \<Rightarrow> string \<Rightarrow> nat \<Rightarrow> bool \<times> string \<times> write_result list" where
  "ipc_write_loop ws [] retries = (True, [], ws)"
| "ipc_write_loop [] (c # cs) retries = (False, [], [])"
| "ipc_write_loop (Wr_Intr # ws) (c # cs) retries = ipc_write_loop ws (c # cs) retries"
| "ipc_write_loop (Wr_Again # ws) (c # cs) retries =
     (if retries < 50 then ipc_write_loop ws (c # cs) (retries + 1) else (False, [], ws))"
| "ipc_write_loop (Wr_Error # ws) (c # cs) retries = (False, [], ws)"
| "ipc_write_loop (Wr_Sent n # ws) (c # cs) retries =
     (case ipc_write_loop ws (drop n (c # cs)) 0 of (ok, out, ws') \<Rightarrow> (ok, take n (c # cs) @ out, ws'))"

definition newline :: char where "newline = CHR 0x0A"

definition pf_ipc_send :: "cjson \<Rightarrow> pf_ipc_client \<Rightarrow> json \<Rightarrow> bool \<times> pf_ipc_client" where
  "pf_ipc_send J c msg = (case cj_print J msg of
     None \<Rightarrow> (False, c)
   | Some raw \<Rightarrow> (case ipc_write_loop (ic_wr c) (raw @ [newline]) 0 of
       (ok, out, ws) \<Rightarrow> (ok, c \<lparr> ic_wr := ws, ic_out := ic_out c @ out \<rparr>)))"

section \<open>Requests\<close>

definition client_remove :: "nat \<Rightarrow> pf_ipc \<Rightarrow> pf_ipc" where
  "client_remove idx ipc = (let c = ip_clients ipc ! idx in
     ipc \<lparr> ip_closed := ip_closed ipc @ [ic_fd c],
       ip_clients := (ip_clients ipc)[idx := c \<lparr> ic_fd := -1, ic_buf := [], ic_log := False, ic_stats := False \<rparr>],
       ip_client_count := ip_client_count ipc - 1 \<rparr>)"

definition response_id :: "json \<Rightarrow> json" where
  "response_id req = (case cJSON_GetObjectItemCaseSensitive req ''id'' of Some (J_Number q) \<Rightarrow> J_Number q | _ \<Rightarrow> J_Null)"

definition request_method :: "json \<Rightarrow> string option" where
  "request_method req = (case cJSON_GetObjectItemCaseSensitive req ''method'' of Some (J_String m) \<Rightarrow> Some m | _ \<Rightarrow> None)"

definition rpc_error :: "int \<Rightarrow> string \<Rightarrow> json" where
  "rpc_error c m = J_Object [(''code'', j_int c), (''message'', J_String m)]"

definition ipc_request :: "cjson \<Rightarrow> 's ipc_handler option \<Rightarrow> string \<Rightarrow> pf_ipc_client \<times> 's \<Rightarrow> pf_ipc_client \<times> 's" where
  "ipc_request J h line cs = (case cs of (c, st) \<Rightarrow>
     (case cj_parse J (takeWhile (\<lambda>x. x \<noteq> CHR 0x00) line) of
        None \<Rightarrow> (c, st)
      | Some req \<Rightarrow>
          let rid = (''id'', response_id req);
              params = cJSON_GetObjectItemCaseSensitive req ''params'';
              yes = J_Object [rid, (''result'', J_Bool True)]
          in case request_method req of
               None \<Rightarrow> (snd (pf_ipc_send J c (J_Object [rid, (''error'', rpc_error (-32600) ''Invalid Request: missing method'')])), st)
             | Some m \<Rightarrow>
                 if m = ''log.subscribe'' then (snd (pf_ipc_send J (c \<lparr> ic_log := True \<rparr>) yes), st)
                 else if m = ''log.unsubscribe'' then (snd (pf_ipc_send J (c \<lparr> ic_log := False \<rparr>) yes), st)
                 else if m = ''stats.subscribe'' then (snd (pf_ipc_send J (c \<lparr> ic_stats := True \<rparr>) yes), st)
                 else if m = ''stats.unsubscribe'' then (snd (pf_ipc_send J (c \<lparr> ic_stats := False \<rparr>) yes), st)
                 else (case h of
                     None \<Rightarrow> (snd (pf_ipc_send J c (J_Object [rid])), st)
                   | Some f \<Rightarrow> (case f st m params of
                       (Some r, st') \<Rightarrow> (snd (pf_ipc_send J c (J_Object [rid, (''result'', r)])), st')
                     | (None, st') \<Rightarrow> (snd (pf_ipc_send J c (J_Object [rid,
                         (''error'', rpc_error (-1) ''method not found or internal error'')])), st')))))"

text \<open>The loop over the complete lines; the result is the incomplete rest.\<close>

function ipc_lines :: "cjson \<Rightarrow> 's ipc_handler option \<Rightarrow> string \<Rightarrow> pf_ipc_client \<times> 's \<Rightarrow> string \<times> pf_ipc_client \<times> 's" where
  "ipc_lines J h data cs = (case strchr data newline of
     None \<Rightarrow> (data, cs)
   | Some i \<Rightarrow> ipc_lines J h (drop (i + 1) data) (ipc_request J h (take i data) cs))"
  by pat_completeness auto
termination
  by (relation "measure (\<lambda>(J, h, data, cs). length data)") (auto dest!: strchr_Some_split)

definition pf_ipc_process :: "cjson \<Rightarrow> 's ipc_handler option \<Rightarrow> nat \<Rightarrow> pf_ipc \<times> 's \<Rightarrow> int \<times> pf_ipc \<times> 's" where
  "pf_ipc_process J h idx s = (case s of (ipc, st) \<Rightarrow>
     let c = ip_clients ipc ! idx in
     if length (ic_buf c) + 1 \<ge> PF_BUF_SIZE then (-1, client_remove idx ipc, st)
     else let space = PF_BUF_SIZE - length (ic_buf c) - 1 in
       (case ic_rx c of
          [] \<Rightarrow> (0, ipc, st)
        | Rd_Again # rs \<Rightarrow> (0, ipc \<lparr> ip_clients := (ip_clients ipc)[idx := c \<lparr> ic_rx := rs \<rparr>] \<rparr>, st)
        | Rd_Error # rs \<Rightarrow> (-1, client_remove idx ipc, st)
        | Rd_Eof # rs \<Rightarrow> (-1, client_remove idx ipc, st)
        | Rd_Data d # rs \<Rightarrow>
            if d = [] then (-1, client_remove idx ipc, st)
            else let c' = c \<lparr> ic_rx := (if length d \<le> space then rs else Rd_Data (drop space d) # rs) \<rparr> in
              (case ipc_lines J h (ic_buf c @ take space d) (c', st) of
                 (rest, c'', st') \<Rightarrow> (0, ipc \<lparr> ip_clients := (ip_clients ipc)[idx := c'' \<lparr> ic_buf := rest \<rparr>] \<rparr>, st'))))"

section \<open>Broadcasts and shutdown\<close>

definition ipc_event :: "string \<Rightarrow> json \<Rightarrow> json" where
  "ipc_event name ev = J_Object [(''id'', J_Null), (''event'', J_String name), (''data'', ev)]"

definition pf_ipc_broadcast_log :: "cjson \<Rightarrow> json \<Rightarrow> pf_ipc \<Rightarrow> pf_ipc" where
  "pf_ipc_broadcast_log J ev ipc = ipc \<lparr> ip_clients := map (\<lambda>c.
     if ic_fd c \<ge> 0 \<and> ic_log c then snd (pf_ipc_send J c (ipc_event ''log.entry'' ev)) else c) (ip_clients ipc) \<rparr>"

definition pf_ipc_broadcast_stats :: "cjson \<Rightarrow> json \<Rightarrow> pf_ipc \<Rightarrow> pf_ipc" where
  "pf_ipc_broadcast_stats J ev ipc = ipc \<lparr> ip_clients := map (\<lambda>c.
     if ic_fd c \<ge> 0 \<and> ic_stats c then snd (pf_ipc_send J c (ipc_event ''stats.update'' ev)) else c) (ip_clients ipc) \<rparr>"

definition pf_ipc_close :: "pf_ipc \<Rightarrow> pf_ipc" where
  "pf_ipc_close ipc = ipc \<lparr>
     ip_closed := ip_closed ipc @ map ic_fd (filter (\<lambda>c. ic_fd c \<ge> 0) (ip_clients ipc)),
     ip_clients := map (\<lambda>c. if ic_fd c \<ge> 0 then c \<lparr> ic_fd := -1 \<rparr> else c) (ip_clients ipc),
     ip_listen_fd := (if ip_listen_fd ipc \<ge> 0 then -1 else ip_listen_fd ipc), ip_client_count := 0 \<rparr>"

text \<open>The lookup of the event loop in \<^verbatim>\<open>main.c\<close>: which client a readable descriptor belongs to.\<close>

definition main_find_client :: "pf_ipc \<Rightarrow> int \<Rightarrow> nat option" where
  "main_find_client ipc fd = find (\<lambda>j. ic_fd (ip_clients ipc ! j) = fd) [0 ..< nat (ip_client_count ipc)]"

section \<open>Line framing\<close>

text \<open>
  A server of newline-terminated requests: a loop that serves the first complete line and goes on, and
  hands back the rest when there is none.  What such a loop does depends only on the stream, not on
  how the stream is cut into reads.
\<close>

locale line_protocol =
  fixes serve :: "string \<Rightarrow> 'x \<Rightarrow> 'x" and loop :: "string \<Rightarrow> 'x \<Rightarrow> string \<times> 'x"
  assumes loop_rest: "newline \<notin> set d \<Longrightarrow> loop d x = (d, x)"
    and loop_line: "newline \<notin> set l \<Longrightarrow> loop (l @ newline # d) x = loop d (serve l x)"
begin

lemma loop_lines: "loop d x = (last (split_on newline d), foldl (\<lambda>x l. serve l x) x (butlast (split_on newline d)))"
proof (induction "length d" arbitrary: d x rule: less_induct)
  case less
  show ?case
  proof (cases "newline \<in> set d")
    case True
    then obtain l r where d: "d = l @ newline # r" "newline \<notin> set l" by (meson split_list_first)
    thus ?thesis using less [of r "serve l x"] by (simp add: loop_line split_on_field)
  qed (simp add: loop_rest split_on_no_delim)
qed

lemma loop_append:
  assumes "loop d x = (b, y)"
  shows "loop (b @ e) y = loop (d @ e) x"
  using assms
proof (induction "length d" arbitrary: d x rule: less_induct)
  case less
  show ?case
  proof (cases "newline \<in> set d")
    case True
    then obtain l r where d: "d = l @ newline # r" "newline \<notin> set l" by (meson split_list_first)
    hence "loop r (serve l x) = (b, y)" using less.prems by (simp add: loop_line)
    hence "loop (b @ e) y = loop (r @ e) (serve l x)" using less.hyps [of r "serve l x"] d by simp
    thus ?thesis using d by (simp add: loop_line)
  qed (use less.prems in \<open>simp add: loop_rest\<close>)
qed

lemma loop_rest_no_newline: "newline \<notin> set (fst (loop d x))"
  using split_on_fields_no_delim [OF last_in_set [OF split_on_nonempty]] by (simp add: loop_lines)

end

declare ipc_lines.simps [simp del]

interpretation ipc_server: line_protocol "ipc_request J h" "ipc_lines J h"
proof
  show "ipc_lines J h d x = (d, x)" if "newline \<notin> set d" for d x
    using that by (subst ipc_lines.simps) (simp add: strchr_None [THEN iffD2])
  show "ipc_lines J h (l @ newline # d) x = ipc_lines J h d (ipc_request J h l x)" if "newline \<notin> set l" for l d x
    using that by (subst ipc_lines.simps) (simp add: strchr_append)
qed

section \<open>What a request leaves alone\<close>

lemma pf_ipc_send_frame [simp]:
  "ic_fd (snd (pf_ipc_send J c m)) = ic_fd c" "ic_buf (snd (pf_ipc_send J c m)) = ic_buf c"
  "ic_rx (snd (pf_ipc_send J c m)) = ic_rx c" "ic_log (snd (pf_ipc_send J c m)) = ic_log c"
  "ic_stats (snd (pf_ipc_send J c m)) = ic_stats c"
  by (simp_all add: pf_ipc_send_def split: option.split prod.split)

text \<open>The bytes a message adds to the output, and the rest of the script.\<close>

definition sent :: "cjson \<Rightarrow> write_result list \<Rightarrow> json \<Rightarrow> string \<times> write_result list" where
  "sent J ws m = (case cj_print J m of None \<Rightarrow> ([], ws) | Some raw \<Rightarrow> snd (ipc_write_loop ws (raw @ [newline]) 0))"

lemma snd_send: "snd (pf_ipc_send J c m) = c \<lparr> ic_wr := snd (sent J (ic_wr c) m), ic_out := ic_out c @ fst (sent J (ic_wr c) m) \<rparr>"
  by (simp add: pf_ipc_send_def sent_def split: option.split prod.split)

lemma ipc_request_frame [simp]:
  "ic_fd (fst (ipc_request J h l x)) = ic_fd (fst x)" "ic_buf (fst (ipc_request J h l x)) = ic_buf (fst x)"
  "ic_rx (fst (ipc_request J h l x)) = ic_rx (fst x)"
  by (simp_all add: ipc_request_def Let_def split: option.split prod.split)

definition set_rx :: "string \<Rightarrow> read_result list \<Rightarrow> pf_ipc_client \<times> 's \<Rightarrow> pf_ipc_client \<times> 's" where
  "set_rx b r = apfst (\<lambda>c. c \<lparr> ic_buf := b, ic_rx := r \<rparr>)"

lemma ipc_request_rx: "ipc_request J h l (set_rx b r x) = set_rx b r (ipc_request J h l x)"
  by (cases x; cases "fst x") (simp add: ipc_request_def set_rx_def Let_def snd_send split: option.split prod.split)

lemma foldl_request_rx:
  "foldl (\<lambda>x l. ipc_request J h l x) (set_rx b r x) ls = set_rx b r (foldl (\<lambda>x l. ipc_request J h l x) x ls)"
  by (induction ls arbitrary: x) (simp_all add: ipc_request_rx)

lemma ipc_lines_rx: "ipc_lines J h d (set_rx b r x) = apsnd (set_rx b r) (ipc_lines J h d x)"
  by (simp add: ipc_server.loop_lines foldl_request_rx)

lemma ipc_lines_frame:
  "ic_fd (fst (snd (ipc_lines J h d x))) = ic_fd (fst x) \<and> ic_rx (fst (snd (ipc_lines J h d x))) = ic_rx (fst x)"
proof -
  have "ic_fd (fst (foldl (\<lambda>x l. ipc_request J h l x) x ls)) = ic_fd (fst x)
    \<and> ic_rx (fst (foldl (\<lambda>x l. ipc_request J h l x) x ls)) = ic_rx (fst x)" for ls
    by (induction ls arbitrary: x) simp_all
  thus ?thesis by (simp add: ipc_server.loop_lines)
qed

section \<open>Serving a stream\<close>

lemma split_on_append: "split_on c (d @ e) = butlast (split_on c d) @ split_on c (last (split_on c d) @ e)"
proof (induction "length d" arbitrary: d rule: less_induct)
  case less
  show ?case
  proof (cases "c \<in> set d")
    case True
    then obtain l r where d: "d = l @ c # r" "c \<notin> set l" by (meson split_list_first)
    thus ?thesis using less [of r] by (simp add: split_on_field)
  qed (simp add: split_on_no_delim)
qed

lemma split_on_hd: "c \<notin> set b \<Longrightarrow> hd (split_on c (b @ e)) = b @ hd (split_on c e)"
  by (induction b) (auto simp: neq_Nil_conv split: list.split)

text \<open>Every line, and the incomplete rest, leaves room for its newline in the buffer.\<close>

definition lines_fit :: "string \<Rightarrow> bool" where
  "lines_fit d \<longleftrightarrow> (\<forall>l \<in> set (split_on newline d). length l + 1 < PF_BUF_SIZE)"

lemma lines_fit_rest:
  "lines_fit (d @ e) \<Longrightarrow> lines_fit (last (split_on newline d) @ e)"
  unfolding lines_fit_def by (subst (asm) split_on_append) simp

lemma lines_fit_buffer: "lines_fit (b @ e) \<Longrightarrow> newline \<notin> set b \<Longrightarrow> length b + 1 < PF_BUF_SIZE"
  unfolding lines_fit_def using hd_in_set [OF split_on_nonempty, of newline "b @ e"] by (fastforce simp: split_on_hd)

lemma process_chunk:
  assumes "ip_clients ipc ! idx = c" "length (ic_buf c) + 1 < PF_BUF_SIZE" "ic_rx c = Rd_Data d # rs" "d \<noteq> []"
    and "k = PF_BUF_SIZE - length (ic_buf c) - 1"
    and "rx = (if length d \<le> k then rs else Rd_Data (drop k d) # rs)"
    and "ipc_lines J h (ic_buf c @ take k d) (c, st) = (b, y)"
  shows "pf_ipc_process J h idx (ipc, st) = (0, ipc \<lparr> ip_clients := (ip_clients ipc)[idx := fst (set_rx b rx y)] \<rparr>, snd y)"
proof -
  have "(c \<lparr> ic_rx := rx \<rparr>, st) = set_rx (ic_buf c) rx (c, st)" by (simp add: set_rx_def)
  hence "ipc_lines J h (ic_buf c @ take k d) (c \<lparr> ic_rx := rx \<rparr>, st) = (b, set_rx (ic_buf c) rx y)"
    using assms(7) by (simp add: ipc_lines_rx)
  moreover have "pf_ipc_process J h idx (ipc, st) = (case ipc_lines J h (ic_buf c @ take k d) (c \<lparr> ic_rx := rx \<rparr>, st) of
      (rest, c'', st') \<Rightarrow> (0, ipc \<lparr> ip_clients := (ip_clients ipc)[idx := c'' \<lparr> ic_buf := rest \<rparr>] \<rparr>, st'))"
    using assms(1-4) by (simp add: pf_ipc_process_def Let_def assms(5,6))
  moreover have "(fst y) \<lparr> ic_rx := rx, ic_buf := b \<rparr> = (fst y) \<lparr> ic_buf := b, ic_rx := rx \<rparr>" by (cases "fst y") simp
  ultimately show ?thesis by (simp add: set_rx_def split_beta)
qed

lemma same_client:
  assumes "ip_clients ipc ! idx = c" "ic_rx c = []"
  shows "ipc \<lparr> ip_clients := (ip_clients ipc)[idx := fst (set_rx (ic_buf c) [] (c, st))] \<rparr> = ipc"
proof -
  have "fst (set_rx (ic_buf c) [] (c, st)) = c" using assms(2) by (cases c) (simp add: set_rx_def)
  thus ?thesis using assms(1) by (cases ipc) (auto simp: list_update_id)
qed

definition ipc_serve :: "cjson \<Rightarrow> 's ipc_handler option \<Rightarrow> nat \<Rightarrow> pf_ipc \<times> 's \<Rightarrow> pf_ipc \<times> 's" where
  "ipc_serve J h idx s = snd (pf_ipc_process J h idx s)"

lemma serve_idle:
  assumes "ic_rx (ip_clients (fst s) ! idx) = []" "length (ic_buf (ip_clients (fst s) ! idx)) + 1 < PF_BUF_SIZE"
  shows "(ipc_serve J h idx ^^ n) s = s"
  using assms by (induction n) (auto simp: ipc_serve_def pf_ipc_process_def Let_def split: prod.split)

lemma serve_stream:
  assumes "idx < length (ip_clients ipc)" "ip_clients ipc ! idx = c" "ic_rx c = map Rd_Data ds" "[] \<notin> set ds"
    and "newline \<notin> set (ic_buf c)" "lines_fit (ic_buf c @ concat ds)" "length (concat ds) \<le> n"
    and "ipc_lines J h (ic_buf c @ concat ds) (c, st) = (b, y)"
  shows "(ipc_serve J h idx ^^ n) (ipc, st) = (ipc \<lparr> ip_clients := (ip_clients ipc)[idx := fst (set_rx b [] y)] \<rparr>, snd y)"
  using assms
proof (induction n arbitrary: ipc c ds st y)
  case 0
  hence "ds = []" by (cases ds) auto
  hence e: "b = ic_buf c" "y = (c, st)" "ic_rx c = []" using 0 by (auto simp: ipc_server.loop_rest)
  show ?case unfolding e(1,2) same_client [OF 0(2) e(3)] by simp
next
  case (Suc n)
  note room = lines_fit_buffer [OF Suc.prems(6,5)]
  show ?case
  proof (cases ds)
    case Nil
    hence e: "b = ic_buf c" "y = (c, st)" "ic_rx c = []" using Suc.prems by (auto simp: ipc_server.loop_rest)
    show ?thesis unfolding e(1,2) same_client [OF Suc.prems(2) e(3)]
      using Suc.prems(2) e(3) room serve_idle [where s = "(ipc, st)" and idx = idx and J = J and h = h and n = "Suc n"] by simp
  next
    case (Cons d es)
    define k where "k = PF_BUF_SIZE - length (ic_buf c) - 1"
    define ds' where "ds' = (if length d \<le> k then es else drop k d # es)"
    have d: "d \<noteq> []" "[] \<notin> set es" using Suc.prems(4) Cons by auto
    have k: "0 < k" using room by (simp add: k_def)
    obtain b1 y1 where y1: "ipc_lines J h (ic_buf c @ take k d) (c, st) = (b1, y1)" by (rule prod.exhaust)
    have split: "concat ds = take k d @ concat ds'" using Cons by (simp add: ds'_def)
    have b1: "b1 = last (split_on newline (ic_buf c @ take k d))" using y1 by (simp add: ipc_server.loop_lines)
    let ?c = "fst (set_rx b1 (map Rd_Data ds') y1)"
    let ?ipc = "ipc \<lparr> ip_clients := (ip_clients ipc)[idx := ?c] \<rparr>"
    have step: "ipc_serve J h idx (ipc, st) = (?ipc, snd y1)"
      unfolding ipc_serve_def
      by (subst process_chunk [OF Suc.prems(2) room _ d(1) k_def _ y1]) (use Suc.prems(3) Cons in \<open>auto simp: ds'_def\<close>)
    have rest: "newline \<notin> set b1" using ipc_server.loop_rest_no_newline [of J h "ic_buf c @ take k d" "(c, st)"] y1 by simp
    have fit: "lines_fit (b1 @ concat ds')" using Suc.prems(6) lines_fit_rest unfolding split b1 by (metis append_assoc)
    have less: "length (concat ds') \<le> n" using Suc.prems(7) d(1) k unfolding split by (cases d; cases k) auto
    have "ipc_lines J h (b1 @ concat ds') y1 = (b, y)"
      using ipc_server.loop_append [OF y1, of "concat ds'"] Suc.prems(8) unfolding split by simp
    hence "ipc_lines J h (b1 @ concat ds') (?c, snd y1) = (b, set_rx b1 (map Rd_Data ds') y)"
      using ipc_lines_rx [of J h "b1 @ concat ds'" b1 "map Rd_Data ds'" y1] by (cases y1) (simp add: set_rx_def)
    moreover have "[] \<notin> set ds'" using d(2) k by (auto simp: ds'_def)
    ultimately have "(ipc_serve J h idx ^^ n) (?ipc, snd y1)
      = (?ipc \<lparr> ip_clients := (ip_clients ?ipc)[idx := fst (set_rx b [] (set_rx b1 (map Rd_Data ds') y))] \<rparr>, snd (set_rx b1 (map Rd_Data ds') y))"
      using Suc.prems(1) rest fit less by (intro Suc.IH) (auto simp: set_rx_def)
    thus ?thesis using step by (simp add: funpow_swap1 set_rx_def)
  qed
qed

section \<open>Delivery\<close>

lemma write_loop_prefix:
  "prefix (fst (snd (ipc_write_loop ws d r))) d \<and> (fst (ipc_write_loop ws d r) \<longleftrightarrow> fst (snd (ipc_write_loop ws d r)) = d)"
proof (induction ws d r rule: ipc_write_loop.induct)
  case (6 n ws c cs retries)
  thus ?case by (simp only: ipc_write_loop.simps split_beta fst_conv snd_conv prefix_take_append)
qed simp_all

text \<open>A peer that accepts data after at most 50 refusals in a row.\<close>

fun patient_peer :: "(nat \<times> nat) list \<Rightarrow> write_result list" where
  "patient_peer [] = []"
| "patient_peer ((k, n) # bs) = replicate k Wr_Again @ Wr_Sent n # patient_peer bs"

lemma write_loop_again:
  "r + k \<le> 50 \<Longrightarrow> ipc_write_loop (replicate k Wr_Again @ ws) (c # cs) r = ipc_write_loop ws (c # cs) (r + k)"
  by (induction k arbitrary: r) simp_all

lemma write_loop_patient:
  assumes "\<forall>(k, n) \<in> set bs. k \<le> 50" "length d \<le> sum_list (map snd bs)"
  shows "fst (ipc_write_loop (patient_peer bs @ ws) d 0)"
  using assms
proof (induction bs arbitrary: d)
  case (Cons b bs)
  obtain k n where b: "b = (k, n)" by (cases b)
  show ?case
  proof (cases d)
    case (Cons c cs)
    hence "fst (ipc_write_loop (patient_peer bs @ ws) (drop n d) 0)" using Cons.prems b by (intro Cons.IH) auto
    thus ?thesis using Cons.prems b Cons by (simp add: write_loop_again split_beta)
  qed simp
qed simp

section \<open>The client table\<close>

definition own_fd :: "pf_ipc_client \<Rightarrow> int multiset" where
  "own_fd c = (if 0 \<le> ic_fd c then {#ic_fd c#} else {#})"

definition fds_of :: "pf_ipc_client list \<Rightarrow> int multiset" where
  "fds_of cs = sum_list (map own_fd cs)"

lemma fds_of_update: "i < length cs \<Longrightarrow> fds_of (cs[i := c]) + own_fd (cs ! i) = fds_of cs + own_fd c"
  unfolding fds_of_def by (rule sum_list_map_update)

lemma size_fds_of: "size (fds_of cs) = length (filter (\<lambda>c. 0 \<le> ic_fd c) cs)"
  by (induction cs) (simp_all add: fds_of_def own_fd_def)

lemma member_fds: "c \<in> set cs \<Longrightarrow> 0 \<le> ic_fd c \<Longrightarrow> ic_fd c \<in># fds_of cs"
  by (induction cs) (auto simp: fds_of_def own_fd_def)

lemma fds_of_map: "(\<And>c. c \<in> set cs \<Longrightarrow> ic_fd (f c) = ic_fd c) \<Longrightarrow> fds_of (map f cs) = fds_of cs"
  by (induction cs) (auto simp: fds_of_def own_fd_def)

definition ipc_inv :: "int list \<Rightarrow> pf_ipc \<Rightarrow> bool" where
  "ipc_inv acc ipc \<longleftrightarrow> length (ip_clients ipc) = PF_MAX_CLIENTS
     \<and> ip_client_count ipc = int (size (fds_of (ip_clients ipc)))
     \<and> mset acc = fds_of (ip_clients ipc) + mset (ip_closed ipc)
     \<and> (\<forall>c \<in> set (ip_clients ipc). length (ic_buf c) < PF_BUF_SIZE)
     \<and> (\<forall>i j. i < PF_MAX_CLIENTS \<and> j < PF_MAX_CLIENTS \<and> i \<noteq> j \<and> 0 \<le> ic_fd (ip_clients ipc ! i)
          \<longrightarrow> ic_fd (ip_clients ipc ! i) \<noteq> ic_fd (ip_clients ipc ! j))"

text \<open>The life of the server: the kernel hands out descriptors that are not in use.\<close>

inductive ipc_reach :: "cjson \<Rightarrow> 's ipc_handler option \<Rightarrow> int list \<Rightarrow> pf_ipc \<times> 's \<Rightarrow> bool" for J h where
  start: "ipc_reach J h [] (pf_ipc_init fd, st)"
| accept: "ipc_reach J h acc (ipc, st) \<Longrightarrow> 0 \<le> cfd \<Longrightarrow> cfd \<notin># fds_of (ip_clients ipc)
    \<Longrightarrow> ipc_reach J h (acc @ [cfd]) (snd (pf_ipc_accept (Acc_Conn cfd uid nb rx wr) ipc), st)"
| serve: "ipc_reach J h acc (ipc, st) \<Longrightarrow> idx < PF_MAX_CLIENTS \<Longrightarrow> 0 \<le> ic_fd (ip_clients ipc ! idx)
    \<Longrightarrow> ipc_reach J h acc (ipc_serve J h idx (ipc, st))"
| log: "ipc_reach J h acc (ipc, st) \<Longrightarrow> ipc_reach J h acc (pf_ipc_broadcast_log J ev ipc, st)"
| stats: "ipc_reach J h acc (ipc, st) \<Longrightarrow> ipc_reach J h acc (pf_ipc_broadcast_stats J ev ipc, st)"

lemma split_on_last_length: "length (last (split_on c d)) \<le> length d"
proof (induction "length d" arbitrary: d rule: less_induct)
  case less
  show ?case
  proof (cases "c \<in> set d")
    case True
    then obtain l r where d: "d = l @ c # r" "c \<notin> set l" by (meson split_list_first)
    thus ?thesis using less [of r] by (simp add: split_on_field)
  qed (simp add: split_on_no_delim)
qed

text \<open>Replacing a client by one with the same descriptor.\<close>

lemma ipc_inv_same_fd:
  assumes "ipc_inv acc ipc" "idx < PF_MAX_CLIENTS" "ic_fd c = ic_fd (ip_clients ipc ! idx)" "length (ic_buf c) < PF_BUF_SIZE"
  shows "ipc_inv acc (ipc \<lparr> ip_clients := (ip_clients ipc)[idx := c] \<rparr>)"
proof -
  have "idx < length (ip_clients ipc)" using assms(1,2) by (simp add: ipc_inv_def)
  hence "fds_of ((ip_clients ipc)[idx := c]) = fds_of (ip_clients ipc)"
    using fds_of_update [of idx "ip_clients ipc" c] assms(3) by (simp add: own_fd_def split: if_splits)
  thus ?thesis using assms by (auto simp: ipc_inv_def nth_list_update dest!: set_update_subset_insert [THEN subsetD])
qed

lemma ipc_inv_remove:
  assumes "ipc_inv acc ipc" "idx < PF_MAX_CLIENTS" "0 \<le> ic_fd (ip_clients ipc ! idx)"
  shows "ipc_inv acc (client_remove idx ipc)"
proof -
  let ?c = "ip_clients ipc ! idx"
  let ?d = "?c \<lparr> ic_fd := -1, ic_buf := [], ic_log := False, ic_stats := False \<rparr>"
  have l: "idx < length (ip_clients ipc)" using assms(1,2) by (simp add: ipc_inv_def)
  hence f: "fds_of (ip_clients ipc) = add_mset (ic_fd ?c) (fds_of ((ip_clients ipc)[idx := ?d]))"
    using fds_of_update [of idx "ip_clients ipc" ?d] assms(3) by (simp add: own_fd_def)
  have "\<forall>c \<in> set ((ip_clients ipc)[idx := ?d]). length (ic_buf c) < PF_BUF_SIZE"
    using assms(1) by (auto simp: ipc_inv_def PF_BUF_SIZE_def dest!: set_update_subset_insert [THEN subsetD])
  thus ?thesis using assms l unfolding ipc_inv_def client_remove_def Let_def f by (simp add: nth_list_update)
qed

lemma ipc_inv_serve:
  assumes "ipc_inv acc ipc" "idx < PF_MAX_CLIENTS" "0 \<le> ic_fd (ip_clients ipc ! idx)"
  shows "ipc_inv acc (fst (ipc_serve J h idx (ipc, st)))"
proof -
  let ?c = "ip_clients ipc ! idx"
  have rm: "ipc_inv acc (client_remove idx ipc)" by (rule ipc_inv_remove [OF assms])
  have rx: "ipc_inv acc (ipc \<lparr> ip_clients := (ip_clients ipc)[idx := ?c \<lparr> ic_rx := rs \<rparr>] \<rparr>)" for rs
    using assms by (intro ipc_inv_same_fd) (auto simp: ipc_inv_def)
  show ?thesis
  proof (cases "length (ic_buf ?c) + 1 \<ge> PF_BUF_SIZE \<or> (\<forall>d rs. ic_rx ?c = Rd_Data d # rs \<longrightarrow> d = [])")
    case True
    thus ?thesis using rm rx assms(1)
      by (auto simp: ipc_serve_def pf_ipc_process_def Let_def split: list.split read_result.split)
  next
    case False
    then obtain d rs where d: "ic_rx ?c = Rd_Data d # rs" "d \<noteq> []" "length (ic_buf ?c) + 1 < PF_BUF_SIZE" by auto
    define k where "k = PF_BUF_SIZE - length (ic_buf ?c) - 1"
    obtain b y where y: "ipc_lines J h (ic_buf ?c @ take k d) (?c, st) = (b, y)" by (rule prod.exhaust)
    have "ic_fd (fst y) = ic_fd ?c" using ipc_lines_frame [of J h "ic_buf ?c @ take k d" "(?c, st)"] y by simp
    moreover have "length b \<le> length (ic_buf ?c @ take k d)"
      using split_on_last_length [of newline "ic_buf ?c @ take k d"] y by (simp add: ipc_server.loop_lines)
    hence "length b < PF_BUF_SIZE" using d(3) by (simp add: k_def)
    ultimately have "ipc_inv acc (ipc \<lparr> ip_clients := (ip_clients ipc)[idx := fst (set_rx b r y)] \<rparr>)" for r
      using assms by (intro ipc_inv_same_fd) (auto simp: set_rx_def)
    thus ?thesis using process_chunk [OF refl d(3,1,2) k_def refl y] by (simp add: ipc_serve_def)
  qed
qed

text \<open>Accepting: the guard on the count is exactly that a slot is free.\<close>

lemma free_slot:
  assumes "ipc_inv acc ipc"
  shows "find_index (\<lambda>c. ic_fd c < 0) (ip_clients ipc) = None \<longleftrightarrow> ip_client_count ipc \<ge> int PF_MAX_CLIENTS"
proof -
  let ?P = "\<lambda>c. 0 \<le> ic_fd c" and ?cs = "ip_clients ipc"
  have "find_index (\<lambda>c. ic_fd c < 0) ?cs = None \<longleftrightarrow> filter ?P ?cs = ?cs"
    by (auto simp: find_index_None filter_id_conv not_less)
  also have "... \<longleftrightarrow> length (filter ?P ?cs) \<ge> length ?cs"
    using length_filter_le [of ?P ?cs] length_filter_less [of _ ?cs ?P] by (fastforce simp: filter_id_conv)
  finally show ?thesis using assms by (simp add: ipc_inv_def size_fds_of)
qed

definition system_user :: "u32 option \<Rightarrow> bool" where
  "system_user uid \<longleftrightarrow> (case uid of Some u \<Rightarrow> u \<noteq> 0 \<and> u < 1000 | None \<Rightarrow> False)"

lemma accept_cases:
  assumes "ipc_inv acc ipc"
  obtains "system_user uid \<or> ip_client_count ipc \<ge> int PF_MAX_CLIENTS \<or> \<not> nb"
      "pf_ipc_accept (Acc_Conn cfd uid nb rx wr) ipc = (-1, ipc \<lparr> ip_closed := ip_closed ipc @ [cfd] \<rparr>)"
  | i where "\<not> system_user uid" "ip_client_count ipc < int PF_MAX_CLIENTS" nb "i < length (ip_clients ipc)" "ic_fd (ip_clients ipc ! i) < 0"
      "pf_ipc_accept (Acc_Conn cfd uid nb rx wr) ipc = (int i, ipc \<lparr> ip_clients := (ip_clients ipc)[i := (ip_clients ipc ! i)
           \<lparr> ic_fd := cfd, ic_buf := [], ic_log := False, ic_stats := False, ic_rx := rx, ic_wr := wr, ic_out := [] \<rparr>],
           ip_client_count := ip_client_count ipc + 1 \<rparr>)"
proof (cases "system_user uid \<or> ip_client_count ipc \<ge> int PF_MAX_CLIENTS \<or> \<not> nb")
  case True
  show ?thesis by (rule that(1) [OF True]) (use True in \<open>auto simp: system_user_def Let_def\<close>)
next
  case False
  then obtain i where i: "find_index (\<lambda>c. ic_fd c < 0) (ip_clients ipc) = Some i" using free_slot [OF assms] by auto
  have "i < length (ip_clients ipc)" "ic_fd (ip_clients ipc ! i) < 0" using i by (auto simp: find_index_Some)
  thus ?thesis by (intro that(2) [of i]) (use False i in \<open>auto simp: system_user_def Let_def\<close>)
qed

lemma ipc_inv_accept:
  assumes "ipc_inv acc ipc" "0 \<le> cfd" "cfd \<notin># fds_of (ip_clients ipc)"
  shows "ipc_inv (acc @ [cfd]) (snd (pf_ipc_accept (Acc_Conn cfd uid nb rx wr) ipc))"
proof (rule accept_cases [OF assms(1), of uid nb cfd rx wr])
  fix i
  let ?c = "(ip_clients ipc ! i) \<lparr> ic_fd := cfd, ic_buf := [], ic_log := False, ic_stats := False, ic_rx := rx, ic_wr := wr, ic_out := [] \<rparr>"
  assume i: "i < length (ip_clients ipc)" "ic_fd (ip_clients ipc ! i) < 0"
    and eq: "pf_ipc_accept (Acc_Conn cfd uid nb rx wr) ipc
      = (int i, ipc \<lparr> ip_clients := (ip_clients ipc)[i := ?c], ip_client_count := ip_client_count ipc + 1 \<rparr>)"
  have f: "fds_of ((ip_clients ipc)[i := ?c]) = add_mset cfd (fds_of (ip_clients ipc))"
    using fds_of_update [OF i(1), of ?c] i(2) assms(2) by (simp add: own_fd_def)
  have new: "0 \<le> ic_fd (ip_clients ipc ! j) \<longrightarrow> ic_fd (ip_clients ipc ! j) \<noteq> cfd" if "j < length (ip_clients ipc)" for j
    using assms(3) that member_fds [of "ip_clients ipc ! j" "ip_clients ipc"] by auto
  have "\<forall>c \<in> set ((ip_clients ipc)[i := ?c]). length (ic_buf c) < PF_BUF_SIZE"
    using assms(1) by (auto simp: ipc_inv_def PF_BUF_SIZE_def dest!: set_update_subset_insert [THEN subsetD])
  moreover have "ic_fd ((ip_clients ipc)[i := ?c] ! j) \<noteq> ic_fd ((ip_clients ipc)[i := ?c] ! k)"
    if "j < PF_MAX_CLIENTS" "k < PF_MAX_CLIENTS" "j \<noteq> k" "0 \<le> ic_fd ((ip_clients ipc)[i := ?c] ! j)" for j k
  proof -
    have "length (ip_clients ipc) = PF_MAX_CLIENTS"
      and "0 \<le> ic_fd (ip_clients ipc ! j) \<longrightarrow> ic_fd (ip_clients ipc ! j) \<noteq> ic_fd (ip_clients ipc ! k)"
      using assms(1) that(1-3) by (auto simp: ipc_inv_def)
    thus ?thesis using that i(1) new [of j] new [of k] assms(2) by (auto simp: nth_list_update split: if_splits)
  qed
  ultimately show ?thesis using assms(1) unfolding eq ipc_inv_def by (simp add: f)
qed (use assms(1) in \<open>simp add: ipc_inv_def\<close>)

lemma ipc_inv_broadcast:
  assumes "ipc_inv acc ipc" "\<And>c. ic_fd (f c) = ic_fd c" "\<And>c. ic_buf (f c) = ic_buf c"
  shows "ipc_inv acc (ipc \<lparr> ip_clients := map f (ip_clients ipc) \<rparr>)"
  using assms by (simp add: ipc_inv_def fds_of_map cong: conj_cong)

lemma ipc_inv_init: "ipc_inv [] (pf_ipc_init fd)"
  by (auto simp: ipc_inv_def pf_ipc_init_def client_zero_def fds_of_def own_fd_def PF_BUF_SIZE_def)

lemma ipc_reach_inv: "ipc_reach J h acc s \<Longrightarrow> ipc_inv acc (fst s)"
proof (induction rule: ipc_reach.induct)
  case (start fd st)
  show ?case by (simp add: ipc_inv_init)
next
  case (accept acc ipc st cfd uid nb rx wr)
  show ?case using ipc_inv_accept [OF accept.IH [simplified] accept.hyps(2,3)] by simp
next
  case (serve acc ipc st idx)
  show ?case by (rule ipc_inv_serve [OF serve.IH [simplified] serve.hyps(2,3)])
qed (auto simp: pf_ipc_broadcast_log_def pf_ipc_broadcast_stats_def intro!: ipc_inv_broadcast)

section \<open>Properties\<close>

text \<open>
  C14: the client table is consistent in every reachable state: the count is the number of occupied slots
  of the 16, no two of them share a descriptor, no input buffer overflows, and every accepted
  descriptor is either in the table or has been closed exactly once.  Hence a connection is taken
  exactly when a slot is free, its descriptor can be made non-blocking and its user is not a
  system user.
\<close>

theorem ipc_table_invariant:
  assumes "ipc_reach J h acc (ipc, st)"
  shows "ipc_inv acc ipc \<and> (0 \<le> fst (pf_ipc_accept (Acc_Conn cfd uid nb rx wr) ipc)
    \<longleftrightarrow> \<not> system_user uid \<and> size (fds_of (ip_clients ipc)) < PF_MAX_CLIENTS \<and> nb)"
proof -
  have inv: "ipc_inv acc ipc" using ipc_reach_inv [OF assms] by simp
  have "ip_client_count ipc = int (size (fds_of (ip_clients ipc)))" using inv by (simp add: ipc_inv_def)
  thus ?thesis using inv by (cases rule: accept_cases [OF inv, of uid nb cfd rx wr]) auto
qed

definition demo_cjson :: cjson where
  "demo_cjson = \<lparr> cj_parse = (\<lambda>s. if s = ''sub'' then Some (J_Object [(''id'', j_int 1), (''method'', J_String ''log.subscribe'')]) else None),
     cj_print = (\<lambda>j. case j of J_Object ((_, J_Number _) # _) \<Rightarrow> Some ''ok'' | _ \<Rightarrow> Some ''event'') \<rparr>"

definition demo_ipc :: pf_ipc where
  "demo_ipc = snd (pf_ipc_accept (Acc_Conn 7 (Some 1000) True [Rd_Data ''s'', Rd_Data (''ub'' @ [newline] @ ''su'')] [Wr_Sent 9, Wr_Again, Wr_Sent 9]) (pf_ipc_init 3))"

lemma fds_of_init [simp]: "fds_of (ip_clients (pf_ipc_init fd)) = {#}"
  by (simp add: pf_ipc_init_def fds_of_def own_fd_def client_zero_def)

lemma first_client_reach:
  "0 \<le> cfd \<Longrightarrow> ipc_reach J h [cfd] (snd (pf_ipc_accept (Acc_Conn cfd uid nb rx wr) (pf_ipc_init fd)), st)"
  using ipc_reach.accept [OF ipc_reach.start, of cfd fd J h uid nb rx wr st] by (simp del: pf_ipc_accept.simps)

lemma demo_ipc_reach: "ipc_reach J h [7] (demo_ipc, st)"
  unfolding demo_ipc_def by (rule first_client_reach) simp

theorem ipc_table_invariant_witness:
  "ipc_inv [7] demo_ipc \<and> fst (pf_ipc_accept (Acc_Conn 9 (Some 33) True [] []) demo_ipc) < 0"
  using ipc_table_invariant [OF demo_ipc_reach [of demo_cjson None "()"], of 9 "Some 33" True "[]" "[]"]
  by (simp add: system_user_def)

text \<open>
  C13: requests are framed by newlines and by nothing else.  However the stream of a client is cut
  into reads, serving it leaves exactly the state of serving its complete lines one after the other,
  with the incomplete rest in the buffer, provided no line exceeds the buffer; as many calls as the
  stream has bytes suffice.
\<close>

theorem ipc_framing:
  assumes "idx < length (ip_clients ipc)" "ip_clients ipc ! idx = c" "ic_rx c = map Rd_Data ds" "[] \<notin> set ds"
    and "newline \<notin> set (ic_buf c)" "lines_fit (ic_buf c @ concat ds)" "length (concat ds) \<le> n"
    and "split_on newline (ic_buf c @ concat ds) = ls @ [rest]"
    and "foldl (\<lambda>x l. ipc_request J h l x) (c, st) ls = (c', st')"
  shows "(ipc_serve J h idx ^^ n) (ipc, st)
    = (ipc \<lparr> ip_clients := (ip_clients ipc)[idx := c' \<lparr> ic_buf := rest, ic_rx := [] \<rparr>] \<rparr>, st')"
  using serve_stream [OF assms(1-7), of J h st rest "(c', st')"] assms(8,9)
  by (simp add: ipc_server.loop_lines set_rx_def)

theorem ipc_framing_witness:
  "ic_out (ip_clients (fst ((ipc_serve demo_cjson None 0 ^^ 6) (demo_ipc, ()))) ! 0) = ''ok'' @ [newline]
   \<and> ic_buf (ip_clients (fst ((ipc_serve demo_cjson None 0 ^^ 6) (demo_ipc, ()))) ! 0) = ''su''"
proof -
  let ?c = "ip_clients demo_ipc ! 0"
  have c: "?c = \<lparr> ic_fd = 7, ic_buf = [], ic_log = False, ic_stats = False, ic_rx = map Rd_Data [''s'', ''ub'' @ [newline] @ ''su''],
     ic_wr = [Wr_Sent 9, Wr_Again, Wr_Sent 9], ic_out = [] \<rparr>" and l: "0 < length (ip_clients demo_ipc)" by code_simp+
  have s: "split_on newline (ic_buf ?c @ concat [''s'', ''ub'' @ [newline] @ ''su'']) = [''sub''] @ [''su'']" by code_simp
  have f: "foldl (\<lambda>x l. ipc_request demo_cjson None l x) (?c, ()) [''sub'']
    = (?c \<lparr> ic_log := True, ic_wr := [Wr_Again, Wr_Sent 9], ic_out := ''ok'' @ [newline] \<rparr>, ())" by code_simp
  have "lines_fit (ic_buf ?c @ concat [''s'', ''ub'' @ [newline] @ ''su''])" unfolding lines_fit_def s by (simp add: PF_BUF_SIZE_def)
  from ipc_framing [OF l refl _ _ _ this _ s f, of 6] show ?thesis using l unfolding c by simp
qed

text \<open>
  A log event goes to every connected subscriber and to nobody else: each of them receives the
  printed event and a newline as one uninterrupted line, however its writes are cut, if it accepts
  enough data with at most 50 refusals in a row; otherwise it receives a prefix of that line.
\<close>

theorem ipc_broadcast_delivers:
  assumes "cj_print J (ipc_event ''log.entry'' ev) = Some raw" "i < length (ip_clients ipc)" "ip_clients ipc ! i = c"
    and "ip_clients (pf_ipc_broadcast_log J ev ipc) ! i = c'"
  shows "(if 0 \<le> ic_fd c \<and> ic_log c
      then (\<exists>out. prefix out (raw @ [newline]) \<and> ic_out c' = ic_out c @ out
        \<and> (ic_wr c = patient_peer bs @ ws \<and> (\<forall>(k, n) \<in> set bs. k \<le> 50) \<and> length raw < sum_list (map snd bs) \<longrightarrow> out = raw @ [newline]))
      else c' = c)"
proof (cases "0 \<le> ic_fd c \<and> ic_log c")
  case True
  let ?w = "ipc_write_loop (ic_wr c) (raw @ [newline]) 0"
  have "ic_out c' = ic_out c @ fst (snd ?w)"
    using True assms by (auto simp: pf_ipc_broadcast_log_def snd_send sent_def)
  moreover have "fst (snd ?w) = raw @ [newline]"
    if "ic_wr c = patient_peer bs @ ws" "\<forall>(k, n) \<in> set bs. k \<le> 50" "length raw < sum_list (map snd bs)"
    using write_loop_patient [OF that(2), of "raw @ [newline]" ws] that write_loop_prefix [of "ic_wr c" "raw @ [newline]" 0] by simp
  ultimately show ?thesis using True write_loop_prefix [of "ic_wr c" "raw @ [newline]" 0] by auto
qed (use assms in \<open>auto simp: pf_ipc_broadcast_log_def\<close>)

definition demo_subscriber :: pf_ipc where
  "demo_subscriber = (pf_ipc_init 3) \<lparr> ip_clients := [client_zero \<lparr> ic_fd := 7, ic_log := True, ic_wr := [Wr_Again, Wr_Sent 9] \<rparr>], ip_client_count := 1 \<rparr>"

theorem ipc_broadcast_delivers_witness:
  "ic_out (ip_clients (pf_ipc_broadcast_log demo_cjson J_Null demo_subscriber) ! 0) = ''event'' @ [newline]"
proof -
  have p: "cj_print demo_cjson (ipc_event ''log.entry'' J_Null) = Some ''event''" by (simp add: demo_cjson_def ipc_event_def)
  have l: "0 < length (ip_clients demo_subscriber)"
    and c: "ip_clients demo_subscriber ! 0 = client_zero \<lparr> ic_fd := 7, ic_log := True, ic_wr := [Wr_Again, Wr_Sent 9] \<rparr>"
    by (simp_all add: demo_subscriber_def)
  from ipc_broadcast_delivers [OF p l c refl, of "[(1, 9)]" "[]"] show ?thesis by (auto simp: client_zero_def)
qed

text \<open>
  The event loop loses clients.  It looks for the client of a readable descriptor among the first
  \<^verbatim>\<open>client_count\<close> slots, so that after an earlier client has left, one with data waiting is not found.
\<close>

theorem main_loop_misses_client:
  "\<exists>acc ipc i. ipc_reach J h acc (ipc, st) \<and> i < PF_MAX_CLIENTS \<and> 0 \<le> ic_fd (ip_clients ipc ! i)
     \<and> ic_rx (ip_clients ipc ! i) = [Rd_Data ''x''] \<and> main_find_client ipc (ic_fd (ip_clients ipc ! i)) = None"
proof -
  define a where "a = snd (pf_ipc_accept (Acc_Conn 7 (Some 1000) True [Rd_Eof] []) (pf_ipc_init 3))"
  define b where "b = snd (pf_ipc_accept (Acc_Conn 8 (Some 1000) True [Rd_Data ''x''] []) a)"
  have "ipc_reach J h [7] (a, st)" unfolding a_def by (rule first_client_reach) simp
  moreover have "8 \<notin># fds_of (ip_clients a)" unfolding a_def by code_simp
  ultimately have "ipc_reach J h ([7] @ [8]) (b, st)" unfolding b_def by (intro ipc_reach.accept) simp_all
  hence "ipc_reach J h [7, 8] (b, st)" by simp
  moreover have f: "ic_fd (ip_clients b ! 0) = 7" "ic_rx (ip_clients b ! 0) = [Rd_Eof]" "length (ic_buf (ip_clients b ! 0)) + 1 < PF_BUF_SIZE"
    unfolding b_def a_def by code_simp+
  ultimately have "ipc_reach J h [7, 8] (ipc_serve J h 0 (b, st))" by (intro ipc_reach.serve) (simp_all add: PF_MAX_CLIENTS_def)
  moreover have "ipc_serve J h 0 (b, st) = (client_remove 0 b, st)" using f by (simp add: ipc_serve_def pf_ipc_process_def Let_def)
  moreover have "ic_fd (ip_clients (client_remove 0 b) ! 1) = 8" "ic_rx (ip_clients (client_remove 0 b) ! 1) = [Rd_Data ''x'']"
    "main_find_client (client_remove 0 b) 8 = None" unfolding b_def a_def by code_simp+
  ultimately show ?thesis by (intro exI [of _ "[7, 8]"] exI [of _ "client_remove 0 b"] exI [of _ 1]) (simp add: PF_MAX_CLIENTS_def)
qed

end
