(* ===== verification/Tproxy.thy ===== *)
theory Tproxy
  imports Routing Sni "HOL-Library.Multiset"
begin

text \<open>
  \<^verbatim>\<open>tproxy.c\<close> and the accept thread of \<^verbatim>\<open>main.c\<close>: the table of relayed connections, the way a redirected
  connection enters it, and the relay between its two ends.  Each end is a record with the results of
  its coming reads and writes and the bytes written to it; with TLS interception the same record
  stands for the plaintext of the session.  \<^verbatim>\<open>tp_closed\<close> records the calls of \<^verbatim>\<open>close\<close>, \<^verbatim>\<open>tp_captured\<close>
  those of the inspection callback.
\<close>

section \<open>Connections\<close>

definition PF_MAX_CONNECTIONS :: nat where "PF_MAX_CONNECTIONS = 1024"

text \<open>A failed call carries whether TLS asked to be called again and whether \<^verbatim>\<open>errno\<close> is one of
  \<^verbatim>\<open>EAGAIN\<close>, \<^verbatim>\<open>EWOULDBLOCK\<close> and \<^verbatim>\<open>EINTR\<close>.\<close>

datatype io_read = In_Data bytes | In_Zero | In_Fail bool bool
datatype io_write = Out_Sent nat | Out_Fail bool bool

record endpoint =
  ep_rd :: "io_read list"
  ep_wr :: "io_write list"
  ep_out :: bytes

definition no_endpoint :: endpoint where "no_endpoint = \<lparr> ep_rd = [], ep_wr = [], ep_out = [] \<rparr>"

record pf_connection =
  cn_client_fd :: int
  cn_proxy_fd :: int
  cn_client_ssl :: bool
  cn_server_ssl :: bool
  cn_domain :: string
  cn_dst_ip :: string
  cn_dst_port :: int
  cn_proxy_id :: int
  cn_bytes_tx :: u64
  cn_bytes_rx :: u64
  cn_active :: bool
  cn_inspect :: bool
  cn_is_tls :: bool
  cn_client :: endpoint
  cn_proxy :: endpoint

record pf_tproxy =
  tp_listen_fd :: int
  tp_epoll_fd :: int
  tp_conns :: "pf_connection list"
  tp_conn_count :: int
  tp_closed :: "int list"
  tp_captured :: "(bytes \<times> bool \<times> pf_connection) list"

definition conn_zero :: pf_connection where
  "conn_zero = \<lparr> cn_client_fd = -1, cn_proxy_fd = -1, cn_client_ssl = False, cn_server_ssl = False, cn_domain = [], cn_dst_ip = [],
     cn_dst_port = 0, cn_proxy_id = 0, cn_bytes_tx = 0, cn_bytes_rx = 0, cn_active = False, cn_inspect = False, cn_is_tls = False,
     cn_client = no_endpoint, cn_proxy = no_endpoint \<rparr>"

text \<open>\<^verbatim>\<open>pf_tproxy_init\<close> once the listening socket and the epoll descriptor exist.\<close>

definition pf_tproxy_init :: "int \<Rightarrow> int \<Rightarrow> pf_tproxy" where
  "pf_tproxy_init lfd efd = \<lparr> tp_listen_fd = lfd, tp_epoll_fd = efd, tp_conns = replicate PF_MAX_CONNECTIONS conn_zero,
     tp_conn_count = 0, tp_closed = [], tp_captured = [] \<rparr>"

definition find_free_slot :: "pf_tproxy \<Rightarrow> nat option" where
  "find_free_slot tp = find_index (\<lambda>c. \<not> cn_active c) (tp_conns tp)"

section \<open>Closing\<close>

definition conn_fds :: "pf_connection \<Rightarrow> int list" where
  "conn_fds c = (if cn_client_fd c \<ge> 0 then [cn_client_fd c] else []) @ (if cn_proxy_fd c \<ge> 0 then [cn_proxy_fd c] else [])"

definition pf_tproxy_close_conn :: "nat \<Rightarrow> pf_tproxy \<Rightarrow> pf_tproxy" where
  "pf_tproxy_close_conn idx tp =
     (if idx \<ge> PF_MAX_CONNECTIONS then tp
      else let c = tp_conns tp ! idx in
        if \<not> cn_active c then tp
        else tp \<lparr> tp_closed := tp_closed tp @ conn_fds c,
          tp_conns := (tp_conns tp)[idx := c \<lparr> cn_client_ssl := False, cn_server_ssl := False,
            cn_client_fd := (if cn_client_fd c \<ge> 0 then -1 else cn_client_fd c),
            cn_proxy_fd := (if cn_proxy_fd c \<ge> 0 then -1 else cn_proxy_fd c), cn_active := False, cn_inspect := False \<rparr>],
          tp_conn_count := (if tp_conn_count tp > 0 then tp_conn_count tp - 1 else tp_conn_count tp) \<rparr>)"

definition pf_tproxy_close :: "pf_tproxy \<Rightarrow> pf_tproxy" where
  "pf_tproxy_close tp =
     (let tp = fold (\<lambda>i tp. if cn_active (tp_conns tp ! i) then pf_tproxy_close_conn i tp else tp) [0 ..< PF_MAX_CONNECTIONS] tp;
          tp = (if tp_epoll_fd tp \<ge> 0 then tp \<lparr> tp_closed := tp_closed tp @ [tp_epoll_fd tp], tp_epoll_fd := -1 \<rparr> else tp)
      in if tp_listen_fd tp \<ge> 0 then tp \<lparr> tp_closed := tp_closed tp @ [tp_listen_fd tp], tp_listen_fd := -1 \<rparr> else tp)"

section \<open>Entering the table\<close>

text \<open>
  What the kernel and the network contribute to one accepted connection: the descriptor, the original
  destination, what the client has sent so far (nothing if the peek times out), the socket for a
  direct connection and whether it connects, the two ends, and how the two TLS handshakes go.
\<close>

record accept_env =
  ae_cfd :: int
  ae_orig :: "(u32 \<times> u16) option"
  ae_peek :: bytes
  ae_direct_fd :: int
  ae_direct_ok :: bool
  ae_client :: endpoint
  ae_proxy :: endpoint
  ae_wrap_server :: bool
  ae_wrap_client :: bool

type_synonym connect_cb = "string \<Rightarrow> int \<Rightarrow> string \<Rightarrow> int"

definition peek_tls :: "bytes \<Rightarrow> bool" where
  "peek_tls p \<longleftrightarrow> (case p of b # _ \<Rightarrow> b = 0x16 | [] \<Rightarrow> False)"

definition peek_domain :: "bytes \<Rightarrow> string" where
  "peek_domain p = (if peek_tls p then (case pf_sni_extract p PF_DOMAIN_MAX of SNI_name n \<Rightarrow> cstring n | _ \<Rightarrow> []) else [])"

text \<open>The descriptor to relay to, or the descriptors to close.\<close>

definition tproxy_connect :: "connect_cb option \<Rightarrow> accept_env \<Rightarrow> string \<Rightarrow> int \<Rightarrow> string \<Rightarrow> int list + int" where
  "tproxy_connect cb e dst_ip dst_port domain = (case cb of
     None \<Rightarrow> Inl [ae_cfd e]
   | Some f \<Rightarrow> let fd = f dst_ip dst_port domain in
       if fd = -2 then Inl [ae_cfd e]
       else if fd < 0 then
         (if ae_direct_fd e < 0 then Inl [ae_cfd e]
          else if \<not> ae_direct_ok e then Inl [ae_direct_fd e, ae_cfd e]
          else Inr (ae_direct_fd e))
       else Inr fd)"

definition new_conn :: "accept_env \<Rightarrow> string \<Rightarrow> int \<Rightarrow> string \<Rightarrow> bool \<Rightarrow> int \<Rightarrow> pf_connection" where
  "new_conn e dst_ip dst_port domain is_tls fd = \<lparr> cn_client_fd = ae_cfd e, cn_proxy_fd = fd, cn_client_ssl = False,
     cn_server_ssl = False, cn_domain = snprintf_s PF_DOMAIN_MAX domain, cn_dst_ip = snprintf_s 46 dst_ip, cn_dst_port = dst_port,
     cn_proxy_id = -1, cn_bytes_tx = 0, cn_bytes_rx = 0, cn_active = True, cn_inspect = False, cn_is_tls = is_tls,
     cn_client = ae_client e, cn_proxy = ae_proxy e \<rparr>"

definition claim_slot :: "nat \<Rightarrow> pf_connection \<Rightarrow> pf_tproxy \<Rightarrow> pf_tproxy" where
  "claim_slot i c tp = tp \<lparr> tp_conns := (tp_conns tp)[i := c], tp_conn_count := tp_conn_count tp + 1 \<rparr>"

definition drop_fds :: "int list \<Rightarrow> pf_tproxy \<Rightarrow> pf_tproxy" where
  "drop_fds fds tp = tp \<lparr> tp_closed := tp_closed tp @ fds \<rparr>"

text \<open>The synchronous accept of \<^verbatim>\<open>tproxy.c\<close>: the slot is looked for before connecting.  The result is the
  slot if there is one.\<close>

definition pf_tproxy_accept :: "connect_cb option \<Rightarrow> accept_env \<Rightarrow> pf_tproxy \<Rightarrow> nat option \<times> pf_tproxy" where
  "pf_tproxy_accept cb e tp =
     (if tp_listen_fd tp < 0 \<or> ae_cfd e < 0 then (None, tp)
      else case ae_orig e of None \<Rightarrow> (None, drop_fds [ae_cfd e] tp)
      | Some (ip, port) \<Rightarrow>
         let dst_ip = inet_ntop4 ip; dst_port = int (unat port) in
         (case find_free_slot tp of None \<Rightarrow> (None, drop_fds [ae_cfd e] tp)
          | Some slot \<Rightarrow>
             let p = take 4096 (ae_peek e); domain = peek_domain p in
             (case tproxy_connect cb e dst_ip dst_port domain of
                Inl fds \<Rightarrow> (None, drop_fds fds tp)
              | Inr fd \<Rightarrow> (Some slot, claim_slot slot (new_conn e dst_ip dst_port domain (peek_tls p) fd) tp))))"

record mitm_state =
  mi_enabled :: bool
  mi_ca_key :: bool

definition mitm_handshake :: "mitm_state \<Rightarrow> accept_env \<Rightarrow> string \<Rightarrow> bool \<Rightarrow> pf_connection \<Rightarrow> pf_connection" where
  "mitm_handshake m e domain is_tls c =
     (if mi_enabled m \<and> mi_ca_key m \<and> is_tls \<and> domain \<noteq> [] then
        (if ae_wrap_server e then
           (if ae_wrap_client e then c \<lparr> cn_server_ssl := True, cn_client_ssl := True, cn_inspect := True \<rparr>
            else c \<lparr> cn_server_ssl := False \<rparr>)
         else c)
      else if mi_enabled m \<and> \<not> is_tls then c \<lparr> cn_inspect := True \<rparr>
      else c)"

text \<open>The accept thread: connect first, then claim a slot under the lock, then intercept.\<close>

definition tproxy_accept_thread :: "connect_cb option \<Rightarrow> mitm_state \<Rightarrow> accept_env \<Rightarrow> pf_tproxy \<Rightarrow> nat option \<times> pf_tproxy" where
  "tproxy_accept_thread cb m e tp =
     (case ae_orig e of None \<Rightarrow> (None, drop_fds [ae_cfd e] tp)
      | Some (ip, port) \<Rightarrow>
         let dst_ip = inet_ntop4 ip; dst_port = int (unat port); p = take 4096 (ae_peek e); domain = peek_domain p in
         (case tproxy_connect cb e dst_ip dst_port domain of
            Inl fds \<Rightarrow> (None, drop_fds fds tp)
          | Inr fd \<Rightarrow>
             (case find_free_slot tp of None \<Rightarrow> (None, drop_fds [fd, ae_cfd e] tp)
              | Some slot \<Rightarrow> (Some slot, claim_slot slot
                  (mitm_handshake m e domain (peek_tls p) (new_conn e dst_ip dst_port domain (peek_tls p) fd)) tp))))"

section \<open>Relaying\<close>

definition side_ssl :: "pf_connection \<Rightarrow> bool \<Rightarrow> bool" where
  "side_ssl c is_client \<longleftrightarrow> cn_inspect c \<and> (if is_client then cn_client_ssl c else cn_server_ssl c)"

definition relay_retry :: "bool \<Rightarrow> bool \<Rightarrow> bool \<Rightarrow> bool" where
  "relay_retry ssl want errno_again \<longleftrightarrow> (ssl \<and> want) \<or> errno_again"

definition relay_read :: "nat \<Rightarrow> endpoint \<Rightarrow> io_read \<times> endpoint" where
  "relay_read sz e = (case ep_rd e of
     [] \<Rightarrow> (In_Fail False True, e)
   | In_Data d # rs \<Rightarrow> (In_Data (take sz d), e \<lparr> ep_rd := (if length d \<le> sz then rs else In_Data (drop sz d) # rs) \<rparr>)
   | r # rs \<Rightarrow> (r, e \<lparr> ep_rd := rs \<rparr>))"

datatype relay_status = RW_Done | RW_Again | RW_Fatal

fun relay_write_loop :: "bool \<Rightarrow> io_write list \<Rightarrow> bytes \<Rightarrow> relay_status \<times> bytes \<times> io_write list" where
  "relay_write_loop ssl ws [] = (RW_Done, [], ws)"
| "relay_write_loop ssl [] (b # bs) = (RW_Again, [], [])"
| "relay_write_loop ssl (Out_Fail want er # ws) (b # bs) = (if relay_retry ssl want er then RW_Again else RW_Fatal, [], ws)"
| "relay_write_loop ssl (Out_Sent 0 # ws) (b # bs) = (RW_Fatal, [], ws)"
| "relay_write_loop ssl (Out_Sent (Suc n) # ws) (b # bs) =
     (case relay_write_loop ssl ws (drop (Suc n) (b # bs)) of (st, out, ws') \<Rightarrow> (st, take (Suc n) (b # bs) @ out, ws'))"

definition write_end :: "bool \<Rightarrow> bytes \<Rightarrow> endpoint \<Rightarrow> relay_status \<times> endpoint" where
  "write_end ssl d e = (case relay_write_loop ssl (ep_wr e) d of (st, out, ws) \<Rightarrow> (st, e \<lparr> ep_wr := ws, ep_out := ep_out e @ out \<rparr>))"

text \<open>
  One direction of \<^verbatim>\<open>pf_tproxy_relay\<close>: whether the connection goes on, the connection, and the data
  handed to the inspection callback.
\<close>

definition relay_request :: "pf_connection \<Rightarrow> bool \<times> pf_connection \<times> bytes option" where
  "relay_request c = (case relay_read PF_BUF_SIZE (cn_client c) of (r, src) \<Rightarrow>
     let c = c \<lparr> cn_client := src \<rparr> in
     (case r of
        In_Data d \<Rightarrow> if d = [] then (False, c, None)
          else (case write_end (side_ssl c False) d (cn_proxy c) of (st, dst) \<Rightarrow>
            let c = c \<lparr> cn_proxy := dst \<rparr> in
            if st = RW_Fatal then (False, c, None)
            else (True, c \<lparr> cn_bytes_tx := cn_bytes_tx c + of_nat (length d) \<rparr>, if cn_inspect c then Some d else None))
      | In_Zero \<Rightarrow> (False, c, None)
      | In_Fail want er \<Rightarrow> (relay_retry (side_ssl c True) want er, c, None)))"

definition relay_response :: "pf_connection \<Rightarrow> bool \<times> pf_connection \<times> bytes option" where
  "relay_response c = (case relay_read PF_BUF_SIZE (cn_proxy c) of (r, src) \<Rightarrow>
     let c = c \<lparr> cn_proxy := src \<rparr> in
     (case r of
        In_Data d \<Rightarrow> if d = [] then (False, c, None)
          else (case write_end (side_ssl c True) d (cn_client c) of (st, dst) \<Rightarrow>
            let c = c \<lparr> cn_client := dst \<rparr> in
            if st = RW_Fatal then (False, c, None)
            else (True, c \<lparr> cn_bytes_rx := cn_bytes_rx c + of_nat (length d) \<rparr>, if cn_inspect c then Some d else None))
      | In_Zero \<Rightarrow> (False, c, None)
      | In_Fail want er \<Rightarrow> (relay_retry (side_ssl c False) want er, c, None)))"

text \<open>\<open>cb\<close> says whether an inspection callback is set.\<close>

definition capture :: "bool \<Rightarrow> bool \<Rightarrow> bytes option \<Rightarrow> pf_connection \<Rightarrow> pf_tproxy \<Rightarrow> pf_tproxy" where
  "capture cb is_request d c tp = (case d of
     Some d \<Rightarrow> if cb then tp \<lparr> tp_captured := tp_captured tp @ [(d, is_request, c)] \<rparr> else tp
   | None \<Rightarrow> tp)"

definition put_conn :: "nat \<Rightarrow> pf_connection \<Rightarrow> pf_tproxy \<Rightarrow> pf_tproxy" where
  "put_conn idx c tp = tp \<lparr> tp_conns := (tp_conns tp)[idx := c] \<rparr>"

definition pf_tproxy_relay :: "bool \<Rightarrow> nat \<Rightarrow> pf_tproxy \<Rightarrow> bool \<times> pf_tproxy" where
  "pf_tproxy_relay cb idx tp =
     (if idx \<ge> PF_MAX_CONNECTIONS then (False, tp)
      else let c = tp_conns tp ! idx in
        if \<not> cn_active c \<or> cn_client_fd c < 0 \<or> cn_proxy_fd c < 0 then (False, tp)
        else (case relay_request c of (ok, c, d) \<Rightarrow>
          if \<not> ok then (False, pf_tproxy_close_conn idx (put_conn idx c tp))
          else let tp = capture cb True d c (put_conn idx c tp) in
            (case relay_response c of (ok, c, d) \<Rightarrow>
               if \<not> ok then (False, pf_tproxy_close_conn idx (put_conn idx c tp))
               else (True, capture cb False d c (put_conn idx c tp)))))"

section \<open>The event loop\<close>

text \<open>Which connection a readable descriptor belongs to, and the loop's reaction to a failed relay.\<close>

definition main_find_conn :: "pf_tproxy \<Rightarrow> int \<Rightarrow> nat option" where
  "main_find_conn tp fd = find_index (\<lambda>c. cn_active c \<and> (cn_client_fd c = fd \<or> cn_proxy_fd c = fd)) (tp_conns tp)"

definition main_relay :: "bool \<Rightarrow> int \<Rightarrow> pf_tproxy \<Rightarrow> pf_tproxy" where
  "main_relay cb fd tp = (case main_find_conn tp fd of
     None \<Rightarrow> tp
   | Some i \<Rightarrow> (case pf_tproxy_relay cb i tp of (ok, tp') \<Rightarrow> if ok then tp' else pf_tproxy_close_conn i tp'))"

section \<open>The table invariant\<close>

definition own_fds :: "pf_connection \<Rightarrow> int multiset" where
  "own_fds c = (if cn_active c then mset (conn_fds c) else {#})"

definition table_fds :: "pf_tproxy \<Rightarrow> int multiset" where
  "table_fds tp = sum_list (map own_fds (tp_conns tp))"

definition n_active :: "pf_tproxy \<Rightarrow> nat" where
  "n_active tp = sum_list (map (\<lambda>c. if cn_active c then 1 else 0) (tp_conns tp))"

text \<open>An active connection has both descriptors; TLS sessions exist only in pairs and under
  inspection, and an inspected connection that speaks TLS has them.\<close>

definition conn_ok :: "pf_connection \<Rightarrow> bool" where
  "conn_ok c \<longleftrightarrow> (if cn_active c then 0 \<le> cn_client_fd c \<and> 0 \<le> cn_proxy_fd c else \<not> cn_inspect c)
     \<and> (cn_client_ssl c \<longleftrightarrow> cn_server_ssl c) \<and> (cn_client_ssl c \<longrightarrow> cn_inspect c)
     \<and> (cn_inspect c \<and> cn_is_tls c \<longrightarrow> cn_client_ssl c)"

definition tp_inv :: "int list \<Rightarrow> pf_tproxy \<Rightarrow> bool" where
  "tp_inv opened tp \<longleftrightarrow> length (tp_conns tp) = PF_MAX_CONNECTIONS \<and> tp_conn_count tp = int (n_active tp)
     \<and> (\<forall>c \<in> set (tp_conns tp). conn_ok c) \<and> mset opened = table_fds tp + mset (tp_closed tp)"

text \<open>The descriptors that come into being with an accepted connection.\<close>

definition opened_fds :: "connect_cb option \<Rightarrow> accept_env \<Rightarrow> int list" where
  "opened_fds cb e = ae_cfd e # (case ae_orig e of None \<Rightarrow> [] | Some (ip, port) \<Rightarrow>
     (case cb of None \<Rightarrow> [] | Some f \<Rightarrow>
        let fd = f (inet_ntop4 ip) (int (unat port)) (peek_domain (take 4096 (ae_peek e))) in
        if fd \<ge> 0 then [fd] else if fd \<noteq> -2 \<and> ae_direct_fd e \<ge> 0 then [ae_direct_fd e] else []))"

inductive tp_reach :: "int list \<Rightarrow> pf_tproxy \<Rightarrow> bool" where
  start: "tp_reach [] (pf_tproxy_init lfd efd)"
| accept: "tp_reach fds tp \<Longrightarrow> 0 \<le> ae_cfd e \<Longrightarrow> tp_reach (fds @ opened_fds cb e) (snd (tproxy_accept_thread cb m e tp))"
| relay: "tp_reach fds tp \<Longrightarrow> tp_reach fds (snd (pf_tproxy_relay b i tp))"
| close: "tp_reach fds tp \<Longrightarrow> tp_reach fds (pf_tproxy_close_conn i tp)"

lemma tp_inv_init: "tp_inv [] (pf_tproxy_init lfd efd)"
  by (simp add: tp_inv_def pf_tproxy_init_def n_active_def table_fds_def own_fds_def conn_ok_def conn_zero_def)

lemma tp_inv_drop: "tp_inv fds tp \<Longrightarrow> mset new = mset gone \<Longrightarrow> tp_inv (fds @ new) (drop_fds gone tp)"
  by (simp add: tp_inv_def drop_fds_def table_fds_def n_active_def)

lemma n_active_update:
  "i < length (tp_conns tp) \<Longrightarrow> n_active (tp \<lparr> tp_conns := (tp_conns tp)[i := c] \<rparr>) + (if cn_active (tp_conns tp ! i) then 1 else 0)
    = n_active tp + (if cn_active c then 1 else 0)"
  unfolding n_active_def using sum_list_map_update [of i "tp_conns tp" "\<lambda>c. if cn_active c then 1 else 0" c] by simp

lemma table_fds_update:
  "i < length (tp_conns tp) \<Longrightarrow> table_fds (tp \<lparr> tp_conns := (tp_conns tp)[i := c] \<rparr>) + own_fds (tp_conns tp ! i) = table_fds tp + own_fds c"
  unfolding table_fds_def using sum_list_map_update [of i "tp_conns tp" own_fds c] by simp

lemma table_frame [simp]:
  "n_active (tp \<lparr> tp_conn_count := n \<rparr>) = n_active tp" "table_fds (tp \<lparr> tp_conn_count := n \<rparr>) = table_fds tp"
  "n_active (tp \<lparr> tp_closed := fds \<rparr>) = n_active tp" "table_fds (tp \<lparr> tp_closed := fds \<rparr>) = table_fds tp"
  "n_active (tp \<lparr> tp_captured := cs \<rparr>) = n_active tp" "table_fds (tp \<lparr> tp_captured := cs \<rparr>) = table_fds tp"
  by (simp_all add: n_active_def table_fds_def)

lemma conns_ok_update: "\<forall>c \<in> set cs. conn_ok c \<Longrightarrow> conn_ok d \<Longrightarrow> \<forall>c \<in> set (cs[i := d]). conn_ok c"
  by (auto dest!: set_update_subset_insert [THEN subsetD])

lemma tp_inv_claim:
  assumes "tp_inv fds tp" "i < length (tp_conns tp)" "\<not> cn_active (tp_conns tp ! i)" "cn_active c" "conn_ok c"
  shows "tp_inv (fds @ conn_fds c) (claim_slot i c tp)"
proof -
  have "\<forall>d \<in> set ((tp_conns tp)[i := c]). conn_ok d" using assms(1,5) by (intro conns_ok_update) (simp_all add: tp_inv_def)
  thus ?thesis using assms n_active_update [OF assms(2), of c] table_fds_update [OF assms(2), of c]
    by (simp add: tp_inv_def claim_slot_def own_fds_def)
qed

lemma tp_inv_close:
  assumes "tp_inv fds tp"
  shows "tp_inv fds (pf_tproxy_close_conn i tp)"
proof (cases "i < PF_MAX_CONNECTIONS \<and> cn_active (tp_conns tp ! i)")
  case True
  let ?c = "tp_conns tp ! i"
  let ?d = "?c \<lparr> cn_client_ssl := False, cn_server_ssl := False, cn_client_fd := -1, cn_proxy_fd := -1, cn_active := False, cn_inspect := False \<rparr>"
  have l: "i < length (tp_conns tp)" and ok: "conn_ok ?c" using assms True by (auto simp: tp_inv_def)
  have fd: "0 \<le> cn_client_fd ?c" "0 \<le> cn_proxy_fd ?c" using ok True by (auto simp: conn_ok_def)
  have "\<forall>c \<in> set ((tp_conns tp)[i := ?d]). conn_ok c"
    using assms by (intro conns_ok_update) (simp_all add: tp_inv_def, simp add: conn_ok_def)
  moreover have n: "n_active tp = Suc (n_active (tp \<lparr> tp_conns := (tp_conns tp)[i := ?d] \<rparr>))" using n_active_update [OF l, of ?d] True by simp
  moreover have "table_fds tp = table_fds (tp \<lparr> tp_conns := (tp_conns tp)[i := ?d] \<rparr>) + mset (conn_fds ?c)"
    using table_fds_update [OF l, of ?d] True by (simp add: own_fds_def)
  moreover have "pf_tproxy_close_conn i tp = tp \<lparr> tp_closed := tp_closed tp @ conn_fds ?c, tp_conns := (tp_conns tp)[i := ?d], tp_conn_count := int (n_active tp) - 1 \<rparr>"
    using True fd assms n by (simp add: pf_tproxy_close_conn_def Let_def tp_inv_def)
  ultimately show ?thesis using assms by (simp add: tp_inv_def n_active_def table_fds_def)
qed (use assms in \<open>auto simp: pf_tproxy_close_conn_def Let_def\<close>)

text \<open>What a relay leaves alone.\<close>

lemma relay_request_frame:
  obtains x y n where "fst (snd (relay_request c)) = c \<lparr> cn_client := x, cn_proxy := y, cn_bytes_tx := n \<rparr>"
proof -
  have "fst (snd (relay_request c)) = c \<lparr> cn_client := cn_client (fst (snd (relay_request c))),
      cn_proxy := cn_proxy (fst (snd (relay_request c))), cn_bytes_tx := cn_bytes_tx (fst (snd (relay_request c))) \<rparr>"
    by (cases c) (simp add: relay_request_def Let_def split: prod.split io_read.split)
  thus ?thesis by (rule that)
qed

lemma relay_response_frame:
  obtains x y n where "fst (snd (relay_response c)) = c \<lparr> cn_client := x, cn_proxy := y, cn_bytes_rx := n \<rparr>"
proof -
  have "fst (snd (relay_response c)) = c \<lparr> cn_client := cn_client (fst (snd (relay_response c))),
      cn_proxy := cn_proxy (fst (snd (relay_response c))), cn_bytes_rx := cn_bytes_rx (fst (snd (relay_response c))) \<rparr>"
    by (cases c) (simp add: relay_response_def Let_def split: prod.split io_read.split)
  thus ?thesis by (rule that)
qed

lemma tp_inv_put:
  assumes "tp_inv fds tp" "i < PF_MAX_CONNECTIONS" "own_fds c = own_fds (tp_conns tp ! i)" "cn_active c = cn_active (tp_conns tp ! i)" "conn_ok c"
  shows "tp_inv fds (put_conn i c tp)"
proof -
  have l: "i < length (tp_conns tp)" using assms(1,2) by (simp add: tp_inv_def)
  have "\<forall>d \<in> set ((tp_conns tp)[i := c]). conn_ok d" using assms(1,5) by (intro conns_ok_update) (simp_all add: tp_inv_def)
  thus ?thesis using assms n_active_update [OF l, of c] table_fds_update [OF l, of c] by (simp add: tp_inv_def put_conn_def)
qed

lemma capture_frame [simp]: "tp_inv fds (capture cb b d c tp) = tp_inv fds tp" "tp_conns (capture cb b d c tp) = tp_conns tp"
  by (simp_all add: capture_def tp_inv_def split: option.split)

lemma relay_frame [simp]:
  "own_fds (fst (snd (relay_request c))) = own_fds c \<and> conn_ok (fst (snd (relay_request c))) = conn_ok c
    \<and> cn_active (fst (snd (relay_request c))) = cn_active c"
  "own_fds (fst (snd (relay_response c))) = own_fds c \<and> conn_ok (fst (snd (relay_response c))) = conn_ok c
    \<and> cn_active (fst (snd (relay_response c))) = cn_active c"
proof -
  obtain x y n where e: "fst (snd (relay_request c)) = c \<lparr> cn_client := x, cn_proxy := y, cn_bytes_tx := n \<rparr>" by (rule relay_request_frame)
  show "own_fds (fst (snd (relay_request c))) = own_fds c \<and> conn_ok (fst (snd (relay_request c))) = conn_ok c
    \<and> cn_active (fst (snd (relay_request c))) = cn_active c" unfolding e by (simp add: own_fds_def conn_fds_def conn_ok_def)
  obtain x y n where f: "fst (snd (relay_response c)) = c \<lparr> cn_client := x, cn_proxy := y, cn_bytes_rx := n \<rparr>" by (rule relay_response_frame)
  show "own_fds (fst (snd (relay_response c))) = own_fds c \<and> conn_ok (fst (snd (relay_response c))) = conn_ok c
    \<and> cn_active (fst (snd (relay_response c))) = cn_active c" unfolding f by (simp add: own_fds_def conn_fds_def conn_ok_def)
qed

lemma tp_inv_relay:
  assumes "tp_inv fds tp"
  shows "tp_inv fds (snd (pf_tproxy_relay cb i tp))"
proof (cases "i < PF_MAX_CONNECTIONS")
  case True
  let ?c = "tp_conns tp ! i"
  let ?q = "relay_request ?c"
  let ?c1 = "fst (snd ?q)" and ?r = "relay_response (fst (snd ?q))"
  let ?t1 = "capture cb True (snd (snd ?q)) ?c1 (put_conn i ?c1 tp)"
  have l: "i < length (tp_conns tp)" and ok: "conn_ok ?c" using assms True by (auto simp: tp_inv_def)
  have inv1: "tp_inv fds (put_conn i ?c1 tp)" using assms True ok by (intro tp_inv_put) simp_all
  hence "tp_inv fds ?t1" by simp
  moreover have "tp_conns ?t1 ! i = ?c1" using l by (simp add: put_conn_def)
  ultimately have inv2: "tp_inv fds (put_conn i (fst (snd ?r)) ?t1)" using True ok by (intro tp_inv_put) simp_all
  show ?thesis using assms True tp_inv_close [OF inv1] tp_inv_close [OF inv2] inv2
    by (simp add: pf_tproxy_relay_def Let_def split_beta)
qed (use assms in \<open>simp add: pf_tproxy_relay_def\<close>)

lemma find_free_slot_Some: "find_free_slot tp = Some i \<Longrightarrow> i < length (tp_conns tp) \<and> \<not> cn_active (tp_conns tp ! i)"
  by (auto simp: find_free_slot_def find_index_Some)

lemma mitm_handshake_frame [simp]:
  "conn_fds (mitm_handshake m e d t c) = conn_fds c" "cn_active (mitm_handshake m e d t c) = cn_active c"
  by (simp_all add: mitm_handshake_def conn_fds_def)

lemma new_conn_ok: "0 \<le> ae_cfd e \<Longrightarrow> 0 \<le> fd \<Longrightarrow> conn_ok (mitm_handshake m e d t (new_conn e ip p d' t fd))"
  by (simp add: mitm_handshake_def new_conn_def conn_ok_def)

lemma tp_inv_accept:
  assumes "tp_inv fds tp" "0 \<le> ae_cfd e"
  shows "tp_inv (fds @ opened_fds cb e) (snd (tproxy_accept_thread cb m e tp))"
proof (cases "ae_orig e")
  case None
  thus ?thesis using assms(1) by (simp add: tproxy_accept_thread_def opened_fds_def tp_inv_drop)
next
  case (Some a)
  obtain ip port where a: "a = (ip, port)" by (cases a)
  let ?ip = "inet_ntop4 ip" and ?p = "int (unat port)" and ?k = "take 4096 (ae_peek e)"
  show ?thesis
  proof (cases "tproxy_connect cb e ?ip ?p (peek_domain ?k)")
    case (Inl gone)
    hence "mset (opened_fds cb e) = mset gone" using Some a
      by (auto simp: tproxy_connect_def opened_fds_def Let_def split: option.splits if_splits)
    thus ?thesis using Inl Some a tp_inv_drop [OF assms(1)] by (simp add: tproxy_accept_thread_def Let_def)
  next
    case (Inr fd)
    hence o: "opened_fds cb e = [ae_cfd e, fd]" and fd: "0 \<le> fd" using Some a
      by (auto simp: tproxy_connect_def opened_fds_def Let_def split: option.splits if_splits)
    show ?thesis
    proof (cases "find_free_slot tp")
      case None
      thus ?thesis using Inr Some a o tp_inv_drop [OF assms(1), of "[ae_cfd e, fd]" "[fd, ae_cfd e]"]
        by (simp add: tproxy_accept_thread_def Let_def add_mset_commute)
    next
      case (Some i)
      let ?c = "mitm_handshake m e (peek_domain ?k) (peek_tls ?k) (new_conn e ?ip ?p (peek_domain ?k) (peek_tls ?k) fd)"
      have "conn_fds ?c = [ae_cfd e, fd]" using assms(2) fd by (simp only: mitm_handshake_frame) (simp add: conn_fds_def new_conn_def)
      moreover have "tp_inv (fds @ conn_fds ?c) (claim_slot i ?c tp)"
        using find_free_slot_Some [OF Some] by (intro tp_inv_claim assms(1) new_conn_ok [OF assms(2) fd]) (simp_all add: new_conn_def)
      ultimately show ?thesis using Inr Some \<open>ae_orig e = Some a\<close> a o by (simp add: tproxy_accept_thread_def Let_def)
    qed
  qed
qed

lemma tp_reach_inv: "tp_reach fds tp \<Longrightarrow> tp_inv fds tp"
  by (induction rule: tp_reach.induct) (simp_all add: tp_inv_init tp_inv_accept tp_inv_relay tp_inv_close)

section \<open>What a relay copies\<close>

lemma relay_write_prefix:
  "prefix (fst (snd (relay_write_loop ssl ws d))) d \<and> (fst (relay_write_loop ssl ws d) = RW_Done \<longleftrightarrow> fst (snd (relay_write_loop ssl ws d)) = d)"
proof (induction ssl ws d rule: relay_write_loop.induct)
  case (5 ssl n ws b bs)
  thus ?case by (simp only: relay_write_loop.simps split_beta fst_conv snd_conv prefix_take_append)
qed simp_all

definition willing :: "nat \<Rightarrow> io_write list \<Rightarrow> bool" where
  "willing n ws \<longleftrightarrow> n \<le> length ws \<and> (\<forall>w \<in> set ws. \<exists>k. w = Out_Sent (Suc k))"

lemma relay_write_willing:
  "willing (length d + m) ws \<Longrightarrow> \<exists>ws'. relay_write_loop ssl ws d = (RW_Done, d, ws') \<and> willing m ws'"
proof (induction ssl ws d rule: relay_write_loop.induct)
  case (5 ssl n ws b bs)
  have "willing (length (drop (Suc n) (b # bs)) + m) ws" using 5(2) by (auto simp: willing_def)
  then obtain ws' where "relay_write_loop ssl ws (drop (Suc n) (b # bs)) = (RW_Done, drop (Suc n) (b # bs), ws')" "willing m ws'"
    using 5(1) by blast
  thus ?case by simp
qed (auto simp: willing_def)

text \<open>
  A direction of a connection in which \<open>out\<close> has been written and \<open>pending\<close> is still to come, from a
  reader that delivers it in any chunks to a writer that accepts something each time.
\<close>

definition flow :: "endpoint \<Rightarrow> endpoint \<Rightarrow> bytes \<Rightarrow> bytes \<Rightarrow> bool" where
  "flow src dst out pending \<longleftrightarrow> ep_out dst = out \<and> willing (length pending) (ep_wr dst)
     \<and> (\<exists>ds. ep_rd src = map In_Data ds \<and> [] \<notin> set ds \<and> concat ds = pending)"

lemma flow_step:
  assumes "flow src dst out pending"
  obtains "pending = []" "relay_read PF_BUF_SIZE src = (In_Fail False True, src)"
  | j d src' where "0 < j" "j \<le> length pending" "d = take j pending" "relay_read PF_BUF_SIZE src = (In_Data d, src')"
      "ep_out src' = ep_out src" "ep_wr src' = ep_wr src"
      "fst (write_end ssl d dst) = RW_Done" "flow src' (snd (write_end ssl d dst)) (out @ d) (drop j pending)" "ep_rd (snd (write_end ssl d dst)) = ep_rd dst"
proof -
  obtain ds where ds: "ep_rd src = map In_Data ds" "[] \<notin> set ds" "concat ds = pending" using assms by (auto simp: flow_def)
  show ?thesis
  proof (cases ds)
    case Nil
    thus ?thesis using ds by (intro that(1)) (auto simp: relay_read_def)
  next
    case (Cons c cs)
    define d where "d = take PF_BUF_SIZE c"
    define ds' where "ds' = (if length c \<le> PF_BUF_SIZE then cs else drop PF_BUF_SIZE c # cs)"
    have c: "c \<noteq> []" "[] \<notin> set cs" using ds Cons by auto
    have p: "pending = d @ concat ds'" using ds(3) Cons by (auto simp: d_def ds'_def append_assoc [symmetric] simp del: append_assoc)
    have "willing (length d + length (concat ds')) (ep_wr dst)" using assms by (simp add: flow_def p)
    then obtain ws where w: "relay_write_loop ssl (ep_wr dst) d = (RW_Done, d, ws)" "willing (length (concat ds')) ws"
      using relay_write_willing by blast
    show ?thesis
    proof (rule that(2) [of "length d" d "src \<lparr> ep_rd := map In_Data ds' \<rparr>"])
      show "0 < length d" using c by (auto simp: d_def PF_BUF_SIZE_def)
      show "relay_read PF_BUF_SIZE src = (In_Data d, src \<lparr> ep_rd := map In_Data ds' \<rparr>)"
        using ds(1) Cons by (simp add: relay_read_def d_def ds'_def)
      have "[] \<notin> set ds'" using c by (auto simp: ds'_def)
      thus "flow (src \<lparr> ep_rd := map In_Data ds' \<rparr>) (snd (write_end ssl d dst)) (out @ d) (drop (length d) pending)"
        using assms w by (auto simp: flow_def write_end_def p)
    qed (use w in \<open>simp_all add: p write_end_def\<close>)
  qed
qed

definition relaying :: "pf_connection \<Rightarrow> bytes \<Rightarrow> bytes \<Rightarrow> bytes \<Rightarrow> bytes \<Rightarrow> bool" where
  "relaying c po ci co pi \<longleftrightarrow> cn_active c \<and> 0 \<le> cn_client_fd c \<and> 0 \<le> cn_proxy_fd c
     \<and> flow (cn_client c) (cn_proxy c) po ci \<and> flow (cn_proxy c) (cn_client c) co pi"

definition cap_of :: "bytes option \<Rightarrow> bytes" where "cap_of d = (case d of Some d \<Rightarrow> d | None \<Rightarrow> [])"

lemma flow_frame: "flow src dst out p \<Longrightarrow> ep_rd src' = ep_rd src \<Longrightarrow> ep_out dst' = ep_out dst \<Longrightarrow> ep_wr dst' = ep_wr dst \<Longrightarrow> flow src' dst' out p"
  by (simp add: flow_def)

lemma relay_request_step:
  assumes "relaying c po ci co pi"
  obtains j where "j \<le> length ci" "ci \<noteq> [] \<longrightarrow> 0 < j" "fst (relay_request c)"
    "relaying (fst (snd (relay_request c))) (po @ take j ci) (drop j ci) co pi"
    "cn_bytes_tx (fst (snd (relay_request c))) = cn_bytes_tx c + of_nat j" "cn_bytes_rx (fst (snd (relay_request c))) = cn_bytes_rx c"
    "cn_inspect (fst (snd (relay_request c))) = cn_inspect c" "cap_of (snd (snd (relay_request c))) = (if cn_inspect c then take j ci else [])"
proof -
  have f: "flow (cn_client c) (cn_proxy c) po ci" and g: "flow (cn_proxy c) (cn_client c) co pi" using assms by (auto simp: relaying_def)
  from f show ?thesis
  proof (cases rule: flow_step [where ssl = "side_ssl c False"])
    case 1
    hence "relay_request c = (True, c \<lparr> cn_client := cn_client c \<rparr>, None)" by (simp add: relay_request_def relay_retry_def)
    moreover have "c \<lparr> cn_client := cn_client c \<rparr> = c" by simp
    ultimately show ?thesis using assms 1 by (intro that [of 0]) (auto simp: cap_of_def)
  next
    case (2 j d src')
    let ?dst = "snd (write_end (side_ssl c False) d (cn_proxy c))"
    let ?c = "c \<lparr> cn_client := src', cn_proxy := ?dst, cn_bytes_tx := cn_bytes_tx c + of_nat (length d) \<rparr>"
    have s: "side_ssl (c \<lparr> cn_client := src' \<rparr>) False = side_ssl c False" by (simp add: side_ssl_def)
    have "d \<noteq> []" using 2 by auto
    hence r: "relay_request c = (True, ?c, if cn_inspect c then Some d else None)"
      using 2 s by (simp add: relay_request_def Let_def split_beta)
    have "flow ?dst src' co pi" using flow_frame [OF g] 2 by simp
    thus ?thesis using 2 assms r by (intro that [of j]) (auto simp: relaying_def cap_of_def)
  qed
qed

lemma relay_response_step:
  assumes "relaying c po ci co pi"
  obtains j where "j \<le> length pi" "pi \<noteq> [] \<longrightarrow> 0 < j" "fst (relay_response c)"
    "relaying (fst (snd (relay_response c))) po ci (co @ take j pi) (drop j pi)"
    "cn_bytes_rx (fst (snd (relay_response c))) = cn_bytes_rx c + of_nat j" "cn_bytes_tx (fst (snd (relay_response c))) = cn_bytes_tx c"
    "cn_inspect (fst (snd (relay_response c))) = cn_inspect c" "cap_of (snd (snd (relay_response c))) = (if cn_inspect c then take j pi else [])"
proof -
  have f: "flow (cn_client c) (cn_proxy c) po ci" and g: "flow (cn_proxy c) (cn_client c) co pi" using assms by (auto simp: relaying_def)
  from g show ?thesis
  proof (cases rule: flow_step [where ssl = "side_ssl c True"])
    case 1
    hence "relay_response c = (True, c \<lparr> cn_proxy := cn_proxy c \<rparr>, None)" by (simp add: relay_response_def relay_retry_def)
    moreover have "c \<lparr> cn_proxy := cn_proxy c \<rparr> = c" by simp
    ultimately show ?thesis using assms 1 by (intro that [of 0]) (auto simp: cap_of_def)
  next
    case (2 j d src')
    let ?dst = "snd (write_end (side_ssl c True) d (cn_client c))"
    let ?c = "c \<lparr> cn_proxy := src', cn_client := ?dst, cn_bytes_rx := cn_bytes_rx c + of_nat (length d) \<rparr>"
    have s: "side_ssl (c \<lparr> cn_proxy := src' \<rparr>) True = side_ssl c True" by (simp add: side_ssl_def)
    have "d \<noteq> []" using 2 by auto
    hence r: "relay_response c = (True, ?c, if cn_inspect c then Some d else None)"
      using 2 s by (simp add: relay_response_def Let_def split_beta)
    have "flow ?dst src' po ci" using flow_frame [OF f] 2 by simp
    thus ?thesis using 2 assms r by (intro that [of j]) (auto simp: relaying_def cap_of_def)
  qed
qed

text \<open>The same in the table, with the bytes handed to the inspection callback.\<close>

definition captured_bytes :: "bool \<Rightarrow> pf_tproxy \<Rightarrow> bytes" where
  "captured_bytes req tp = concat (map fst (filter (\<lambda>(d, r, c). r = req) (tp_captured tp)))"

lemma captured_bytes_capture [simp]:
  "captured_bytes r (capture cb q d c tp) = captured_bytes r tp @ (if cb \<and> r = q then cap_of d else [])"
  by (simp add: captured_bytes_def capture_def cap_of_def split: option.split)

lemma captured_bytes_put [simp]: "captured_bytes r (put_conn i c tp) = captured_bytes r tp"
  by (simp add: captured_bytes_def put_conn_def)

definition relay_at :: "nat \<Rightarrow> pf_tproxy \<Rightarrow> bytes \<Rightarrow> bytes \<Rightarrow> bytes \<Rightarrow> bytes \<Rightarrow> u64 \<Rightarrow> u64 \<Rightarrow> bool \<Rightarrow> bytes \<Rightarrow> bytes \<Rightarrow> bool" where
  "relay_at i tp po ci co pi tx rx insp qs ss \<longleftrightarrow> i < PF_MAX_CONNECTIONS \<and> i < length (tp_conns tp) \<and> relaying (tp_conns tp ! i) po ci co pi
     \<and> cn_bytes_tx (tp_conns tp ! i) = tx \<and> cn_bytes_rx (tp_conns tp ! i) = rx \<and> cn_inspect (tp_conns tp ! i) = insp
     \<and> captured_bytes True tp = qs \<and> captured_bytes False tp = ss"

lemma relay_table_step:
  assumes "relay_at i tp po ci co pi tx rx insp qs ss"
  obtains j k where "j \<le> length ci" "ci \<noteq> [] \<longrightarrow> 0 < j" "k \<le> length pi" "pi \<noteq> [] \<longrightarrow> 0 < k" "fst (pf_tproxy_relay cb i tp)"
    "relay_at i (snd (pf_tproxy_relay cb i tp)) (po @ take j ci) (drop j ci) (co @ take k pi) (drop k pi) (tx + of_nat j) (rx + of_nat k) insp
       (qs @ (if cb \<and> insp then take j ci else [])) (ss @ (if cb \<and> insp then take k pi else []))"
proof -
  let ?c = "tp_conns tp ! i"
  have r: "relaying ?c po ci co pi" and l: "i < PF_MAX_CONNECTIONS" "i < length (tp_conns tp)" using assms by (auto simp: relay_at_def)
  obtain j where j: "j \<le> length ci" "ci \<noteq> [] \<longrightarrow> 0 < j" "fst (relay_request ?c)"
    "relaying (fst (snd (relay_request ?c))) (po @ take j ci) (drop j ci) co pi"
    "cn_bytes_tx (fst (snd (relay_request ?c))) = cn_bytes_tx ?c + of_nat j" "cn_bytes_rx (fst (snd (relay_request ?c))) = cn_bytes_rx ?c"
    "cn_inspect (fst (snd (relay_request ?c))) = cn_inspect ?c" "cap_of (snd (snd (relay_request ?c))) = (if cn_inspect ?c then take j ci else [])"
    by (rule relay_request_step [OF r])
  let ?d = "fst (snd (relay_request ?c))"
  obtain k where k: "k \<le> length pi" "pi \<noteq> [] \<longrightarrow> 0 < k" "fst (relay_response ?d)"
    "relaying (fst (snd (relay_response ?d))) (po @ take j ci) (drop j ci) (co @ take k pi) (drop k pi)"
    "cn_bytes_rx (fst (snd (relay_response ?d))) = cn_bytes_rx ?d + of_nat k" "cn_bytes_tx (fst (snd (relay_response ?d))) = cn_bytes_tx ?d"
    "cn_inspect (fst (snd (relay_response ?d))) = cn_inspect ?d" "cap_of (snd (snd (relay_response ?d))) = (if cn_inspect ?d then take k pi else [])"
    by (rule relay_response_step [OF j(4)])
  have "cn_active ?c" "0 \<le> cn_client_fd ?c" "0 \<le> cn_proxy_fd ?c" using r by (auto simp: relaying_def)
  hence p: "pf_tproxy_relay cb i tp = (True, capture cb False (snd (snd (relay_response ?d))) (fst (snd (relay_response ?d)))
      (put_conn i (fst (snd (relay_response ?d))) (capture cb True (snd (snd (relay_request ?c))) ?d (put_conn i ?d tp))))"
    using l j(3) k(3) by (simp add: pf_tproxy_relay_def Let_def split_beta)
  have i: "tp_conns (snd (pf_tproxy_relay cb i tp)) ! i = fst (snd (relay_response ?d))"
    "length (tp_conns (snd (pf_tproxy_relay cb i tp))) = length (tp_conns tp)" unfolding p using l by (simp_all add: put_conn_def)
  show ?thesis
  proof (rule that [of j k])
    show "relay_at i (snd (pf_tproxy_relay cb i tp)) (po @ take j ci) (drop j ci) (co @ take k pi) (drop k pi) (tx + of_nat j) (rx + of_nat k) insp
       (qs @ (if cb \<and> insp then take j ci else [])) (ss @ (if cb \<and> insp then take k pi else []))"
      unfolding relay_at_def i using assms l j(5-8) k(4-8) by (simp add: p relay_at_def)
  qed (use j k p in simp_all)
qed

lemma relay_run:
  assumes "relay_at i tp po ci co pi tx rx insp qs ss" "length ci \<le> n" "length pi \<le> n"
  shows "relay_at i (((\<lambda>tp. snd (pf_tproxy_relay cb i tp)) ^^ n) tp) (po @ ci) [] (co @ pi) [] (tx + of_nat (length ci)) (rx + of_nat (length pi)) insp
    (qs @ (if cb \<and> insp then ci else [])) (ss @ (if cb \<and> insp then pi else []))"
  using assms
proof (induction n arbitrary: tp po ci co pi tx rx qs ss)
  case (Suc n)
  obtain j k where jk: "j \<le> length ci" "ci \<noteq> [] \<longrightarrow> 0 < j" "k \<le> length pi" "pi \<noteq> [] \<longrightarrow> 0 < k"
    and at: "relay_at i (snd (pf_tproxy_relay cb i tp)) (po @ take j ci) (drop j ci) (co @ take k pi) (drop k pi) (tx + of_nat j) (rx + of_nat k) insp
       (qs @ (if cb \<and> insp then take j ci else [])) (ss @ (if cb \<and> insp then take k pi else []))"
    by (rule relay_table_step [OF Suc.prems(1), of cb])
  have "length (drop j ci) \<le> n" "length (drop k pi) \<le> n" using Suc.prems(2,3) jk by (cases ci; cases pi; auto)+
  note IH = Suc.IH [OF at this]
  have len: "tx + of_nat j + of_nat (length (drop j ci)) = tx + of_nat (length ci)" "rx + of_nat k + of_nat (length (drop k pi)) = rx + of_nat (length pi)"
    using jk by (simp_all add: add.assoc flip: of_nat_add)
  show ?case using IH unfolding len by (cases "cb \<and> insp") (auto simp: funpow_Suc_right simp del: funpow.simps)
qed (simp add: relay_at_def)

lemma close_conn_table:
  assumes "i < PF_MAX_CONNECTIONS" "i < length (tp_conns tp)"
  shows "length (tp_conns (pf_tproxy_close_conn i tp)) = length (tp_conns tp) \<and> \<not> cn_active (tp_conns (pf_tproxy_close_conn i tp) ! i)
    \<and> (\<forall>j. j \<noteq> i \<longrightarrow> tp_conns (pf_tproxy_close_conn i tp) ! j = tp_conns tp ! j)"
  using assms by (simp add: pf_tproxy_close_conn_def Let_def)

lemma relay_fail_closes:
  assumes "\<not> fst (pf_tproxy_relay cb i tp)" "i < PF_MAX_CONNECTIONS" "i < length (tp_conns tp)" "conn_ok (tp_conns tp ! i)"
  shows "length (tp_conns (snd (pf_tproxy_relay cb i tp))) = length (tp_conns tp) \<and> \<not> cn_active (tp_conns (snd (pf_tproxy_relay cb i tp)) ! i)
    \<and> (\<forall>j. j \<noteq> i \<longrightarrow> tp_conns (snd (pf_tproxy_relay cb i tp)) ! j = tp_conns tp ! j)"
proof (cases "cn_active (tp_conns tp ! i)")
  case True
  let ?q = "relay_request (tp_conns tp ! i)"
  let ?t = "capture cb True (snd (snd ?q)) (fst (snd ?q)) (put_conn i (fst (snd ?q)) tp)"
  have "0 \<le> cn_client_fd (tp_conns tp ! i)" "0 \<le> cn_proxy_fd (tp_conns tp ! i)" using True assms(4) by (auto simp: conn_ok_def)
  hence "snd (pf_tproxy_relay cb i tp) = pf_tproxy_close_conn i (put_conn i (fst (snd ?q)) tp)
    \<or> snd (pf_tproxy_relay cb i tp) = pf_tproxy_close_conn i (put_conn i (fst (snd (relay_response (fst (snd ?q))))) ?t)"
    using assms(1,2) True by (auto simp: pf_tproxy_relay_def Let_def split_beta split: if_splits)
  thus ?thesis using close_conn_table [of i "put_conn i (fst (snd ?q)) tp"] close_conn_table [of i "put_conn i (fst (snd (relay_response (fst (snd ?q))))) ?t"]
    assms(2,3) by (auto simp: put_conn_def)
qed (use assms in \<open>simp add: pf_tproxy_relay_def\<close>)

lemma relay_closed_peer:
  assumes "i < PF_MAX_CONNECTIONS" "tp_conns tp ! i = c" "cn_active c" "0 \<le> cn_client_fd c" "0 \<le> cn_proxy_fd c"
    and "ep_rd (cn_client c) = []" "ep_rd (cn_proxy c) = In_Zero # rs"
  shows "\<not> fst (pf_tproxy_relay cb i tp)"
  using assms by (simp add: pf_tproxy_relay_def relay_request_def relay_response_def relay_read_def relay_retry_def Let_def)

lemma mitm_handshake_ends [simp]:
  "cn_client_fd (mitm_handshake m e d t c) = cn_client_fd c" "cn_proxy_fd (mitm_handshake m e d t c) = cn_proxy_fd c"
  "cn_client (mitm_handshake m e d t c) = cn_client c" "cn_proxy (mitm_handshake m e d t c) = cn_proxy c"
  by (simp_all add: mitm_handshake_def)

section \<open>Composition with routing\<close>

text \<open>The callback that \<^verbatim>\<open>main\<close> installs, with \<open>fd\<close> the number of the descriptor it opens.\<close>

definition main_connect_cb ::
  "fnm_env \<Rightarrow> (bytes \<Rightarrow> string) \<Rightarrow> network \<Rightarrow> (nat \<Rightarrow> faults) \<Rightarrow> pf_db \<Rightarrow> int \<Rightarrow> pf_dns \<Rightarrow> pf_rule list \<Rightarrow> log_ring \<Rightarrow> int \<Rightarrow> connect_cb" where
  "main_connect_cb E evp net ok db now dns rs g fd dst_ip dst_port domain =
     (case fst (proxy_connect_for_tproxy E evp net ok db now dns rs dst_ip dst_port domain g) of R_BLOCK \<Rightarrow> -2 | R_DIRECT \<Rightarrow> -1 | R_FD \<Rightarrow> fd)"

lemma peek_hello:
  assumes "hello_wf h" "length (hello_record h) \<le> 4096" "ae_peek e = hello_record h @ t"
  shows "peek_tls (take 4096 (ae_peek e))" "peek_domain (take 4096 (ae_peek e)) = cstring (take (PF_DOMAIN_MAX - 1) (hello_host h))"
proof -
  have k: "take 4096 (ae_peek e) = hello_record h @ take (4096 - length (hello_record h)) t" using assms(2,3) by simp
  show tls: "peek_tls (take 4096 (ae_peek e))" unfolding k by (simp add: peek_tls_def hello_record_def)
  show "peek_domain (take 4096 (ae_peek e)) = cstring (take (PF_DOMAIN_MAX - 1) (hello_host h))"
    using tls pf_sni_extract_hello [OF assms(1), of PF_DOMAIN_MAX] unfolding peek_domain_def k by (simp add: PF_DOMAIN_MAX_def)
qed

section \<open>Properties\<close>

text \<open>
  C4: the connection table is consistent in every state the daemon reaches: the count is the number of
  active slots of the 1024; active connections have both descriptors; TLS sessions exist in pairs and
  only under inspection, and an inspected connection that speaks TLS has them, so that ciphertext is
  never handed to the inspector; and every descriptor that was opened for a connection is either in
  the table or has been closed exactly once.
\<close>

theorem tproxy_table_invariant: "tp_reach fds tp \<Longrightarrow> tp_inv fds tp"
  by (rule tp_reach_inv)

definition demo_accept :: accept_env where
  "demo_accept = \<lparr> ae_cfd = 7, ae_orig = Some (0x0A010203, 443), ae_peek = hello_record demo_hello, ae_direct_fd = 8, ae_direct_ok = True,
     ae_client = no_endpoint, ae_proxy = no_endpoint \<lparr> ep_rd := [In_Zero] \<rparr>, ae_wrap_server = True, ae_wrap_client = True \<rparr>"

theorem tproxy_table_invariant_witness:
  "tp_inv [7, 8] (snd (pf_tproxy_relay True 0 (snd (tproxy_accept_thread (Some (\<lambda>_ _ _. -1)) \<lparr> mi_enabled = True, mi_ca_key = True \<rparr> demo_accept (pf_tproxy_init 3 4)))))"
proof -
  let ?m = "\<lparr> mi_enabled = True, mi_ca_key = True \<rparr>" and ?cb = "Some (\<lambda>_ _ _. -1)"
  have "tp_reach ([] @ opened_fds ?cb demo_accept) (snd (pf_tproxy_relay True 0 (snd (tproxy_accept_thread ?cb ?m demo_accept (pf_tproxy_init 3 4)))))"
    by (intro tp_reach.relay tp_reach.accept tp_reach.start) (simp add: demo_accept_def)
  moreover have "opened_fds ?cb demo_accept = [7, 8]" by (simp add: opened_fds_def demo_accept_def)
  ultimately show ?thesis using tproxy_table_invariant by fastforce
qed

text \<open>
  C15: as long as the two ends take something at every write, relaying copies both streams completely and
  in order, however the reads are cut: after as many calls as the longer stream has bytes, each end
  has received the whole stream of the other, the byte counters say so, the connection is still open,
  and under inspection exactly these bytes have been handed to the inspector.
\<close>

theorem relay_copies_streams:
  assumes "i < PF_MAX_CONNECTIONS" "i < length (tp_conns tp)" "tp_conns tp ! i = c" "cn_active c" "0 \<le> cn_client_fd c" "0 \<le> cn_proxy_fd c"
    and "ep_rd (cn_client c) = map In_Data ds" "ep_rd (cn_proxy c) = map In_Data es" "[] \<notin> set (ds @ es)"
    and "willing (length (concat ds)) (ep_wr (cn_proxy c))" "willing (length (concat es)) (ep_wr (cn_client c))"
    and "length (concat ds) \<le> n" "length (concat es) \<le> n"
    and "tp' = ((\<lambda>tp. snd (pf_tproxy_relay cb i tp)) ^^ n) tp" "c' = tp_conns tp' ! i"
  shows "cn_active c' \<and> ep_out (cn_proxy c') = ep_out (cn_proxy c) @ concat ds \<and> ep_out (cn_client c') = ep_out (cn_client c) @ concat es
    \<and> cn_bytes_tx c' = cn_bytes_tx c + of_nat (length (concat ds)) \<and> cn_bytes_rx c' = cn_bytes_rx c + of_nat (length (concat es))
    \<and> captured_bytes True tp' = captured_bytes True tp @ (if cb \<and> cn_inspect c then concat ds else [])
    \<and> captured_bytes False tp' = captured_bytes False tp @ (if cb \<and> cn_inspect c then concat es else [])"
proof -
  have "relay_at i tp (ep_out (cn_proxy c)) (concat ds) (ep_out (cn_client c)) (concat es) (cn_bytes_tx c) (cn_bytes_rx c) (cn_inspect c)
      (captured_bytes True tp) (captured_bytes False tp)"
    using assms(1-11) by (auto simp: relay_at_def relaying_def flow_def)
  from relay_run [OF this assms(12,13), of cb] show ?thesis using assms(14,15) by (auto simp: relay_at_def relaying_def flow_def)
qed

definition demo_conn :: pf_connection where
  "demo_conn = conn_zero \<lparr> cn_client_fd := 7, cn_proxy_fd := 8, cn_active := True, cn_inspect := True,
     cn_client := \<lparr> ep_rd = [In_Data [1, 2], In_Data [3]], ep_wr = [Out_Sent 9], ep_out = [] \<rparr>,
     cn_proxy := \<lparr> ep_rd = [In_Data [9]], ep_wr = [Out_Sent 1, Out_Sent 1, Out_Sent 4], ep_out = [] \<rparr> \<rparr>"

definition demo_table :: "pf_connection \<Rightarrow> pf_tproxy" where
  "demo_table c = \<lparr> tp_listen_fd = 3, tp_epoll_fd = 4, tp_conns = [c], tp_conn_count = 1, tp_closed = [], tp_captured = [] \<rparr>"

theorem relay_copies_streams_witness:
  "ep_out (cn_proxy (tp_conns (((\<lambda>tp. snd (pf_tproxy_relay True 0 tp)) ^^ 3) (demo_table demo_conn)) ! 0)) = [1, 2, 3]
   \<and> captured_bytes True (((\<lambda>tp. snd (pf_tproxy_relay True 0 tp)) ^^ 3) (demo_table demo_conn)) = [1, 2, 3]"
proof -
  have c: "tp_conns (demo_table demo_conn) ! 0 = demo_conn" "0 < length (tp_conns (demo_table demo_conn))" by (simp_all add: demo_table_def)
  show ?thesis
    using relay_copies_streams [OF _ c(2,1), where ds = "[[1, 2], [3]]" and es = "[[9]]" and n = 3 and cb = True, OF _ _ _ _ _ _ _ _ _ _ _ refl refl]
    by (simp add: demo_conn_def conn_zero_def no_endpoint_def willing_def PF_MAX_CONNECTIONS_def captured_bytes_def demo_table_def)
qed

text \<open>
  A refused write loses data.  When the end written to takes \<open>k\<close> bytes of a chunk and then refuses
  (its buffer is full), the relay reports success, counts the whole chunk as sent and forgets the rest:
  it is neither written nor kept for a later call.
\<close>

theorem relay_loses_refused_bytes:
  assumes "i < PF_MAX_CONNECTIONS" "i < length (tp_conns tp)" "tp_conns tp ! i = c" "cn_active c" "0 \<le> cn_client_fd c" "0 \<le> cn_proxy_fd c"
    and "ep_rd (cn_client c) = [In_Data d]" "ep_rd (cn_proxy c) = []" "ep_wr (cn_proxy c) = Out_Sent k # Out_Fail False True # ws"
    and "0 < k" "k < length d" "length d \<le> PF_BUF_SIZE" "c' = tp_conns (snd (pf_tproxy_relay cb i tp)) ! i"
  shows "fst (pf_tproxy_relay cb i tp) \<and> cn_active c' \<and> ep_out (cn_proxy c') = ep_out (cn_proxy c) @ take k d \<and> ep_rd (cn_client c') = []
    \<and> cn_bytes_tx c' = cn_bytes_tx c + of_nat (length d)"
proof -
  obtain n where n: "k = Suc n" using assms(10) by (cases k) auto
  obtain b bs where b: "d = b # bs" using assms(11) by (cases d) auto
  have "drop k d \<noteq> []" using assms(11) by simp
  then obtain x xs where x: "drop k d = x # xs" by (cases "drop k d") auto
  have w: "relay_write_loop ssl (ep_wr (cn_proxy c)) d = (RW_Again, take k d, ws)" for ssl
    using x unfolding assms(9) n b by (simp add: relay_retry_def)
  let ?c = "c \<lparr> cn_client := (cn_client c) \<lparr> ep_rd := [] \<rparr>, cn_proxy := (cn_proxy c) \<lparr> ep_wr := ws, ep_out := ep_out (cn_proxy c) @ take k d \<rparr>,
      cn_bytes_tx := cn_bytes_tx c + of_nat (length d) \<rparr>"
  have "relay_read PF_BUF_SIZE (cn_client c) = (In_Data d, (cn_client c) \<lparr> ep_rd := [] \<rparr>)" using assms(7,12) by (simp add: relay_read_def)
  hence q: "relay_request c = (True, ?c, if cn_inspect c then Some d else None)"
    using assms(11) by (auto simp: relay_request_def write_end_def w Let_def)
  have "relay_read PF_BUF_SIZE (cn_proxy ?c) = (In_Fail False True, cn_proxy ?c)" using assms(8) by (simp add: relay_read_def)
  hence r: "relay_response ?c = (True, ?c, None)" by (simp add: relay_response_def relay_retry_def)
  have "fst (pf_tproxy_relay cb i tp) \<and> tp_conns (snd (pf_tproxy_relay cb i tp)) ! i = ?c"
    using assms(1-6) q r by (simp add: pf_tproxy_relay_def Let_def capture_def put_conn_def split: option.split)
  thus ?thesis using assms(4,13) by simp
qed

theorem relay_loses_refused_bytes_witness:
  "ep_out (cn_proxy (tp_conns (snd (pf_tproxy_relay True 0 (demo_table (demo_conn \<lparr>
      cn_client := \<lparr> ep_rd = [In_Data [1, 2, 3]], ep_wr = [], ep_out = [] \<rparr>,
      cn_proxy := \<lparr> ep_rd = [], ep_wr = [Out_Sent 1, Out_Fail False True], ep_out = [] \<rparr> \<rparr>)))) ! 0)) = [1]"
proof -
  let ?c = "demo_conn \<lparr> cn_client := \<lparr> ep_rd = [In_Data [1, 2, 3]], ep_wr = [], ep_out = [] \<rparr>,
      cn_proxy := \<lparr> ep_rd = [], ep_wr = [Out_Sent 1, Out_Fail False True], ep_out = [] \<rparr> \<rparr>"
  have c: "tp_conns (demo_table ?c) ! 0 = ?c" "0 < length (tp_conns (demo_table ?c))" by (simp_all add: demo_table_def)
  show ?thesis using relay_loses_refused_bytes [OF _ c(2,1), where d = "[1, 2, 3]" and k = 1 and ws = "[]" and cb = True, OF _ _ _ _ _ _ _ _ _ _ refl]
    by (simp add: demo_conn_def conn_zero_def PF_MAX_CONNECTIONS_def PF_BUF_SIZE_def)
qed

text \<open>
  The event loop can close the wrong connection.  A failed relay has already closed its slot, but
  the loop closes the slot again afterwards; if in between an accept thread has taken the freed slot
  for a new connection, both descriptors of the new connection are closed.
\<close>

theorem second_close_hits_new_connection:
  assumes "tp_reach fds tp" "i < PF_MAX_CONNECTIONS" "\<forall>j < i. cn_active (tp_conns tp ! j)" "\<not> fst (pf_tproxy_relay cb i tp)"
    and "ae_orig e = Some (ip, port)" "f (inet_ntop4 ip) (int (unat port)) (peek_domain (take 4096 (ae_peek e))) = fd" "0 \<le> fd" "0 \<le> ae_cfd e"
    and "tp2 = snd (tproxy_accept_thread (Some f) m e (snd (pf_tproxy_relay cb i tp)))"
  shows "cn_active (tp_conns tp2 ! i) \<and> \<not> cn_active (tp_conns (pf_tproxy_close_conn i tp2) ! i)
    \<and> tp_closed (pf_tproxy_close_conn i tp2) = tp_closed tp2 @ [ae_cfd e, fd]"
proof -
  let ?tp1 = "snd (pf_tproxy_relay cb i tp)"
  have l: "i < length (tp_conns tp)" "conn_ok (tp_conns tp ! i)" using tp_reach_inv [OF assms(1)] assms(2) by (auto simp: tp_inv_def)
  note cl = relay_fail_closes [OF assms(4,2) l]
  have "find_free_slot ?tp1 = Some i" using cl l assms(3) by (auto simp: find_free_slot_def find_index_Some)
  moreover define c where "c = mitm_handshake m e (peek_domain (take 4096 (ae_peek e))) (peek_tls (take 4096 (ae_peek e)))
    (new_conn e (inet_ntop4 ip) (int (unat port)) (peek_domain (take 4096 (ae_peek e))) (peek_tls (take 4096 (ae_peek e))) fd)"
  ultimately have tp2: "tp2 = claim_slot i c ?tp1"
    using assms(5-7,9) by (auto simp: tproxy_accept_thread_def tproxy_connect_def Let_def)
  have "cn_active c" by (simp add: c_def new_conn_def)
  moreover have "conn_fds c = [ae_cfd e, fd]" unfolding c_def mitm_handshake_frame using assms(7,8) by (simp add: conn_fds_def new_conn_def)
  moreover have "tp_conns tp2 ! i = c" using tp2 cl l by (simp add: claim_slot_def)
  moreover have "i < length (tp_conns tp2)" using tp2 cl l by (simp add: claim_slot_def)
  ultimately show ?thesis using assms(2) by (simp add: pf_tproxy_close_conn_def Let_def)
qed

theorem second_close_hits_new_connection_witness:
  "\<exists>tp2. tp_reach [7, 8, 7, 9] tp2 \<and> cn_active (tp_conns tp2 ! 0) \<and> tp_closed (pf_tproxy_close_conn 0 tp2) = tp_closed tp2 @ [7, 9]"
proof -
  let ?m = "\<lparr> mi_enabled = True, mi_ca_key = True \<rparr>" and ?cb = "\<lambda>_ _ _. -1 :: int" and ?cb2 = "\<lambda>_ _ _. 9 :: int"
  let ?tp = "snd (tproxy_accept_thread (Some ?cb) ?m demo_accept (pf_tproxy_init 3 4))"
  let ?tp2 = "snd (tproxy_accept_thread (Some ?cb2) ?m demo_accept (snd (pf_tproxy_relay True 0 ?tp)))"
  have o: "opened_fds (Some ?cb) demo_accept = [7, 8]" "opened_fds (Some ?cb2) demo_accept = [7, 9]" by (simp_all add: opened_fds_def demo_accept_def)
  have r: "tp_reach ([] @ opened_fds (Some ?cb) demo_accept) ?tp" by (intro tp_reach.accept tp_reach.start) (simp add: demo_accept_def)
  have r2: "tp_reach (([] @ opened_fds (Some ?cb) demo_accept) @ opened_fds (Some ?cb2) demo_accept) ?tp2"
    by (rule tp_reach.accept [OF tp_reach.relay [OF r]]) (simp add: demo_accept_def)
  have s: "find_free_slot (pf_tproxy_init 3 4) = Some 0"
    by (simp add: find_free_slot_def pf_tproxy_init_def find_index_Some conn_zero_def PF_MAX_CONNECTIONS_def)
  have c: "tp_conns ?tp ! 0 = mitm_handshake ?m demo_accept (peek_domain (take 4096 (ae_peek demo_accept))) (peek_tls (take 4096 (ae_peek demo_accept)))
     (new_conn demo_accept (inet_ntop4 0x0A010203) 443 (peek_domain (take 4096 (ae_peek demo_accept))) (peek_tls (take 4096 (ae_peek demo_accept))) 8)"
    using s by (simp add: tproxy_accept_thread_def tproxy_connect_def demo_accept_def Let_def claim_slot_def pf_tproxy_init_def PF_MAX_CONNECTIONS_def)
  have "\<not> fst (pf_tproxy_relay True 0 ?tp)"
    by (rule relay_closed_peer [OF _ c]) (simp_all add: new_conn_def PF_MAX_CONNECTIONS_def demo_accept_def no_endpoint_def)
  hence "cn_active (tp_conns ?tp2 ! 0) \<and> tp_closed (pf_tproxy_close_conn 0 ?tp2) = tp_closed ?tp2 @ [7, 9]"
    using second_close_hits_new_connection [OF r, of 0 True demo_accept "0x0A010203" 443 ?cb2 9 ?tp2 ?m]
    by (simp add: demo_accept_def PF_MAX_CONNECTIONS_def)
  thus ?thesis using r2 o by auto
qed

text \<open>
  C5: a TLS connection to a host that a BLOCK or REJECT rule names is refused end to end: when the client's
  ClientHello, whatever its other contents, names a host for which the first applicable rule without
  application pattern says so, the accept thread connects to nothing, claims no slot and closes the
  client's descriptor.
\<close>

theorem blocked_host_refused:
  assumes "hello_wf h" "length (hello_record h) \<le> 4096" "ae_peek e = hello_record h @ t" "ae_orig e = Some (ip, port)"
    and "host = cstring (take (PF_DOMAIN_MAX - 1) (hello_host h))" "host \<noteq> []"
    and "pf_rules_match E rs None (Some host) (Some (inet_ntop4 ip)) (int (unat port)) = Some r" "r_action r \<in> {PF_ACTION_BLOCK, PF_ACTION_REJECT}"
  shows "tproxy_accept_thread (Some (main_connect_cb E evp net ok db now dns rs g fd)) m e tp = (None, drop_fds [ae_cfd e] tp)"
proof -
  have d: "peek_domain (take 4096 (ae_peek e)) = host" using peek_hello(2) [OF assms(1-3)] assms(5) by simp
  have "match_domain_of now dns (inet_ntop4 ip) host = Some host" using assms(6) by (simp add: match_domain_of_def)
  hence "fst (proxy_connect_for_tproxy E evp net ok db now dns rs (inet_ntop4 ip) (int (unat port)) host g) = R_BLOCK"
    using assms(7,8) by (auto simp: proxy_connect_for_tproxy_def choose_rule_cases Let_def)
  thus ?thesis using assms(4) d by (simp add: tproxy_accept_thread_def tproxy_connect_def main_connect_cb_def Let_def)
qed

theorem blocked_host_refused_witness:
  "tproxy_accept_thread (Some (main_connect_cb demo_fnm (\<lambda>_. []) (\<lambda>_ _. None) (\<lambda>_ _. True) demo_db 7 \<lparr> dns_cache = [], dns_ruleset = [] \<rparr>
     [demo_rule 2 20 [] ''a.ch'' [] PF_ACTION_BLOCK] g_log_ring 9)) \<lparr> mi_enabled = False, mi_ca_key = False \<rparr> demo_accept (pf_tproxy_init 3 4)
   = (None, drop_fds [7] (pf_tproxy_init 3 4))"
proof -
  have h: "cstring (take (PF_DOMAIN_MAX - 1) (hello_host demo_hello)) = ''a.ch''" by code_simp
  have l: "length (hello_record demo_hello) \<le> 4096"
    by (simp add: hello_record_def demo_hello_def hello_body_def hello_exts_def enc_sni_def enc_ext_def enc16_def)
  have m: "pf_rules_match demo_fnm [demo_rule 2 20 [] ''a.ch'' [] PF_ACTION_BLOCK] None (Some ''a.ch'') (Some (inet_ntop4 0x0A010203)) (int (unat (443 :: u16)))
    = Some (demo_rule 2 20 [] ''a.ch'' [] PF_ACTION_BLOCK)"
    by (simp add: demo_rule_def pf_match_domain_single match_domain_single_exact)
  have e: "ae_peek demo_accept = hello_record demo_hello @ []" "ae_orig demo_accept = Some (0x0A010203, 443)" "ae_cfd demo_accept = 7"
    by (simp_all add: demo_accept_def)
  show ?thesis using blocked_host_refused [OF demo_hello_wf l e(1,2) h [symmetric] _ m] by (simp add: e(3) demo_rule_def)
qed

end
