(* ===== verification/Inspect.thy ===== *)
theory Inspect
  imports Tproxy Capture Http_Parser Body_Decode Json "HOL-Library.Monad_Syntax"
begin

text \<open>
  The inspection pipeline of \<^verbatim>\<open>main.c\<close>: the producer \<^verbatim>\<open>on_inspect_data\<close>, which filters and copies what
  the relay hands it; the consumer \<^verbatim>\<open>capture_process_msg\<close>, which parses a message and stores a JSON
  entry in a ring; and the readers \<^verbatim>\<open>inspect.list\<close> and \<^verbatim>\<open>inspect.get\<close>.
\<close>

section \<open>Filters\<close>

definition g_tracker_domains :: "string list" where
  "g_tracker_domains = [
    ''doubleclick.net'', ''googlesyndication.com'', ''googleadservices.com'',
    ''googletagmanager.com'', ''googletagservices.com'', ''google-analytics.com'',
    ''amazon-adsystem.com'', ''adsrvr.org'', ''teads.tv'',
    ''scorecardresearch.com'', ''quantserve.com'', ''omtrdc.net'',
    ''demdex.net'', ''2mdn.net'', ''adnxs.com'',
    ''criteo.com'', ''criteo.net'', ''pubmatic.com'',
    ''rubiconproject.com'', ''openx.net'', ''taboola.com'',
    ''outbrain.com'', ''chartbeat.net'', ''hotjar.com'',
    ''clarity.ms'', ''fullstory.com'', ''segment.io'',
    ''mixpanel.com'', ''amplitude.com'', ''facebook.net'',
    ''fbcdn.net'', ''connect.facebook.net'', ''pagead2.googlesyndication.com'',
    ''bam.nr-data.net'', ''newrelic.com'', ''nr-data.net'',
    ''bam-cell.nr-data.net'', ''static.ads-twitter.com'', ''snap.licdn.com'']"

fun tracker_loop :: "string list \<Rightarrow> string \<Rightarrow> bool" where
  "tracker_loop [] domain = False"
| "tracker_loop (t # ts) domain =
     (if length t > length domain then tracker_loop ts domain
      else let off = length domain - length t in
        if \<not> strcasecmp_eq (drop off domain) t then tracker_loop ts domain
        else if off = 0 \<or> domain ! (off - 1) = CHR ''.'' then True
        else tracker_loop ts domain)"

definition domain_is_tracker :: "string \<Rightarrow> bool" where
  "domain_is_tracker domain = (if domain = [] then False else tracker_loop g_tracker_domains domain)"

definition content_type_is_asset :: "string option \<Rightarrow> bool" where
  "content_type_is_asset ct = (case ct of None \<Rightarrow> False | Some s \<Rightarrow>
     if s = [] then False
     else if strncasecmp_eq s ''image/'' 6 then True
     else if strncasecmp_eq s ''font/'' 5 then True
     else if strncasecmp_eq s ''audio/'' 6 then True
     else if strncasecmp_eq s ''video/'' 6 then True
     else if strncasecmp_eq s ''application/font'' 16 then True
     else strncasecmp_eq s ''application/octet-stream'' 24)"

section \<open>The producer\<close>

definition inspect_msg :: "int \<Rightarrow> bytes \<Rightarrow> bool \<Rightarrow> pf_connection \<Rightarrow> pf_capture_msg" where
  "inspect_msg now data is_request c = \<lparr> cm_data = data, cm_is_request = is_request, cm_is_tls = cn_is_tls c,
     cm_dst_port = cn_dst_port c, cm_conn_id = of_int (cn_client_fd c), cm_ts_sec = of_int now,
     cm_domain = snprintf_s 256 (if cn_domain c \<noteq> [] then cn_domain c else cn_dst_ip c), cm_dst_ip = snprintf_s 46 (cn_dst_ip c) \<rparr>"

definition on_inspect_data :: "int \<Rightarrow> bytes \<Rightarrow> bool \<Rightarrow> pf_connection \<Rightarrow> pf_capture_queue \<Rightarrow> pf_capture_queue" where
  "on_inspect_data now data is_request c q =
     (if length data < 4 then q
      else if cn_domain c \<noteq> [] \<and> domain_is_tracker (cn_domain c) then q
      else fst (snd (pf_capture_queue_push q (Some (inspect_msg now data is_request c)))))"

section \<open>The ring of entries\<close>

definition PF_INSPECT_RING_SIZE :: nat where "PF_INSPECT_RING_SIZE = 5000"
definition PF_INSPECT_BODY_CAP :: nat where "PF_INSPECT_BODY_CAP = 8192"

record inspect_state =
  is_ring :: "json ring"
  is_seq :: u64
  is_skipped_h2 :: u64
  is_parse_fail :: u64

definition inspect_init :: inspect_state where
  "inspect_init = \<lparr> is_ring = ring_empty PF_INSPECT_RING_SIZE, is_seq = 0, is_skipped_h2 = 0, is_parse_fail = 0 \<rparr>"

text \<open>The conversion of an unsigned 64-bit integer to double: exact below \<open>2 ^ 53\<close>, to the nearest
  representable value (ties to even) above.\<close>

function dbl_shift :: "nat \<Rightarrow> nat" where
  "dbl_shift n = (if n < 2 ^ 53 then 0 else Suc (dbl_shift (n div 2)))"
  by pat_completeness auto
termination by (relation "measure id") auto

declare dbl_shift.simps [simp del]

definition double_of :: "nat \<Rightarrow> rat" where
  "double_of n = (let k = dbl_shift n; q = n div 2 ^ k; r = n mod 2 ^ k in
     of_nat ((if 2 * r > 2 ^ k \<or> 2 * r = 2 ^ k \<and> odd q then q + 1 else q) * 2 ^ k))"

definition j_u64 :: "u64 \<Rightarrow> json" where "j_u64 w = J_Number (double_of (unat w))"

section \<open>The consumer\<close>

definition H2_PREFACE :: bytes where
  "H2_PREFACE = bytes_of (''PRI * HTTP/2.0'' @ [CHR 0x0D, CHR 0x0A, CHR 0x0D, CHR 0x0A] @ ''SM'' @ [CHR 0x0D, CHR 0x0A, CHR 0x0D, CHR 0x0A])"

definition opt_item :: "string \<Rightarrow> string option \<Rightarrow> (string \<times> json) list" where
  "opt_item k v = (case v of Some s \<Rightarrow> [(k, J_String s)] | None \<Rightarrow> [])"

definition body_items :: "string option \<Rightarrow> bytes \<Rightarrow> decoded \<Rightarrow> (string \<times> json) list" where
  "body_items enc body r = (case r of
     Inr (out, n) \<Rightarrow> [(''body'', J_String (cstring (take n out))), (''body_len'', j_int (int n))]
       @ (case enc of Some s \<Rightarrow> if s \<noteq> [] \<and> \<not> strcasecmp_eq s ''identity'' then [(''body_encoding_orig'', J_String s)] else [] | None \<Rightarrow> [])
       @ [(''body_decoded'', J_Bool True)]
   | Inl _ \<Rightarrow> (let n = (if length body < PF_INSPECT_BODY_CAP then length body else PF_INSPECT_BODY_CAP) in
       [(''body'', J_String (cstring (take n body))), (''body_len'', j_int (int n)), (''body_decoded'', J_Bool False)]
       @ opt_item ''body_encoding_orig'' enc))"

definition inspect_entry :: "u64 \<Rightarrow> pf_capture_msg \<Rightarrow> pf_http_msg \<Rightarrow> (string \<times> json) list \<Rightarrow> json" where
  "inspect_entry sq m msg body = J_Object (
     [(''seq'', j_u64 sq), (''ts'', j_u64 (cm_ts_sec m)), (''domain'', J_String (cm_domain m)), (''dst_ip'', J_String (cm_dst_ip m)),
      (''dst_port'', j_int (cm_dst_port m)), (''is_request'', J_Bool (cm_is_request m)), (''tls'', J_Bool (cm_is_tls m))]
     @ (if cm_is_request m
        then [(''method'', J_String (hm_method msg)), (''url'', J_String (hm_url msg)), (''version'', J_String (hm_version msg))]
        else [(''status'', j_int (hm_status_code msg)), (''status_text'', J_String (hm_status_text msg)),
          (''version'', J_String (hm_version msg))] @ opt_item ''content_type'' (pf_http_get_header msg ''Content-Type''))
     @ [(''headers'', J_Object (map (\<lambda>(k, v). (k, J_String v)) (hm_headers msg)))]
     @ body @ [(''content_length'', j_u64 (hm_content_length msg))])"

text \<open>\<open>after\<close> is the memory behind the message; no result means that a decompressor does not return.\<close>

definition capture_process_msg :: "'d codecs \<Rightarrow> string \<Rightarrow> pf_capture_msg \<Rightarrow> inspect_state \<Rightarrow> inspect_state option" where
  "capture_process_msg C after m s =
     (let data = cm_data m in
      if cm_is_request m \<and> length data \<ge> 24 \<and> take 24 data = H2_PREFACE
      then Some (s \<lparr> is_skipped_h2 := is_skipped_h2 s + 1 \<rparr>)
      else case (if cm_is_request m then pf_http_parse_request (chars_of data) else pf_http_parse_response after (chars_of data)) of
        None \<Rightarrow> Some (s \<lparr> is_parse_fail := is_parse_fail s + 1 \<rparr>)
      | Some msg \<Rightarrow>
          if \<not> cm_is_request m \<and> content_type_is_asset (pf_http_get_header msg ''Content-Type'') then Some s
          else let sq = is_seq s + 1; enc = pf_http_get_header msg ''Content-Encoding''; body = bytes_of (hm_body msg) in
            (if body = [] then Some []
             else map_option (body_items enc body) (pf_body_decode C enc body PF_INSPECT_BODY_CAP)) \<bind>
            (\<lambda>items. Some (s \<lparr> is_seq := sq, is_ring := ring_put PF_INSPECT_RING_SIZE (inspect_entry sq m msg items) (is_ring s) \<rparr>)))"

section \<open>The readers\<close>

definition entry_seq :: "json \<Rightarrow> rat option" where
  "entry_seq e = map_option valuedouble (cJSON_GetObjectItem e ''seq'')"

definition slim_keys :: "string list" where
  "slim_keys = [''seq'', ''ts'', ''domain'', ''dst_ip'', ''dst_port'', ''is_request'', ''tls'', ''method'', ''url'', ''version'',
     ''status'', ''status_text'', ''content_type'', ''body_len'', ''content_length'']"

definition slim :: "json \<Rightarrow> json" where
  "slim src = J_Object (concat (map (\<lambda>k. case cJSON_GetObjectItem src k of Some v \<Rightarrow> [(k, v)] | None \<Rightarrow> []) slim_keys))"

text \<open>The walk over the ring from the newest entry, at most \<open>limit\<close> of them.\<close>

fun list_loop :: "json ring \<Rightarrow> int \<Rightarrow> nat \<Rightarrow> nat \<Rightarrow> json list" where
  "list_loop g since 0 limit = []"
| "list_loop g since (Suc ii) limit =
     (if limit = 0 then []
      else case ring_nth PF_INSPECT_RING_SIZE g ii of
        None \<Rightarrow> list_loop g since ii limit
      | Some src \<Rightarrow> (case entry_seq src of
          None \<Rightarrow> list_loop g since ii limit
        | Some q \<Rightarrow> if q \<le> of_int since then list_loop g since ii limit
            else slim src # list_loop g since ii (limit - 1)))"

definition list_limit :: "c_undef \<Rightarrow> json option \<Rightarrow> int" where
  "list_limit U params = (let l = (case params of None \<Rightarrow> 500 | Some p \<Rightarrow>
       (case cJSON_GetObjectItem p ''limit'' of None \<Rightarrow> 500 | Some v \<Rightarrow> cast_int U (valuedouble v)))
     in if l \<le> 0 \<or> l > 1000 then 500 else l)"

definition list_since :: "c_undef \<Rightarrow> json option \<Rightarrow> int" where
  "list_since U params = (case params of None \<Rightarrow> 0 | Some p \<Rightarrow>
     (case cJSON_GetObjectItem p ''since_seq'' of None \<Rightarrow> 0 | Some v \<Rightarrow> cast_int U (valuedouble v)))"

definition inspect_list :: "c_undef \<Rightarrow> json option \<Rightarrow> inspect_state \<Rightarrow> json" where
  "inspect_list U params s = J_Array (rev (list_loop (is_ring s) (list_since U params) (rg_count (is_ring s)) (nat (list_limit U params))))"

definition inspect_get :: "json option \<Rightarrow> inspect_state \<Rightarrow> json option" where
  "inspect_get params s =
     (let want = (case params \<bind> (\<lambda>p. cJSON_GetObjectItem p ''seq'') of Some v \<Rightarrow> valuedouble v | None \<Rightarrow> 0)
      in case find (\<lambda>i. case ring_nth PF_INSPECT_RING_SIZE (is_ring s) i of None \<Rightarrow> False
            | Some src \<Rightarrow> entry_seq src = Some want) [0 ..< rg_count (is_ring s)] of
        Some i \<Rightarrow> ring_nth PF_INSPECT_RING_SIZE (is_ring s) i
      | None \<Rightarrow> None)"

section \<open>What the filters accept\<close>

lemma tracker_loop_iff:
  "[] \<notin> set ts \<Longrightarrow> tracker_loop ts d \<longleftrightarrow> (\<exists>t \<in> set ts. strcasecmp_eq d t \<or> (\<exists>p u. d = p @ CHR ''.'' # u \<and> strcasecmp_eq u t))"
proof (induction ts)
  case (Cons t ts)
  let ?off = "length d - length t"
  have "(length t \<le> length d \<and> strcasecmp_eq (drop ?off d) t \<and> (?off = 0 \<or> d ! (?off - 1) = CHR ''.''))
    \<longleftrightarrow> strcasecmp_eq d t \<or> (\<exists>p u. d = p @ CHR ''.'' # u \<and> strcasecmp_eq u t)" (is "?A \<longleftrightarrow> ?B")
  proof
    assume a: ?A
    show ?B
    proof (cases "?off = 0")
      case False
      hence e: "Suc (?off - 1) = ?off" "?off - 1 < length d" by linarith+
      have "d ! (?off - 1) = CHR ''.''" using a False by simp
      hence "d = take (?off - 1) d @ CHR ''.'' # drop ?off d" using id_take_nth_drop [OF e(2), unfolded e(1)] by metis
      thus ?B using a by blast
    qed (use a in simp)
  next
    assume ?B
    thus ?A
    proof (elim disjE exE conjE)
      assume e: "strcasecmp_eq d t"
      thus ?A using strcasecmp_eq_length [OF e] by simp
    next
      fix p u
      assume d: "d = p @ CHR ''.'' # u" and e: "strcasecmp_eq u t"
      have "?off = Suc (length p)" using strcasecmp_eq_length [OF e] d by simp
      thus ?A using d e by simp
    qed
  qed
  thus ?case using Cons by (auto simp: Let_def)
qed simp

section \<open>Doubles\<close>

lemma double_of_small [simp]: "n < 2 ^ 53 \<Longrightarrow> double_of n = of_nat n"
  by (simp add: double_of_def dbl_shift.simps)

lemma seq_number: "k < 2 ^ 53 \<Longrightarrow> double_of (unat (of_nat k :: u64)) = of_nat k"
  by (subst unat_of_nat_lt) simp_all

lemma entry_seq_entry [simp]: "entry_seq (inspect_entry sq m msg items) = Some (double_of (unat sq))"
  by (simp add: entry_seq_def inspect_entry_def cJSON_GetObjectItem_def strcasecmp_eq_def j_u64_def valuedouble_def)

section \<open>What the ring holds\<close>

interpretation inspect_buffer: ring_buffer PF_INSPECT_RING_SIZE
  by unfold_locales (simp add: PF_INSPECT_RING_SIZE_def)

definition http_of :: "string \<Rightarrow> pf_capture_msg \<Rightarrow> pf_http_msg option" where
  "http_of after m = (if cm_is_request m then pf_http_parse_request (chars_of (cm_data m)) else pf_http_parse_response after (chars_of (cm_data m)))"

text \<open>The messages that are recorded: HTTP/1 messages other than responses that carry a static asset.\<close>

definition recorded :: "string \<Rightarrow> pf_capture_msg \<Rightarrow> bool" where
  "recorded after m \<longleftrightarrow> \<not> (cm_is_request m \<and> prefix H2_PREFACE (cm_data m))
     \<and> (case http_of after m of None \<Rightarrow> False
        | Some msg \<Rightarrow> cm_is_request m \<or> \<not> content_type_is_asset (pf_http_get_header msg ''Content-Type''))"

fun capture_run :: "'d codecs \<Rightarrow> string \<Rightarrow> pf_capture_msg list \<Rightarrow> inspect_state \<Rightarrow> inspect_state option" where
  "capture_run C after [] s = Some s"
| "capture_run C after (m # ms) s = capture_process_msg C after m s \<bind> capture_run C after ms"

lemma H2_preface_prefix: "length d \<ge> 24 \<and> take 24 d = H2_PREFACE \<longleftrightarrow> prefix H2_PREFACE d"
proof -
  have "length H2_PREFACE = 24" by (simp add: H2_PREFACE_def)
  thus ?thesis by (metis append_take_drop_id length_take min.absorb2 min.cobounded1 prefix_def append_eq_conv_conj)
qed

lemma process_dropped:
  assumes "\<not> recorded after m"
  shows "\<exists>s'. capture_process_msg C after m s = Some s' \<and> is_ring s' = is_ring s \<and> is_seq s' = is_seq s"
  using assms unfolding recorded_def capture_process_msg_def Let_def http_of_def H2_preface_prefix [symmetric]
  by (auto split: option.splits if_splits)

lemma process_recorded:
  assumes "codecs_write_in_room C" "zstd_progresses C" "recorded after m"
  shows "\<exists>msg items. http_of after m = Some msg \<and> capture_process_msg C after m s =
    Some (s \<lparr> is_seq := is_seq s + 1, is_ring := ring_put PF_INSPECT_RING_SIZE (inspect_entry (is_seq s + 1) m msg items) (is_ring s) \<rparr>)"
proof -
  obtain msg where msg: "http_of after m = Some msg" "cm_is_request m \<or> \<not> content_type_is_asset (pf_http_get_header msg ''Content-Type'')"
    "\<not> (cm_is_request m \<and> prefix H2_PREFACE (cm_data m))" using assms(3) by (auto simp: recorded_def split: option.splits)
  obtain r where r: "pf_body_decode C (pf_http_get_header msg ''Content-Encoding'') (bytes_of (hm_body msg)) PF_INSPECT_BODY_CAP = Some r"
    using pf_body_decode_returns [OF assms(1,2), of PF_INSPECT_BODY_CAP] by (auto simp: PF_INSPECT_BODY_CAP_def)
  show ?thesis using msg r unfolding capture_process_msg_def Let_def http_of_def H2_preface_prefix [symmetric] by auto
qed

definition entries_for :: "string \<Rightarrow> pf_capture_msg list \<Rightarrow> json list \<Rightarrow> bool" where
  "entries_for after rs es \<longleftrightarrow> length es = length rs \<and> (\<forall>i < length rs. \<exists>msg items.
     http_of after (rs ! i) = Some msg \<and> es ! i = inspect_entry (of_nat (i + 1)) (rs ! i) msg items)"

lemma entries_for_snoc:
  "entries_for after rs es \<Longrightarrow> http_of after m = Some msg
    \<Longrightarrow> entries_for after (rs @ [m]) (es @ [inspect_entry (of_nat (length es + 1)) m msg items])"
  by (auto simp: entries_for_def nth_append less_Suc_eq)

lemma capture_run_ring:
  assumes "codecs_write_in_room C" "zstd_progresses C"
    and "is_ring s = ring_of PF_INSPECT_RING_SIZE es" "is_seq s = of_nat (length es)" "entries_for after rs es"
  shows "\<exists>s' es'. capture_run C after ms s = Some s' \<and> is_ring s' = ring_of PF_INSPECT_RING_SIZE es' \<and> is_seq s' = of_nat (length es')
    \<and> entries_for after (rs @ filter (recorded after) ms) es'"
  using assms(3-)
proof (induction ms arbitrary: s es rs)
  case (Cons m ms)
  show ?case
  proof (cases "recorded after m")
    case True
    obtain msg items where p: "http_of after m = Some msg" "capture_process_msg C after m s =
      Some (s \<lparr> is_seq := is_seq s + 1, is_ring := ring_put PF_INSPECT_RING_SIZE (inspect_entry (is_seq s + 1) m msg items) (is_ring s) \<rparr>)"
      using process_recorded [OF assms(1,2) True] by blast
    let ?e = "inspect_entry (of_nat (length es + 1)) m msg items"
    let ?s = "s \<lparr> is_seq := is_seq s + 1, is_ring := ring_put PF_INSPECT_RING_SIZE (inspect_entry (is_seq s + 1) m msg items) (is_ring s) \<rparr>"
    have "is_ring ?s = ring_of PF_INSPECT_RING_SIZE (es @ [?e])" "is_seq ?s = of_nat (length (es @ [?e]))"
      using Cons.prems(1,2) by (simp_all add: ring_of_snoc add.commute)
    from Cons.IH [OF this entries_for_snoc [OF Cons.prems(3) p(1)]] show ?thesis using p(2) True by simp
  next
    case False
    then obtain s1 where "capture_process_msg C after m s = Some s1" "is_ring s1 = is_ring s" "is_seq s1 = is_seq s"
      using process_dropped by blast
    thus ?thesis using Cons.IH [of s1 es rs] Cons.prems False by simp
  qed
next
  case Nil
  thus ?case by (intro exI [of _ s] exI [of _ es]) simp
qed

section \<open>The readers over a list\<close>

definition newer :: "int \<Rightarrow> json \<Rightarrow> bool" where
  "newer since e \<longleftrightarrow> (case entry_seq e of Some q \<Rightarrow> of_int since < q | None \<Rightarrow> False)"

lemma list_loop_take:
  assumes "\<And>i. i < n \<Longrightarrow> ring_nth PF_INSPECT_RING_SIZE g i = Some (xs ! i)" "n \<le> length xs"
  shows "list_loop g since n limit = take limit (map slim (rev (filter (newer since) (take n xs))))"
  using assms
proof (induction n arbitrary: limit)
  case (Suc n)
  have "list_loop g since n l = take l (map slim (rev (filter (newer since) (take n xs))))" for l
    using Suc by simp
  moreover have "take (Suc n) xs = take n xs @ [xs ! n]" using Suc.prems(2) by (simp add: take_Suc_conv_app_nth)
  moreover have "ring_nth PF_INSPECT_RING_SIZE g n = Some (xs ! n)" using Suc.prems(1) by simp
  ultimately show ?case by (cases limit; cases "entry_seq (xs ! n)") (auto simp: newer_def [of since "xs ! n"] not_less)
qed simp

lemma inspect_list_ring:
  assumes "is_ring s = ring_of PF_INSPECT_RING_SIZE es"
  shows "inspect_list U params s = J_Array (map slim (last_n (nat (list_limit U params))
    (filter (newer (list_since U params)) (last_n PF_INSPECT_RING_SIZE es))))"
proof -
  let ?xs = "last_n PF_INSPECT_RING_SIZE es" and ?l = "nat (list_limit U params)"
  have "list_loop (is_ring s) since (min (length es) PF_INSPECT_RING_SIZE) l = take l (map slim (rev (filter (newer since) ?xs)))" for since l
    using list_loop_take [of "min (length es) PF_INSPECT_RING_SIZE" "is_ring s" ?xs since l] assms
    by (simp add: inspect_buffer.ring_nth_of)
  thus ?thesis using assms unfolding inspect_list_def by (simp add: rev_map rev_take take_map drop_map last_n_def)
qed

lemma find_map_index: "(case find (\<lambda>i. P (f i)) is of Some i \<Rightarrow> f i | None \<Rightarrow> None) = (case find P (map f is) of Some y \<Rightarrow> y | None \<Rightarrow> None)"
  by (induction "is") auto

section \<open>Properties\<close>


definition demo_request :: pf_capture_msg where
  "demo_request = \<lparr> cm_data = bytes_of (''GET / HTTP/1.1'' @ [CHR 0x0D, CHR 0x0A] @ ''Host: a'' @ [CHR 0x0D, CHR 0x0A, CHR 0x0D, CHR 0x0A]),
     cm_is_request = True, cm_is_tls = True, cm_dst_port = 443, cm_conn_id = 7, cm_ts_sec = 100, cm_domain = ''a'', cm_dst_ip = ''192.0.2.1'' \<rparr>"


text \<open>
  The tracker filter drops exactly the domains that equal a listed one or lie below it, ignoring
  case; a name that merely ends in the same letters is kept.
\<close>

theorem tracker_filter_exact:
  "domain_is_tracker d \<longleftrightarrow> (\<exists>t \<in> set g_tracker_domains. strcasecmp_eq d t \<or> (\<exists>p u. d = p @ CHR ''.'' # u \<and> strcasecmp_eq u t))"
proof -
  have ne: "[] \<notin> set g_tracker_domains" by (simp add: g_tracker_domains_def)
  hence "\<not> strcasecmp_eq [] t" if "t \<in> set g_tracker_domains" for t using that strcasecmp_eq_length [of "[]" t] by auto
  thus ?thesis using tracker_loop_iff [OF ne, of d] by (auto simp: domain_is_tracker_def)
qed

end
