(* ===== verification/Host.thy ===== *)
theory Host
  imports Clib
begin

text \<open>
  The operating system as \<^verbatim>\<open>nft.c\<close> and \<^verbatim>\<open>cgroup.c\<close> use it: the commands \<^verbatim>\<open>nft\<close> and \<^verbatim>\<open>ip\<close> and the files below
  \<^verbatim>\<open>/proc\<close> and \<^verbatim>\<open>/sys/fs/cgroup\<close>.  The state \<open>'k\<close> of kernel and tools is abstract; the record \<open>host\<close> holds
  the calls.  What the code relies on is stated as predicates on such a record by the theories that
  use it.
\<close>

datatype errno = EEXIST | ENOENT | EBUSY | ENOTEMPTY | EOTHER

record 'k host =
  nft_feed :: "string \<Rightarrow> 'k \<Rightarrow> bool \<times> 'k"
  popen_read :: "string \<Rightarrow> 'k \<Rightarrow> string option"
  system_ok :: "string \<Rightarrow> 'k \<Rightarrow> bool \<times> 'k"
  c_mkdir :: "string \<Rightarrow> 'k \<Rightarrow> errno option \<times> 'k"
  c_rmdir :: "string \<Rightarrow> 'k \<Rightarrow> errno option \<times> 'k"
  file_read :: "string \<Rightarrow> 'k \<Rightarrow> string option"
  file_write :: "string \<Rightarrow> string \<Rightarrow> 'k \<Rightarrow> bool \<times> 'k"
  read_dir :: "string \<Rightarrow> 'k \<Rightarrow> string list option"
  c_readlink :: "string \<Rightarrow> 'k \<Rightarrow> string option"

text \<open>
  \<open>nft_feed\<close>: a script piped into \<^verbatim>\<open>nft -f -\<close>, true if all of popen, fputs and the exit status are good;
  \<open>popen_read\<close>: the output of a command; \<open>system_ok\<close>: exit status 0; \<open>file_write\<close>: open and a complete
  write; \<open>read_dir\<close>: the names in the order \<^verbatim>\<open>readdir\<close> gives them; \<open>c_readlink\<close>: the target, or no result
  where the code sees a result \<open>\<le> 0\<close>.
\<close>

section \<open>Formatting integers\<close>

definition show_int :: "int \<Rightarrow> string" where
  "show_int i = (if i < 0 then CHR ''-'' # show_nat (nat (- i)) else show_nat (nat i))"

lemma show_int_nonneg [simp]: "0 \<le> i \<Longrightarrow> show_int i = show_nat (nat i)"
  by (simp add: show_int_def)

lemma show_int_chars: "c \<in> set (show_int i) \<Longrightarrow> is_digit c \<or> c = CHR ''-''"
  using show_nat_digits by (auto simp: show_int_def split: if_splits)

lemma show_int_nonempty [simp]: "show_int i \<noteq> []"
  by (simp add: show_int_def)

lemma show_int_no_char: "\<not> is_digit c \<Longrightarrow> c \<noteq> CHR ''-'' \<Longrightarrow> c \<notin> set (show_int i)"
  using show_int_chars by blast

lemma show_int_inj: "show_int i = show_int j \<longleftrightarrow> i = j"
proof -
  have m: "CHR ''-'' \<notin> set (show_nat n)" for n by (rule show_nat_no_char) (simp add: is_digit_def)
  have "nat_of_digits (show_nat n) = n" for n by simp
  hence inj: "show_nat a = show_nat b \<longleftrightarrow> a = b" for a b by metis
  have "CHR ''-'' # a \<noteq> show_nat n" for a n using m [of n] by (metis list.set_intros(1))
  thus ?thesis by (auto simp: show_int_def inj dest: sym)
qed

lemma show_nat_length: "n < 10 ^ k \<Longrightarrow> 0 < k \<Longrightarrow> length (show_nat n) \<le> k"
proof (induction n arbitrary: k rule: show_nat.induct)
  case (1 n)
  show ?case
  proof (cases "n < 10")
    case False
    have "2 \<le> k" using 1(2,3) False by (cases k; cases "k - 1") auto
    then obtain m where k: "k = Suc m" "0 < m" by (cases k) auto
    have "n div 10 < 10 ^ m" using 1(2) k by simp
    thus ?thesis using 1(1) [OF False, of m] k False by (subst show_nat.simps) simp
  qed (use 1(3) in \<open>subst show_nat.simps, simp\<close>)
qed

lemma show_int_length: "0 < n \<Longrightarrow> n < 2 ^ 31 \<Longrightarrow> length (show_int n) \<le> 10"
proof -
  assume n: "0 < n" "n < 2 ^ 31"
  hence "nat n < 2 ^ 31" by simp
  hence "nat n < 10 ^ 10" by (rule less_le_trans) simp
  thus ?thesis using n show_nat_length [of "nat n" 10] by simp
qed

section \<open>\<^verbatim>\<open>fgets\<close>\<close>

abbreviation LF :: char where "LF \<equiv> CHR 0x0A"
abbreviation QUOT :: char where "QUOT \<equiv> CHR 0x22"

fun fgets_line :: "nat \<Rightarrow> string \<Rightarrow> string" where
  "fgets_line 0 s = []"
| "fgets_line (Suc n) [] = []"
| "fgets_line (Suc n) (c # s) = c # (if c = LF then [] else fgets_line n s)"

text \<open>All results of \<^verbatim>\<open>fgets(buf, n + 1, fp)\<close> until the end of the file.\<close>

function fgets_all :: "nat \<Rightarrow> string \<Rightarrow> string list" where
  "fgets_all n s = (if s = [] \<or> n = 0 then [] else fgets_line n s # fgets_all n (drop (length (fgets_line n s)) s))"
  by pat_completeness auto
termination
proof (relation "measure (length o snd)", simp)
  fix n :: nat and s :: string
  assume "\<not> (s = [] \<or> n = 0)"
  thus "((n, drop (length (fgets_line n s)) s), n, s) \<in> measure (length \<circ> snd)" by (cases s; cases n) auto
qed

declare fgets_all.simps [simp del]

lemma fgets_line_full: "LF \<notin> set l \<Longrightarrow> length l < n \<Longrightarrow> fgets_line n (l @ LF # s) = l @ [LF]"
proof (induction l arbitrary: n)
  case Nil
  thus ?case by (cases n) auto
next
  case (Cons c l)
  thus ?case by (cases n) auto
qed

lemma fgets_all_lines:
  "\<forall>l \<in> set ls. LF \<notin> set l \<and> length l < n \<Longrightarrow> fgets_all n (concat (map (\<lambda>l. l @ [LF]) ls)) = map (\<lambda>l. l @ [LF]) ls"
proof (induction ls)
  case (Cons l ls)
  thus ?case using fgets_line_full [of l n "concat (map (\<lambda>l. l @ [LF]) ls)"]
    by (subst fgets_all.simps) auto
qed (simp add: fgets_all.simps)

section \<open>Searching in a line\<close>

lemma strstr_first:
  assumes "c \<notin> set a"
  shows "strstr (a @ (c # n) @ b) (c # n) = Some (length a)"
  using assms by (induction a) auto

lemma prefix_before: "c \<notin> set k \<Longrightarrow> prefix k (a @ c # b) \<longleftrightarrow> prefix k a"
proof (induction k arbitrary: a)
  case (Cons x k)
  thus ?case by (cases a) auto
qed simp

text \<open>A key that starts with a mark that occurs once in the line is found exactly there.\<close>

lemma sublist_at_mark:
  assumes "strstr (u @ v) m = Some (length u)" "\<not> sublist m (tl v)" "prefix m k" "k \<noteq> []" "m \<noteq> []"
  shows "sublist k (u @ v) \<longleftrightarrow> prefix k v"
proof
  have first: "\<not> prefix m (drop i s)" if "strstr s m = Some j" "i < j" for s i j
    using that
  proof (induction s arbitrary: i j)
    case (Cons c s)
    thus ?case by (cases i) (auto split: if_splits)
  qed (auto split: if_splits)
  assume "sublist k (u @ v)"
  then obtain a b where e: "u @ v = a @ k @ b" by (auto simp: sublist_def)
  have pm: "prefix m (drop (length a) (u @ v))" using assms(3) unfolding e by (auto simp: prefix_def)
  have ge: "length u \<le> length a" using first [OF assms(1), of "length a"] pm not_le by blast
  hence d: "drop (length a) (u @ v) = drop (length a - length u) v" by simp
  show "prefix k v"
  proof (cases "length a = length u")
    case True
    thus ?thesis using e d by (metis append_eq_append_conv prefixI)
  next
    case False
    have "drop (length a - length u) v = drop (length a - length u - 1) (tl v)"
      using ge False by (metis One_nat_def Suc_diff_1 drop_Suc drop_tl le_neq_implies_less zero_less_diff)
    hence "sublist m (tl v)" using pm unfolding d by (metis prefix_imp_sublist sublist_drop sublist_order.order_trans)
    thus ?thesis using assms(2) by simp
  qed
next
  assume "prefix k v"
  thus "sublist k (u @ v)" by (metis prefix_imp_sublist sublist_append_leftI sublist_order.order_trans)
qed

end
