(* ===== verification/Nft.thy ===== *)
theory Nft
  imports Host
begin

text \<open>
  \<^verbatim>\<open>nft.c\<close>: the nftables rules of the daemon, written as scripts for \<^verbatim>\<open>nft -f -\<close> and removed by searching
  the listing of a chain for a comment.  No result of an operation stands for \<^verbatim>\<open>PF_OK\<close>.
\<close>

section \<open>Commands\<close>

definition nft_run :: "'k host \<Rightarrow> string \<Rightarrow> 'k \<Rightarrow> pf_err option \<times> 'k" where
  "nft_run H cmd k = (case nft_feed H cmd k of (ok, k') \<Rightarrow> (if ok then None else Some PF_ERR, k'))"

definition run_cmd :: "'k host \<Rightarrow> string \<Rightarrow> 'k \<Rightarrow> pf_err option \<times> 'k" where
  "run_cmd H cmd k = (case system_ok H cmd k of (ok, k') \<Rightarrow> (if ok then None else Some PF_ERR, k'))"

text \<open>The first loop of \<^verbatim>\<open>nft_delete_by_comment\<close>: the handles of matching lines, at most \<open>n\<close>.\<close>

fun collect_handles :: "string \<Rightarrow> string list \<Rightarrow> nat \<Rightarrow> int list" where
  "collect_handles comment [] n = []"
| "collect_handles comment (line # ls) n =
     (if n = 0 then []
      else case strstr line comment of
        None \<Rightarrow> collect_handles comment ls n
      | Some _ \<Rightarrow> (case strstr line ''# handle '' of
          None \<Rightarrow> collect_handles comment ls n
        | Some i \<Rightarrow> let handle = atoi (drop (i + 9) line) in
            if handle \<le> 0 then collect_handles comment ls n
            else handle # collect_handles comment ls (n - 1)))"

text \<open>The second loop; the outcome of a deletion is only counted for the log.\<close>

fun delete_handles :: "'k host \<Rightarrow> string \<Rightarrow> int list \<Rightarrow> 'k \<Rightarrow> 'k" where
  "delete_handles H target [] k = k"
| "delete_handles H target (h # hs) k =
     delete_handles H target hs (snd (nft_run H (snprintf_s 256 (''delete rule '' @ target @ '' handle '' @ show_int h @ [LF])) k))"

definition nft_delete_by_comment :: "'k host \<Rightarrow> string \<Rightarrow> string \<Rightarrow> string \<Rightarrow> string \<Rightarrow> 'k \<Rightarrow> pf_err option \<times> 'k" where
  "nft_delete_by_comment H table_type table chain comment k =
     (let target = table_type @ '' '' @ table @ '' '' @ chain in
      case popen_read H (snprintf_s 256 (''nft -a list chain '' @ target @ '' 2>/dev/null'')) k of
        None \<Rightarrow> (Some PF_ERR, k)
      | Some out \<Rightarrow> (None, delete_handles H target (rev (collect_handles comment (fgets_all 1023 out) 256)) k))"

section \<open>Tables\<close>

definition main_table :: string where
  "main_table = ''table inet proxiflare {'' @ [LF] @ ''    chain output {'' @ [LF] @ ''        type route hook output priority 0; policy accept;'' @ [LF]
     @ ''    }'' @ [LF] @ ''    chain output_nat {'' @ [LF] @ ''        type nat hook output priority -100; policy accept;'' @ [LF] @ ''    }'' @ [LF]
     @ ''    chain output_filter {'' @ [LF] @ ''        type filter hook output priority 0; policy accept;'' @ [LF] @ ''    }'' @ [LF] @ ''}'' @ [LF]"

definition tproxy_table :: string where
  "tproxy_table = ''table ip proxiflare_tproxy {'' @ [LF] @ ''    chain prerouting {'' @ [LF]
     @ ''        type filter hook prerouting priority mangle; policy accept;'' @ [LF] @ ''    }'' @ [LF] @ ''}'' @ [LF]"

definition pf_nft_init :: "'k host \<Rightarrow> 'k \<Rightarrow> pf_err option \<times> 'k" where
  "pf_nft_init H k =
     (let k = snd (nft_run H (''delete table inet proxiflare'' @ [LF]) k);
          k = snd (nft_run H (''delete table ip proxiflare_tproxy'' @ [LF]) k)
      in case nft_run H main_table k of
        (Some _, k) \<Rightarrow> (Some PF_ERR, k)
      | (None, k) \<Rightarrow>
        (let k = snd (nft_run H tproxy_table k);
             k = snd (run_cmd H ''ip rule del fwmark 1 lookup 100 2>/dev/null'' k);
             k = snd (run_cmd H ''ip route del local 0.0.0.0/0 dev lo table 100 2>/dev/null'' k);
             k = snd (run_cmd H ''ip rule add fwmark 1 lookup 100'' k);
             k = snd (run_cmd H ''ip route add local 0.0.0.0/0 dev lo table 100'' k)
         in (None, k)))"

definition pf_nft_cleanup :: "'k host \<Rightarrow> 'k \<Rightarrow> pf_err option \<times> 'k" where
  "pf_nft_cleanup H k =
     (let k = snd (nft_run H (''delete table inet proxiflare'' @ [LF]) k);
          k = snd (nft_run H (''delete table ip proxiflare_tproxy'' @ [LF]) k);
          k = snd (run_cmd H ''ip rule del fwmark 1 lookup 100 2>/dev/null'' k);
          k = snd (run_cmd H ''ip route del local 0.0.0.0/0 dev lo table 100 2>/dev/null'' k)
      in (None, k))"

section \<open>Rules\<close>

text \<open>The scripts that add a rule with a comment.\<close>

definition add_rule :: "string \<Rightarrow> string \<Rightarrow> string \<Rightarrow> string" where
  "add_rule chain body comment = ''add rule '' @ chain @ '' '' @ body @ '' comment '' @ [QUOT] @ comment @ [QUOT, LF]"

definition nft_step :: "'k host \<Rightarrow> string \<Rightarrow> 'k \<Rightarrow> pf_err option \<times> 'k" where
  "nft_step H cmd k = (case nft_run H cmd k of (Some _, k) \<Rightarrow> (Some PF_ERR, k) | (None, k) \<Rightarrow> (None, k))"

definition scope1 :: string where
  "scope1 = ''socket cgroupv2 level 1 '' @ [QUOT] @ ''proxiflare'' @ [QUOT]"

definition pf_nft_setup_dns_redirect :: "'k host \<Rightarrow> 'k \<Rightarrow> pf_err option \<times> 'k" where
  "pf_nft_setup_dns_redirect H k =
     nft_step H (add_rule ''inet proxiflare output'' (scope1 @ '' udp dport 53 queue num 0 bypass'') ''pf_dns_nfqueue'') k"

definition pf_nft_setup_tproxy :: "'k host \<Rightarrow> int \<Rightarrow> 'k \<Rightarrow> pf_err option \<times> 'k" where
  "pf_nft_setup_tproxy H port k = nft_step H (snprintf_s 256
     (''add rule ip proxiflare_tproxy prerouting ip protocol tcp meta mark 1 tproxy to 127.0.0.1:'' @ show_int port @ [LF])) k"

definition mark_body :: "int \<Rightarrow> string" where
  "mark_body rule_id = ''socket cgroupv2 level 2 '' @ [QUOT] @ ''proxiflare/rule_'' @ show_int rule_id @ [QUOT]
     @ '' meta l4proto tcp meta mark set 1''"

definition mark_comment :: "int \<Rightarrow> string" where
  "mark_comment rule_id = ''pf_cgroup_'' @ show_int rule_id"

definition pf_nft_add_cgroup_mark :: "'k host \<Rightarrow> int \<Rightarrow> 'k \<Rightarrow> pf_err option \<times> 'k" where
  "pf_nft_add_cgroup_mark H rule_id k =
     (let k = snd (c_mkdir H (snprintf_s 256 (''/sys/fs/cgroup/proxiflare/rule_'' @ show_int rule_id)) k)
      in nft_step H (snprintf_s 512 (add_rule ''inet proxiflare output'' (mark_body rule_id) (mark_comment rule_id))) k)"

definition pf_nft_remove_cgroup_mark :: "'k host \<Rightarrow> int \<Rightarrow> 'k \<Rightarrow> pf_err option \<times> 'k" where
  "pf_nft_remove_cgroup_mark H rule_id k =
     nft_delete_by_comment H ''inet'' ''proxiflare'' ''output'' (snprintf_s 64 (mark_comment rule_id)) k"

text \<open>\<open>pton6\<close> is \<^verbatim>\<open>inet_pton(AF_INET6)\<close>.\<close>

definition leak_body :: "string \<Rightarrow> string \<Rightarrow> string" where
  "leak_body proto dns_server = scope1 @ '' '' @ proto @ '' dport 53 ip daddr != { 127.0.0.0/8, '' @ dns_server
     @ '' } counter dnat to '' @ dns_server"

definition pf_nft_dns_leak_protect :: "(string \<Rightarrow> bool) \<Rightarrow> 'k host \<Rightarrow> string \<Rightarrow> 'k \<Rightarrow> pf_err option \<times> 'k" where
  "pf_nft_dns_leak_protect pton6 H dns_server k =
     (if dns_server = [] then (Some PF_ERR, k)
      else if inet_pton4 dns_server = None \<and> \<not> pton6 dns_server then (Some PF_ERR, k)
      else let k = snd (nft_delete_by_comment H ''inet'' ''proxiflare'' ''output_nat'' ''pf_dns_leak'' k) in
        (case nft_run H (snprintf_s 512 (add_rule ''inet proxiflare output_nat'' (leak_body ''udp'' dns_server) ''pf_dns_leak'')) k of
           (Some _, k) \<Rightarrow> (Some PF_ERR, k)
         | (None, k) \<Rightarrow> nft_step H (snprintf_s 512 (add_rule ''inet proxiflare output_nat'' (leak_body ''tcp'' dns_server) ''pf_dns_leak'')) k))"

definition via_body :: "string \<Rightarrow> int \<Rightarrow> string" where
  "via_body proto local_port = scope1 @ '' '' @ proto @ '' dport 53 ip daddr != 127.0.0.0/8 counter redirect to :'' @ show_int local_port"

definition pf_nft_dns_via_proxy :: "'k host \<Rightarrow> int \<Rightarrow> 'k \<Rightarrow> pf_err option \<times> 'k" where
  "pf_nft_dns_via_proxy H local_port k =
     (if local_port \<le> 0 \<or> local_port > 65535 then (Some PF_ERR, k)
      else let k = snd (nft_delete_by_comment H ''inet'' ''proxiflare'' ''output_nat'' ''pf_dns_leak'' k) in
        (case nft_run H (snprintf_s 512 (add_rule ''inet proxiflare output_nat'' (via_body ''udp'' local_port) ''pf_dns_leak'')) k of
           (Some _, k) \<Rightarrow> (Some PF_ERR, k)
         | (None, k) \<Rightarrow> nft_step H (snprintf_s 512 (add_rule ''inet proxiflare output_nat'' (via_body ''tcp'' local_port) ''pf_dns_leak'')) k))"

definition quic_body :: string where
  "quic_body = scope1 @ '' meta l4proto udp udp dport 443 counter reject with icmpx type admin-prohibited''"

definition pf_nft_block_quic :: "'k host \<Rightarrow> 'k \<Rightarrow> pf_err option \<times> 'k" where
  "pf_nft_block_quic H k =
     (let k = snd (nft_delete_by_comment H ''inet'' ''proxiflare'' ''output_filter'' ''pf_block_quic'' k)
      in nft_step H (add_rule ''inet proxiflare output_filter'' quic_body ''pf_block_quic'') k)"

definition pf_nft_unblock_quic :: "'k host \<Rightarrow> 'k \<Rightarrow> pf_err option \<times> 'k" where
  "pf_nft_unblock_quic H k = (None, snd (nft_delete_by_comment H ''inet'' ''proxiflare'' ''output_filter'' ''pf_block_quic'' k))"

definition pf_nft_dns_leak_disable :: "'k host \<Rightarrow> 'k \<Rightarrow> pf_err option \<times> 'k" where
  "pf_nft_dns_leak_disable H k = (None, snd (nft_delete_by_comment H ''inet'' ''proxiflare'' ''output_nat'' ''pf_dns_leak'' k))"

section \<open>What nft is relied on for\<close>

text \<open>
  A rule of a chain: its handle, the script text it was added with, its comment, and how nft prints
  what precedes the comment.  The daemon's rules carry a comment that starts with \<^verbatim>\<open>pf_\<close>, and nothing
  else in a line looks like one or like a handle.
\<close>

record nft_rule =
  nr_handle :: nat
  nr_body :: string
  nr_comment :: string
  nr_print :: string

definition rule_line :: "nft_rule \<Rightarrow> string" where
  "rule_line r = nr_print r @ nr_comment r @ [QUOT] @ '' # handle '' @ show_nat (nr_handle r)"

definition rule_shape :: "nft_rule \<Rightarrow> bool" where
  "rule_shape r \<longleftrightarrow> 0 < nr_handle r \<and> nr_handle r < 2 ^ 31 \<and> LF \<notin> set (rule_line r) \<and> length (rule_line r) < 1023
     \<and> CHR ''#'' \<notin> set (nr_print r) \<union> set (nr_comment r) \<and> QUOT \<notin> set (nr_comment r)
     \<and> strstr (rule_line r @ [LF]) ''pf_'' = Some (length (nr_print r))
     \<and> \<not> sublist ''pf_'' (tl (nr_comment r @ [QUOT] @ '' # handle '' @ show_nat (nr_handle r) @ [LF]))"

definition other_line :: "string \<Rightarrow> bool" where
  "other_line l \<longleftrightarrow> LF \<notin> set l \<and> length l < 1023 \<and> \<not> sublist ''pf_'' (l @ [LF])"

text \<open>The chains the daemon searches, and its rules that carry a comment: chain, body and comment.\<close>

definition nft_chains :: "string list" where
  "nft_chains = [''inet proxiflare output'', ''inet proxiflare output_nat'', ''inet proxiflare output_filter'']"

definition daemon_rule :: "string \<Rightarrow> string \<Rightarrow> string \<Rightarrow> bool" where
  "daemon_rule c body cm \<longleftrightarrow>
     c = ''inet proxiflare output'' \<and> (\<exists>n. 0 < n \<and> n < 2 ^ 31 \<and> body = mark_body n \<and> cm = mark_comment n)
   \<or> c = ''inet proxiflare output_nat'' \<and> cm = ''pf_dns_leak'' \<and> (\<exists>proto \<in> {''udp'', ''tcp''}.
        (\<exists>w. body = leak_body proto (inet_ntop4 w)) \<or> (\<exists>n. 0 < n \<and> n \<le> 65535 \<and> body = via_body proto n))
   \<or> c = ''inet proxiflare output_filter'' \<and> body = quic_body \<and> cm = ''pf_block_quic''"

text \<open>
  \<open>rules k c\<close> are the rules of chain \<open>c\<close>.  Listing prints them in order between other lines; a script
  that adds a rule appends it; one that deletes by handle removes that rule.  A command may fail, and
  then changes no rule.  Creating a directory changes no rule.
\<close>

definition list_cmd :: "string \<Rightarrow> string" where
  "list_cmd c = ''nft -a list chain '' @ c @ '' 2>/dev/null''"

definition delete_cmd :: "string \<Rightarrow> nat \<Rightarrow> string" where
  "delete_cmd c h = ''delete rule '' @ c @ '' handle '' @ show_nat h @ [LF]"

definition nft_listing :: "'k host \<Rightarrow> ('k \<Rightarrow> string \<Rightarrow> nft_rule list) \<Rightarrow> bool" where
  "nft_listing H rules \<longleftrightarrow> (\<forall>c \<in> set nft_chains. \<forall>k out. popen_read H (list_cmd c) k = Some out \<longrightarrow>
     (\<exists>pre post. list_all other_line (pre @ post) \<and> list_all rule_shape (rules k c) \<and> distinct (map nr_handle (rules k c))
       \<and> out = concat (map (\<lambda>l. l @ [LF]) (pre @ map rule_line (rules k c) @ post))))"

definition nft_adding :: "'k host \<Rightarrow> ('k \<Rightarrow> string \<Rightarrow> nft_rule list) \<Rightarrow> bool" where
  "nft_adding H rules \<longleftrightarrow> (\<forall>k c body cm ok k'. daemon_rule c body cm \<longrightarrow> nft_feed H (add_rule c body cm) k = (ok, k') \<longrightarrow>
     (if ok then \<exists>h pr. rules k' = (rules k)(c := rules k c @ [\<lparr> nr_handle = h, nr_body = body, nr_comment = cm, nr_print = pr \<rparr>])
      else rules k' = rules k))"

definition nft_deleting :: "'k host \<Rightarrow> ('k \<Rightarrow> string \<Rightarrow> nft_rule list) \<Rightarrow> bool" where
  "nft_deleting H rules \<longleftrightarrow> (\<forall>c \<in> set nft_chains. \<forall>k h ok k'. nft_feed H (delete_cmd c h) k = (ok, k') \<longrightarrow>
     (if ok then rules k' = (rules k)(c := filter (\<lambda>r. nr_handle r \<noteq> h) (rules k c)) else rules k' = rules k))"

definition nft_documented :: "'k host \<Rightarrow> ('k \<Rightarrow> string \<Rightarrow> nft_rule list) \<Rightarrow> bool" where
  "nft_documented H rules \<longleftrightarrow> nft_listing H rules \<and> nft_adding H rules \<and> nft_deleting H rules
     \<and> (\<forall>p k. rules (snd (c_mkdir H p k)) = rules k)"

text \<open>Listing a chain and deleting one of its rules succeed.\<close>

definition nft_can_delete :: "'k host \<Rightarrow> ('k \<Rightarrow> string \<Rightarrow> nft_rule list) \<Rightarrow> bool" where
  "nft_can_delete H rules \<longleftrightarrow> (\<forall>c \<in> set nft_chains. \<forall>k. popen_read H (list_cmd c) k \<noteq> None
     \<and> (\<forall>h \<in> nr_handle ` set (rules k c). fst (nft_feed H (delete_cmd c h) k)))"

section \<open>Deleting by comment\<close>

text \<open>The comments that are searched for.\<close>

definition comment_key :: "string \<Rightarrow> bool" where
  "comment_key key \<longleftrightarrow> prefix ''pf_'' key \<and> QUOT \<notin> set key"

lemma strstr_rule_line:
  assumes "rule_shape r" "comment_key key"
  shows "strstr (rule_line r @ [LF]) key \<noteq> None \<longleftrightarrow> prefix key (nr_comment r)"
proof -
  let ?v = "nr_comment r @ [QUOT] @ '' # handle '' @ show_nat (nr_handle r) @ [LF]"
  have e: "rule_line r @ [LF] = nr_print r @ ?v" by (simp add: rule_line_def)
  have "sublist key (nr_print r @ ?v) \<longleftrightarrow> prefix key ?v"
    using assms by (intro sublist_at_mark [where m = "''pf_''"]) (auto simp: rule_shape_def e comment_key_def)
  also have "\<dots> \<longleftrightarrow> prefix key (nr_comment r)"
    using assms(2) prefix_before [of QUOT key "nr_comment r"] by (simp add: comment_key_def)
  finally show ?thesis by (simp only: strstr_iff_sublist e)
qed

lemma handle_of_rule_line:
  assumes "rule_shape r"
  shows "strstr (rule_line r @ [LF]) ''# handle '' = Some (length (nr_print r) + length (nr_comment r) + 2)"
    and "atoi (drop (length (nr_print r) + length (nr_comment r) + 2 + 9) (rule_line r @ [LF])) = int (nr_handle r)"
proof -
  let ?a = "nr_print r @ nr_comment r @ [QUOT, CHR '' '']" and ?b = "show_nat (nr_handle r) @ [LF]"
  have e: "rule_line r @ [LF] = ?a @ ''# handle '' @ ?b" by (simp add: rule_line_def)
  have "CHR ''#'' \<notin> set ?a" using assms by (simp add: rule_shape_def)
  from strstr_first [OF this, of "'' handle ''" ?b]
  show "strstr (rule_line r @ [LF]) ''# handle '' = Some (length (nr_print r) + length (nr_comment r) + 2)" unfolding e by simp
  have "atoi ?b = int (nr_handle r)" using assms by (intro atoi_show_nat) (auto simp: rule_shape_def is_digit_def)
  thus "atoi (drop (length (nr_print r) + length (nr_comment r) + 2 + 9) (rule_line r @ [LF])) = int (nr_handle r)"
    unfolding e by simp
qed

lemma collect_others:
  "list_all other_line ls \<Longrightarrow> comment_key key \<Longrightarrow> collect_handles key (map (\<lambda>l. l @ [LF]) ls @ rest) n = collect_handles key rest n"
proof (induction ls)
  case (Cons l ls)
  have "\<not> sublist key (l @ [LF])"
    using Cons.prems unfolding other_line_def comment_key_def by (auto dest: sublist_order.order_trans [OF prefix_imp_sublist])
  hence "strstr (l @ [LF]) key = None" using strstr_iff_sublist [of "l @ [LF]" key] by auto
  thus ?case using Cons by (cases rest) auto
qed simp

lemma collect_rules:
  assumes "list_all rule_shape rs" "comment_key key"
  shows "collect_handles key (map (\<lambda>l. l @ [LF]) (map rule_line rs) @ rest) n
    = (let hs = map (\<lambda>r. int (nr_handle r)) (filter (\<lambda>r. prefix key (nr_comment r)) rs) in take n hs @ collect_handles key rest (n - length hs))"
  using assms(1)
proof (induction rs arbitrary: n)
  case (Cons r rs)
  hence r: "rule_shape r" by simp
  have IH: "collect_handles key (map (\<lambda>l. l @ [LF]) (map rule_line rs) @ rest) m
    = (let hs = map (\<lambda>r. int (nr_handle r)) (filter (\<lambda>r. prefix key (nr_comment r)) rs) in take m hs @ collect_handles key rest (m - length hs))" for m
    using Cons by simp
  have zero: "collect_handles key ls 0 = []" for ls by (cases ls) simp_all
  have "0 < nr_handle r" using r by (simp add: rule_shape_def)
  show ?case
  proof (cases "n = 0")
    case False
    then obtain m where n: "n = Suc m" by (cases n) auto
    show ?thesis using strstr_rule_line [OF r assms(2)] handle_of_rule_line [OF r] IH [of n] IH [of m] \<open>0 < nr_handle r\<close> n
      by (auto simp: Let_def simp del: drop_append split: option.split)
  qed (simp add: zero)
qed simp

lemma delete_script:
  assumes "length target \<le> 100" "h < 2 ^ 31"
  shows "snprintf_s 256 (''delete rule '' @ target @ '' handle '' @ show_int (int h) @ [LF]) = delete_cmd target h"
proof -
  have "length (show_nat h) \<le> 10" using assms(2) by (intro show_nat_length) auto
  thus ?thesis using assms(1) by (simp add: delete_cmd_def snprintf_s_id)
qed

lemma delete_handles_rules:
  assumes "nft_documented H rules" "nft_can_delete H rules" "c \<in> set nft_chains" "length c \<le> 100"
    and "distinct hs" "set hs \<subseteq> nr_handle ` set (rules k c)" "\<forall>h \<in> set hs. h < 2 ^ 31"
  shows "rules (delete_handles H c (map int hs) k) = (rules k)(c := filter (\<lambda>r. nr_handle r \<notin> set hs) (rules k c))"
  using assms(5-)
proof (induction hs arbitrary: k)
  case (Cons h hs)
  obtain ok k' where f: "nft_feed H (delete_cmd c h) k = (ok, k')" by (rule prod.exhaust)
  have "h \<in> nr_handle ` set (rules k c)" using Cons.prems(2) by simp
  hence "fst (nft_feed H (delete_cmd c h) k)" using assms(2,3) unfolding nft_can_delete_def by blast
  hence "ok" using f by simp
  hence k': "rules k' = (rules k)(c := filter (\<lambda>r. nr_handle r \<noteq> h) (rules k c))"
    using assms(1,3) f unfolding nft_documented_def nft_deleting_def by (metis (full_types))
  have "rules (delete_handles H c (map int hs) k') = (rules k')(c := filter (\<lambda>r. nr_handle r \<notin> set hs) (rules k' c))"
  proof (rule Cons.IH)
    show "set hs \<subseteq> nr_handle ` set (rules k' c)"
    proof
      fix x
      assume x: "x \<in> set hs"
      then obtain r where "r \<in> set (rules k c)" "x = nr_handle r" using Cons.prems(2) by auto
      moreover have "x \<noteq> h" using x Cons.prems(1) by auto
      ultimately show "x \<in> nr_handle ` set (rules k' c)" unfolding k' by auto
    qed
  qed (use Cons.prems in auto)
  moreover have "delete_handles H c (map int (h # hs)) k = delete_handles H c (map int hs) k'"
    using delete_script [OF assms(4), of h] Cons.prems(3) f by (simp add: nft_run_def)
  ultimately show ?case by (simp add: k' conj_commute)
qed simp

text \<open>Deleting by comment removes the rules whose comment starts with the key, at most 256 of them.\<close>

lemma delete_by_comment_rules:
  assumes "nft_documented H rules" "nft_can_delete H rules" "c \<in> set nft_chains"
    and c: "c = tt @ '' '' @ tb @ '' '' @ ch" "length c \<le> 100" and key: "comment_key key"
    and n: "length (filter (\<lambda>r. prefix key (nr_comment r)) (rules k c)) \<le> 256"
  shows "\<exists>k'. nft_delete_by_comment H tt tb ch key k = (None, k') \<and>
    rules k' = (rules k)(c := filter (\<lambda>r. \<not> prefix key (nr_comment r)) (rules k c))"
proof -
  let ?hit = "filter (\<lambda>r. prefix key (nr_comment r)) (rules k c)"
  have "popen_read H (list_cmd c) k \<noteq> None" using assms(2,3) by (simp add: nft_can_delete_def)
  then obtain pre post where l: "list_all other_line (pre @ post)" "list_all rule_shape (rules k c)" "distinct (map nr_handle (rules k c))"
    "popen_read H (list_cmd c) k = Some (concat (map (\<lambda>l. l @ [LF]) (pre @ map rule_line (rules k c) @ post)))"
    using assms(1,3) unfolding nft_documented_def nft_listing_def by blast
  have lines: "fgets_all 1023 (concat (map (\<lambda>l. l @ [LF]) (pre @ map rule_line (rules k c) @ post)))
    = map (\<lambda>l. l @ [LF]) (pre @ map rule_line (rules k c) @ post)"
    using l(1,2) by (intro fgets_all_lines) (auto simp: list_all_iff other_line_def rule_shape_def)
  have "collect_handles key (map (\<lambda>l. l @ [LF]) pre @ (map (\<lambda>l. l @ [LF]) (map rule_line (rules k c)) @ (map (\<lambda>l. l @ [LF]) post @ []))) 256
    = map (\<lambda>r. int (nr_handle r)) ?hit"
    using l(1,2) key n by (simp only: collect_others list_all_append collect_rules Let_def) simp
  hence hs: "collect_handles key (map (\<lambda>l. l @ [LF]) (pre @ map rule_line (rules k c) @ post)) 256 = map int (map nr_handle ?hit)"
    by (simp add: comp_def)
  let ?hs = "rev (map nr_handle ?hit)"
  have sub: "set ?hs \<subseteq> nr_handle ` set (rules k c)" by auto
  have d: "distinct ?hs" using l(3) by (simp add: distinct_map_filter)
  have b: "\<forall>h \<in> set ?hs. h < 2 ^ 31" using l(2) by (auto simp: list_all_iff rule_shape_def)
  have "filter (\<lambda>r. nr_handle r \<notin> set ?hs) (rules k c) = filter (\<lambda>r. \<not> prefix key (nr_comment r)) (rules k c)"
    using l(3) by (intro filter_cong) (auto simp: distinct_map inj_on_def)
  with delete_handles_rules [OF assms(1-3) c(2) d sub b]
  have del: "rules (delete_handles H c (map int ?hs) k) = (rules k)(c := filter (\<lambda>r. \<not> prefix key (nr_comment r)) (rules k c))" by simp
  have "snprintf_s 256 (''nft -a list chain '' @ c @ '' 2>/dev/null'') = list_cmd c"
    using c(2) by (simp add: list_cmd_def snprintf_s_id)
  hence r: "nft_delete_by_comment H tt tb ch key k = (None, delete_handles H c (map int ?hs) k)"
    unfolding nft_delete_by_comment_def Let_def c(1) [symmetric] using l(4) by (simp only: lines hs rev_map option.case)
  show ?thesis unfolding r using del by simp
qed

section \<open>The operations on the rules\<close>

text \<open>What matters of a chain: comments and bodies, in order.\<close>

definition nft_view :: "('k \<Rightarrow> string \<Rightarrow> nft_rule list) \<Rightarrow> 'k \<Rightarrow> string \<Rightarrow> (string \<times> string) list" where
  "nft_view rules k = (\<lambda>c. map (\<lambda>r. (nr_comment r, nr_body r)) (rules k c))"

lemma nft_view_same: "rules k' = rules k \<Longrightarrow> nft_view rules k' = nft_view rules k"
  by (simp add: nft_view_def)

lemma filter_view: "map (\<lambda>r. (nr_comment r, nr_body r)) (filter (\<lambda>r. P (nr_comment r)) rs)
    = filter (\<lambda>(cm, b). P cm) (map (\<lambda>r. (nr_comment r, nr_body r)) rs)"
  by (induction rs) auto

lemma delete_view:
  assumes "nft_documented H rules" "nft_can_delete H rules" "c \<in> set nft_chains"
    and "c = tt @ '' '' @ tb @ '' '' @ ch" "comment_key key"
    and "length (filter (\<lambda>(cm, b). prefix key cm) (nft_view rules k c)) \<le> 256"
  obtains k' where "nft_delete_by_comment H tt tb ch key k = (None, k')"
    "nft_view rules k' = (nft_view rules k)(c := filter (\<lambda>(cm, b). \<not> prefix key cm) (nft_view rules k c))"
proof -
  have "length (filter (\<lambda>r. prefix key (nr_comment r)) (rules k c)) \<le> 256"
    using assms(6) filter_view [of "prefix key" "rules k c"] unfolding nft_view_def by (metis length_map)
  moreover have "length c \<le> 100" using assms(3) by (auto simp: nft_chains_def)
  ultimately obtain k' where k': "nft_delete_by_comment H tt tb ch key k = (None, k')"
    "rules k' = (rules k)(c := filter (\<lambda>r. \<not> prefix key (nr_comment r)) (rules k c))"
    using delete_by_comment_rules [OF assms(1-4) _ assms(5)] by blast
  have "nft_view rules k' = (nft_view rules k)(c := filter (\<lambda>(cm, b). \<not> prefix key cm) (nft_view rules k c))"
    by (rule ext) (simp add: nft_view_def k'(2) filter_view [of "\<lambda>cm. \<not> prefix key cm"])
  thus ?thesis using that k'(1) by blast
qed

lemma add_view:
  assumes "nft_documented H rules" "daemon_rule c body cm" "nft_run H (add_rule c body cm) k = (r, k')"
  shows "nft_view rules k' = (if r = None then (nft_view rules k)(c := nft_view rules k c @ [(cm, body)]) else nft_view rules k)"
proof -
  obtain ok k1 where f: "nft_feed H (add_rule c body cm) k = (ok, k1)" by (rule prod.exhaust)
  have "if ok then \<exists>h pr. rules k1 = (rules k)(c := rules k c @ [\<lparr> nr_handle = h, nr_body = body, nr_comment = cm, nr_print = pr \<rparr>])
      else rules k1 = rules k" using assms(1,2) f unfolding nft_documented_def nft_adding_def by blast
  thus ?thesis using assms(3) f by (auto simp: nft_run_def nft_view_def fun_eq_iff split: if_splits)
qed

lemma nft_step_run: "nft_step H cmd k = nft_run H cmd k"
  by (auto simp: nft_step_def nft_run_def split: prod.split option.split)

lemma out_chains [simp]: "''inet proxiflare output'' \<in> set nft_chains" "''inet proxiflare output_nat'' \<in> set nft_chains"
  "''inet proxiflare output_filter'' \<in> set nft_chains"
  by (simp_all add: nft_chains_def)

lemma add_mark_view:
  assumes "nft_documented H rules" "0 < n" "n < 2 ^ 31" "pf_nft_add_cgroup_mark H n k = (r, k')"
  shows "nft_view rules k' = (if r = None then (nft_view rules k)(''inet proxiflare output'' :=
    nft_view rules k ''inet proxiflare output'' @ [(mark_comment n, mark_body n)]) else nft_view rules k)"
proof -
  let ?cmd = "add_rule ''inet proxiflare output'' (mark_body n) (mark_comment n)"
  have "length ?cmd < 512" using show_int_length [OF assms(2,3)] by (simp add: add_rule_def mark_body_def mark_comment_def)
  hence cmd: "snprintf_s 512 ?cmd = ?cmd" by (rule snprintf_s_id)
  have d: "daemon_rule ''inet proxiflare output'' (mark_body n) (mark_comment n)"
    using assms(2,3) unfolding daemon_rule_def by blast
  let ?k = "snd (c_mkdir H (snprintf_s 256 (''/sys/fs/cgroup/proxiflare/rule_'' @ show_int n)) k)"
  have "nft_run H ?cmd ?k = (r, k')"
    using assms(4) unfolding pf_nft_add_cgroup_mark_def Let_def nft_step_run cmd .
  from add_view [OF assms(1) d this] have "nft_view rules k' = (if r = None then (nft_view rules ?k)(''inet proxiflare output'' :=
    nft_view rules ?k ''inet proxiflare output'' @ [(mark_comment n, mark_body n)]) else nft_view rules ?k)" .
  moreover have "rules ?k = rules k" using assms(1) unfolding nft_documented_def by blast
  hence "nft_view rules ?k = nft_view rules k" by (rule nft_view_same)
  ultimately show ?thesis by simp
qed

lemma comment_keys:
  "comment_key ''pf_dns_leak''" "comment_key ''pf_block_quic''" "comment_key (mark_comment n)"
  using show_int_no_char [of QUOT n] by (auto simp: comment_key_def mark_comment_def is_digit_def)

text \<open>The marks of the rules \<open>m\<close> whose number, in decimal, starts with the number of the removed rule.\<close>

lemma mark_prefix: "prefix (mark_comment n) (mark_comment m) \<longleftrightarrow> prefix (show_int n) (show_int m)"
  by (simp add: mark_comment_def)

text \<open>
  Removing the mark of rule \<open>n\<close> removes from the output chain exactly the rules whose comment starts
  with \<^verbatim>\<open>pf_cgroup_n\<close>: besides the marks of rule \<open>n\<close> also those of every rule whose number starts with
  the same digits (removing rule 1 unmarks the rules 10 to 19, 100, and so on).  Nothing else changes.
\<close>

theorem remove_mark_by_prefix:
  assumes "nft_documented H rules" "nft_can_delete H rules" "0 < n" "n < 2 ^ 31"
    and "length (filter (\<lambda>(cm, b). prefix (mark_comment n) cm) (nft_view rules k ''inet proxiflare output'')) \<le> 256"
  shows "\<exists>k'. pf_nft_remove_cgroup_mark H n k = (None, k')
    \<and> (\<forall>c. c \<noteq> ''inet proxiflare output'' \<longrightarrow> nft_view rules k' c = nft_view rules k c)
    \<and> nft_view rules k' ''inet proxiflare output'' = filter (\<lambda>(cm, b). \<not> prefix (mark_comment n) cm) (nft_view rules k ''inet proxiflare output'')
    \<and> (\<forall>m > 0. (mark_comment m, mark_body m) \<in> set (nft_view rules k' ''inet proxiflare output'') \<longleftrightarrow>
        (mark_comment m, mark_body m) \<in> set (nft_view rules k ''inet proxiflare output'') \<and> \<not> prefix (show_int n) (show_int m))"
proof -
  have "snprintf_s 64 (mark_comment n) = mark_comment n"
    using show_int_length [OF assms(3,4)] by (intro snprintf_s_id) (simp add: mark_comment_def)
  moreover obtain k' where "nft_delete_by_comment H ''inet'' ''proxiflare'' ''output'' (mark_comment n) k = (None, k')"
    "nft_view rules k' = (nft_view rules k)(''inet proxiflare output'' :=
       filter (\<lambda>(cm, b). \<not> prefix (mark_comment n) cm) (nft_view rules k ''inet proxiflare output''))"
    by (rule delete_view [OF assms(1,2) out_chains(1) _ comment_keys(3) assms(5), where tt = "''inet''" and tb = "''proxiflare''" and ch = "''output''"]) simp_all
  ultimately show ?thesis unfolding pf_nft_remove_cgroup_mark_def by (auto simp: mark_prefix)
qed

section \<open>Modes of DNS protection\<close>

text \<open>Two rules added one after the other, as both modes do after removing the rules of the previous mode.\<close>

lemma two_rules_view:
  assumes "nft_documented H rules" "daemon_rule c b1 cm" "daemon_rule c b2 cm"
    and "(case nft_run H (add_rule c b1 cm) k of (Some _, k) \<Rightarrow> (Some PF_ERR, k) | (None, k) \<Rightarrow> nft_step H (add_rule c b2 cm) k) = (r, k')"
  shows "nft_view rules k' \<in> (\<lambda>xs. (nft_view rules k)(c := nft_view rules k c @ xs)) `
    (if r = None then {[(cm, b1), (cm, b2)]} else {[], [(cm, b1)]})"
proof -
  obtain r1 k1 where s1: "nft_run H (add_rule c b1 cm) k = (r1, k1)" by (rule prod.exhaust)
  note v1 = add_view [OF assms(1,2) s1]
  show ?thesis
  proof (cases r1)
    case None
    hence "nft_run H (add_rule c b2 cm) k1 = (r, k')" using assms(4) s1 by (simp add: nft_step_run)
    from add_view [OF assms(1,3) this] v1 None show ?thesis by (auto simp: fun_eq_iff)
  next
    case (Some e)
    hence "r \<noteq> None" "k' = k1" using assms(4) s1 by auto
    thus ?thesis using v1 Some by (auto simp: fun_eq_iff intro: image_eqI [of _ _ "[]"])
  qed
qed

datatype dns_op = Force_server u32 | Via_proxy int | Dns_off

definition dns_op_run :: "(string \<Rightarrow> bool) \<Rightarrow> 'k host \<Rightarrow> dns_op \<Rightarrow> 'k \<Rightarrow> pf_err option \<times> 'k" where
  "dns_op_run pton6 H op k = (case op of
     Force_server w \<Rightarrow> pf_nft_dns_leak_protect pton6 H (inet_ntop4 w) k
   | Via_proxy port \<Rightarrow> pf_nft_dns_via_proxy H port k
   | Dns_off \<Rightarrow> pf_nft_dns_leak_disable H k)"

text \<open>The rules a mode stands for.\<close>

definition dns_rules :: "dns_op \<Rightarrow> (string \<times> string) list" where
  "dns_rules op = (case op of
     Force_server w \<Rightarrow> map (\<lambda>p. (''pf_dns_leak'', leak_body p (inet_ntop4 w))) [''udp'', ''tcp'']
   | Via_proxy port \<Rightarrow> map (\<lambda>p. (''pf_dns_leak'', via_body p port)) [''udp'', ''tcp'']
   | Dns_off \<Rightarrow> [])"

lemma inet_ntop4_nonempty: "inet_ntop4 w \<noteq> []"
  using inet_pton4_ntop4 [of w] by (auto simp: inet_pton4_def ip_of_octets_def)

lemma leak_script:
  assumes "p \<in> {''udp'', ''tcp''}"
  shows "snprintf_s 512 (add_rule ''inet proxiflare output_nat'' (leak_body p (inet_ntop4 w)) ''pf_dns_leak'')
    = add_rule ''inet proxiflare output_nat'' (leak_body p (inet_ntop4 w)) ''pf_dns_leak''"
  using assms inet_ntop4_length [of w] by (intro snprintf_s_id) (auto simp: add_rule_def leak_body_def scope1_def)

lemma via_script:
  assumes "p \<in> {''udp'', ''tcp''}" "0 < n" "n \<le> 65535"
  shows "snprintf_s 512 (add_rule ''inet proxiflare output_nat'' (via_body p n) ''pf_dns_leak'')
    = add_rule ''inet proxiflare output_nat'' (via_body p n) ''pf_dns_leak''"
  using assms show_int_length [of n] by (intro snprintf_s_id) (auto simp: add_rule_def via_body_def scope1_def)

lemma dns_daemon_rules:
  assumes "p \<in> {''udp'', ''tcp''}"
  shows "daemon_rule ''inet proxiflare output_nat'' (leak_body p (inet_ntop4 w)) ''pf_dns_leak''"
    and "0 < n \<Longrightarrow> n \<le> 65535 \<Longrightarrow> daemon_rule ''inet proxiflare output_nat'' (via_body p n) ''pf_dns_leak''"
  using assms unfolding daemon_rule_def by blast+

lemma dns_op_view:
  assumes H: "nft_documented H rules" "nft_can_delete H rules"
    and only: "\<forall>x \<in> set (nft_view rules k ''inet proxiflare output_nat''). fst x = ''pf_dns_leak''"
    and few: "length (nft_view rules k ''inet proxiflare output_nat'') \<le> 256"
    and run: "dns_op_run pton6 H op k = (r, k')"
  shows "r = None \<Longrightarrow> nft_view rules k' = (nft_view rules k)(''inet proxiflare output_nat'' := dns_rules op)"
    and "r \<noteq> None \<Longrightarrow> (\<exists>port. op = Via_proxy port \<and> (port \<le> 0 \<or> port > 65535) \<and> k' = k) \<or>
      nft_view rules k' \<in> {(nft_view rules k)(''inet proxiflare output_nat'' := []),
        (nft_view rules k)(''inet proxiflare output_nat'' := [hd (dns_rules op)])}"
proof -
  let ?c = "''inet proxiflare output_nat''" and ?del = "nft_delete_by_comment H ''inet'' ''proxiflare'' ''output_nat'' ''pf_dns_leak'' k"
  have few': "length (filter (\<lambda>(cm, b). prefix ''pf_dns_leak'' cm) (nft_view rules k ?c)) \<le> 256"
    by (rule le_trans [OF length_filter_le few])
  obtain k1 where d: "?del = (None, k1)"
    "nft_view rules k1 = (nft_view rules k)(?c := filter (\<lambda>(cm, b). \<not> prefix ''pf_dns_leak'' cm) (nft_view rules k ?c))"
    by (rule delete_view [OF H out_chains(2) _ comment_keys(1) few', where tt = "''inet''" and tb = "''proxiflare''" and ch = "''output_nat''"]) simp_all
  have "filter (\<lambda>(cm, b). \<not> prefix ''pf_dns_leak'' cm) (nft_view rules k ?c) = []" using only by (auto simp: filter_empty_conv)
  hence k1: "nft_view rules k1 = (nft_view rules k)(?c := [])" using d(2) by simp
  have two: "if r = None then nft_view rules k' = (nft_view rules k)(?c := [(''pf_dns_leak'', b1), (''pf_dns_leak'', b2)])
      else nft_view rules k' \<in> {(nft_view rules k)(?c := []), (nft_view rules k)(?c := [(''pf_dns_leak'', b1)])}"
    if "daemon_rule ?c b1 ''pf_dns_leak''" "daemon_rule ?c b2 ''pf_dns_leak''"
      "(case nft_run H (add_rule ?c b1 ''pf_dns_leak'') k1 of (Some _, k) \<Rightarrow> (Some PF_ERR, k)
        | (None, k) \<Rightarrow> nft_step H (add_rule ?c b2 ''pf_dns_leak'') k) = (r, k')" for b1 b2
    using two_rules_view [OF H(1) that] by (auto simp: k1)
  have "if r = None then nft_view rules k' = (nft_view rules k)(?c := dns_rules op)
    else (\<exists>port. op = Via_proxy port \<and> (port \<le> 0 \<or> port > 65535) \<and> k' = k) \<or>
      nft_view rules k' \<in> {(nft_view rules k)(?c := []), (nft_view rules k)(?c := [hd (dns_rules op)])}"
  proof (cases op)
    case (Force_server w)
    have "(case nft_run H (add_rule ?c (leak_body ''udp'' (inet_ntop4 w)) ''pf_dns_leak'') k1 of (Some _, k) \<Rightarrow> (Some PF_ERR, k)
        | (None, k) \<Rightarrow> nft_step H (add_rule ?c (leak_body ''tcp'' (inet_ntop4 w)) ''pf_dns_leak'') k) = (r, k')"
      using run d(1) inet_ntop4_nonempty [of w]
      unfolding Force_server dns_op_run_def dns_op.case pf_nft_dns_leak_protect_def leak_script [OF insertI1] leak_script [OF insertI2 [OF singletonI]]
      by (simp add: inet_pton4_ntop4)
    from two [OF _ _ this] show ?thesis
      using dns_daemon_rules(1) [of "''udp''" w] dns_daemon_rules(1) [of "''tcp''" w] by (cases r) (simp_all add: Force_server dns_rules_def)
  next
    case (Via_proxy n)
    show ?thesis
    proof (cases "n \<le> 0 \<or> n > 65535")
      case True
      thus ?thesis using run by (auto simp: Via_proxy dns_op_run_def pf_nft_dns_via_proxy_def)
    next
      case False
      hence n: "0 < n" "n \<le> 65535" by simp_all
      have "(case nft_run H (add_rule ?c (via_body ''udp'' n) ''pf_dns_leak'') k1 of (Some _, k) \<Rightarrow> (Some PF_ERR, k)
          | (None, k) \<Rightarrow> nft_step H (add_rule ?c (via_body ''tcp'' n) ''pf_dns_leak'') k) = (r, k')"
        using run d(1) n
        unfolding Via_proxy dns_op_run_def dns_op.case pf_nft_dns_via_proxy_def via_script [OF insertI1 n] via_script [OF insertI2 [OF singletonI] n]
        by simp
      from two [OF _ _ this] show ?thesis
        using dns_daemon_rules(2) [of "''udp''" n] dns_daemon_rules(2) [of "''tcp''" n] n by (cases r) (simp_all add: Via_proxy dns_rules_def)
    qed
  next
    case Dns_off
    thus ?thesis using run d(1) k1 by (simp add: dns_op_run_def pf_nft_dns_leak_disable_def dns_rules_def)
  qed
  thus "r = None \<Longrightarrow> nft_view rules k' = (nft_view rules k)(''inet proxiflare output_nat'' := dns_rules op)"
    and "r \<noteq> None \<Longrightarrow> (\<exists>port. op = Via_proxy port \<and> (port \<le> 0 \<or> port > 65535) \<and> k' = k) \<or>
      nft_view rules k' \<in> {(nft_view rules k)(''inet proxiflare output_nat'' := []),
        (nft_view rules k)(''inet proxiflare output_nat'' := [hd (dns_rules op)])}" by (cases r; simp)+
qed

text \<open>A run of mode changes that all succeed.\<close>

fun dns_run :: "(string \<Rightarrow> bool) \<Rightarrow> 'k host \<Rightarrow> dns_op list \<Rightarrow> 'k \<Rightarrow> 'k option" where
  "dns_run pton6 H [] k = Some k"
| "dns_run pton6 H (op # ops) k = (case dns_op_run pton6 H op k of (None, k') \<Rightarrow> dns_run pton6 H ops k' | (Some _, k') \<Rightarrow> None)"

lemma dns_run_view:
  assumes H: "nft_documented H rules" "nft_can_delete H rules"
    and "\<forall>x \<in> set (nft_view rules k ''inet proxiflare output_nat''). fst x = ''pf_dns_leak''"
    and "length (nft_view rules k ''inet proxiflare output_nat'') \<le> 256" "dns_run pton6 H ops k = Some k'"
  shows "nft_view rules k' = (if ops = [] then nft_view rules k else (nft_view rules k)(''inet proxiflare output_nat'' := dns_rules (last ops)))"
  using assms(3-)
proof (induction ops arbitrary: k)
  case (Cons op ops)
  obtain r k1 where r: "dns_op_run pton6 H op k = (r, k1)" by (rule prod.exhaust)
  hence "r = None" using Cons.prems(3) by (cases r) simp_all
  hence k1: "nft_view rules k1 = (nft_view rules k)(''inet proxiflare output_nat'' := dns_rules op)"
    using dns_op_view(1) [OF H Cons.prems(1,2) r] by simp
  have "dns_run pton6 H ops k1 = Some k'" using Cons.prems(3) r \<open>r = None\<close> by simp
  moreover have "\<forall>x \<in> set (dns_rules op). fst x = ''pf_dns_leak''" "length (dns_rules op) \<le> 256"
    by (auto simp: dns_rules_def split: dns_op.splits)
  ultimately show ?case using Cons.IH [of k1] k1 by (auto simp: fun_eq_iff)
qed simp


section \<open>A concrete nft\<close>

text \<open>
  An nft that knows five rules of the daemon and keeps up to eight.  A state is a list of
  positions; position \<open>i\<close> has handle \<open>i + 1\<close> and holds rule \<open>j\<close> if its value is \<open>j + 1\<close>, none if it is 0.
\<close>

definition demo_rules :: "(string \<times> string \<times> string) list" where
  "demo_rules = [(''inet proxiflare output'', mark_body 1, mark_comment 1), (''inet proxiflare output'', mark_body 12, mark_comment 12),
     (''inet proxiflare output_nat'', via_body ''udp'' 5353, ''pf_dns_leak''), (''inet proxiflare output_nat'', via_body ''tcp'' 5353, ''pf_dns_leak''),
     (''inet proxiflare output_filter'', quic_body, ''pf_block_quic'')]"

definition demo_at :: "nat list \<Rightarrow> nat \<Rightarrow> (string \<times> string \<times> string) option" where
  "demo_at k i = (if i < length k \<and> i < 8 \<and> 0 < k ! i \<and> k ! i \<le> length demo_rules then Some (demo_rules ! (k ! i - 1)) else None)"

definition demo_item :: "nat list \<Rightarrow> string \<Rightarrow> nat \<Rightarrow> nft_rule list" where
  "demo_item k c i = (case demo_at k i of
     Some (c', body, cm) \<Rightarrow> if c' = c then [\<lparr> nr_handle = i + 1, nr_body = body, nr_comment = cm, nr_print = ''comment '' @ [QUOT] \<rparr>] else []
   | None \<Rightarrow> [])"

definition demo_kernel :: "nat list \<Rightarrow> string \<Rightarrow> nft_rule list" where
  "demo_kernel k c = concat (map (demo_item k c) [0 ..< 8])"

definition demo_feed :: "string \<Rightarrow> nat list \<Rightarrow> bool \<times> nat list" where
  "demo_feed script k = (case find (\<lambda>(c, i). delete_cmd c (i + 1) = script) (List.product nft_chains [0 ..< 8]) of
     Some (c, i) \<Rightarrow> if \<exists>r \<in> set (demo_kernel k c). nr_handle r = i + 1 then (True, k[i := 0]) else (False, k)
   | None \<Rightarrow> (case find_index (\<lambda>(c, body, cm). add_rule c body cm = script) demo_rules of
       Some j \<Rightarrow> if length k < 8 then (True, k @ [j + 1]) else (False, k)
     | None \<Rightarrow> (False, k)))"

definition demo_list :: "string \<Rightarrow> nat list \<Rightarrow> string option" where
  "demo_list cmd k = map_option (\<lambda>c. concat (map (\<lambda>r. rule_line r @ [LF]) (demo_kernel k c))) (find (\<lambda>c. list_cmd c = cmd) nft_chains)"

definition demo_host :: "nat list host" where
  "demo_host = \<lparr> nft_feed = demo_feed, popen_read = demo_list, system_ok = (\<lambda>c k. (True, k)), c_mkdir = (\<lambda>p k. (None, k)),
     c_rmdir = (\<lambda>p k. (Some ENOENT, k)), file_read = (\<lambda>p k. None), file_write = (\<lambda>p d k. (False, k)), read_dir = (\<lambda>p k. None),
     c_readlink = (\<lambda>p k. None) \<rparr>"

lemma last_quote: "a @ QUOT # b = a' @ QUOT # b' \<Longrightarrow> QUOT \<notin> set b \<Longrightarrow> QUOT \<notin> set b' \<Longrightarrow> a = a' \<and> b = b'"
proof -
  assume a: "a @ QUOT # b = a' @ QUOT # b'" "QUOT \<notin> set b" "QUOT \<notin> set b'"
  have "rev b @ QUOT # rev a = rev b' @ QUOT # rev a'" using arg_cong [OF a(1), of rev] by simp
  moreover have "takeWhile (\<lambda>x. x \<noteq> QUOT) (rev b @ QUOT # rev a) = rev b" "takeWhile (\<lambda>x. x \<noteq> QUOT) (rev b' @ QUOT # rev a') = rev b'"
    using a(2,3) by (auto simp: takeWhile_append)
  ultimately have "rev b = rev b'" by metis
  thus ?thesis using a(1) by simp
qed

lemma add_rule_inj:
  assumes "add_rule c body cm = add_rule c' body' cm'" "c \<in> set nft_chains" "c' \<in> set nft_chains" "QUOT \<notin> set cm" "QUOT \<notin> set cm'"
  shows "c = c' \<and> body = body' \<and> cm = cm'"
proof -
  have e: "(c @ '' '' @ body @ '' comment '') @ QUOT # cm = (c' @ '' '' @ body' @ '' comment '') @ QUOT # cm'"
    using assms(1) by (auto simp: add_rule_def dest!: arg_cong [where f = rev])
  hence "cm = cm'" "c @ '' '' @ body @ '' comment '' = c' @ '' '' @ body' @ '' comment ''" using last_quote assms(4,5) by blast+
  hence "c @ CHR '' '' # body = c' @ CHR '' '' # body'" "cm = cm'" by auto
  moreover have "c = c'" using calculation(1) assms(2,3) by (auto simp: nft_chains_def)
  ultimately show ?thesis by simp
qed

lemma demo_rules_daemon: "(c, body, cm) \<in> set demo_rules \<Longrightarrow> daemon_rule c body cm"
proof -
  have "daemon_rule ''inet proxiflare output'' (mark_body n) (mark_comment n)" if "0 < n" "n < 2 ^ 31" for n
    using that unfolding daemon_rule_def by blast
  thus "(c, body, cm) \<in> set demo_rules \<Longrightarrow> daemon_rule c body cm"
    using dns_daemon_rules [of "''udp''"] dns_daemon_rules [of "''tcp''"] by (auto simp: demo_rules_def) (simp add: daemon_rule_def)
qed

lemma daemon_rule_shape:
  assumes "daemon_rule c body cm"
  shows "c \<in> set nft_chains" "QUOT \<notin> set cm"
  using assms comment_keys by (auto simp: daemon_rule_def comment_key_def)

lemma delete_cmd_inj:
  assumes "delete_cmd c h = delete_cmd c' h'" "c \<in> set nft_chains" "c' \<in> set nft_chains"
  shows "c = c' \<and> h = h'"
proof -
  have "show_nat a = show_nat b \<longleftrightarrow> a = b" for a b by (metis nat_of_digits_show)
  thus ?thesis using assms by (auto simp: delete_cmd_def nft_chains_def)
qed

lemma demo_shape:
  assumes "(c, body, cm) \<in> set demo_rules" "0 < h" "h < 2 ^ 31"
  shows "rule_shape \<lparr> nr_handle = h, nr_body = body, nr_comment = cm, nr_print = ''comment '' @ [QUOT] \<rparr>"
proof -
  have l: "length (show_nat h) \<le> 10" using assms(3) by (intro show_nat_length) auto
  have no: "x \<notin> set (show_nat h)" if "\<not> is_digit x" for x using show_nat_no_char [OF that] .
  have s: "\<not> sublist ''pf_'' (show_nat h @ [LF])"
    using no [of "CHR ''p''"] by (auto simp: is_digit_def dest: set_mono_sublist)
  have lf: "LF \<notin> set (show_nat h)" by (rule no) (simp add: is_digit_def)
  have shape: "rule_shape \<lparr> nr_handle = h, nr_body = body, nr_comment = x, nr_print = ''comment '' @ [QUOT] \<rparr>"
    if "x \<in> {''pf_cgroup_1'', ''pf_cgroup_12'', ''pf_dns_leak'', ''pf_block_quic''}" for x
    using that assms(2,3) l s lf
    by (elim insertE emptyE) (simp_all add: rule_shape_def rule_line_def sublist_Cons_right)
  have marks: "mark_comment 1 = ''pf_cgroup_1''" "mark_comment 12 = ''pf_cgroup_12''" by code_simp+
  have "cm \<in> {''pf_cgroup_1'', ''pf_cgroup_12'', ''pf_dns_leak'', ''pf_block_quic''}"
    using assms(1) marks by (auto simp: demo_rules_def)
  thus ?thesis by (rule shape)
qed

lemma demo_kernel_at: "r \<in> set (demo_kernel k c) \<longleftrightarrow> (\<exists>i body cm. demo_at k i = Some (c, body, cm)
    \<and> r = \<lparr> nr_handle = i + 1, nr_body = body, nr_comment = cm, nr_print = ''comment '' @ [QUOT] \<rparr>)"
proof -
  have "i < 8" if "demo_at k i = Some x" for i x using that by (auto simp: demo_at_def split: if_splits)
  thus ?thesis by (fastforce simp: demo_kernel_def demo_item_def split: option.splits if_splits)
qed

lemma demo_at_rule: "demo_at k i = Some x \<Longrightarrow> x \<in> set demo_rules \<and> i < 8"
  by (auto simp: demo_at_def split: if_splits)

lemma demo_kernel_shape: "list_all rule_shape (demo_kernel k c)"
proof -
  have "rule_shape r" if "r \<in> set (demo_kernel k c)" for r
  proof -
    obtain i body cm where i: "demo_at k i = Some (c, body, cm)"
      "r = \<lparr> nr_handle = i + 1, nr_body = body, nr_comment = cm, nr_print = ''comment '' @ [QUOT] \<rparr>"
      using \<open>r \<in> set (demo_kernel k c)\<close> unfolding demo_kernel_at by blast
    show ?thesis unfolding i(2) using demo_at_rule [OF i(1)] by (intro demo_shape) auto
  qed
  thus ?thesis by (simp add: list_all_iff)
qed

lemma demo_distinct: "distinct (map nr_handle (demo_kernel k c))"
proof -
  have "map nr_handle (concat (map (demo_item k c) is)) = map Suc (filter (\<lambda>i. demo_item k c i \<noteq> []) is)" for "is"
    by (induction "is") (auto simp: demo_item_def split: option.splits if_splits)
  thus ?thesis by (simp add: demo_kernel_def distinct_map)
qed

lemma demo_kernel_clear:
  assumes "r \<in> set (demo_kernel k c)" "nr_handle r = i + 1"
  shows "demo_kernel (k[i := 0]) = (demo_kernel k)(c := filter (\<lambda>r. nr_handle r \<noteq> i + 1) (demo_kernel k c))"
proof
  fix c'
  obtain body cm where a: "demo_at k i = Some (c, body, cm)" using assms unfolding demo_kernel_at by auto
  have at: "demo_at (k[i := 0]) j = (if j = i then None else demo_at k j)" for j
    by (auto simp: demo_at_def)
  have "demo_item (k[i := 0]) c' j = (if c' = c then filter (\<lambda>r. nr_handle r \<noteq> i + 1) (demo_item k c j) else demo_item k c' j)" for j
    using a by (auto simp: demo_item_def at split: option.splits)
  hence "concat (map (demo_item (k[i := 0]) c') is) = (if c' = c then filter (\<lambda>r. nr_handle r \<noteq> i + 1) (concat (map (demo_item k c) is))
      else concat (map (demo_item k c') is))" for "is"
    by (induction "is") simp_all
  thus "demo_kernel (k[i := 0]) c' = ((demo_kernel k)(c := filter (\<lambda>r. nr_handle r \<noteq> i + 1) (demo_kernel k c))) c'"
    by (simp add: demo_kernel_def)
qed

lemma demo_kernel_add:
  assumes "length k < 8" "j < length demo_rules" "demo_rules ! j = (c, body, cm)"
  shows "demo_kernel (k @ [Suc j]) = (demo_kernel k)(c := demo_kernel k c @
    [\<lparr> nr_handle = length k + 1, nr_body = body, nr_comment = cm, nr_print = ''comment '' @ [QUOT] \<rparr>])"
proof
  fix c'
  let ?r = "\<lparr> nr_handle = length k + 1, nr_body = body, nr_comment = cm, nr_print = ''comment '' @ [QUOT] \<rparr>"
  have at: "demo_at (k @ [Suc j]) i = (if i = length k then Some (c, body, cm) else demo_at k i)" for i
    using assms by (auto simp: demo_at_def nth_append)
  hence new: "demo_item (k @ [Suc j]) c' (length k) = (if c' = c then [?r] else [])" by (simp add: demo_item_def)
  have old: "demo_item (k @ [Suc j]) c' i = demo_item k c' i" if "i \<noteq> length k" for i using that by (simp add: demo_item_def at)
  have none: "demo_item k x i = []" if "length k \<le> i" for i x using that by (simp add: demo_item_def demo_at_def)
  have n: "[0 ..< 8] = [0 ..< length k] @ length k # [Suc (length k) ..< 8]"
    using assms(1) upt_add_eq_append [of 0 "length k" "8 - length k"] by (simp add: upt_conv_Cons)
  have head: "concat (map (demo_item (k @ [Suc j]) c') [0 ..< length k]) = concat (map (demo_item k c') [0 ..< length k])"
    by (intro arg_cong [where f = concat] map_cong refl old) simp
  have tail: "concat (map (demo_item (k @ [Suc j]) c') [Suc (length k) ..< 8]) = []" using old none by simp
  have tail': "concat (map (demo_item k x) [Suc (length k) ..< 8]) = []" for x using none by simp
  show "demo_kernel (k @ [Suc j]) c' = ((demo_kernel k)(c := demo_kernel k c @ [?r])) c'"
    unfolding demo_kernel_def n map_append list.map concat_append concat.simps head tail tail' new none [OF order_refl] by simp
qed

lemma demo_feed_delete:
  assumes "c \<in> set nft_chains"
  shows "demo_feed (delete_cmd c h) k = (if h \<in> nr_handle ` set (demo_kernel k c) then (True, k[h - 1 := 0]) else (False, k))"
proof -
  let ?P = "\<lambda>(c', i). delete_cmd c' (i + 1) = delete_cmd c h" and ?xs = "List.product nft_chains [0 ..< 8]"
  have P: "?P x \<longleftrightarrow> x = (c, h - 1) \<and> 0 < h" if "x \<in> set ?xs" for x
  proof -
    obtain c' i where x: "x = (c', i)" by (rule prod.exhaust)
    have "c' \<in> set nft_chains" using that unfolding x by auto
    hence "delete_cmd c' (i + 1) = delete_cmd c h \<longleftrightarrow> c' = c \<and> i + 1 = h" using delete_cmd_inj assms by blast
    thus ?thesis unfolding x by auto
  qed
  have add: "add_rule c' b m \<noteq> delete_cmd c h" for c' b m by (simp add: add_rule_def delete_cmd_def)
  show ?thesis
  proof (cases "find ?P ?xs")
    case (Some x)
    hence "x \<in> set ?xs \<and> ?P x" unfolding find_Some_iff by (elim exE conjE) (simp only: nth_mem)
    hence x: "x = (c, h - 1)" "0 < h" using P by blast+
    moreover have "(\<exists>r \<in> set (demo_kernel k c). nr_handle r = h - 1 + 1) \<longleftrightarrow> h \<in> nr_handle ` set (demo_kernel k c)"
      using x(2) by (auto simp: image_iff)
    ultimately show ?thesis using Some by (simp add: demo_feed_def)
  next
    case None
    have "\<not> (0 < h \<and> h \<le> 8)"
    proof
      assume h: "0 < h \<and> h \<le> 8"
      hence "h - 1 \<in> set [0 ..< 8]" by auto
      hence "(c, h - 1) \<in> set ?xs" using assms by auto
      hence "\<not> ?P (c, h - 1)" using None unfolding find_None_iff by blast
      thus False using h by simp
    qed
    moreover have "0 < nr_handle r \<and> nr_handle r \<le> 8" if "r \<in> set (demo_kernel k c)" for r
      using that demo_at_rule unfolding demo_kernel_at by fastforce
    ultimately have "h \<notin> nr_handle ` set (demo_kernel k c)" by force
    moreover have "find_index (\<lambda>(c', b, m). add_rule c' b m = delete_cmd c h) demo_rules = None"
      using add by (simp add: find_index_None)
    ultimately show ?thesis using None by (simp add: demo_feed_def)
  qed
qed

lemma demo_feed_add:
  assumes "daemon_rule c body cm" "demo_feed (add_rule c body cm) k = (ok, k')"
  shows "if ok then \<exists>h pr. demo_kernel k' = (demo_kernel k)(c := demo_kernel k c @ [\<lparr> nr_handle = h, nr_body = body, nr_comment = cm, nr_print = pr \<rparr>])
    else k' = k"
proof -
  have "delete_cmd c' h \<noteq> add_rule c body cm" for c' h by (simp add: add_rule_def delete_cmd_def)
  hence none: "find (\<lambda>(c', i). delete_cmd c' (i + 1) = add_rule c body cm) xs = None" for xs by (simp add: find_None_iff)
  show ?thesis
  proof (cases "find_index (\<lambda>(c', b, m). add_rule c' b m = add_rule c body cm) demo_rules")
    case (Some j)
    obtain c' b m where j: "demo_rules ! j = (c', b, m)" by (rule prod_cases3)
    have j2: "j < length demo_rules" "add_rule c' b m = add_rule c body cm" using Some j by (auto simp: find_index_Some)
    have "daemon_rule c' b m" using j j2(1) demo_rules_daemon by (metis nth_mem)
    hence "c' = c \<and> b = body \<and> m = cm" using j2(2) assms(1) add_rule_inj daemon_rule_shape by meson
    thus ?thesis using assms(2) none Some j j2(1) demo_kernel_add [of k j c body cm] by (auto simp: demo_feed_def split: if_splits)
  qed (use assms(2) none in \<open>auto simp: demo_feed_def\<close>)
qed

lemma demo_documented: "nft_documented demo_host demo_kernel"
proof -
  have "list_cmd c = list_cmd c' \<longleftrightarrow> c = c'" for c c' by (simp add: list_cmd_def)
  hence "demo_list (list_cmd c) k = Some (concat (map (\<lambda>r. rule_line r @ [LF]) (demo_kernel k c)))" if "c \<in> set nft_chains" for c k
    using that by (auto simp: demo_list_def nft_chains_def)
  hence "nft_listing demo_host demo_kernel"
    unfolding nft_listing_def using demo_kernel_shape demo_distinct
    by (auto simp: demo_host_def comp_def intro!: exI [of _ "[]"])
  moreover have "nft_adding demo_host demo_kernel"
    unfolding nft_adding_def using demo_feed_add by (fastforce simp: demo_host_def)
  moreover have "nft_deleting demo_host demo_kernel"
  proof -
    have "demo_kernel (k[h - 1 := 0]) = (demo_kernel k)(c := filter (\<lambda>r. nr_handle r \<noteq> h) (demo_kernel k c))"
      if h: "h \<in> nr_handle ` set (demo_kernel k c)" for k c h
    proof -
      obtain r where r: "r \<in> set (demo_kernel k c)" "nr_handle r = h" using h by blast
      hence "0 < h" unfolding demo_kernel_at by auto
      thus ?thesis using demo_kernel_clear [OF r(1), of "h - 1"] r(2) by simp
    qed
    thus ?thesis unfolding nft_deleting_def by (auto simp: demo_host_def demo_feed_delete split: if_splits)
  qed
  ultimately show ?thesis by (simp add: nft_documented_def demo_host_def)
qed

lemma demo_can_delete: "nft_can_delete demo_host demo_kernel"
  unfolding nft_can_delete_def
  by (auto simp: demo_host_def demo_feed_delete demo_list_def nft_chains_def list_cmd_def)

text \<open>Rules 1 and 12 are marked; removing the mark of rule 1 removes both marks.\<close>

theorem remove_mark_by_prefix_witness:
  "\<exists>k'. pf_nft_remove_cgroup_mark demo_host 1 [1, 2] = (None, k')
    \<and> (mark_comment 12, mark_body 12) \<in> set (nft_view demo_kernel [1, 2] ''inet proxiflare output'')
    \<and> (mark_comment 12, mark_body 12) \<notin> set (nft_view demo_kernel k' ''inet proxiflare output'')"
proof -
  let ?m = "(mark_comment 12, mark_body 12)" and ?o = "''inet proxiflare output''"
  have v: "nft_view demo_kernel [1, 2] ?o = [(mark_comment 1, mark_body 1), ?m]"
    by (simp add: nft_view_def demo_kernel_def demo_item_def demo_at_def demo_rules_def upt_rec)
  have len: "length (filter (\<lambda>(cm, b). prefix (mark_comment 1) cm) (nft_view demo_kernel [1, 2] ?o)) \<le> 256"
    by (rule le_trans [OF length_filter_le]) (unfold v, simp)
  have p: "prefix (show_int 1) (show_int 12)" by code_simp
  obtain k' where "pf_nft_remove_cgroup_mark demo_host 1 [1, 2] = (None, k')"
    "?m \<in> set (nft_view demo_kernel k' ?o) \<longleftrightarrow> ?m \<in> set (nft_view demo_kernel [1, 2] ?o) \<and> \<not> prefix (show_int 1) (show_int 12)"
    using remove_mark_by_prefix [OF demo_documented demo_can_delete, of 1 "[1, 2]", OF _ _ len] by force
  thus ?thesis using p v by simp
qed

lemma demo_out: "demo_list (list_cmd ''inet proxiflare output_nat'') [1, 2] = Some []"
  by (simp add: demo_list_def nft_chains_def list_cmd_def demo_kernel_def demo_item_def demo_at_def demo_rules_def upt_rec)

lemma demo_del: "nft_delete_by_comment demo_host ''inet'' ''proxiflare'' ''output_nat'' ''pf_dns_leak'' [1, 2] = (None, [1, 2])"
proof -
  have "popen_read demo_host (snprintf_s 256 (''nft -a list chain '' @ (''inet'' @ '' '' @ ''proxiflare'' @ '' '' @ ''output_nat'') @ '' 2>/dev/null'')) [1, 2] = Some []"
    using demo_out by (simp add: demo_host_def list_cmd_def snprintf_s_id)
  thus ?thesis by (simp add: nft_delete_by_comment_def Let_def fgets_all.simps del: append.simps)
qed

lemma demo_add: "j < length demo_rules \<Longrightarrow> demo_rules ! j = (c, b, m) \<Longrightarrow> length k < 8 \<Longrightarrow> demo_feed (add_rule c b m) k = (True, k @ [Suc j])"
proof -
  assume a: "j < length demo_rules" "demo_rules ! j = (c, b, m)" "length k < 8"
  have "delete_cmd c' h \<noteq> add_rule c b m" for c' h by (simp add: add_rule_def delete_cmd_def)
  hence none: "find (\<lambda>(c', i). delete_cmd c' (i + 1) = add_rule c b m) xs = None" for xs by (simp add: find_None_iff)
  have d: "daemon_rule c b m" using a demo_rules_daemon by (metis nth_mem)
  have dist: "distinct demo_rules" by (simp add: demo_rules_def via_body_def mark_body_def mark_comment_def quic_body_def show_int_inj)
  have "\<not> (case demo_rules ! i of (c', b', m') \<Rightarrow> add_rule c' b' m' = add_rule c b m)" if "i < j" for i
  proof -
    obtain c' b' m' where i: "demo_rules ! i = (c', b', m')" by (rule prod_cases3)
    have il: "i < length demo_rules" using that a(1) by (rule less_trans)
    have "demo_rules ! i \<noteq> demo_rules ! j" using nth_eq_iff_index_eq [OF dist il a(1)] that by simp
    hence "(c', b', m') \<noteq> (c, b, m)" unfolding i a(2) .
    moreover have "daemon_rule c' b' m'" using demo_rules_daemon nth_mem [OF il] unfolding i by blast
    ultimately show ?thesis unfolding i prod.case
      using add_rule_inj [of c' b' m' c b m] daemon_rule_shape [OF d] daemon_rule_shape [of c' b' m'] by blast
  qed
  hence "find_index (\<lambda>(c', b', m'). add_rule c' b' m' = add_rule c b m) demo_rules = Some j"
    using a(1,2) unfolding find_index_Some by auto
  thus ?thesis using none a(3) by (simp add: demo_feed_def)
qed

lemma demo_via: "pf_nft_dns_via_proxy demo_host 5353 [1, 2] = (None, [1, 2, 3, 4])"
  using demo_add [of 2 "''inet proxiflare output_nat''" "via_body ''udp'' 5353" "''pf_dns_leak''" "[1, 2]"]
    demo_add [of 3 "''inet proxiflare output_nat''" "via_body ''tcp'' 5353" "''pf_dns_leak''" "[1, 2, 3]"]
  unfolding pf_nft_dns_via_proxy_def demo_del Let_def by (simp add: via_script nft_step_run nft_run_def demo_host_def demo_rules_def)


end
