(* ===== verification/Cgroup.thy ===== *)
theory Cgroup
  imports Host Rules
begin

text \<open>
  \<^verbatim>\<open>cgroup.c\<close>: one cgroup directory per rule below \<open>PF_CGROUP_BASE\<close>.  A process is put into the group of
  a rule, or back into the base group, by writing its number into the \<^verbatim>\<open>cgroup.procs\<close> file there.
\<close>

section \<open>Operations\<close>

definition PF_CGROUP_BASE :: string where "PF_CGROUP_BASE = ''/sys/fs/cgroup/proxiflare''"

definition write_file :: "'k host \<Rightarrow> string \<Rightarrow> string \<Rightarrow> 'k \<Rightarrow> bool \<times> 'k" where
  "write_file H path data k = file_write H path data k"

definition rule_path :: "int \<Rightarrow> nat \<Rightarrow> string option" where
  "rule_path rule_id bufsz = (if rule_id \<le> 0 then None
     else let p = PF_CGROUP_BASE @ ''/rule_'' @ show_int rule_id in if length p \<ge> bufsz then None else Some p)"

definition pf_cgroup_init :: "'k host \<Rightarrow> 'k \<Rightarrow> pf_err option \<times> 'k" where
  "pf_cgroup_init H k = (case c_mkdir H PF_CGROUP_BASE k of
     (None, k) \<Rightarrow> (None, k) | (Some e, k) \<Rightarrow> (if e \<noteq> EEXIST then Some PF_ERR else None, k))"

definition pf_cgroup_create_rule :: "'k host \<Rightarrow> int \<Rightarrow> 'k \<Rightarrow> pf_err option \<times> 'k" where
  "pf_cgroup_create_rule H rule_id k = (case rule_path rule_id PF_PATH_MAX of
     None \<Rightarrow> (Some PF_ERR, k)
   | Some path \<Rightarrow> (case c_mkdir H path k of
       (None, k) \<Rightarrow> (None, k) | (Some e, k) \<Rightarrow> (if e \<noteq> EEXIST then Some PF_ERR else None, k)))"

text \<open>The loop of \<^verbatim>\<open>pf_cgroup_remove_rule\<close> over the lines \<^verbatim>\<open>fgets\<close> returns from \<^verbatim>\<open>cgroup.procs\<close>.\<close>

definition trim_newline :: "string \<Rightarrow> string" where
  "trim_newline l = (if l \<noteq> [] \<and> last l = LF then butlast l else l)"

fun drain_loop :: "'k host \<Rightarrow> string list \<Rightarrow> 'k \<Rightarrow> 'k" where
  "drain_loop H [] k = k"
| "drain_loop H (l # ls) k = (let pid = trim_newline l in
     drain_loop H ls (if pid \<noteq> [] then snd (write_file H (PF_CGROUP_BASE @ ''/cgroup.procs'') pid k) else k))"

definition pf_cgroup_remove_rule :: "'k host \<Rightarrow> int \<Rightarrow> 'k \<Rightarrow> pf_err option \<times> 'k" where
  "pf_cgroup_remove_rule H rule_id k = (case rule_path rule_id PF_PATH_MAX of
     None \<Rightarrow> (Some PF_ERR, k)
   | Some path \<Rightarrow> (case c_rmdir H path k of
       (None, k) \<Rightarrow> (None, k)
     | (Some e, k) \<Rightarrow>
         if e = ENOENT then (None, k)
         else if e \<noteq> EBUSY \<and> e \<noteq> ENOTEMPTY then (Some PF_ERR, k)
         else if length (path @ ''/cgroup.procs'') \<ge> PF_PATH_MAX then (Some PF_ERR, k)
         else let k = (case file_read H (path @ ''/cgroup.procs'') k of
             Some content \<Rightarrow> drain_loop H (fgets_all 31 content) k | None \<Rightarrow> k) in
           (case c_rmdir H path k of
              (None, k) \<Rightarrow> (None, k)
            | (Some e, k) \<Rightarrow> (if e \<noteq> ENOENT then Some PF_ERR else None, k))))"

definition pf_cgroup_assign_pid :: "'k host \<Rightarrow> int \<Rightarrow> int \<Rightarrow> 'k \<Rightarrow> pf_err option \<times> 'k" where
  "pf_cgroup_assign_pid H rule_id pid k = (case rule_path rule_id PF_PATH_MAX of
     None \<Rightarrow> (Some PF_ERR, k)
   | Some path \<Rightarrow> (case write_file H (snprintf_s PF_PATH_MAX (path @ ''/cgroup.procs'')) (snprintf_s 32 (show_int pid)) k of
       (ok, k) \<Rightarrow> (if ok then None else Some PF_ERR, k)))"

text \<open>The test of \<^verbatim>\<open>pf_cgroup_assign_running_pids\<close> on the executable of a process.\<close>

definition after_slash :: "string \<Rightarrow> string" where
  "after_slash s = (case strrchr s (CHR ''/'') of Some i \<Rightarrow> drop (i + 1) s | None \<Rightarrow> s)"

definition running_match :: "fnm_env \<Rightarrow> string \<Rightarrow> string \<Rightarrow> bool" where
  "running_match E app_pattern exe_path = (if pf_match_app E (Some app_pattern) (Some exe_path) then True
     else after_slash exe_path = after_slash app_pattern)"

fun assign_loop :: "fnm_env \<Rightarrow> 'k host \<Rightarrow> int \<Rightarrow> string \<Rightarrow> string list \<Rightarrow> 'k \<Rightarrow> int \<times> 'k" where
  "assign_loop E H rule_id pat [] k = (0, k)"
| "assign_loop E H rule_id pat (d # ds) k =
     (if d = [] \<or> \<not> list_all is_digit d then assign_loop E H rule_id pat ds k
      else case c_readlink H (snprintf_s 64 (''/proc/'' @ d @ ''/exe'')) k of
        None \<Rightarrow> assign_loop E H rule_id pat ds k
      | Some target \<Rightarrow>
          if \<not> running_match E pat (take (PF_PATH_MAX - 1) target) then assign_loop E H rule_id pat ds k
          else (case pf_cgroup_assign_pid H rule_id (atoi d) k of (r, k) \<Rightarrow>
            (case assign_loop E H rule_id pat ds k of (n, k) \<Rightarrow> (if r = None then n + 1 else n, k))))"

definition pf_cgroup_assign_running_pids :: "fnm_env \<Rightarrow> 'k host \<Rightarrow> int \<Rightarrow> string \<Rightarrow> 'k \<Rightarrow> int \<times> 'k" where
  "pf_cgroup_assign_running_pids E H rule_id app_pattern k =
     (if app_pattern = [] then (0, k)
      else case read_dir H ''/proc'' k of
        None \<Rightarrow> (0, k)
      | Some ds \<Rightarrow> assign_loop E H rule_id app_pattern ds k)"

text \<open>The token search of \<^verbatim>\<open>pf_cgroup_remove_pid\<close> in the buffer, a C string.\<close>

function token_loop :: "string \<Rightarrow> string \<Rightarrow> bool" where
  "token_loop pid p = (if p = [] then False
     else let tok = takeWhile (\<lambda>c. c \<noteq> LF) p in
       if tok = pid then True else token_loop pid (drop (length tok + 1) p))"
  by pat_completeness auto
termination by (relation "measure (length o snd)") auto

declare token_loop.simps [simp del]

fun remove_pid_loop :: "'k host \<Rightarrow> string \<Rightarrow> string list \<Rightarrow> 'k \<Rightarrow> 'k" where
  "remove_pid_loop H pid [] k = k"
| "remove_pid_loop H pid (d # ds) k =
     (if \<not> strncmp_eq d ''rule_'' 5 then remove_pid_loop H pid ds k
      else case file_read H (snprintf_s PF_PATH_MAX (PF_CGROUP_BASE @ ''/'' @ d @ ''/cgroup.procs'')) k of
        None \<Rightarrow> remove_pid_loop H pid ds k
      | Some content \<Rightarrow>
          let buf = take 4095 content in
          if buf = [] then remove_pid_loop H pid ds k
          else if token_loop pid (takeWhile (\<lambda>c. c \<noteq> CHR 0x00) buf)
          then snd (write_file H (PF_CGROUP_BASE @ ''/cgroup.procs'') pid k)
          else remove_pid_loop H pid ds k)"

definition pf_cgroup_remove_pid :: "'k host \<Rightarrow> int \<Rightarrow> 'k \<Rightarrow> pf_err option \<times> 'k" where
  "pf_cgroup_remove_pid H pid k = (case read_dir H PF_CGROUP_BASE k of
     None \<Rightarrow> (Some PF_ERR, k)
   | Some ds \<Rightarrow> (None, remove_pid_loop H (snprintf_s 32 (show_int pid)) ds k))"

fun cleanup_loop :: "'k host \<Rightarrow> string list \<Rightarrow> 'k \<Rightarrow> 'k" where
  "cleanup_loop H [] k = k"
| "cleanup_loop H (d # ds) k = cleanup_loop H ds
     (if strncmp_eq d ''rule_'' 5 then snd (c_rmdir H (snprintf_s PF_PATH_MAX (PF_CGROUP_BASE @ ''/'' @ d)) k) else k)"

definition pf_cgroup_cleanup :: "'k host \<Rightarrow> 'k \<Rightarrow> 'k" where
  "pf_cgroup_cleanup H k = (case read_dir H PF_CGROUP_BASE k of
     None \<Rightarrow> k
   | Some ds \<Rightarrow> snd (c_rmdir H PF_CGROUP_BASE (cleanup_loop H ds k)))"

section \<open>What the kernel is relied on for\<close>

text \<open>
  \<open>dirs k\<close> are the cgroup directories and \<open>group k p\<close> is the directory process \<open>p\<close> is in, none for a
  number that is no process.  Reading \<^verbatim>\<open>cgroup.procs\<close> lists the members, one per line; writing a process
  number moves that process and nothing else; a directory with members is not removed.
\<close>

record 'k cgview =
  cg_dirs :: "'k \<Rightarrow> string set"
  cg_group :: "'k \<Rightarrow> int \<Rightarrow> string option"

definition rule_dir :: "int \<Rightarrow> string" where
  "rule_dir n = PF_CGROUP_BASE @ ''/rule_'' @ show_int n"

definition our_dir :: "string \<Rightarrow> bool" where
  "our_dir d \<longleftrightarrow> d = PF_CGROUP_BASE \<or> (\<exists>n. 0 < n \<and> n < 2 ^ 31 \<and> d = rule_dir n)"

definition members_text :: "int list \<Rightarrow> string" where
  "members_text ps = concat (map (\<lambda>p. show_int p @ [LF]) ps)"

definition cg_reading :: "'k host \<Rightarrow> 'k cgview \<Rightarrow> bool" where
  "cg_reading H V \<longleftrightarrow>
     (\<forall>k d. our_dir d \<longrightarrow> (file_read H (d @ ''/cgroup.procs'') k = None \<longleftrightarrow> d \<notin> cg_dirs V k))
   \<and> (\<forall>k d out. our_dir d \<longrightarrow> file_read H (d @ ''/cgroup.procs'') k = Some out \<longrightarrow>
       (\<exists>ps. out = members_text ps \<and> set ps = {p. cg_group V k p = Some d}))
   \<and> (\<forall>k p d. cg_group V k p = Some d \<longrightarrow> 0 < p \<and> p < 2 ^ 31 \<and> (our_dir d \<longrightarrow> d \<in> cg_dirs V k))"

definition cg_writing :: "'k host \<Rightarrow> 'k cgview \<Rightarrow> bool" where
  "cg_writing H V \<longleftrightarrow> (\<forall>k d p ok k'. our_dir d \<longrightarrow> 0 < p \<longrightarrow> p < 2 ^ 31 \<longrightarrow> file_write H (d @ ''/cgroup.procs'') (show_int p) k = (ok, k') \<longrightarrow>
     cg_dirs V k' = cg_dirs V k \<and> ok = (d \<in> cg_dirs V k \<and> cg_group V k p \<noteq> None)
     \<and> cg_group V k' = (if ok then (cg_group V k)(p \<mapsto> d) else cg_group V k))"

definition cg_making :: "'k host \<Rightarrow> 'k cgview \<Rightarrow> bool" where
  "cg_making H V \<longleftrightarrow> (\<forall>k d r k'. our_dir d \<longrightarrow> c_mkdir H d k = (r, k') \<longrightarrow> cg_group V k' = cg_group V k
     \<and> (if r = None then d \<notin> cg_dirs V k \<and> cg_dirs V k' = insert d (cg_dirs V k)
        else cg_dirs V k' = cg_dirs V k \<and> (r = Some EEXIST \<longleftrightarrow> d \<in> cg_dirs V k)))"

definition cg_removing :: "'k host \<Rightarrow> 'k cgview \<Rightarrow> bool" where
  "cg_removing H V \<longleftrightarrow> (\<forall>k n r k'. 0 < n \<longrightarrow> n < 2 ^ 31 \<longrightarrow> c_rmdir H (rule_dir n) k = (r, k') \<longrightarrow> cg_group V k' = cg_group V k
     \<and> (if rule_dir n \<notin> cg_dirs V k then r = Some ENOENT \<and> cg_dirs V k' = cg_dirs V k
        else if \<exists>p. cg_group V k p = Some (rule_dir n) then r = Some EBUSY \<and> cg_dirs V k' = cg_dirs V k
        else r = None \<and> cg_dirs V k' = cg_dirs V k - {rule_dir n}))"

definition cg_listing :: "'k host \<Rightarrow> 'k cgview \<Rightarrow> bool" where
  "cg_listing H V \<longleftrightarrow> (\<forall>k. case read_dir H PF_CGROUP_BASE k of
       None \<Rightarrow> PF_CGROUP_BASE \<notin> cg_dirs V k
     | Some ds \<Rightarrow> {d \<in> set ds. prefix ''rule_'' d} = {''rule_'' @ show_int n | n. 0 < n \<and> n < 2 ^ 31 \<and> rule_dir n \<in> cg_dirs V k})"

definition cg_documented :: "'k host \<Rightarrow> 'k cgview \<Rightarrow> bool" where
  "cg_documented H V \<longleftrightarrow> cg_reading H V \<and> cg_writing H V \<and> cg_making H V \<and> cg_removing H V \<and> cg_listing H V"

section \<open>Paths and numbers\<close>

lemma rule_path_dir: "0 < n \<Longrightarrow> n < 2 ^ 31 \<Longrightarrow> rule_path n PF_PATH_MAX = Some (rule_dir n)"
  using show_int_length [of n] by (simp add: rule_path_def rule_dir_def PF_CGROUP_BASE_def PF_PATH_MAX_def)

lemma rule_dir_length: "0 < n \<Longrightarrow> n < 2 ^ 31 \<Longrightarrow> length (rule_dir n) \<le> 50"
  using show_int_length [of n] by (simp add: rule_dir_def PF_CGROUP_BASE_def)

lemma our_dirs [simp]: "our_dir PF_CGROUP_BASE" "0 < n \<Longrightarrow> n < 2 ^ 31 \<Longrightarrow> our_dir (rule_dir n)"
  by (auto simp: our_dir_def)

lemma rule_dir_base [simp]: "rule_dir n \<noteq> PF_CGROUP_BASE" "PF_CGROUP_BASE \<noteq> rule_dir n"
  by (simp_all add: rule_dir_def)

lemma show_int_no_lf: "LF \<notin> set (show_int p)"
  by (rule show_int_no_char) (simp_all add: is_digit_def)

lemma members_lines: "\<forall>p \<in> set ps. 0 < p \<and> p < 2 ^ 31 \<Longrightarrow> fgets_all 31 (members_text ps) = map (\<lambda>p. show_int p @ [LF]) ps"
proof -
  assume "\<forall>p \<in> set ps. 0 < p \<and> p < 2 ^ 31"
  hence "\<forall>l \<in> set (map show_int ps). LF \<notin> set l \<and> length l < 31"
    using show_int_no_lf show_int_length by fastforce
  from fgets_all_lines [OF this] show ?thesis by (simp add: members_text_def comp_def)
qed

lemma trim_newline_line [simp]: "trim_newline (l @ [LF]) = l"
  by (simp add: trim_newline_def)

lemma token_loop_members: "token_loop (show_int q) (members_text ps) \<longleftrightarrow> q \<in> set ps"
proof (induction ps)
  case (Cons p ps)
  let ?m = "members_text (p # ps)"
  have m: "?m = show_int p @ LF # members_text ps" by (simp add: members_text_def)
  have "takeWhile (\<lambda>c. c \<noteq> LF) ?m = show_int p" using show_int_no_lf [of p] by (simp add: m takeWhile_append)
  hence "token_loop (show_int q) ?m = (if show_int p = show_int q then True else token_loop (show_int q) (members_text ps))"
    by (subst token_loop.simps) (simp add: m Let_def)
  thus ?case using Cons.IH by (auto simp: show_int_inj)
qed (simp add: members_text_def token_loop.simps)

lemma members_text_no_nul: "takeWhile (\<lambda>c. c \<noteq> CHR 0x00) (members_text ps) = members_text ps"
proof -
  have "CHR 0x00 \<notin> set (show_int p)" for p by (rule show_int_no_char) (simp_all add: is_digit_def)
  thus ?thesis by (auto simp: members_text_def takeWhile_eq_all_conv)
qed

section \<open>Removing the group of a rule\<close>

lemma cg_write:
  assumes "cg_documented H V" "our_dir d" "0 < p" "p < 2 ^ 31" "write_file H (d @ ''/cgroup.procs'') (show_int p) k = (ok, k')"
  shows "cg_dirs V k' = cg_dirs V k" "ok = (d \<in> cg_dirs V k \<and> cg_group V k p \<noteq> None)"
    "cg_group V k' = (if ok then (cg_group V k)(p \<mapsto> d) else cg_group V k)"
  using assms unfolding cg_documented_def cg_writing_def write_file_def by blast+

lemma drain_members:
  assumes "cg_documented H V" "PF_CGROUP_BASE \<in> cg_dirs V k" "\<forall>p \<in> set ps. 0 < p \<and> p < 2 ^ 31"
  shows "cg_dirs V (drain_loop H (map (\<lambda>p. show_int p @ [LF]) ps) k) = cg_dirs V k
    \<and> cg_group V (drain_loop H (map (\<lambda>p. show_int p @ [LF]) ps) k)
      = (\<lambda>q. if q \<in> set ps \<and> cg_group V k q \<noteq> None then Some PF_CGROUP_BASE else cg_group V k q)"
  using assms(2-)
proof (induction ps arbitrary: k)
  case (Cons p ps)
  obtain ok k1 where w: "write_file H (PF_CGROUP_BASE @ ''/cgroup.procs'') (show_int p) k = (ok, k1)" by (rule prod.exhaust)
  have "0 < p" "p < 2 ^ 31" using Cons.prems(2) by simp_all
  note c = cg_write [OF assms(1) our_dirs(1) this w]
  have g: "cg_group V k1 = (\<lambda>q. if q = p \<and> cg_group V k q \<noteq> None then Some PF_CGROUP_BASE else cg_group V k q)"
    using c(2,3) Cons.prems(1) by (auto simp: fun_eq_iff)
  show ?case using Cons.IH [of k1] Cons.prems c(1) w g by (auto simp: fun_eq_iff Let_def)
qed simp

text \<open>
  C35: removing the group of a rule always succeeds, whether the group has members or does not exist:
  its processes go back to the base group, no other process moves, and the directory is gone.
\<close>

theorem remove_rule_drains:
  assumes "cg_documented H V" "0 < n" "n < 2 ^ 31" "PF_CGROUP_BASE \<in> cg_dirs V k"
  shows "\<exists>k'. pf_cgroup_remove_rule H n k = (None, k') \<and> cg_dirs V k' = cg_dirs V k - {rule_dir n}
    \<and> cg_group V k' = (\<lambda>q. if cg_group V k q = Some (rule_dir n) then Some PF_CGROUP_BASE else cg_group V k q)"
proof -
  have rm: "cg_group V k' = cg_group V k
     \<and> (if rule_dir n \<notin> cg_dirs V k then r = Some ENOENT \<and> cg_dirs V k' = cg_dirs V k
        else if \<exists>p. cg_group V k p = Some (rule_dir n) then r = Some EBUSY \<and> cg_dirs V k' = cg_dirs V k
        else r = None \<and> cg_dirs V k' = cg_dirs V k - {rule_dir n})" if "c_rmdir H (rule_dir n) k = (r, k')" for k r k'
    using assms(1-3) that unfolding cg_documented_def cg_removing_def by blast
  have inside: "cg_group V k p = Some d \<Longrightarrow> 0 < p \<and> p < 2 ^ 31 \<and> (our_dir d \<longrightarrow> d \<in> cg_dirs V k)" for k p d
    using assms(1) unfolding cg_documented_def cg_reading_def by blast
  have len: "length (rule_dir n @ ''/cgroup.procs'') < PF_PATH_MAX"
    using rule_dir_length [OF assms(2,3)] by (simp add: PF_PATH_MAX_def)
  obtain r k1 where r: "c_rmdir H (rule_dir n) k = (r, k1)" by (rule prod.exhaust)
  consider "rule_dir n \<notin> cg_dirs V k" | "rule_dir n \<in> cg_dirs V k" "\<nexists>p. cg_group V k p = Some (rule_dir n)"
    | "rule_dir n \<in> cg_dirs V k" "\<exists>p. cg_group V k p = Some (rule_dir n)" by blast
  thus ?thesis
  proof cases
    case 1
    hence "cg_group V k q \<noteq> Some (rule_dir n)" for q using inside [of k q "rule_dir n"] assms(2,3) by auto
    thus ?thesis using rm [OF r] r 1 by (simp add: pf_cgroup_remove_rule_def rule_path_dir [OF assms(2,3)] fun_eq_iff)
  next
    case 2
    thus ?thesis using rm [OF r] r by (auto simp: pf_cgroup_remove_rule_def rule_path_dir [OF assms(2,3)] fun_eq_iff)
  next
    case 3
    hence k1: "r = Some EBUSY" "cg_dirs V k1 = cg_dirs V k" "cg_group V k1 = cg_group V k" using rm [OF r] by simp_all
    have rd: "file_read H (rule_dir n @ ''/cgroup.procs'') k1 \<noteq> None"
      using assms(1) our_dirs(2) [OF assms(2,3)] 3(1) k1(2) unfolding cg_documented_def cg_reading_def by blast
    then obtain out where out: "file_read H (rule_dir n @ ''/cgroup.procs'') k1 = Some out" by blast
    then obtain ps where ps: "out = members_text ps" "set ps = {p. cg_group V k p = Some (rule_dir n)}"
      using assms(1) our_dirs(2) [OF assms(2,3)] unfolding k1(3) [symmetric] cg_documented_def cg_reading_def by blast
    have pos: "\<forall>p \<in> set ps. 0 < p \<and> p < 2 ^ 31" using ps(2) inside by auto
    let ?k2 = "drain_loop H (fgets_all 31 out) k1"
    have k2: "cg_dirs V ?k2 = cg_dirs V k"
      "cg_group V ?k2 = (\<lambda>q. if cg_group V k q = Some (rule_dir n) then Some PF_CGROUP_BASE else cg_group V k q)"
      using drain_members [OF assms(1), of k1 ps] assms(4) pos members_lines [OF pos] k1 ps by (auto simp: fun_eq_iff)
    obtain r3 k3 where r3: "c_rmdir H (rule_dir n) ?k2 = (r3, k3)" by (rule prod.exhaust)
    have "r3 = None" "cg_dirs V k3 = cg_dirs V k - {rule_dir n}" "cg_group V k3 = cg_group V ?k2"
      using rm [OF r3] 3(1) k2 by (auto split: if_splits)
    thus ?thesis using r k1(1) out r3 len k2(2) by (simp add: pf_cgroup_remove_rule_def rule_path_dir [OF assms(2,3)])
  qed
qed

section \<open>Taking a process out of its group\<close>

lemma take_prefix: "take (length x) d = x \<longleftrightarrow> prefix x d"
  by (metis append_eq_conv_conj append_take_drop_id prefix_def)

lemma strncmp_rule [simp]: "strncmp_eq d ''rule_'' 5 \<longleftrightarrow> prefix ''rule_'' d"
  using take_prefix [of "''rule_''" d] by (simp add: strncmp_eq_def eval_nat_numeral)

lemma member_file:
  assumes "cg_documented H V" "0 < m" "m < 2 ^ 31" "file_read H (rule_dir m @ ''/cgroup.procs'') k = Some out" "length out \<le> 4095"
  shows "token_loop (show_int p) (takeWhile (\<lambda>c. c \<noteq> CHR 0x00) (take 4095 out)) \<longleftrightarrow> cg_group V k p = Some (rule_dir m)"
proof -
  obtain ps where ps: "out = members_text ps" "set ps = {q. cg_group V k q = Some (rule_dir m)}"
    using assms(1,4) our_dirs(2) [OF assms(2,3)] unfolding cg_documented_def cg_reading_def by blast
  have "takeWhile (\<lambda>c. c \<noteq> CHR 0x00) (take 4095 out) = members_text ps"
    using assms(5) members_text_no_nul ps(1) by simp
  thus ?thesis by (simp only: token_loop_members ps(2) mem_Collect_eq)
qed

lemma remove_pid_step:
  assumes "cg_documented H V" "0 < m" "m < 2 ^ 31"
    and small: "\<And>d out. file_read H (d @ ''/cgroup.procs'') k = Some out \<Longrightarrow> length out \<le> 4095"
  shows "remove_pid_loop H (show_int p) ((''rule_'' @ show_int m) # ds) k = (if cg_group V k p = Some (rule_dir m)
    then snd (write_file H (PF_CGROUP_BASE @ ''/cgroup.procs'') (show_int p) k) else remove_pid_loop H (show_int p) ds k)"
proof -
  let ?d = "''rule_'' @ show_int m"
  have "length (rule_dir m @ ''/cgroup.procs'') < PF_PATH_MAX" using rule_dir_length [OF assms(2,3)] by (simp add: PF_PATH_MAX_def)
  moreover have "PF_CGROUP_BASE @ ''/'' @ ?d @ ''/cgroup.procs'' = rule_dir m @ ''/cgroup.procs''" by (simp add: rule_dir_def)
  ultimately have path: "snprintf_s PF_PATH_MAX (PF_CGROUP_BASE @ ''/'' @ ?d @ ''/cgroup.procs'') = rule_dir m @ ''/cgroup.procs''"
    by (simp only: snprintf_s_id)
  show ?thesis
  proof (cases "file_read H (rule_dir m @ ''/cgroup.procs'') k")
    case None
    hence "rule_dir m \<notin> cg_dirs V k" using assms(1) our_dirs(2) [OF assms(2,3)] unfolding cg_documented_def cg_reading_def by blast
    hence "cg_group V k p \<noteq> Some (rule_dir m)" using assms(1) our_dirs(2) [OF assms(2,3)] unfolding cg_documented_def cg_reading_def by blast
    thus ?thesis unfolding remove_pid_loop.simps path None by simp
  next
    case (Some out)
    have "\<not> token_loop (show_int p) []" by (simp add: token_loop.simps)
    thus ?thesis using member_file [OF assms(1-3) Some small [OF Some], of p]
      unfolding remove_pid_loop.simps path Some by (auto simp: Let_def)
  qed
qed

lemma remove_pid_loop_group:
  assumes "cg_documented H V" "PF_CGROUP_BASE \<in> cg_dirs V k" "0 < p" "p < 2 ^ 31"
    and small: "\<And>d out. file_read H (d @ ''/cgroup.procs'') k = Some out \<Longrightarrow> length out \<le> 4095"
    and ds: "\<And>d. d \<in> set ds \<Longrightarrow> prefix ''rule_'' d \<Longrightarrow> \<exists>n. 0 < n \<and> n < 2 ^ 31 \<and> d = ''rule_'' @ show_int n"
  shows "cg_dirs V (remove_pid_loop H (show_int p) ds k) = cg_dirs V k
    \<and> cg_group V (remove_pid_loop H (show_int p) ds k) =
      (if \<exists>n. 0 < n \<and> n < 2 ^ 31 \<and> ''rule_'' @ show_int n \<in> set ds \<and> cg_group V k p = Some (rule_dir n)
       then (cg_group V k)(p \<mapsto> PF_CGROUP_BASE) else cg_group V k)"
  using ds
proof (induction ds)
  case (Cons d ds)
  let ?in = "\<lambda>ds. \<exists>n. 0 < n \<and> n < 2 ^ 31 \<and> ''rule_'' @ show_int n \<in> set ds \<and> cg_group V k p = Some (rule_dir n)"
  let ?k = "remove_pid_loop H (show_int p) ds k"
  have IH: "cg_dirs V ?k = cg_dirs V k \<and> cg_group V ?k = (if ?in ds then (cg_group V k)(p \<mapsto> PF_CGROUP_BASE) else cg_group V k)"
    using Cons.prems by (intro Cons.IH) auto
  show ?case
  proof (cases "prefix ''rule_'' d")
    case True
    then obtain m where m: "0 < m" "m < 2 ^ 31" "d = ''rule_'' @ show_int m" using Cons.prems [of d] by auto
    have step: "remove_pid_loop H (show_int p) (d # ds) k = (if cg_group V k p = Some (rule_dir m)
        then snd (write_file H (PF_CGROUP_BASE @ ''/cgroup.procs'') (show_int p) k) else ?k)"
      unfolding m(3) by (rule remove_pid_step [OF assms(1) m(1,2)]) (rule small)
    show ?thesis
    proof (cases "cg_group V k p = Some (rule_dir m)")
      case here: True
      obtain ok k1 where w: "write_file H (PF_CGROUP_BASE @ ''/cgroup.procs'') (show_int p) k = (ok, k1)" by (rule prod.exhaust)
      have "?in (d # ds)" using m here by auto
      thus ?thesis using cg_write [OF assms(1) our_dirs(1) assms(3,4) w] assms(2) here step w by simp
    next
      case False
      hence "?in (d # ds) \<longleftrightarrow> ?in ds" using m(3) show_int_inj by auto
      thus ?thesis using IH step False by simp
    qed
  next
    case False
    hence "''rule_'' @ show_int n \<noteq> d" for n by auto
    hence "?in (d # ds) \<longleftrightarrow> ?in ds" by auto
    thus ?thesis using IH False by simp
  qed
qed simp

text \<open>
  Taking a process out of its rule group moves that process, if it is in the group of some rule,
  to the base group, and moves no other process (a number is found as a whole line, not as part of
  another), as long as every member list fits the buffer of 4095 bytes.
\<close>

theorem remove_pid_exact:
  assumes "cg_documented H V" "PF_CGROUP_BASE \<in> cg_dirs V k" "0 < p" "p < 2 ^ 31" "read_dir H PF_CGROUP_BASE k \<noteq> None"
    and "\<forall>d out. file_read H (d @ ''/cgroup.procs'') k = Some out \<longrightarrow> length out \<le> 4095"
  shows "\<exists>k'. pf_cgroup_remove_pid H p k = (None, k') \<and> cg_dirs V k' = cg_dirs V k
    \<and> cg_group V k' = (if \<exists>n. 0 < n \<and> n < 2 ^ 31 \<and> cg_group V k p = Some (rule_dir n)
         then (cg_group V k)(p \<mapsto> PF_CGROUP_BASE) else cg_group V k)"
proof -
  obtain ds where ds: "read_dir H PF_CGROUP_BASE k = Some ds" using assms(5) by blast
  have "case read_dir H PF_CGROUP_BASE k of None \<Rightarrow> PF_CGROUP_BASE \<notin> cg_dirs V k
     | Some ds \<Rightarrow> {d \<in> set ds. prefix ''rule_'' d} = {''rule_'' @ show_int n | n. 0 < n \<and> n < 2 ^ 31 \<and> rule_dir n \<in> cg_dirs V k}"
    using assms(1) unfolding cg_documented_def cg_listing_def by blast
  hence l: "{d \<in> set ds. prefix ''rule_'' d} = {''rule_'' @ show_int n | n. 0 < n \<and> n < 2 ^ 31 \<and> rule_dir n \<in> cg_dirs V k}"
    by (simp only: ds option.case)
  have pid: "snprintf_s 32 (show_int p) = show_int p" using show_int_length [OF assms(3,4)] by (intro snprintf_s_id) linarith
  have r: "cg_dirs V (remove_pid_loop H (show_int p) ds k) = cg_dirs V k
    \<and> cg_group V (remove_pid_loop H (show_int p) ds k) =
      (if \<exists>n. 0 < n \<and> n < 2 ^ 31 \<and> ''rule_'' @ show_int n \<in> set ds \<and> cg_group V k p = Some (rule_dir n)
       then (cg_group V k)(p \<mapsto> PF_CGROUP_BASE) else cg_group V k)"
  proof (rule remove_pid_loop_group [OF assms(1-4)])
    show "\<exists>n. 0 < n \<and> n < 2 ^ 31 \<and> d = ''rule_'' @ show_int n" if "d \<in> set ds" "prefix ''rule_'' d" for d
      using l that by blast
  qed (use assms(6) in blast)
  have "''rule_'' @ show_int n \<in> set ds" if "0 < n" "n < 2 ^ 31" "cg_group V k p = Some (rule_dir n)" for n
  proof -
    have "rule_dir n \<in> cg_dirs V k" using assms(1) that(3) our_dirs(2) [OF that(1,2)] unfolding cg_documented_def cg_reading_def by blast
    hence "''rule_'' @ show_int n \<in> {d \<in> set ds. prefix ''rule_'' d}" unfolding l using that by blast
    thus ?thesis by blast
  qed
  hence "(\<exists>n. 0 < n \<and> n < 2 ^ 31 \<and> ''rule_'' @ show_int n \<in> set ds \<and> cg_group V k p = Some (rule_dir n))
    \<longleftrightarrow> (\<exists>n. 0 < n \<and> n < 2 ^ 31 \<and> cg_group V k p = Some (rule_dir n))" by blast
  thus ?thesis using r by (simp add: pf_cgroup_remove_pid_def ds pid)
qed

section \<open>Processes that run already\<close>

definition exe_link :: "int \<Rightarrow> string" where
  "exe_link p = ''/proc/'' @ show_int p @ ''/exe''"

text \<open>What is relied on of \<^verbatim>\<open>/proc\<close>: numeric names are process numbers, and moving processes between
  groups changes no executable.\<close>

definition proc_documented :: "'k host \<Rightarrow> bool" where
  "proc_documented H \<longleftrightarrow> (\<forall>k ds. read_dir H ''/proc'' k = Some ds \<longrightarrow>
       (\<forall>d \<in> set ds. d \<noteq> [] \<and> list_all is_digit d \<longrightarrow> (\<exists>p. 0 < p \<and> p < 2 ^ 31 \<and> d = show_int p)))
   \<and> (\<forall>f data k ok k' link. file_write H f data k = (ok, k') \<longrightarrow> c_readlink H link k' = c_readlink H link k)"

definition runs :: "fnm_env \<Rightarrow> 'k host \<Rightarrow> 'k \<Rightarrow> string \<Rightarrow> int \<Rightarrow> bool" where
  "runs E H k pat p \<longleftrightarrow> 0 < p \<and> (\<exists>t. c_readlink H (exe_link p) k = Some t \<and> running_match E pat (take (PF_PATH_MAX - 1) t))"

lemma show_int_digits: "0 < p \<Longrightarrow> list_all is_digit (show_int p)"
  using show_nat_digits by (auto simp: list_all_iff)

lemma atoi_show_int: "0 < p \<Longrightarrow> p < 2 ^ 31 \<Longrightarrow> atoi (show_int p) = p"
  using atoi_show_nat [of "[]" "nat p"] by simp

lemma assign_pid_group:
  assumes "cg_documented H V" "0 < n" "n < 2 ^ 31" "rule_dir n \<in> cg_dirs V k" "0 < p" "p < 2 ^ 31"
  obtains k' where "pf_cgroup_assign_pid H n p k = (if cg_group V k p \<noteq> None then None else Some PF_ERR, k')"
    "cg_dirs V k' = cg_dirs V k" "cg_group V k' = (\<lambda>q. if q = p \<and> cg_group V k q \<noteq> None then Some (rule_dir n) else cg_group V k q)"
    "proc_documented H \<longrightarrow> (\<forall>link. c_readlink H link k' = c_readlink H link k)"
proof -
  have "length (rule_dir n @ ''/cgroup.procs'') < PF_PATH_MAX" using rule_dir_length [OF assms(2,3)] by (simp add: PF_PATH_MAX_def)
  hence path: "snprintf_s PF_PATH_MAX (rule_dir n @ ''/cgroup.procs'') = rule_dir n @ ''/cgroup.procs''" by (rule snprintf_s_id)
  have pid: "snprintf_s 32 (show_int p) = show_int p" using show_int_length [OF assms(5,6)] by (intro snprintf_s_id) linarith
  obtain ok k1 where w: "write_file H (rule_dir n @ ''/cgroup.procs'') (show_int p) k = (ok, k1)" by (rule prod.exhaust)
  note c = cg_write [OF assms(1) our_dirs(2) [OF assms(2,3)] assms(5,6) w]
  show ?thesis
  proof (rule that [of k1])
    show "pf_cgroup_assign_pid H n p k = (if cg_group V k p \<noteq> None then None else Some PF_ERR, k1)"
      using c(2) assms(4) w unfolding pf_cgroup_assign_pid_def rule_path_dir [OF assms(2,3)] option.case path pid by auto
    show "cg_group V k1 = (\<lambda>q. if q = p \<and> cg_group V k q \<noteq> None then Some (rule_dir n) else cg_group V k q)"
      using c(2,3) assms(4) by (auto simp: fun_eq_iff)
    show "proc_documented H \<longrightarrow> (\<forall>link. c_readlink H link k1 = c_readlink H link k)"
      using w unfolding proc_documented_def write_file_def by blast
  qed (rule c(1))
qed

lemma assign_loop_group:
  assumes "cg_documented H V" "proc_documented H" "0 < n" "n < 2 ^ 31" "rule_dir n \<in> cg_dirs V k"
    and "\<forall>d \<in> set ds. d \<noteq> [] \<and> list_all is_digit d \<longrightarrow> (\<exists>p. 0 < p \<and> p < 2 ^ 31 \<and> d = show_int p)"
  shows "\<exists>m k'. assign_loop E H n pat ds k = (m, k') \<and> cg_dirs V k' = cg_dirs V k
    \<and> cg_group V k' = (\<lambda>q. if show_int q \<in> set ds \<and> runs E H k pat q \<and> cg_group V k q \<noteq> None then Some (rule_dir n) else cg_group V k q)
    \<and> m = int (length (filter (\<lambda>d. \<exists>q. d = show_int q \<and> runs E H k pat q \<and> cg_group V k q \<noteq> None) ds))"
  using assms(5,6)
proof (induction ds arbitrary: k)
  case (Cons d ds)
  let ?hit = "\<lambda>k d. \<exists>q. d = show_int q \<and> runs E H k pat q \<and> cg_group V k q \<noteq> None"
  let ?new = "\<lambda>k ds q. if show_int q \<in> set ds \<and> runs E H k pat q \<and> cg_group V k q \<noteq> None then Some (rule_dir n) else cg_group V k q"
  obtain m1 k1 where IH: "assign_loop E H n pat ds k = (m1, k1)" "cg_dirs V k1 = cg_dirs V k" "cg_group V k1 = ?new k ds"
    "m1 = int (length (filter (?hit k) ds))" using Cons.IH [of k] Cons.prems by auto
  show ?case
  proof (cases "\<exists>p. 0 < p \<and> p < 2 ^ 31 \<and> d = show_int p \<and> runs E H k pat p")
    case True
    then obtain p t where p: "0 < p" "p < 2 ^ 31" "d = show_int p" "runs E H k pat p"
      "c_readlink H (exe_link p) k = Some t" "running_match E pat (take (PF_PATH_MAX - 1) t)" unfolding runs_def by blast
    obtain k2 where a: "pf_cgroup_assign_pid H n p k = (if cg_group V k p \<noteq> None then None else Some PF_ERR, k2)"
      "cg_dirs V k2 = cg_dirs V k" "cg_group V k2 = (\<lambda>q. if q = p \<and> cg_group V k q \<noteq> None then Some (rule_dir n) else cg_group V k q)"
      "\<forall>link. c_readlink H link k2 = c_readlink H link k"
      using assign_pid_group [OF assms(1,3,4) Cons.prems(1) p(1,2)] assms(2) by blast
    have same: "runs E H k2 pat q = runs E H k pat q" "(cg_group V k2 q \<noteq> None) = (cg_group V k q \<noteq> None)" for q
      using a(3,4) by (auto simp: runs_def)
    obtain m3 k3 where l: "assign_loop E H n pat ds k2 = (m3, k3)" "cg_dirs V k3 = cg_dirs V k2" "cg_group V k3 = ?new k2 ds"
      "m3 = int (length (filter (?hit k2) ds))" using Cons.IH [of k2] Cons.prems a(2) by auto
    have "length (''/proc/'' @ d @ ''/exe'') < 64" using show_int_length [OF p(1,2)] p(3) by simp
    hence link: "snprintf_s 64 (''/proc/'' @ d @ ''/exe'') = exe_link p" using p(3) by (simp only: snprintf_s_id exe_link_def)
    have d: "d \<noteq> []" "list_all is_digit d" using show_int_digits [OF p(1)] p(3) by simp_all
    have "assign_loop E H n pat (d # ds) k = (if cg_group V k p \<noteq> None then m3 + 1 else m3, k3)"
      unfolding assign_loop.simps link p(5) using d p(3,6) a(1) l(1) atoi_show_int [OF p(1,2)] by simp
    moreover have "?hit k d \<longleftrightarrow> cg_group V k p \<noteq> None" using p(3,4) show_int_inj by auto
    moreover have "cg_group V k3 = ?new k (d # ds)" using l(3) a(3) same p(3,4) show_int_inj by (auto simp: fun_eq_iff)
    moreover have "m3 = int (length (filter (?hit k) ds))" using l(4) unfolding same .
    ultimately show ?thesis using l(2) a(2) by simp
  next
    case False
    have "assign_loop E H n pat (d # ds) k = assign_loop E H n pat ds k"
    proof (cases "d = [] \<or> \<not> list_all is_digit d")
      case False2: False
      then obtain p where p: "0 < p" "p < 2 ^ 31" "d = show_int p" using Cons.prems(2) by auto
      have "length (''/proc/'' @ d @ ''/exe'') < 64" using show_int_length [OF p(1,2)] p(3) by simp
      hence link: "snprintf_s 64 (''/proc/'' @ d @ ''/exe'') = exe_link p" using p(3) by (simp only: snprintf_s_id exe_link_def)
      have "\<not> runs E H k pat p" using False p by blast
      thus ?thesis unfolding assign_loop.simps link using p(1) by (auto simp: runs_def split: option.split)
    qed simp
    moreover have nh: "\<not> (d = show_int q \<and> runs E H k pat q)" for q
    proof
      assume q: "d = show_int q \<and> runs E H k pat q"
      hence "d \<noteq> [] \<and> list_all is_digit d" using show_int_digits by (simp add: runs_def)
      then obtain p where p: "0 < p" "p < 2 ^ 31" "d = show_int p" using Cons.prems(2) by auto
      hence "p = q" using q by (simp only: show_int_inj)
      thus False using p q False by blast
    qed
    moreover have "?new k (d # ds) = ?new k ds" using nh by (auto simp: fun_eq_iff)
    ultimately show ?thesis using IH by auto
  qed
qed simp

text \<open>
  When a rule takes effect, exactly the running processes whose executable matches the pattern
  (path or file name) are put into the group of the rule, every other process stays where it is, and
  the result is their number.
\<close>

theorem assign_running_exact:
  assumes "cg_documented H V" "proc_documented H" "0 < n" "n < 2 ^ 31" "rule_dir n \<in> cg_dirs V k"
    and "read_dir H ''/proc'' k = Some ds" "pat \<noteq> []"
  shows "\<exists>m k'. pf_cgroup_assign_running_pids E H n pat k = (m, k') \<and> cg_dirs V k' = cg_dirs V k
    \<and> cg_group V k' = (\<lambda>q. if show_int q \<in> set ds \<and> runs E H k pat q \<and> cg_group V k q \<noteq> None then Some (rule_dir n) else cg_group V k q)
    \<and> m = int (length (filter (\<lambda>d. \<exists>q. d = show_int q \<and> runs E H k pat q \<and> cg_group V k q \<noteq> None) ds))"
proof -
  have "\<forall>d \<in> set ds. d \<noteq> [] \<and> list_all is_digit d \<longrightarrow> (\<exists>p. 0 < p \<and> p < 2 ^ 31 \<and> d = show_int p)"
    using assms(2,6) unfolding proc_documented_def by blast
  from assign_loop_group [OF assms(1-5) this, of E pat] show ?thesis
    unfolding pf_cgroup_assign_running_pids_def using assms(6,7) by simp
qed

section \<open>A concrete kernel\<close>

text \<open>
  Three processes, and directories for the rules of a list.  A process is in the group of the rule it
  is assigned to if that directory exists, and in the base group otherwise.
\<close>

type_synonym demo_state = "int list \<times> (int \<times> int) list"

definition demo_pids :: "int list" where "demo_pids = [7, 12, 71]"

definition demo_valid :: "demo_state \<Rightarrow> int list" where
  "demo_valid k = filter (\<lambda>n. 0 < n \<and> n < 2 ^ 31) (fst k)"

definition demo_dirs :: "demo_state \<Rightarrow> string list" where
  "demo_dirs k = PF_CGROUP_BASE # map rule_dir (demo_valid k)"

definition demo_group :: "demo_state \<Rightarrow> int \<Rightarrow> string option" where
  "demo_group k p = (if p \<in> set demo_pids
     then Some (case map_of (snd k) p of Some n \<Rightarrow> if n \<in> set (demo_valid k) then rule_dir n else PF_CGROUP_BASE | None \<Rightarrow> PF_CGROUP_BASE)
     else None)"

definition demo_view :: "demo_state cgview" where
  "demo_view = \<lparr> cg_dirs = (\<lambda>k. set (demo_dirs k)), cg_group = demo_group \<rparr>"

definition demo_write :: "string \<Rightarrow> string \<Rightarrow> demo_state \<Rightarrow> bool \<times> demo_state" where
  "demo_write f data k = (case find (\<lambda>p. show_int p = data) demo_pids of
     None \<Rightarrow> (False, k)
   | Some p \<Rightarrow> if f = PF_CGROUP_BASE @ ''/cgroup.procs'' then (True, (fst k, (p, 0) # snd k))
     else (case find (\<lambda>n. rule_dir n @ ''/cgroup.procs'' = f) (demo_valid k) of
         Some n \<Rightarrow> (True, (fst k, (p, n) # snd k)) | None \<Rightarrow> (False, k)))"

definition demo_read :: "string \<Rightarrow> demo_state \<Rightarrow> string option" where
  "demo_read f k = map_option (\<lambda>d. members_text (filter (\<lambda>p. demo_group k p = Some d) demo_pids)) (find (\<lambda>d. d @ ''/cgroup.procs'' = f) (demo_dirs k))"

definition demo_mkdir :: "string \<Rightarrow> demo_state \<Rightarrow> errno option \<times> demo_state" where
  "demo_mkdir d k = (if d \<in> set (demo_dirs k) then (Some EEXIST, k)
     else if d = rule_dir 1 \<and> list_all (\<lambda>(p, n). n \<noteq> 1) (snd k) then (None, (1 # fst k, snd k)) else (Some EOTHER, k))"

definition demo_rmdir :: "string \<Rightarrow> demo_state \<Rightarrow> errno option \<times> demo_state" where
  "demo_rmdir d k = (if d \<notin> set (demo_dirs k) then (Some ENOENT, k)
     else if list_ex (\<lambda>p. demo_group k p = Some d) demo_pids then (Some EBUSY, k)
     else (None, (filter (\<lambda>n. rule_dir n \<noteq> d) (fst k), snd k)))"

definition demo_kern :: "demo_state host" where
  "demo_kern = \<lparr> nft_feed = (\<lambda>c k. (False, k)), popen_read = (\<lambda>c k. None), system_ok = (\<lambda>c k. (True, k)), c_mkdir = demo_mkdir,
     c_rmdir = demo_rmdir, file_read = demo_read, file_write = demo_write,
     read_dir = (\<lambda>d k. if d = PF_CGROUP_BASE then Some (''cgroup.procs'' # map (\<lambda>n. ''rule_'' @ show_int n) (demo_valid k))
       else if d = ''/proc'' then Some (''self'' # map show_int demo_pids) else None),
     c_readlink = (\<lambda>f k. if f = exe_link 7 then Some ''/usr/bin/curl'' else None) \<rparr>"

lemma rule_dir_inj: "rule_dir n = rule_dir m \<longleftrightarrow> n = m"
  by (simp add: rule_dir_def show_int_inj)

lemma find_unique: "(\<And>x. x \<in> set xs \<Longrightarrow> P x \<Longrightarrow> x = y) \<Longrightarrow> find P xs = (if y \<in> set xs \<and> P y then Some y else None)"
  by (induction xs) auto

lemma demo_dirs_our: "d \<in> set (demo_dirs k) \<Longrightarrow> our_dir d"
  by (auto simp: demo_dirs_def demo_valid_def)

lemma demo_group_dir: "demo_group k p = Some d \<Longrightarrow> d \<in> set (demo_dirs k)"
  by (auto simp: demo_group_def demo_dirs_def split: option.splits if_splits)

lemma demo_pids_range: "p \<in> set demo_pids \<Longrightarrow> 0 < p \<and> p < 2 ^ 31"
  by (auto simp: demo_pids_def)

lemma demo_group_pid: "demo_group k p = Some d \<Longrightarrow> p \<in> set demo_pids"
  by (simp add: demo_group_def split: if_splits)

lemma demo_group_alive: "demo_group k p \<noteq> None \<longleftrightarrow> p \<in> set demo_pids"
  by (simp add: demo_group_def)

lemma demo_read_at: "demo_read (d @ ''/cgroup.procs'') k =
    (if d \<in> set (demo_dirs k) then Some (members_text (filter (\<lambda>p. demo_group k p = Some d) demo_pids)) else None)"
  using find_unique [of "demo_dirs k" "\<lambda>x. x @ ''/cgroup.procs'' = d @ ''/cgroup.procs''" d] by (simp add: demo_read_def)

lemma demo_find_pid: "find (\<lambda>x. show_int x = show_int p) demo_pids = (if p \<in> set demo_pids then Some p else None)"
  using find_unique [of demo_pids "\<lambda>x. show_int x = show_int p" p] by (simp add: show_int_inj)

lemma demo_write_at:
  assumes "our_dir d" "demo_write (d @ ''/cgroup.procs'') (show_int p) k = (ok, k')"
  shows "fst k' = fst k \<and> ok = (d \<in> set (demo_dirs k) \<and> p \<in> set demo_pids) \<and> demo_group k' = (if ok then (demo_group k)(p \<mapsto> d) else demo_group k)"
proof -
  have v: "demo_valid (fst k, x) = demo_valid k" "0 \<notin> set (demo_valid k)" for x by (simp_all add: demo_valid_def)
  have inj: "rule_dir n @ ''/cgroup.procs'' = d @ ''/cgroup.procs'' \<longleftrightarrow> rule_dir n = d" for n by simp
  show ?thesis
  proof (cases "p \<in> set demo_pids")
    case True
    consider "d = PF_CGROUP_BASE" | n where "d = rule_dir n" "n \<in> set (demo_valid k)" | "d \<noteq> PF_CGROUP_BASE" "d \<notin> rule_dir ` set (demo_valid k)"
      by blast
    thus ?thesis
    proof cases
      case 1
      thus ?thesis using assms(2) True by (auto simp: v demo_write_def demo_find_pid demo_dirs_def demo_group_def fun_eq_iff cong: option.case_cong)
    next
      case (2 n)
      have "find (\<lambda>m. rule_dir m = d) (demo_valid k) = Some n"
        using find_unique [of "demo_valid k" "\<lambda>m. rule_dir m = d" n] 2 rule_dir_inj by auto
      thus ?thesis using assms(2) True 2 by (auto simp: v demo_write_def demo_find_pid demo_dirs_def demo_group_def fun_eq_iff cong: option.case_cong)
    next
      case 3
      hence "find (\<lambda>m. rule_dir m = d) (demo_valid k) = None" by (auto simp: find_None_iff)
      thus ?thesis using assms(2) True 3 by (auto simp: demo_write_def demo_find_pid demo_dirs_def)
    qed
  next
    case False
    thus ?thesis using assms(2) by (auto simp: demo_write_def demo_find_pid)
  qed
qed

lemma demo_kern_sel [simp]:
  "file_read demo_kern = demo_read" "file_write demo_kern = demo_write" "c_mkdir demo_kern = demo_mkdir" "c_rmdir demo_kern = demo_rmdir"
  "cg_dirs demo_view k = set (demo_dirs k)" "cg_group demo_view = demo_group"
  "read_dir demo_kern PF_CGROUP_BASE k = Some (''cgroup.procs'' # map (\<lambda>n. ''rule_'' @ show_int n) (demo_valid k))"
  "read_dir demo_kern ''/proc'' k = Some (''self'' # map show_int demo_pids)"
  by (simp_all add: demo_kern_def demo_view_def PF_CGROUP_BASE_def)

lemma demo_reading: "cg_reading demo_kern demo_view"
proof -
  have "\<exists>ps. members_text (filter (\<lambda>p. demo_group k p = Some d) demo_pids) = members_text ps \<and> set ps = {p. demo_group k p = Some d}" for k d
    using demo_group_pid by (intro exI [of _ "filter (\<lambda>p. demo_group k p = Some d) demo_pids"]) fastforce
  moreover have "0 < p \<and> p < 2 ^ 31 \<and> d \<in> set (demo_dirs k)" if "demo_group k p = Some d" for k p d
    using demo_pids_range [OF demo_group_pid [OF that]] demo_group_dir [OF that] by blast
  ultimately show ?thesis unfolding cg_reading_def by (simp add: demo_read_at)
qed

lemma demo_making: "cg_making demo_kern demo_view"
proof -
  have "demo_group (1 # fst k, snd k) = demo_group k" if "list_all (\<lambda>(p, n). n \<noteq> 1) (snd k)" for k :: demo_state
    using that by (auto simp: demo_group_def demo_valid_def list_all_iff fun_eq_iff split: option.splits dest!: map_of_SomeD)
  thus ?thesis unfolding cg_making_def by (auto simp: demo_mkdir_def demo_dirs_def demo_valid_def split: if_splits)
qed

lemma demo_removing: "cg_removing demo_kern demo_view"
proof -
  have g: "demo_group (filter (\<lambda>m. rule_dir m \<noteq> rule_dir n) (fst k), snd k) = demo_group k" (is "demo_group ?k = _")
    if no: "\<forall>p \<in> set demo_pids. demo_group k p \<noteq> Some (rule_dir n)" for k :: demo_state and n
  proof
    fix p
    have mem: "x \<in> set (demo_valid ?k) \<longleftrightarrow> x \<in> set (demo_valid k) \<and> x \<noteq> n" for x by (auto simp: demo_valid_def rule_dir_inj)
    show "demo_group ?k p = demo_group k p"
    proof (cases "p \<in> set demo_pids")
      case True
      hence "demo_group k p \<noteq> Some (rule_dir n)" using no by blast
      thus ?thesis using True by (cases "map_of (snd k) p") (auto simp: demo_group_def mem)
    qed (simp add: demo_group_def)
  qed
  have d: "set (demo_dirs (filter (\<lambda>m. rule_dir m \<noteq> rule_dir n) (fst k), snd k)) = set (demo_dirs k) - {rule_dir n}" for k :: demo_state and n
    by (auto simp: demo_dirs_def demo_valid_def)
  have m: "list_ex (\<lambda>p. demo_group k p = Some d) demo_pids \<longleftrightarrow> (\<exists>p. demo_group k p = Some d)" for k d
    using demo_group_pid by (fastforce simp: list_ex_iff)
  have "\<forall>p \<in> set demo_pids. demo_group k p \<noteq> Some (rule_dir n)" if "\<nexists>p. demo_group k p = Some (rule_dir n)" for k n
    using that by blast
  note no = this
  show ?thesis unfolding cg_removing_def demo_kern_sel
  proof (intro allI impI)
    fix k :: demo_state and n r k'
    assume r: "demo_rmdir (rule_dir n) k = (r, k')"
    consider "rule_dir n \<notin> set (demo_dirs k)" | "rule_dir n \<in> set (demo_dirs k)" "\<exists>p. demo_group k p = Some (rule_dir n)"
      | "rule_dir n \<in> set (demo_dirs k)" "\<nexists>p. demo_group k p = Some (rule_dir n)" by blast
    thus "demo_group k' = demo_group k \<and> (if rule_dir n \<notin> set (demo_dirs k) then r = Some ENOENT \<and> set (demo_dirs k') = set (demo_dirs k)
      else if \<exists>p. demo_group k p = Some (rule_dir n) then r = Some EBUSY \<and> set (demo_dirs k') = set (demo_dirs k)
      else r = None \<and> set (demo_dirs k') = set (demo_dirs k) - {rule_dir n})"
    proof cases
      case 3
      thus ?thesis using r m [of k "rule_dir n"] g [OF no [OF 3(2)]] d [of n k] unfolding demo_rmdir_def by auto
    qed (use r m [of k "rule_dir n"] in \<open>auto simp: demo_rmdir_def\<close>)
  qed
qed

lemma demo_kern_documented: "cg_documented demo_kern demo_view"
proof -
  have "cg_writing demo_kern demo_view"
    unfolding cg_writing_def demo_kern_sel demo_group_alive
  proof (intro allI impI)
    fix k d p ok k'
    assume "our_dir d" "demo_write (d @ ''/cgroup.procs'') (show_int p) k = (ok, k')"
    note w = demo_write_at [OF this]
    hence "demo_dirs k' = demo_dirs k" by (simp add: demo_dirs_def demo_valid_def)
    thus "set (demo_dirs k') = set (demo_dirs k) \<and> ok = (d \<in> set (demo_dirs k) \<and> p \<in> set demo_pids)
      \<and> demo_group k' = (if ok then (demo_group k)(p \<mapsto> d) else demo_group k)" using w by simp
  qed
  moreover have "{d \<in> set (''cgroup.procs'' # map (\<lambda>n. ''rule_'' @ show_int n) (demo_valid k)). prefix ''rule_'' d}
      = {''rule_'' @ show_int n | n. 0 < n \<and> n < 2 ^ 31 \<and> rule_dir n \<in> set (demo_dirs k)}" for k
  proof -
    have "rule_dir n \<in> set (demo_dirs k) \<longleftrightarrow> n \<in> set (demo_valid k)" for n by (auto simp: demo_dirs_def rule_dir_inj)
    moreover have "0 < n \<and> n < 2 ^ 31" if "n \<in> set (demo_valid k)" for n using that by (simp add: demo_valid_def)
    moreover have "\<not> prefix ''rule_'' ''cgroup.procs''" by simp
    ultimately show ?thesis by (auto simp del: show_int_nonneg)
  qed
  hence "cg_listing demo_kern demo_view" unfolding cg_listing_def demo_kern_sel by simp
  ultimately show ?thesis using demo_reading demo_making demo_removing by (simp add: cg_documented_def)
qed

lemma demo_proc_documented: "proc_documented demo_kern"
proof -
  have "\<not> list_all is_digit ''self''" by (simp add: is_digit_def)
  moreover have "\<exists>q. 0 < q \<and> q < 2 ^ 31 \<and> show_int p = show_int q" if "p \<in> set demo_pids" for p
    using demo_pids_range [OF that] by blast
  ultimately show ?thesis unfolding proc_documented_def demo_kern_sel by (auto simp: demo_kern_def)
qed

text \<open>Process 7 is in the group of rule 1, processes 12 and 71 are not.\<close>

definition demo_k :: demo_state where "demo_k = ([1], [(7, 1)])"

lemma demo_k_group: "demo_group demo_k 7 = Some (rule_dir 1)" "demo_group demo_k 12 = Some PF_CGROUP_BASE"
  "demo_group demo_k 71 = Some PF_CGROUP_BASE" "cg_dirs demo_view demo_k = {PF_CGROUP_BASE, rule_dir 1}"
  by (simp_all add: demo_k_def demo_group_def demo_pids_def demo_valid_def demo_dirs_def)

theorem remove_rule_drains_witness:
  "\<exists>k'. pf_cgroup_remove_rule demo_kern 1 demo_k = (None, k') \<and> cg_dirs demo_view k' = {PF_CGROUP_BASE}
    \<and> demo_group k' 7 = Some PF_CGROUP_BASE \<and> demo_group k' 71 = Some PF_CGROUP_BASE"
  using remove_rule_drains [OF demo_kern_documented, of 1 demo_k] demo_k_group by auto

theorem remove_pid_exact_witness:
  "\<exists>k'. pf_cgroup_remove_pid demo_kern 7 demo_k = (None, k') \<and> demo_group k' 7 = Some PF_CGROUP_BASE \<and> demo_group k' 12 = Some PF_CGROUP_BASE"
proof -
  have "length out \<le> 4095" if "demo_read f demo_k = Some out" for f out
  proof -
    obtain d where "out = members_text (filter (\<lambda>p. demo_group demo_k p = Some d) demo_pids)" using \<open>demo_read f demo_k = Some out\<close> by (auto simp: demo_read_def)
    moreover have "length (show_int 7) \<le> 10" "length (show_int 12) \<le> 10" "length (show_int 71) \<le> 10"
      using show_int_length [of 7] show_int_length [of 12] show_int_length [of 71] by simp_all
    hence "length (members_text (filter P demo_pids)) \<le> 33" for P
      by (simp add: members_text_def demo_pids_def)
    ultimately have "length out \<le> 33" by simp
    thus ?thesis by simp
  qed
  hence small: "\<forall>d out. file_read demo_kern (d @ ''/cgroup.procs'') demo_k = Some out \<longrightarrow> length out \<le> 4095" by simp
  have grouped: "\<exists>n. 0 < n \<and> n < 2 ^ 31 \<and> cg_group demo_view demo_k 7 = Some (rule_dir n)"
    using demo_k_group(1) by (intro exI [of _ 1]) simp
  have "PF_CGROUP_BASE \<in> cg_dirs demo_view demo_k" by (simp add: demo_dirs_def)
  from remove_pid_exact [OF demo_kern_documented this _ _ _ small, of 7, unfolded if_P [OF grouped]]
  show ?thesis using demo_k_group by auto
qed

text \<open>Rule 1 names \<^verbatim>\<open>/usr/bin/curl\<close>, which process 7 runs.\<close>

theorem assign_running_exact_witness:
  "\<exists>m k'. pf_cgroup_assign_running_pids demo_fnm demo_kern 1 ''/usr/bin/curl'' ([1], []) = (m, k')
    \<and> demo_group k' 7 = Some (rule_dir 1) \<and> demo_group k' 71 = Some PF_CGROUP_BASE"
proof -
  let ?k = "([1], []) :: demo_state"
  have g: "rule_dir 1 \<in> cg_dirs demo_view ?k" "demo_group ?k 7 = Some PF_CGROUP_BASE" "demo_group ?k 71 = Some PF_CGROUP_BASE"
    by (simp_all add: demo_group_def demo_pids_def demo_valid_def demo_dirs_def)
  have "runs demo_fnm demo_kern ?k ''/usr/bin/curl'' 7"
    by (simp add: runs_def demo_kern_def running_match_def pf_match_app_def PF_PATH_MAX_def Let_def)
  moreover have "\<not> runs demo_fnm demo_kern ?k ''/usr/bin/curl'' 71"
    by (simp add: runs_def demo_kern_def exe_link_def show_int_inj)
  moreover have "show_int 7 \<in> set (''self'' # map show_int demo_pids)" by (simp add: demo_pids_def)
  ultimately show ?thesis
    using assign_running_exact [OF demo_kern_documented demo_proc_documented, of 1 ?k "''self'' # map show_int demo_pids" "''/usr/bin/curl''" demo_fnm] g
    by (auto simp: fun_eq_iff)
qed

end
