(* ===== verification/Crypto.thy ===== *)
theory Crypto
  imports Clib
begin

text \<open>
  \<^verbatim>\<open>crypto.c\<close>: the key of the daemon and the two sealed formats.  Argon2id, AES-256-GCM and the random
  generator are libraries: they are the fields of \<open>crypto_env\<close>, and \<open>gcm_documented\<close> states what is relied
  on of AES-GCM.
\<close>

section \<open>State and libraries\<close>

definition PF_SALT_LEN :: nat where "PF_SALT_LEN = 16"
definition PF_IV_LEN :: nat where "PF_IV_LEN = 12"
definition PF_TAG_LEN :: nat where "PF_TAG_LEN = 16"
definition PF_KEY_LEN :: nat where "PF_KEY_LEN = 32"

lemmas crypto_lengths = PF_SALT_LEN_def PF_IV_LEN_def PF_TAG_LEN_def PF_KEY_LEN_def

record pf_crypto =
  cr_key :: bytes
  cr_salt :: bytes
  cr_unlocked :: bool

text \<open>
  \<open>argon2 pw salt\<close>: the key, none if the call fails.  \<open>gcm_setup\<close>: whether the context can be created and
  initialised.  \<open>gcm_seal key iv in\<close>: ciphertext and tag; \<open>gcm_open key iv ct\<close>: what the decryption writes,
  none if it fails; \<open>gcm_tag_ok key iv ct tag\<close>: whether the final step accepts the tag.
\<close>

record crypto_env =
  argon2 :: "bytes \<Rightarrow> bytes \<Rightarrow> bytes option"
  gcm_setup :: bool
  gcm_seal :: "bytes \<Rightarrow> bytes \<Rightarrow> bytes \<Rightarrow> (bytes \<times> bytes) option"
  gcm_open :: "bytes \<Rightarrow> bytes \<Rightarrow> bytes \<Rightarrow> bytes option"
  gcm_tag_ok :: "bytes \<Rightarrow> bytes \<Rightarrow> bytes \<Rightarrow> bytes \<Rightarrow> bool"

section \<open>Keys\<close>

definition pf_crypto_init :: pf_crypto where
  "pf_crypto_init = \<lparr> cr_key = replicate PF_KEY_LEN 0, cr_salt = replicate PF_SALT_LEN 0, cr_unlocked = False \<rparr>"

definition derive_key :: "crypto_env \<Rightarrow> string \<Rightarrow> bytes \<Rightarrow> pf_err + bytes" where
  "derive_key E password salt = (case argon2 E (bytes_of password) salt of None \<Rightarrow> Inl PF_ERR_CRYPTO | Some k \<Rightarrow> Inr k)"

text \<open>\<open>rnd\<close> is what \<^verbatim>\<open>RAND_bytes\<close> delivers, none if it fails.\<close>

definition pf_crypto_random_salt :: "bytes option \<Rightarrow> nat \<Rightarrow> pf_err + bytes" where
  "pf_crypto_random_salt rnd len = (if len = 0 then Inl PF_ERR else case rnd of None \<Rightarrow> Inl PF_ERR_CRYPTO | Some r \<Rightarrow> Inr (take len r))"

definition pf_crypto_set_master :: "crypto_env \<Rightarrow> bytes option \<Rightarrow> pf_crypto \<Rightarrow> string \<Rightarrow> bytes option \<Rightarrow> pf_err option \<times> pf_crypto" where
  "pf_crypto_set_master E rnd ctx password salt =
     (case (case salt of None \<Rightarrow> pf_crypto_random_salt rnd PF_SALT_LEN | Some s \<Rightarrow> Inr (take PF_SALT_LEN s)) of
        Inl _ \<Rightarrow> (Some PF_ERR_CRYPTO, ctx)
      | Inr s \<Rightarrow> let ctx = ctx \<lparr> cr_salt := s \<rparr> in
          (case derive_key E password (cr_salt ctx) of
             Inl e \<Rightarrow> (Some e, ctx)
           | Inr k \<Rightarrow> (None, ctx \<lparr> cr_key := k, cr_unlocked := True \<rparr>)))"

definition pf_crypto_unlock :: "crypto_env \<Rightarrow> pf_crypto \<Rightarrow> string \<Rightarrow> bytes \<Rightarrow> pf_err option \<times> pf_crypto" where
  "pf_crypto_unlock E ctx password salt =
     (let ctx = ctx \<lparr> cr_salt := take PF_SALT_LEN salt \<rparr> in
      case derive_key E password (cr_salt ctx) of
        Inl e \<Rightarrow> (Some e, ctx)
      | Inr k \<Rightarrow> (None, ctx \<lparr> cr_key := k, cr_unlocked := True \<rparr>))"

definition pf_crypto_lock :: "pf_crypto \<Rightarrow> pf_crypto" where
  "pf_crypto_lock ctx = ctx \<lparr> cr_key := replicate PF_KEY_LEN 0, cr_unlocked := False \<rparr>"

section \<open>Sealing\<close>

definition pf_crypto_encrypt :: "crypto_env \<Rightarrow> bytes option \<Rightarrow> pf_crypto \<Rightarrow> bytes \<Rightarrow> pf_err + bytes" where
  "pf_crypto_encrypt E rnd ctx inp =
     (if \<not> cr_unlocked ctx then Inl PF_ERR_LOCKED
      else case rnd of
        None \<Rightarrow> Inl PF_ERR_CRYPTO
      | Some r \<Rightarrow> let iv = take PF_IV_LEN r in
          if \<not> gcm_setup E then Inl PF_ERR_CRYPTO
          else (case gcm_seal E (cr_key ctx) iv inp of
              None \<Rightarrow> Inl PF_ERR_CRYPTO
            | Some (ct, tag) \<Rightarrow> Inr (iv @ ct @ tag)))"

definition pf_crypto_decrypt :: "crypto_env \<Rightarrow> pf_crypto \<Rightarrow> bytes \<Rightarrow> pf_err + bytes" where
  "pf_crypto_decrypt E ctx inp =
     (if \<not> cr_unlocked ctx then Inl PF_ERR_LOCKED
      else if length inp < PF_IV_LEN + PF_TAG_LEN then Inl PF_ERR_CRYPTO
      else let iv = take PF_IV_LEN inp; ct_len = length inp - PF_IV_LEN - PF_TAG_LEN;
               ct = take ct_len (drop PF_IV_LEN inp); tag = take PF_TAG_LEN (drop (PF_IV_LEN + ct_len) inp) in
        if \<not> gcm_setup E then Inl PF_ERR_CRYPTO
        else (case gcm_open E (cr_key ctx) iv ct of
            None \<Rightarrow> Inl PF_ERR_CRYPTO
          | Some out \<Rightarrow> if \<not> gcm_tag_ok E (cr_key ctx) iv ct tag then Inl PF_ERR_AUTH else Inr out))"

text \<open>The two calls of \<^verbatim>\<open>RAND_bytes\<close> (salt, then IV) deliver \<open>rnd1\<close> and \<open>rnd2\<close>.\<close>

definition pf_crypto_export_encrypt :: "crypto_env \<Rightarrow> bytes option \<Rightarrow> bytes option \<Rightarrow> string \<Rightarrow> bytes \<Rightarrow> pf_err + bytes" where
  "pf_crypto_export_encrypt E rnd1 rnd2 password inp =
     (case pf_crypto_set_master E rnd1 pf_crypto_init password None of
        (Some e, ctx) \<Rightarrow> Inl e
      | (None, ctx) \<Rightarrow> (case pf_crypto_encrypt E rnd2 ctx inp of Inl e \<Rightarrow> Inl e | Inr out \<Rightarrow> Inr (cr_salt ctx @ out)))"

definition pf_crypto_export_decrypt :: "crypto_env \<Rightarrow> string \<Rightarrow> bytes \<Rightarrow> pf_err + bytes" where
  "pf_crypto_export_decrypt E password inp =
     (if length inp < PF_SALT_LEN + PF_IV_LEN + PF_TAG_LEN then Inl PF_ERR_CRYPTO
      else let salt = take PF_SALT_LEN inp; enc = drop PF_SALT_LEN inp in
        (case pf_crypto_unlock E pf_crypto_init password salt of
           (Some e, ctx) \<Rightarrow> Inl e
         | (None, ctx) \<Rightarrow> pf_crypto_decrypt E ctx enc))"

section \<open>Properties\<close>

text \<open>
  What AES-GCM promises: sealing keeps the length and gives a tag of 16 bytes; what was sealed opens to
  the plaintext; a tag is accepted exactly if it is the tag of that ciphertext.
\<close>

definition gcm_documented :: "crypto_env \<Rightarrow> bool" where
  "gcm_documented E \<longleftrightarrow>
     (\<forall>k iv inp ct tag. gcm_seal E k iv inp = Some (ct, tag) \<longrightarrow> length ct = length inp \<and> length tag = PF_TAG_LEN
        \<and> gcm_open E k iv ct = Some inp \<and> (\<forall>t. gcm_tag_ok E k iv ct t \<longleftrightarrow> t = tag))"

lemma decrypt_layout:
  assumes "length iv = PF_IV_LEN" "length tag = PF_TAG_LEN" "cr_unlocked ctx" "gcm_setup E"
  shows "pf_crypto_decrypt E ctx (iv @ ct @ tag) = (case gcm_open E (cr_key ctx) iv ct of
      None \<Rightarrow> Inl PF_ERR_CRYPTO | Some out \<Rightarrow> if \<not> gcm_tag_ok E (cr_key ctx) iv ct tag then Inl PF_ERR_AUTH else Inr out)"
  using assms by (simp add: pf_crypto_decrypt_def Let_def cong: option.case_cong)

lemma encrypt_decrypt:
  assumes "gcm_documented E" "pf_crypto_encrypt E (Some r) ctx inp = Inr out" "PF_IV_LEN \<le> length r"
  shows "pf_crypto_decrypt E ctx out = Inr inp \<and> length out = PF_IV_LEN + length inp + PF_TAG_LEN
    \<and> (\<forall>tag. length tag = PF_TAG_LEN \<and> tag \<noteq> drop (PF_IV_LEN + length inp) out \<longrightarrow>
        pf_crypto_decrypt E ctx (take (PF_IV_LEN + length inp) out @ tag) = Inl PF_ERR_AUTH)"
proof -
  obtain ct tag where c: "cr_unlocked ctx" "gcm_setup E" "gcm_seal E (cr_key ctx) (take PF_IV_LEN r) inp = Some (ct, tag)"
    "out = take PF_IV_LEN r @ ct @ tag"
    using assms(2) by (auto simp: pf_crypto_encrypt_def Let_def split: if_splits option.splits)
  have l: "length (take PF_IV_LEN r) = PF_IV_LEN" using assms(3) by simp
  have g: "length ct = length inp" "length tag = PF_TAG_LEN" "gcm_open E (cr_key ctx) (take PF_IV_LEN r) ct = Some inp"
    "gcm_tag_ok E (cr_key ctx) (take PF_IV_LEN r) ct t \<longleftrightarrow> t = tag" for t
    using assms(1) c(3) unfolding gcm_documented_def by blast+
  have parts: "take (PF_IV_LEN + length inp) out = take PF_IV_LEN r @ ct" "drop (PF_IV_LEN + length inp) out = tag"
    using l g(1) by (simp_all add: c(4))
  show ?thesis
    using decrypt_layout [OF l g(2) c(1,2), of ct] decrypt_layout [OF l _ c(1,2), of _ ct] g c(4) l parts by simp
qed

text \<open>
  What is exported under a password is imported with that password, whatever the random salt and
  IV, and is 44 bytes longer than the input.  Replacing the tag is an authentication error, an input
  shorter than 44 bytes is refused, and without a key nothing is sealed or opened.
\<close>

theorem export_roundtrip:
  assumes "gcm_documented E" "pf_crypto_export_encrypt E (Some r1) (Some r2) password inp = Inr out"
    and "PF_SALT_LEN \<le> length r1" "PF_IV_LEN \<le> length r2"
  shows "pf_crypto_export_decrypt E password out = Inr inp \<and> length out = length inp + 44
    \<and> (\<forall>tag. length tag = 16 \<and> tag \<noteq> drop (length inp + 28) out \<longrightarrow>
        pf_crypto_export_decrypt E password (take (length inp + 28) out @ tag) = Inl PF_ERR_AUTH)
    \<and> (\<forall>bs. length bs < 44 \<longrightarrow> pf_crypto_export_decrypt E password bs = Inl PF_ERR_CRYPTO)
    \<and> pf_crypto_encrypt E (Some r2) (pf_crypto_lock ctx) inp = Inl PF_ERR_LOCKED
    \<and> pf_crypto_decrypt E (pf_crypto_lock ctx) out = Inl PF_ERR_LOCKED"
proof -
  let ?salt = "take PF_SALT_LEN r1"
  obtain k enc where k: "derive_key E password ?salt = Inr k"
    "pf_crypto_encrypt E (Some r2) (pf_crypto_init \<lparr> cr_salt := ?salt, cr_key := k, cr_unlocked := True \<rparr>) inp = Inr enc"
    "out = ?salt @ enc"
    using assms(2) by (auto simp: pf_crypto_export_encrypt_def pf_crypto_set_master_def pf_crypto_random_salt_def Let_def
        crypto_lengths split: sum.splits prod.splits option.splits)
  let ?ctx = "pf_crypto_init \<lparr> cr_salt := ?salt, cr_key := k, cr_unlocked := True \<rparr>"
  note e = encrypt_decrypt [OF assms(1) k(2) assms(4)]
  have salt: "length ?salt = 16" using assms(3) by (simp add: crypto_lengths)
  have imp: "pf_crypto_export_decrypt E password (?salt @ x) = pf_crypto_decrypt E ?ctx x" if "28 \<le> length x" for x
    using k(1) that salt by (simp add: pf_crypto_export_decrypt_def pf_crypto_unlock_def Let_def crypto_lengths)
  have len: "length enc = length inp + 28" using e by (simp add: crypto_lengths)
  have "pf_crypto_export_decrypt E password (take (length inp + 28) out @ tag) = Inl PF_ERR_AUTH"
    if t: "length tag = 16" "tag \<noteq> drop (length inp + 28) out" for tag
  proof -
    have "take (length inp + 28) out = ?salt @ take (12 + length inp) enc" "drop (length inp + 28) out = drop (12 + length inp) enc"
      unfolding k(3) using salt by (simp_all add: add.commute min_def crypto_lengths)
    thus ?thesis using imp [of "take (12 + length inp) enc @ tag"] t len e by (simp add: crypto_lengths)
  qed
  moreover have "pf_crypto_export_decrypt E password bs = Inl PF_ERR_CRYPTO" if "length bs < 44" for bs
    using that by (simp add: pf_crypto_export_decrypt_def crypto_lengths)
  moreover have "pf_crypto_encrypt E (Some r2) (pf_crypto_lock ctx) inp = Inl PF_ERR_LOCKED"
    "pf_crypto_decrypt E (pf_crypto_lock ctx) out = Inl PF_ERR_LOCKED"
    by (simp_all add: pf_crypto_encrypt_def pf_crypto_decrypt_def pf_crypto_lock_def)
  ultimately show ?thesis using imp [of enc] len e k(3) salt by simp
qed

text \<open>A stand-in for the libraries: the keystream is the key and the tag is fixed.\<close>

definition demo_crypto :: crypto_env where
  "demo_crypto = \<lparr> argon2 = (\<lambda>pw salt. Some (take 32 (pw @ salt @ replicate 32 1))), gcm_setup = True,
     gcm_seal = (\<lambda>k iv inp. Some (map (\<lambda>b. b + 1) inp, replicate 16 7)), gcm_open = (\<lambda>k iv ct. Some (map (\<lambda>b. b - 1) ct)),
     gcm_tag_ok = (\<lambda>k iv ct t. t = replicate 16 7) \<rparr>"

theorem export_roundtrip_witness:
  "\<exists>out. pf_crypto_export_encrypt demo_crypto (Some (replicate 16 3)) (Some (replicate 12 4)) ''pw'' [1, 2] = Inr out
    \<and> pf_crypto_export_decrypt demo_crypto ''pw'' out = Inr [1, 2] \<and> length out = 46"
proof -
  have "gcm_documented demo_crypto" by (simp add: gcm_documented_def demo_crypto_def PF_TAG_LEN_def comp_def)
  moreover have "\<exists>out. pf_crypto_export_encrypt demo_crypto (Some (replicate 16 3)) (Some (replicate 12 4)) ''pw'' [1, 2] = Inr out"
    by (simp add: pf_crypto_export_encrypt_def pf_crypto_set_master_def pf_crypto_random_salt_def derive_key_def pf_crypto_encrypt_def
        demo_crypto_def crypto_lengths Let_def)
  ultimately show ?thesis
    using export_roundtrip [of demo_crypto "replicate 16 3" "replicate 12 4" "''pw''" "[1, 2]"] by (fastforce simp: crypto_lengths)
qed

end
