(* ===== verification/Mitm.thy ===== *)
theory Mitm
  imports Clib "HOL-Library.Multiset"
begin

text \<open>
  \<^verbatim>\<open>mitm.c\<close>: the certificates the daemon presents for intercepted domains.  They are kept in a hash table
  of 256 slots with linear probing over 16 slots; a full window evicts its least recently used entry.
  OpenSSL counts references: an object of the model is a certificate together with its key, which the
  code allocates, references and frees together.  Outcomes of OpenSSL calls are parameters.
\<close>

section \<open>State\<close>

definition PF_MITM_CERT_CACHE_SIZE :: nat where "PF_MITM_CERT_CACHE_SIZE = 256"
definition CACHE_PROBE :: nat where "CACHE_PROBE = 16"

record slot =
  sl_domain :: string
  sl_obj :: nat
  sl_last_used :: u64
  sl_used :: bool

text \<open>
  An X.509 certificate: common names of subject and issuer, alternative names, days of validity, and the
  numbers of the key it certifies and of the key that signed it.
\<close>

record x509 =
  x_cn :: string
  x_issuer :: "string option"
  x_san :: "string option"
  x_days :: nat
  x_key :: nat
  x_signer :: "nat option"

text \<open>The two files of the certificate authority; a write that fails in the middle leaves a broken file.\<close>

datatype 'a pem_file = Absent | Broken | Pem 'a

record ca_files =
  cf_key :: "nat pem_file"
  cf_cert :: "x509 pem_file"

text \<open>
  Objects are numbered as they are created; \<open>mi_objs\<close> has each with its reference count, \<open>mi_ssl\<close> the
  objects that live TLS sessions use.
\<close>

record pf_mitm =
  mi_ca_key :: "nat option"
  mi_ca_cert :: "x509 option"
  mi_server_ctx :: bool
  mi_client_ctx :: bool
  mi_cache :: "slot list"
  mi_cache_count :: int
  mi_enabled :: int
  mi_tick :: u64
  mi_objs :: "(x509 \<times> int) list"
  mi_ssl :: "nat list"

definition slot_zero :: slot where
  "slot_zero = \<lparr> sl_domain = [], sl_obj = 0, sl_last_used = 0, sl_used = False \<rparr>"

definition mitm_zero :: "pf_mitm \<Rightarrow> pf_mitm" where
  "mitm_zero m = m \<lparr> mi_ca_key := None, mi_ca_cert := None, mi_server_ctx := False, mi_client_ctx := False,
     mi_cache := replicate PF_MITM_CERT_CACHE_SIZE slot_zero, mi_cache_count := 0, mi_enabled := 0 \<rparr>"

definition add_ref :: "int \<Rightarrow> nat \<Rightarrow> pf_mitm \<Rightarrow> pf_mitm" where
  "add_ref d i m = m \<lparr> mi_objs := (mi_objs m)[i := (fst (mi_objs m ! i), snd (mi_objs m ! i) + d)] \<rparr>"

section \<open>The certificate authority\<close>

definition pf_mitm_ca_exists :: "ca_files \<Rightarrow> bool" where
  "pf_mitm_ca_exists fs \<longleftrightarrow> cf_key fs \<noteq> Absent \<and> cf_cert fs \<noteq> Absent"

text \<open>The outcomes of the calls of \<^verbatim>\<open>pf_mitm_generate_ca\<close> that may fail, and the number of the new key.\<close>

record ca_env =
  ce_make :: bool
  ce_key_open :: bool
  ce_key_write :: bool
  ce_cert_open :: bool
  ce_cert_write :: bool
  ce_key :: nat

definition ca_cert :: "nat \<Rightarrow> x509" where
  "ca_cert k = \<lparr> x_cn = ''ProxiFlare CA'', x_issuer = Some ''ProxiFlare CA'', x_san = None, x_days = 10 * 365, x_key = k, x_signer = Some k \<rparr>"

definition pf_mitm_generate_ca :: "ca_env \<Rightarrow> ca_files \<Rightarrow> pf_err option \<times> ca_files" where
  "pf_mitm_generate_ca E fs =
     (if pf_mitm_ca_exists fs then (None, fs)
      else if \<not> ce_make E then (Some PF_ERR, fs)
      else if \<not> ce_key_open E then (Some PF_ERR, fs)
      else if \<not> ce_key_write E then (Some PF_ERR, fs \<lparr> cf_key := Broken \<rparr>)
      else let fs = fs \<lparr> cf_key := Pem (ce_key E) \<rparr> in
        if \<not> ce_cert_open E then (Some PF_ERR, fs)
        else if \<not> ce_cert_write E then (Some PF_ERR, fs \<lparr> cf_cert := Broken \<rparr>)
        else (None, fs \<lparr> cf_cert := Pem (ca_cert (ce_key E)) \<rparr>))"

text \<open>The outcomes of the calls of \<^verbatim>\<open>pf_mitm_init\<close>: mutex, opening the files, contexts.\<close>

record mitm_env =
  me_lock :: bool
  me_open_key :: bool
  me_open_cert :: bool
  me_server_ctx :: bool
  me_client_ctx :: bool

definition read_pem :: "bool \<Rightarrow> 'a pem_file \<Rightarrow> 'a option" where
  "read_pem opened f = (if \<not> opened then None else case f of Pem a \<Rightarrow> Some a | _ \<Rightarrow> None)"

definition pf_mitm_init :: "mitm_env \<Rightarrow> ca_files \<Rightarrow> pf_mitm \<Rightarrow> pf_err option \<times> pf_mitm" where
  "pf_mitm_init E fs m = (let m = mitm_zero m in
     if \<not> me_lock E then (Some PF_ERR, m)
     else if \<not> pf_mitm_ca_exists fs then (None, m)
     else case read_pem (me_open_key E) (cf_key fs) of None \<Rightarrow> (Some PF_ERR, m)
     | Some k \<Rightarrow> let m = m \<lparr> mi_ca_key := Some k \<rparr> in
       (case read_pem (me_open_cert E) (cf_cert fs) of None \<Rightarrow> (Some PF_ERR, m)
        | Some x \<Rightarrow> let m = m \<lparr> mi_ca_cert := Some x \<rparr> in
          if \<not> me_server_ctx E then (Some PF_ERR, m)
          else let m = m \<lparr> mi_server_ctx := True \<rparr> in
            if \<not> me_client_ctx E then (Some PF_ERR, m)
            else (None, m \<lparr> mi_client_ctx := True, mi_enabled := 0 \<rparr>)))"

text \<open>
  A successful generation gives an authority that loads, and it is kept afterwards.  If writing the
  certificate fails, the files remain: every later call reports success and no start can load them.
\<close>

lemma generate_then_init:
  assumes "pf_mitm_generate_ca C fs = (None, fs')" "\<not> pf_mitm_ca_exists fs" "me_lock E" "me_open_key E" "me_open_cert E" "me_server_ctx E" "me_client_ctx E"
  shows "pf_mitm_generate_ca C' fs' = (None, fs') \<and> fst (pf_mitm_init E fs' m) = None
    \<and> mi_ca_key (snd (pf_mitm_init E fs' m)) = Some (ce_key C) \<and> mi_ca_cert (snd (pf_mitm_init E fs' m)) = Some (ca_cert (ce_key C))"
  using assms by (auto simp: pf_mitm_generate_ca_def pf_mitm_init_def pf_mitm_ca_exists_def read_pem_def Let_def split: if_splits)

lemma broken_ca_is_final:
  assumes "\<not> pf_mitm_ca_exists fs" "ce_make C" "ce_key_open C" "ce_key_write C" "ce_cert_open C" "\<not> ce_cert_write C"
    "pf_mitm_generate_ca C fs = (r, fs')"
  shows "r = Some PF_ERR \<and> pf_mitm_generate_ca C' fs' = (None, fs') \<and> fst (pf_mitm_init E fs' m) = Some PF_ERR"
proof -
  have w: "r = Some PF_ERR" "fs' = fs \<lparr> cf_key := Pem (ce_key C), cf_cert := Broken \<rparr>"
    using assms by (simp_all add: pf_mitm_generate_ca_def Let_def)
  hence "pf_mitm_ca_exists fs'" "read_pem b (cf_cert fs') = None" for b by (simp_all add: pf_mitm_ca_exists_def read_pem_def)
  thus ?thesis using w(1) by (simp add: pf_mitm_generate_ca_def pf_mitm_init_def Let_def split: option.split)
qed

definition pf_mitm_close :: "pf_mitm \<Rightarrow> pf_mitm" where
  "pf_mitm_close m = mitm_zero (fold (\<lambda>s m. if sl_used s then add_ref (-1) (sl_obj s) m else m) (mi_cache m) m)"

section \<open>Certificates\<close>

definition isalnum :: "char \<Rightarrow> bool" where
  "isalnum c \<longleftrightarrow> (of_char c :: nat) \<in> {48..57} \<union> {65..90} \<union> {97..122}"

definition domain_is_safe :: "string \<Rightarrow> bool" where
  "domain_is_safe d = (if d = [] then False
     else if length d > PF_DOMAIN_MAX then False
     else list_all (\<lambda>c. isalnum c \<or> c = CHR ''.'' \<or> c = CHR ''-'' \<or> c = CHR ''_'') d)"

definition fnv1a64_lower :: "string \<Rightarrow> u64" where
  "fnv1a64_lower s = foldl (\<lambda>h c. (h XOR of_nat (of_char (tolower c))) * 1099511628211) 14695981039346656037 s"

text \<open>
  The OpenSSL calls of \<^verbatim>\<open>generate_domain_cert\<close>: whether those that must succeed do, and whether the
  extension can be built.  A failure frees what was allocated.
\<close>

record cert_env =
  cv_ok :: bool
  cv_san :: bool
  cv_key :: nat

definition generate_domain_cert :: "cert_env \<Rightarrow> pf_mitm \<Rightarrow> string \<Rightarrow> x509 option" where
  "generate_domain_cert E m domain = (if \<not> cv_ok E then None
     else Some \<lparr> x_cn = domain, x_issuer = map_option x_cn (mi_ca_cert m),
       x_san = (if cv_san E then Some (snprintf_s (PF_DOMAIN_MAX * 2 + 32) (''DNS:'' @ domain @ '',DNS:*.'' @ domain)) else None),
       x_days = 365, x_key = cv_key E, x_signer = mi_ca_key m \<rparr>)"

text \<open>The slots of a probe, in order.\<close>

definition probe :: "string \<Rightarrow> nat list" where
  "probe lower = map (\<lambda>step. (unat (fnv1a64_lower lower AND 255) + step) mod PF_MITM_CERT_CACHE_SIZE) [0 ..< CACHE_PROBE]"

fun lookup_loop :: "slot list \<Rightarrow> string \<Rightarrow> nat list \<Rightarrow> nat option" where
  "lookup_loop cache lower [] = None"
| "lookup_loop cache lower (idx # is) =
     (if \<not> sl_used (cache ! idx) then None
      else if sl_domain (cache ! idx) = lower then Some idx
      else lookup_loop cache lower is)"

text \<open>The scan for a place: an empty slot, or the entry with the smallest counter below the initial maximum.\<close>

fun insert_loop :: "slot list \<Rightarrow> nat list \<Rightarrow> nat option \<Rightarrow> u64 \<Rightarrow> nat option \<times> nat option" where
  "insert_loop cache [] lru_idx lru_tick = (None, lru_idx)"
| "insert_loop cache (idx # is) lru_idx lru_tick =
     (let e = cache ! idx in
      if \<not> sl_used e then (Some idx, lru_idx)
      else if sl_last_used e < lru_tick then insert_loop cache is (Some idx) (sl_last_used e)
      else insert_loop cache is lru_idx lru_tick)"

text \<open>The result of a call: an owned reference, an error, or an access outside the table.\<close>

datatype cert_result = Cert nat | Cert_err | Cert_oob

definition fill_slot :: "nat \<Rightarrow> string \<Rightarrow> nat \<Rightarrow> pf_mitm \<Rightarrow> pf_mitm" where
  "fill_slot idx lower i m = m \<lparr> mi_cache := (mi_cache m)[idx := \<lparr> sl_domain = lower, sl_obj = i,
     sl_last_used = mi_tick m + 1, sl_used = True \<rparr>], mi_tick := mi_tick m + 1 \<rparr>"

definition pf_mitm_get_cert :: "cert_env \<Rightarrow> pf_mitm \<Rightarrow> string \<Rightarrow> cert_result \<times> pf_mitm" where
  "pf_mitm_get_cert E m domain =
     (if mi_ca_key m = None then (Cert_err, m)
      else if \<not> domain_is_safe domain then (Cert_err, m)
      else let lower = map tolower (take PF_DOMAIN_MAX domain) in
        (case lookup_loop (mi_cache m) lower (probe lower) of
           Some idx \<Rightarrow> let e = mi_cache m ! idx; m = m \<lparr> mi_tick := mi_tick m + 1,
               mi_cache := (mi_cache m)[idx := e \<lparr> sl_last_used := mi_tick m + 1 \<rparr>] \<rparr> in
             (Cert (sl_obj e), add_ref 1 (sl_obj e) m)
         | None \<Rightarrow> (case generate_domain_cert E m lower of
             None \<Rightarrow> (Cert_err, m)
           | Some x \<Rightarrow> let i = length (mi_objs m); m = m \<lparr> mi_objs := mi_objs m @ [(x, 1)] \<rparr> in
               (case insert_loop (mi_cache m) (probe lower) None (-1) of
                  (Some idx, _) \<Rightarrow> (Cert i, add_ref 1 i (fill_slot idx lower i (m \<lparr> mi_cache_count := mi_cache_count m + 1 \<rparr>)))
                | (None, Some idx) \<Rightarrow> (Cert i, add_ref 1 i (fill_slot idx lower i (add_ref (-1) (sl_obj (mi_cache m ! idx)) m)))
                | (None, None) \<Rightarrow> (Cert_oob, m)))))"

section \<open>TLS towards client and server\<close>

record ssl_env =
  sv_new :: bool
  sv_use :: bool
  sv_handshake :: bool

text \<open>
  \<^verbatim>\<open>SSL_use_certificate\<close> and \<^verbatim>\<open>SSL_use_PrivateKey\<close> take references of their own, which \<^verbatim>\<open>SSL_free\<close> drops.  The
  result is the object of the session, none for a null pointer.
\<close>

definition pf_mitm_wrap_client :: "cert_env \<Rightarrow> ssl_env \<Rightarrow> pf_mitm \<Rightarrow> int \<Rightarrow> string \<Rightarrow> nat option \<times> pf_mitm" where
  "pf_mitm_wrap_client E S m client_fd domain =
     (if \<not> mi_server_ctx m \<or> mi_ca_key m = None \<or> client_fd < 0 then (None, m)
      else case pf_mitm_get_cert E m domain of
        (Cert i, m) \<Rightarrow>
          if \<not> sv_new S then (None, add_ref (-1) i m)
          else if \<not> sv_use S then (None, add_ref (-1) i m)
          else let m = add_ref (-1) i (add_ref 1 i m) in
            if \<not> sv_handshake S then (None, add_ref (-1) i m)
            else (Some i, m \<lparr> mi_ssl := i # mi_ssl m \<rparr>)
      | (_, m) \<Rightarrow> (None, m))"

definition pf_mitm_wrap_server :: "ssl_env \<Rightarrow> pf_mitm \<Rightarrow> int \<Rightarrow> bool" where
  "pf_mitm_wrap_server S m proxy_fd = (if \<not> mi_client_ctx m \<or> proxy_fd < 0 then False
     else if \<not> sv_new S then False else sv_handshake S)"

text \<open>\<^verbatim>\<open>SSL_free\<close> of a client session, when its connection is closed.\<close>

definition ssl_free :: "nat \<Rightarrow> pf_mitm \<Rightarrow> pf_mitm" where
  "ssl_free i m = add_ref (-1) i (m \<lparr> mi_ssl := remove1 i (mi_ssl m) \<rparr>)"

section \<open>The table\<close>

definition used :: "slot list \<Rightarrow> nat \<Rightarrow> bool" where
  "used cache i \<longleftrightarrow> i < length cache \<and> sl_used (cache ! i)"

text \<open>An entry sits in the window of its domain behind used slots only, and no domain has two entries.\<close>

definition table_inv :: "slot list \<Rightarrow> bool" where
  "table_inv cache \<longleftrightarrow> length cache = PF_MITM_CERT_CACHE_SIZE
     \<and> (\<forall>i. used cache i \<longrightarrow> (\<exists>p q. probe (sl_domain (cache ! i)) = p @ i # q \<and> (\<forall>j \<in> set p. sl_used (cache ! j))))
     \<and> (\<forall>i j. used cache i \<longrightarrow> used cache j \<longrightarrow> sl_domain (cache ! i) = sl_domain (cache ! j) \<longrightarrow> i = j)"

lemma probe_range: "i \<in> set (probe d) \<Longrightarrow> i < PF_MITM_CERT_CACHE_SIZE"
  by (auto simp: probe_def PF_MITM_CERT_CACHE_SIZE_def)

lemma lookup_Some:
  "lookup_loop cache d is = Some i \<Longrightarrow> i \<in> set is \<and> sl_used (cache ! i) \<and> sl_domain (cache ! i) = d"
  by (induction "is") (auto split: if_splits)

lemma lookup_found:
  assumes "\<forall>j \<in> set p. sl_used (cache ! j)" "sl_used (cache ! i)" "sl_domain (cache ! i) = d"
  shows "lookup_loop cache d (p @ i # q) \<noteq> None"
  using assms by (induction p) auto

lemma lookup_iff:
  assumes "table_inv cache"
  shows "lookup_loop cache d (probe d) = Some i \<longleftrightarrow> used cache i \<and> sl_domain (cache ! i) = d"
proof
  assume "lookup_loop cache d (probe d) = Some i"
  from lookup_Some [OF this] show "used cache i \<and> sl_domain (cache ! i) = d"
    using assms probe_range by (auto simp: used_def table_inv_def)
next
  assume u: "used cache i \<and> sl_domain (cache ! i) = d"
  then obtain p q where "probe d = p @ i # q" "\<forall>j \<in> set p. sl_used (cache ! j)" using assms unfolding table_inv_def by blast
  then obtain k where k: "lookup_loop cache d (probe d) = Some k" using lookup_found [of p cache i d q] u by (auto simp: used_def)
  hence "used cache k \<and> sl_domain (cache ! k) = d" using lookup_Some [OF k] assms probe_range by (auto simp: used_def table_inv_def)
  hence "k = i" using u assms unfolding table_inv_def by metis
  thus "lookup_loop cache d (probe d) = Some i" using k by simp
qed

lemma insert_empty:
  "insert_loop cache is l t = (Some i, l') \<Longrightarrow> \<exists>p q. is = p @ i # q \<and> (\<forall>j \<in> set p. sl_used (cache ! j)) \<and> \<not> sl_used (cache ! i)"
proof (induction "is" arbitrary: l t)
  case (Cons x xs)
  show ?case
  proof (cases "sl_used (cache ! x)")
    case True
    then obtain l2 t2 where "insert_loop cache xs l2 t2 = (Some i, l')" using Cons.prems by (auto simp: Let_def split: if_splits)
    from Cons.IH [OF this] obtain p q where "xs = p @ i # q \<and> (\<forall>j \<in> set p. sl_used (cache ! j)) \<and> \<not> sl_used (cache ! i)" by blast
    thus ?thesis using True by (intro exI [of _ "x # p"] exI [of _ q]) simp
  next
    case False
    thus ?thesis using Cons.prems by (intro exI [of _ "[]"] exI [of _ xs]) (simp add: Let_def)
  qed
qed simp

text \<open>Without an empty slot the result is the entry of least counter, if one is below the start value.\<close>

lemma insert_lru:
  "insert_loop cache is l t = (None, r) \<Longrightarrow> (\<forall>j \<in> set is. sl_used (cache ! j))
    \<and> (case r of None \<Rightarrow> l = None \<and> (\<forall>j \<in> set is. t \<le> sl_last_used (cache ! j))
       | Some i \<Rightarrow> (i \<in> set is \<and> sl_last_used (cache ! i) < t \<and> (\<forall>j \<in> set is. sl_last_used (cache ! i) \<le> sl_last_used (cache ! j)))
           \<or> (l = Some i \<and> (\<forall>j \<in> set is. t \<le> sl_last_used (cache ! j))))"
proof (induction "is" arbitrary: l t)
  case (Cons x xs)
  have x: "sl_used (cache ! x)" using Cons.prems by (auto simp: Let_def split: if_splits)
  show ?case
  proof (cases "sl_last_used (cache ! x) < t")
    case True
    hence "insert_loop cache xs (Some x) (sl_last_used (cache ! x)) = (None, r)" using Cons.prems x by (simp add: Let_def)
    from Cons.IH [OF this] show ?thesis using x True by (auto split: option.splits dest: order.strict_trans1)
  next
    case False
    hence "insert_loop cache xs l t = (None, r)" using Cons.prems x by (simp add: Let_def)
    from Cons.IH [OF this] show ?thesis using x False by (auto split: option.splits)
  qed
qed (auto split: option.split)

section \<open>References\<close>

definition cache_refs :: "slot list \<Rightarrow> nat \<Rightarrow> int" where
  "cache_refs cache i = sum_list (map (\<lambda>s. if sl_used s \<and> sl_obj s = i then 1 else 0) cache)"

definition used_slots :: "slot list \<Rightarrow> int" where
  "used_slots cache = sum_list (map (\<lambda>s. if sl_used s then 1 else 0) cache)"

text \<open>\<open>ext\<close> is an object for which a caller holds a reference.\<close>

definition refs_inv :: "pf_mitm \<Rightarrow> nat option \<Rightarrow> bool" where
  "refs_inv m ext \<longleftrightarrow> (\<forall>i < length (mi_objs m). snd (mi_objs m ! i) =
     cache_refs (mi_cache m) i + int (count_list (mi_ssl m) i) + (if ext = Some i then 1 else 0))"

definition objs_inv :: "pf_mitm \<Rightarrow> bool" where
  "objs_inv m \<longleftrightarrow> (\<forall>s \<in> set (mi_cache m). sl_used s \<longrightarrow> sl_obj s < length (mi_objs m) \<and> x_cn (fst (mi_objs m ! sl_obj s)) = sl_domain s
       \<and> sl_last_used s \<le> mi_tick m)
     \<and> (\<forall>i \<in> set (mi_ssl m). i < length (mi_objs m)) \<and> mi_cache_count m = used_slots (mi_cache m)"

definition mitm_inv :: "pf_mitm \<Rightarrow> nat option \<Rightarrow> bool" where
  "mitm_inv m ext \<longleftrightarrow> table_inv (mi_cache m) \<and> objs_inv m \<and> refs_inv m ext"

lemma add_ref_sel [simp]:
  "mi_cache (add_ref d i m) = mi_cache m" "mi_tick (add_ref d i m) = mi_tick m" "mi_ssl (add_ref d i m) = mi_ssl m"
  "mi_cache_count (add_ref d i m) = mi_cache_count m" "mi_ca_key (add_ref d i m) = mi_ca_key m"
  "length (mi_objs (add_ref d i m)) = length (mi_objs m)" "mi_server_ctx (add_ref d i m) = mi_server_ctx m"
  by (simp_all add: add_ref_def)

lemma add_ref_obj [simp]: "i < length (mi_objs m) \<Longrightarrow> fst (mi_objs (add_ref d j m) ! i) = fst (mi_objs m ! i)"
  "i < length (mi_objs m) \<Longrightarrow> snd (mi_objs (add_ref d j m) ! i) = snd (mi_objs m ! i) + (if i = j then d else 0)"
  by (cases "i = j"; simp add: add_ref_def)+

lemma objs_inv_add_ref [simp]: "objs_inv (add_ref d i m) \<longleftrightarrow> objs_inv m"
  by (auto simp: objs_inv_def)

lemma refs_inv_take: "refs_inv (add_ref 1 i m) (Some i) \<longleftrightarrow> refs_inv m None"
  by (auto simp: refs_inv_def)

lemma refs_inv_drop: "refs_inv (add_ref (-1) i m) None \<longleftrightarrow> refs_inv m (Some i)"
  by (auto simp: refs_inv_def)

lemma cache_refs_update:
  "idx < length cache \<Longrightarrow> cache_refs (cache[idx := s]) i = cache_refs cache i
    - (if sl_used (cache ! idx) \<and> sl_obj (cache ! idx) = i then 1 else 0) + (if sl_used s \<and> sl_obj s = i then 1 else 0)"
  using sum_list_map_update [of idx cache "\<lambda>s. if sl_used s \<and> sl_obj s = i then 1 else 0 :: int" s] unfolding cache_refs_def by linarith

lemma used_slots_update:
  "idx < length cache \<Longrightarrow> used_slots (cache[idx := s]) = used_slots cache - (if sl_used (cache ! idx) then 1 else 0) + (if sl_used s then 1 else 0)"
  using sum_list_map_update [of idx cache "\<lambda>s. if sl_used s then 1 else 0 :: int" s] unfolding used_slots_def by linarith

lemma cache_refs_nonneg: "0 \<le> cache_refs cache i"
  unfolding cache_refs_def by (intro sum_list_nonneg) auto

lemma cache_refs_fresh: "\<forall>s \<in> set cache. sl_used s \<longrightarrow> sl_obj s \<noteq> i \<Longrightarrow> cache_refs cache i = 0"
  unfolding cache_refs_def by (induction cache) auto

text \<open>Overwriting a slot inside the window keeps the table, if the domain was absent.\<close>

lemma table_inv_fill:
  assumes "table_inv cache" "probe d = p @ idx # q" "\<forall>j \<in> set p. sl_used (cache ! j)"
    and "\<And>i. used cache i \<Longrightarrow> sl_domain (cache ! i) \<noteq> d" "sl_used s" "sl_domain s = d"
  shows "table_inv (cache[idx := s])"
proof -
  have len: "length cache = PF_MITM_CERT_CACHE_SIZE" using assms(1) by (simp add: table_inv_def)
  have idx: "idx < length cache" using assms(2) probe_range [of idx d] len by simp
  have at: "(cache[idx := s]) ! j = (if j = idx then s else cache ! j)" if "j < length cache" for j
    using that by (simp add: nth_list_update)
  have keep: "sl_used (cache ! j) \<Longrightarrow> sl_used ((cache[idx := s]) ! j)" for j
    using assms(5) by (cases "j = idx") (auto simp: nth_list_update idx)
  have win: "\<exists>p q. probe (sl_domain ((cache[idx := s]) ! i)) = p @ i # q \<and> (\<forall>j \<in> set p. sl_used ((cache[idx := s]) ! j))"
    if "used (cache[idx := s]) i" for i
  proof (cases "i = idx")
    case True
    thus ?thesis using assms(2,3,6) keep idx by (intro exI [of _ p] exI [of _ q]) simp
  next
    case False
    hence "used cache i" using that at by (simp add: used_def)
    then obtain p' q' where "probe (sl_domain (cache ! i)) = p' @ i # q'" "\<forall>j \<in> set p'. sl_used (cache ! j)"
      using assms(1) unfolding table_inv_def by blast
    thus ?thesis using False keep by (intro exI [of _ p'] exI [of _ q']) simp
  qed
  have "i = j" if "used (cache[idx := s]) i" "used (cache[idx := s]) j" "sl_domain ((cache[idx := s]) ! i) = sl_domain ((cache[idx := s]) ! j)" for i j
    using that assms(1,4,6) at unfolding table_inv_def used_def by (metis length_list_update)
  thus ?thesis using win len unfolding table_inv_def by simp
qed

lemma table_inv_touch:
  assumes "table_inv cache" "idx < length cache"
  shows "table_inv (cache[idx := (cache ! idx) \<lparr> sl_last_used := t \<rparr>])"
proof -
  have at: "sl_used (cache[idx := (cache ! idx) \<lparr> sl_last_used := t \<rparr>] ! j) = sl_used (cache ! j)"
    "sl_domain (cache[idx := (cache ! idx) \<lparr> sl_last_used := t \<rparr>] ! j) = sl_domain (cache ! j)" for j
    using assms(2) by (cases "j = idx"; simp)+
  show ?thesis using assms(1) unfolding table_inv_def used_def at by simp
qed

lemma tick_step: "(t :: u64) < - 1 \<Longrightarrow> t < t + 1"
proof -
  assume "t < - 1"
  hence "1 + t \<noteq> 0" using max_word_wrap [of t] by (auto simp: add.commute)
  thus "t < t + 1" using unatSuc [of t] by (simp add: word_less_nat_alt add.commute)
qed

lemma objs_inv_fill:
  assumes "objs_inv m" "idx < length (mi_cache m)" "i < length (mi_objs m)" "x_cn (fst (mi_objs m ! i)) = d" "mi_tick m < - 1"
    and "n = mi_cache_count m + (if sl_used (mi_cache m ! idx) then 0 else 1)"
  shows "objs_inv (fill_slot idx d i (m \<lparr> mi_cache_count := n \<rparr>))"
proof -
  have t: "mi_tick m \<le> mi_tick m + 1" using tick_step [OF assms(5)] by (rule less_imp_le)
  let ?new = "\<lparr> sl_domain = d, sl_obj = i, sl_last_used = mi_tick m + 1, sl_used = True \<rparr>"
  have "sl_obj s < length (mi_objs m) \<and> x_cn (fst (mi_objs m ! sl_obj s)) = sl_domain s \<and> sl_last_used s \<le> mi_tick m + 1"
    if s: "s \<in> set ((mi_cache m)[idx := ?new])" "sl_used s" for s
  proof (cases "s = ?new")
    case False
    hence "s \<in> set (mi_cache m)" using s(1) set_update_subset_insert [of "mi_cache m" idx ?new] by auto
    thus ?thesis using assms(1) s(2) order_trans [OF _ t] unfolding objs_inv_def by blast
  qed (use assms(3,4) in simp)
  thus ?thesis using assms(1,2,6) unfolding objs_inv_def by (auto simp: fill_slot_def used_slots_update)
qed

section \<open>Getting a certificate\<close>

lemma safe_lower: "domain_is_safe d \<Longrightarrow> take PF_DOMAIN_MAX d = d"
  by (simp add: domain_is_safe_def split: if_splits)

lemma miss_absent:
  "table_inv cache \<Longrightarrow> lookup_loop cache d (probe d) = None \<Longrightarrow> used cache i \<Longrightarrow> sl_domain (cache ! i) \<noteq> d"
  using lookup_iff [of cache d i] by auto

lemma inv_new_object:
  assumes "mitm_inv m None"
  shows "mitm_inv (m \<lparr> mi_objs := mi_objs m @ [(x, 1)] \<rparr>) (Some (length (mi_objs m)))"
proof -
  have o: "sl_obj s < length (mi_objs m)" if "s \<in> set (mi_cache m)" "sl_used s" for s
    using assms that by (simp add: mitm_inv_def objs_inv_def)
  have "cache_refs (mi_cache m) (length (mi_objs m)) = 0" by (intro cache_refs_fresh ballI impI) (metis o less_irrefl)
  moreover have "count_list (mi_ssl m) (length (mi_objs m)) = 0"
    using assms by (auto simp: mitm_inv_def objs_inv_def count_list_0_iff)
  ultimately show ?thesis using assms o
    by (auto simp: mitm_inv_def objs_inv_def refs_inv_def nth_append less_Suc_eq)
qed

text \<open>Storing the object a caller holds: into an empty slot, or over an entry whose reference is dropped.\<close>

lemma refs_fill:
  assumes "refs_inv m (Some i)" "idx < length (mi_cache m)" "\<not> sl_used (mi_cache m ! idx)"
  shows "refs_inv (fill_slot idx d i (m \<lparr> mi_cache_count := n \<rparr>)) None"
  using assms by (auto simp: refs_inv_def fill_slot_def cache_refs_update)

lemma refs_replace:
  assumes "refs_inv m (Some i)" "idx < length (mi_cache m)" "sl_used (mi_cache m ! idx)"
  shows "refs_inv (fill_slot idx d i (add_ref (-1) (sl_obj (mi_cache m ! idx)) m)) None"
  using assms by (auto simp: refs_inv_def fill_slot_def cache_refs_update)

text \<open>What holds when a call has returned object \<open>i\<close> for the lowercased domain \<open>d\<close>.\<close>

definition got_cert :: "pf_mitm \<Rightarrow> string \<Rightarrow> nat \<Rightarrow> pf_mitm \<Rightarrow> bool" where
  "got_cert m d i m' \<longleftrightarrow> mitm_inv m' (Some i) \<and> i < length (mi_objs m') \<and> x_cn (fst (mi_objs m' ! i)) = d
     \<and> (\<exists>idx. used (mi_cache m') idx \<and> sl_domain (mi_cache m' ! idx) = d \<and> sl_obj (mi_cache m' ! idx) = i)
     \<and> mi_tick m' = mi_tick m + 1 \<and> mi_ca_key m' = mi_ca_key m \<and> mi_server_ctx m' = mi_server_ctx m \<and> mi_ssl m' = mi_ssl m"

lemma hit_cert:
  assumes "mitm_inv m None" "mi_tick m < - 1" "used (mi_cache m) idx" "sl_domain (mi_cache m ! idx) = d"
  shows "got_cert m d (sl_obj (mi_cache m ! idx)) (add_ref 1 (sl_obj (mi_cache m ! idx))
    (m \<lparr> mi_tick := mi_tick m + 1, mi_cache := (mi_cache m)[idx := (mi_cache m ! idx) \<lparr> sl_last_used := mi_tick m + 1 \<rparr>] \<rparr>))"
proof -
  let ?e = "mi_cache m ! idx"
  let ?m = "m \<lparr> mi_tick := mi_tick m + 1, mi_cache := (mi_cache m)[idx := ?e \<lparr> sl_last_used := mi_tick m + 1 \<rparr>] \<rparr>"
  have t: "table_inv (mi_cache m)" and o: "objs_inv m" and rf: "refs_inv m None" using assms(1) by (simp_all add: mitm_inv_def)
  have i: "idx < length (mi_cache m)" "sl_used ?e" using assms(3) by (simp_all add: used_def)
  have tt: "mi_tick m \<le> mi_tick m + 1" using tick_step [OF assms(2)] by (rule less_imp_le)
  have "sl_obj s < length (mi_objs m) \<and> x_cn (fst (mi_objs m ! sl_obj s)) = sl_domain s \<and> sl_last_used s \<le> mi_tick m + 1"
    if s: "s \<in> set (mi_cache ?m)" "sl_used s" for s
  proof (cases "s \<in> set (mi_cache m)")
    case True
    thus ?thesis using o s(2) order_trans [OF _ tt] unfolding objs_inv_def by blast
  next
    case False
    hence "s = ?e \<lparr> sl_last_used := mi_tick m + 1 \<rparr>" using s(1) set_update_subset_insert [of "mi_cache m" idx] by auto
    thus ?thesis using o i nth_mem [OF i(1)] by (simp add: objs_inv_def)
  qed
  hence "objs_inv ?m" using o i by (simp add: objs_inv_def used_slots_update)
  moreover have "refs_inv ?m None" using rf i by (simp add: refs_inv_def cache_refs_update)
  moreover have "sl_obj ?e < length (mi_objs m)" "x_cn (fst (mi_objs m ! sl_obj ?e)) = d"
    using o i nth_mem [OF i(1)] assms(4) by (simp_all add: objs_inv_def)
  ultimately show ?thesis using table_inv_touch [OF t i(1)] i assms(4)
    by (auto simp: got_cert_def mitm_inv_def refs_inv_take used_def intro!: exI [of _ idx])
qed

text \<open>Storing a new object at the end of the used prefix of the window, or over a slot of a full window.\<close>

lemma store_cert:
  assumes inv: "mitm_inv m (Some i)" and tick: "mi_tick m < - 1" and i: "i < length (mi_objs m)" "x_cn (fst (mi_objs m ! i)) = d"
    and win: "probe d = p @ idx # q" "\<forall>j \<in> set p. sl_used (mi_cache m ! j)"
    and absent: "\<And>k. used (mi_cache m) k \<Longrightarrow> sl_domain (mi_cache m ! k) \<noteq> d"
    and m1: "m1 = (if sl_used (mi_cache m ! idx) then add_ref (-1) (sl_obj (mi_cache m ! idx)) m else m \<lparr> mi_cache_count := mi_cache_count m + 1 \<rparr>)"
  shows "got_cert m d i (add_ref 1 i (fill_slot idx d i m1))"
proof -
  let ?m2 = "fill_slot idx d i m1"
  have t: "table_inv (mi_cache m)" and o: "objs_inv m" and rf: "refs_inv m (Some i)" using inv by (simp_all add: mitm_inv_def)
  have idx: "idx < length (mi_cache m)" using win(1) probe_range [of idx d] t by (simp add: table_inv_def)
  have c: "mi_cache m1 = mi_cache m" "mi_tick m1 = mi_tick m" "mi_ca_key m1 = mi_ca_key m" "mi_server_ctx m1 = mi_server_ctx m" "mi_ssl m1 = mi_ssl m"
    "length (mi_objs m1) = length (mi_objs m)" by (simp_all add: m1)
  have new: "mi_cache ?m2 = (mi_cache m)[idx := \<lparr> sl_domain = d, sl_obj = i, sl_last_used = mi_tick m + 1, sl_used = True \<rparr>]"
    by (simp add: fill_slot_def c)
  have "table_inv (mi_cache ?m2)" unfolding new by (rule table_inv_fill [OF t win absent]) simp_all
  moreover have "objs_inv ?m2"
  proof (cases "sl_used (mi_cache m ! idx)")
    case True
    hence m1': "objs_inv m1" "x_cn (fst (mi_objs m1 ! i)) = d" "mi_cache_count m1 = mi_cache_count m" using m1 o i by simp_all
    have "objs_inv (fill_slot idx d i (m1 \<lparr> mi_cache_count := mi_cache_count m1 \<rparr>))"
      using True idx i tick by (intro objs_inv_fill m1') (simp_all add: c)
    moreover have "m1 \<lparr> mi_cache_count := mi_cache_count m1 \<rparr> = m1" by simp
    ultimately show ?thesis by (simp only:)
  next
    case False
    thus ?thesis using objs_inv_fill [OF o idx i tick, of "mi_cache_count m + 1"] m1 by simp
  qed
  moreover have "refs_inv ?m2 None"
    using refs_fill [OF rf idx, of d] refs_replace [OF rf idx, of d] m1 by simp
  moreover have "x_cn (fst (mi_objs m1 ! i)) = d" "i < length (mi_objs m1)" using i m1 by simp_all
  ultimately show ?thesis using idx c
    by (auto simp: got_cert_def mitm_inv_def refs_inv_take used_def fill_slot_def intro!: exI [of _ idx])
qed

lemma lru_found:
  assumes "objs_inv m" "mi_tick m < - 1" "length (mi_cache m) = PF_MITM_CERT_CACHE_SIZE" "insert_loop (mi_cache m) (probe d) None (- 1) = (None, r)"
  shows "\<exists>idx. r = Some idx \<and> idx \<in> set (probe d) \<and> (\<forall>j \<in> set (probe d). sl_used (mi_cache m ! j) \<and> sl_last_used (mi_cache m ! idx) \<le> sl_last_used (mi_cache m ! j))"
proof -
  note l = insert_lru [OF assms(4)]
  have ne: "probe d \<noteq> []" by (simp add: probe_def CACHE_PROBE_def)
  have "sl_last_used (mi_cache m ! j) < - 1" if "j \<in> set (probe d)" for j
  proof -
    have "mi_cache m ! j \<in> set (mi_cache m)" using probe_range [OF that] assms(3) by simp
    moreover have "sl_used (mi_cache m ! j)" using l that by blast
    ultimately have "sl_last_used (mi_cache m ! j) \<le> mi_tick m" using assms(1) by (simp add: objs_inv_def)
    thus ?thesis using assms(2) by (rule order.strict_trans1)
  qed
  hence "\<not> (\<forall>j \<in> set (probe d). - 1 \<le> sl_last_used (mi_cache m ! j))" using ne by (metis list.set_intros(1) neq_Nil_conv not_le)
  thus ?thesis using l by (cases r) auto
qed

lemma get_cert_result:
  assumes inv: "mitm_inv m None" and tick: "mi_tick m < - 1" and g: "pf_mitm_get_cert E m domain = (r, m')"
  shows "case r of Cert i \<Rightarrow> got_cert m (map tolower domain) i m' | Cert_err \<Rightarrow> m' = m | Cert_oob \<Rightarrow> False"
proof -
  let ?d = "map tolower domain"
  have t: "table_inv (mi_cache m)" and o: "objs_inv m" using inv by (simp_all add: mitm_inv_def)
  have len: "length (mi_cache m) = PF_MITM_CERT_CACHE_SIZE" using t by (simp add: table_inv_def)
  have err: "r = Cert_err \<and> m' = m" if "mi_ca_key m = None \<or> \<not> domain_is_safe domain"
    using that g by (auto simp: pf_mitm_get_cert_def split: if_splits)
  show ?thesis
  proof (cases "mi_ca_key m \<noteq> None \<and> domain_is_safe domain")
    case True
    hence lower: "map tolower (take PF_DOMAIN_MAX domain) = ?d" using safe_lower by simp
    note def = pf_mitm_get_cert_def [of E m domain, unfolded lower Let_def]
    show ?thesis
    proof (cases "lookup_loop (mi_cache m) ?d (probe ?d)")
      case (Some idx)
      hence "used (mi_cache m) idx" "sl_domain (mi_cache m ! idx) = ?d" using lookup_iff [OF t] by blast+
      from hit_cert [OF inv tick this] show ?thesis using g True Some unfolding def by auto
    next
      case None
      note absent = miss_absent [OF t None]
      show ?thesis
      proof (cases "generate_domain_cert E m ?d")
        case gen: None
        thus ?thesis using g True None unfolding def by auto
      next
        case (Some x)
        let ?i = "length (mi_objs m)" and ?m = "m \<lparr> mi_objs := mi_objs m @ [(x, 1)] \<rparr>"
        have "x_cn x = ?d" using Some by (auto simp: generate_domain_cert_def split: if_splits)
        hence obj: "?i < length (mi_objs ?m)" "x_cn (fst (mi_objs ?m ! ?i)) = ?d" by simp_all
        note store = store_cert [OF inv_new_object [OF inv] _ obj]
        obtain e l where scan: "insert_loop (mi_cache m) (probe ?d) None (- 1) = (e, l)" by (rule prod.exhaust)
        have post: "got_cert ?m ?d ?i n = got_cert m ?d ?i n" for n by (simp add: got_cert_def)
        show ?thesis
        proof (cases e)
          case (Some idx)
          then obtain p q where w: "probe ?d = p @ idx # q" "\<forall>j \<in> set p. sl_used (mi_cache m ! j)" "\<not> sl_used (mi_cache m ! idx)"
            using insert_empty scan by metis
          have "got_cert ?m ?d ?i (add_ref 1 ?i (fill_slot idx ?d ?i (?m \<lparr> mi_cache_count := mi_cache_count ?m + 1 \<rparr>)))"
            using w tick absent by (intro store [where p = p and q = q]) simp_all
          thus ?thesis using g True None \<open>generate_domain_cert E m ?d = Some x\<close> scan Some unfolding def post by auto
        next
          case full: None
          then obtain idx where idx: "l = Some idx" "idx \<in> set (probe ?d)" "\<forall>j \<in> set (probe ?d). sl_used (mi_cache m ! j)"
            using lru_found [OF o tick len, of ?d l] scan by auto
          then obtain p q where w: "probe ?d = p @ idx # q" by (meson split_list)
          have "got_cert ?m ?d ?i (add_ref 1 ?i (fill_slot idx ?d ?i (add_ref (-1) (sl_obj (mi_cache ?m ! idx)) ?m)))"
            using w tick absent idx by (intro store [where p = p and q = q]) simp_all
          thus ?thesis using g True None \<open>generate_domain_cert E m ?d = Some x\<close> scan full idx(1) unfolding def post by auto
        qed
      qed
    qed
  qed (use err in auto)
qed

section \<open>Sessions\<close>

lemma inv_drop: "mitm_inv m (Some i) \<Longrightarrow> mitm_inv (add_ref (-1) i m) None"
  by (simp add: mitm_inv_def refs_inv_drop)

lemma wrap_client_inv:
  assumes inv: "mitm_inv m None" and tick: "mi_tick m < - 1" and w: "pf_mitm_wrap_client E S m fd domain = (r, m')"
  shows "mitm_inv m' None \<and> (mi_tick m' = mi_tick m \<or> mi_tick m' = mi_tick m + 1)
    \<and> (\<forall>i. r = Some i \<longrightarrow> i < length (mi_objs m') \<and> x_cn (fst (mi_objs m' ! i)) = map tolower domain \<and> domain_is_safe domain \<and> mi_ca_key m' \<noteq> None
        \<and> (\<exists>idx. used (mi_cache m') idx \<and> sl_domain (mi_cache m' ! idx) = map tolower domain \<and> sl_obj (mi_cache m' ! idx) = i))"
proof -
  obtain g m1 where g: "pf_mitm_get_cert E m domain = (g, m1)" by (rule prod.exhaust)
  note res = get_cert_result [OF inv tick g]
  show ?thesis
  proof (cases g)
    case (Cert i)
    hence got: "got_cert m (map tolower domain) i m1" using res by simp
    hence inv1: "mitm_inv m1 (Some i)" by (simp add: got_cert_def)
    have safe: "mi_ca_key m \<noteq> None \<and> domain_is_safe domain" using g Cert by (auto simp: pf_mitm_get_cert_def split: if_splits)
    have undone: "add_ref (-1) i (add_ref 1 i m1) = m1" using got by (simp add: add_ref_def got_cert_def)
    have live: "mitm_inv (m1 \<lparr> mi_ssl := i # mi_ssl m1 \<rparr>) None"
      using inv1 got by (auto simp: mitm_inv_def objs_inv_def refs_inv_def got_cert_def)
    have same: "mi_tick m1 = mi_tick m + 1" "mi_ca_key m1 \<noteq> None" using got safe by (simp_all add: got_cert_def)
    show ?thesis
    proof (cases "(r, m') = (None, m) \<or> (r, m') = (None, add_ref (- 1) i m1)")
      case True
      thus ?thesis using inv inv_drop [OF inv1] same by auto
    next
      case False
      hence "r = Some i" "m' = m1 \<lparr> mi_ssl := i # mi_ssl m1 \<rparr>"
        using w g Cert undone by (auto simp: pf_mitm_wrap_client_def Let_def split: if_splits)
      thus ?thesis using live same safe got unfolding got_cert_def by auto
    qed
  next
    case Cert_err
    thus ?thesis using w g res inv by (auto simp: pf_mitm_wrap_client_def split: if_splits)
  next
    case Cert_oob
    thus ?thesis using res by simp
  qed
qed

lemma count_remove1: "i \<in> set xs \<Longrightarrow> count_list xs k = count_list (remove1 i xs) k + (if k = i then 1 else 0)"
  by (induction xs) auto

lemma ssl_free_inv:
  assumes "mitm_inv m None" "i \<in> set (mi_ssl m)"
  shows "mitm_inv (ssl_free i m) None"
proof -
  have "int (count_list (mi_ssl m) k) = int (count_list (remove1 i (mi_ssl m)) k) + (if k = i then 1 else 0)" for k
    using count_remove1 [OF assms(2), of k] unfolding of_nat_add [symmetric] by presburger
  hence "refs_inv (m \<lparr> mi_ssl := remove1 i (mi_ssl m) \<rparr>) (Some i)" using assms(1) by (auto simp: mitm_inv_def refs_inv_def)
  moreover have "objs_inv (m \<lparr> mi_ssl := remove1 i (mi_ssl m) \<rparr>)"
    using assms(1) set_remove1_subset [of i "mi_ssl m"] by (auto simp: mitm_inv_def objs_inv_def)
  ultimately show ?thesis using assms(1) by (simp add: ssl_free_def mitm_inv_def refs_inv_drop)
qed

text \<open>Sessions are opened for clients and freed when their connections are closed, in any order.\<close>

datatype mitm_op = Open_session cert_env ssl_env int string | Close_session nat

fun mitm_step :: "mitm_op \<Rightarrow> pf_mitm \<Rightarrow> pf_mitm" where
  "mitm_step (Open_session E S fd domain) m = snd (pf_mitm_wrap_client E S m fd domain)"
| "mitm_step (Close_session i) m = (if i \<in> set (mi_ssl m) then ssl_free i m else m)"

lemma mitm_step_inv:
  assumes "mitm_inv m None" "mi_tick m < - 1"
  shows "mitm_inv (mitm_step op m) None \<and> (mi_tick (mitm_step op m) = mi_tick m \<or> mi_tick (mitm_step op m) = mi_tick m + 1)"
proof (cases op)
  case (Open_session E S fd d)
  obtain r m' where "pf_mitm_wrap_client E S m fd d = (r, m')" by (rule prod.exhaust)
  thus ?thesis using wrap_client_inv [OF assms] Open_session by fastforce
next
  case (Close_session i)
  thus ?thesis using assms ssl_free_inv by (simp add: ssl_free_def)
qed

lemma tick_bound: "unat (t :: u64) < 2 ^ 64 - 1 \<Longrightarrow> t < - 1"
  by (simp add: word_less_nat_alt unsigned_minus_1_eq_mask mask_eq_exp_minus_1)

lemma mitm_run_inv:
  "mitm_inv m None \<Longrightarrow> unat (mi_tick m) + length ops < 2 ^ 64 - 1
    \<Longrightarrow> mitm_inv (fold mitm_step ops m) None \<and> unat (mi_tick (fold mitm_step ops m)) \<le> unat (mi_tick m) + length ops"
proof (induction ops arbitrary: m)
  case (Cons op ops)
  have b: "unat (mi_tick m) < 2 ^ 64 - 1" using Cons.prems(2) by simp
  have "mi_tick m < - 1" by (rule tick_bound [OF b])
  note s = mitm_step_inv [OF Cons.prems(1) this, of op]
  have "unat (mi_tick m + 1) = unat (mi_tick m) + 1" using b by (subst unat_add_lem [THEN iffD1]) simp_all
  hence "unat (mi_tick (mitm_step op m)) \<le> unat (mi_tick m) + 1" using s by auto
  thus ?case using Cons.IH [of "mitm_step op m"] s Cons.prems(2) by auto
qed simp

definition mitm_fresh :: pf_mitm where
  "mitm_fresh = mitm_zero \<lparr> mi_ca_key = None, mi_ca_cert = None, mi_server_ctx = False, mi_client_ctx = False, mi_cache = [], mi_cache_count = 0,
     mi_enabled = 0, mi_tick = 0, mi_objs = [], mi_ssl = [] \<rparr>"

lemma mitm_init_inv: "pf_mitm_init E fs mitm_fresh = (r, m) \<Longrightarrow> mitm_inv m None \<and> mi_tick m = 0"
proof -
  assume "pf_mitm_init E fs mitm_fresh = (r, m)"
  hence m: "mi_cache m = replicate PF_MITM_CERT_CACHE_SIZE slot_zero" "mi_objs m = []" "mi_ssl m = []" "mi_cache_count m = 0" "mi_tick m = 0"
    by (auto simp: pf_mitm_init_def mitm_fresh_def mitm_zero_def Let_def split: if_splits option.splits)
  have "\<not> used (mi_cache m) i" for i by (simp add: used_def m(1) slot_zero_def)
  thus ?thesis using m by (simp add: mitm_inv_def table_inv_def objs_inv_def refs_inv_def used_slots_def slot_zero_def)
qed

lemma cached_positive:
  assumes "mitm_inv m None" "used (mi_cache m) idx"
  shows "0 < snd (mi_objs m ! sl_obj (mi_cache m ! idx))"
proof -
  let ?s = "mi_cache m ! idx"
  have s: "?s \<in> set (mi_cache m)" "sl_used ?s" using assms(2) by (simp_all add: used_def)
  hence "1 \<le> cache_refs (mi_cache m) (sl_obj ?s)"
    unfolding cache_refs_def by (intro order_trans [OF _ member_le_sum_list]) auto
  thus ?thesis using assms(1) s by (simp add: mitm_inv_def objs_inv_def refs_inv_def)
qed

text \<open>
  C16: the certificates are referenced exactly as often as they are used.  After any sequence of opened
  and closed sessions, with any failures of OpenSSL, the count of every certificate is the number of
  cache entries that hold it plus the number of live sessions that use it; so none that is in use has
  been freed and none that is unused is leaked.  Every cache entry holds a live certificate for its
  own domain, no domain has two entries, and the entry counter is right.
\<close>

theorem mitm_references_balanced:
  assumes "pf_mitm_init E0 fs mitm_fresh = (r, m0)" "length ops < 2 ^ 64 - 1"
  defines "m \<equiv> fold mitm_step ops m0"
  shows "(\<forall>i < length (mi_objs m). snd (mi_objs m ! i) = cache_refs (mi_cache m) i + int (count_list (mi_ssl m) i))
    \<and> (\<forall>i \<in> set (mi_ssl m). 0 < snd (mi_objs m ! i))
    \<and> (\<forall>idx. used (mi_cache m) idx \<longrightarrow> 0 < snd (mi_objs m ! sl_obj (mi_cache m ! idx))
        \<and> x_cn (fst (mi_objs m ! sl_obj (mi_cache m ! idx))) = sl_domain (mi_cache m ! idx))
    \<and> inj_on (\<lambda>idx. sl_domain (mi_cache m ! idx)) (Collect (used (mi_cache m)))
    \<and> mi_cache_count m = used_slots (mi_cache m)"
proof -
  have inv: "mitm_inv m None"
    using mitm_run_inv [of m0 ops] mitm_init_inv [OF assms(1)] assms(2) by (simp add: m_def)
  have "0 < snd (mi_objs m ! i)" if i: "i \<in> set (mi_ssl m)" for i
  proof -
    have "i < length (mi_objs m)" using inv i by (simp add: mitm_inv_def objs_inv_def)
    moreover have "0 < count_list (mi_ssl m) i" using i count_list_0_iff by fastforce
    ultimately show ?thesis using inv cache_refs_nonneg [of "mi_cache m" i] by (simp add: mitm_inv_def refs_inv_def)
  qed
  moreover have "x_cn (fst (mi_objs m ! sl_obj (mi_cache m ! idx))) = sl_domain (mi_cache m ! idx)" if "used (mi_cache m) idx" for idx
    using inv that by (simp add: mitm_inv_def objs_inv_def used_def)
  moreover have "inj_on (\<lambda>idx. sl_domain (mi_cache m ! idx)) (Collect (used (mi_cache m)))"
    using inv by (auto simp: mitm_inv_def table_inv_def intro: inj_onI)
  ultimately show ?thesis using inv cached_positive [OF inv] by (simp add: mitm_inv_def refs_inv_def objs_inv_def)
qed

text \<open>Concrete outcomes for the witnesses: everything succeeds.\<close>

definition env_ok :: mitm_env where
  "env_ok = \<lparr> me_lock = True, me_open_key = True, me_open_cert = True, me_server_ctx = True, me_client_ctx = True \<rparr>"
definition files_ok :: ca_files where
  "files_ok = \<lparr> cf_key = Pem 7, cf_cert = Pem (ca_cert 7) \<rparr>"
definition cert_ok :: cert_env where "cert_ok = \<lparr> cv_ok = True, cv_san = True, cv_key = 8 \<rparr>"
definition ssl_ok :: ssl_env where "ssl_ok = \<lparr> sv_new = True, sv_use = True, sv_handshake = True \<rparr>"
definition mitm_ready :: pf_mitm where "mitm_ready = snd (pf_mitm_init env_ok files_ok mitm_fresh)"

lemma mitm_ready_init: "pf_mitm_init env_ok files_ok mitm_fresh = (None, mitm_ready)"
  by (simp add: mitm_ready_def pf_mitm_init_def env_ok_def files_ok_def read_pem_def pf_mitm_ca_exists_def Let_def)

lemma mitm_ready_sel:
  "mi_ca_key mitm_ready = Some 7" "mi_server_ctx mitm_ready" "mi_cache mitm_ready = replicate PF_MITM_CERT_CACHE_SIZE slot_zero"
  "mi_objs mitm_ready = []"
  by (simp_all add: mitm_ready_def pf_mitm_init_def env_ok_def files_ok_def read_pem_def pf_mitm_ca_exists_def mitm_fresh_def mitm_zero_def Let_def)

lemma mitm_ready_serves: "fst (pf_mitm_wrap_client cert_ok ssl_ok mitm_ready 3 ''A.b'') = Some 0"
proof -
  have safe: "domain_is_safe ''A.b''" and low: "take PF_DOMAIN_MAX ''A.b'' = ''A.b''"
    "tolower CHR ''A'' = CHR ''a''" "tolower CHR ''b'' = CHR ''b''" "tolower CHR ''.'' = CHR ''.''" by code_simp+
  have empty: "\<not> sl_used (mi_cache mitm_ready ! j)" if "j \<in> set (probe ''a.b'')" for j
    using probe_range [OF that] by (simp add: mitm_ready_sel slot_zero_def)
  obtain j js where p: "probe ''a.b'' = j # js" by (cases "probe ''a.b''") (simp_all add: probe_def CACHE_PROBE_def)
  have "lookup_loop (mi_cache mitm_ready) ''a.b'' (probe ''a.b'') = None"
    "insert_loop (mi_cache mitm_ready) (probe ''a.b'') None (- 1) = (Some j, None)" using empty p by simp_all
  thus ?thesis using safe
    by (simp add: pf_mitm_wrap_client_def pf_mitm_get_cert_def mitm_ready_sel low generate_domain_cert_def cert_ok_def ssl_ok_def Let_def)
qed

theorem mitm_references_balanced_witness:
  "let m = fold mitm_step [Open_session cert_ok ssl_ok 3 ''A.b'', Open_session cert_ok ssl_ok 4 ''a.b'', Close_session 0] mitm_ready in
    (\<forall>i < length (mi_objs m). snd (mi_objs m ! i) = cache_refs (mi_cache m) i + int (count_list (mi_ssl m) i))
    \<and> (\<forall>i \<in> set (mi_ssl m). 0 < snd (mi_objs m ! i)) \<and> mi_cache_count m = used_slots (mi_cache m)"
  using mitm_references_balanced [OF mitm_ready_init, of "[Open_session cert_ok ssl_ok 3 ''A.b'', Open_session cert_ok ssl_ok 4 ''a.b'', Close_session 0]"]
  by (simp add: Let_def)

text \<open>
  A session for a domain gets a certificate for that domain (lowercased), and the certificate is
  kept: asking again, in any spelling of case, hands out the same one, whatever OpenSSL would do.
\<close>

theorem mitm_serves_domain:
  assumes "pf_mitm_init E0 fs mitm_fresh = (r, m0)" "length ops < 2 ^ 64 - 2" "m = fold mitm_step ops m0"
    and "pf_mitm_wrap_client E S m fd domain = (Some i, m')" "map tolower domain' = map tolower domain" "domain_is_safe domain'"
  shows "x_cn (fst (mi_objs m' ! i)) = map tolower domain \<and> fst (pf_mitm_get_cert E' m' domain') = Cert i"
proof -
  have run: "mitm_inv m None" "unat (mi_tick m) \<le> length ops"
    using mitm_run_inv [of m0 ops] mitm_init_inv [OF assms(1)] assms(2,3) by auto
  have "mi_tick m < - 1" using run(2) assms(2) by (intro tick_bound) simp
  from wrap_client_inv [OF run(1) this assms(4)]
  obtain idx where w: "mitm_inv m' None" "x_cn (fst (mi_objs m' ! i)) = map tolower domain" "mi_ca_key m' \<noteq> None" "used (mi_cache m') idx"
    "sl_domain (mi_cache m' ! idx) = map tolower domain" "sl_obj (mi_cache m' ! idx) = i" by blast
  have "lookup_loop (mi_cache m') (map tolower domain) (probe (map tolower domain)) = Some idx"
    using w by (intro lookup_iff [THEN iffD2]) (auto simp: mitm_inv_def)
  moreover have "map tolower (take PF_DOMAIN_MAX domain') = map tolower domain" using safe_lower [OF assms(6)] assms(5) by simp
  ultimately show ?thesis using w assms(6) by (simp add: pf_mitm_get_cert_def Let_def)
qed

theorem mitm_serves_domain_witness:
  "fst (pf_mitm_get_cert cert_ok (snd (pf_mitm_wrap_client cert_ok ssl_ok mitm_ready 3 ''A.b'')) ''a.B'') = Cert 0"
proof -
  have "pf_mitm_wrap_client cert_ok ssl_ok mitm_ready 3 ''A.b'' = (Some 0, snd (pf_mitm_wrap_client cert_ok ssl_ok mitm_ready 3 ''A.b''))"
    using mitm_ready_serves by (metis prod.collapse)
  from mitm_serves_domain [OF mitm_ready_init, of "[]", OF _ _ this, of "''a.B''" cert_ok]
  have "map tolower ''a.B'' = map tolower ''A.b'' \<longrightarrow> domain_is_safe ''a.B'' \<longrightarrow> ?thesis" by simp
  moreover have "map tolower ''a.B'' = map tolower ''A.b''" "domain_is_safe ''a.B''" by code_simp+
  ultimately show ?thesis by blast
qed

end
