(* ===== verification/Handlers.thy ===== *)
theory Handlers
  imports Config Json Routing Inspect Nft Cgroup Crypto Mitm Dns_Resolver
begin

text \<open>
  The request handler \<^verbatim>\<open>pf_handle_request\<close> of \<^verbatim>\<open>main.c\<close>: one definition per method, over the database, the
  loaded rules, the kernel's marks and groups, keys, interception and the two rings.  The chain of
  string comparisons of the C function is the association list \<open>handlers\<close>, searched in order.
\<close>

section \<open>State\<close>

definition PF_DNS_RESOLVER_PORT :: int where "PF_DNS_RESOLVER_PORT = 5353"
definition PF_MITM_CA_CERT_PATH :: string where "PF_MITM_CA_CERT_PATH = ''/var/lib/proxiflare/ca.crt''"

text \<open>The part of the global context that requests read or change; \<open>'k\<close> is the kernel's state.\<close>

record 'k pf_ctx =
  cx_db :: pf_db
  cx_crypto :: pf_crypto
  cx_dns_fd :: int
  cx_udp_fd :: int
  cx_listen_fd :: int
  cx_conn_count :: int
  cx_ruleset :: "pf_rule list"
  cx_mitm :: pf_mitm
  cx_running :: bool
  cx_host :: 'k
  cx_ca :: ca_files
  cx_log :: log_ring
  cx_inspect :: inspect_state

text \<open>
  What a request meets: undefined casts, pattern matching, kernel and libraries; the faults of its n-th
  call of \<^verbatim>\<open>config.c\<close> (\<open>hq_db n\<close>), of the reload and of the statements of a reordering; time, random
  bytes, memory, network and clocks; the outcome of the latency test of an SSH proxy.
\<close>

record 'k request_env =
  hq_undef :: c_undef
  hq_fnm :: fnm_env
  hq_host :: "'k host"
  hq_pton6 :: "string \<Rightarrow> bool"
  hq_crypto :: crypto_env
  hq_db :: "nat \<Rightarrow> faults"
  hq_reload :: faults
  hq_reorder :: faults
  hq_now :: int
  hq_rand :: "bytes option"
  hq_scan :: "string \<Rightarrow> byte"
  hq_alloc :: bool
  hq_net :: network
  hq_evp :: "bytes \<Rightarrow> string"
  hq_clock :: "(int \<times> int) \<times> (int \<times> int)"
  hq_ssh_test :: int
  hq_socket :: "int option"
  hq_ca :: ca_env
  hq_mitm :: mitm_env

datatype reply = Result json | Error string

definition reply_json :: "reply \<Rightarrow> json" where
  "reply_json r = (case r of Result v \<Rightarrow> J_Object [(''result'', v)] | Error m \<Rightarrow> J_Object [(''error'', J_String m)])"

type_synonym 'k handler = "'k request_env \<Rightarrow> json option \<Rightarrow> 'k pf_ctx \<Rightarrow> reply \<times> 'k pf_ctx"

definition ok_reply :: reply where "ok_reply = Result (J_String ''ok'')"

definition db_reply :: "pf_err option \<Rightarrow> reply" where
  "db_reply e = (if e = None then ok_reply else Error ''db error'')"

text \<open>\<^verbatim>\<open>params ? cJSON_GetObjectItem(params, name) : NULL\<close>, and its string.\<close>

definition param :: "json option \<Rightarrow> string \<Rightarrow> json option" where
  "param params name = (case params of None \<Rightarrow> None | Some p \<Rightarrow> cJSON_GetObjectItem p name)"

definition param_str :: "json option \<Rightarrow> string \<Rightarrow> string option" where
  "param_str params name = (case param params name of None \<Rightarrow> None | Some v \<Rightarrow> valuestring v)"

definition id_of :: "'k request_env \<Rightarrow> json \<Rightarrow> int" where
  "id_of E v = cast_int (hq_undef E) (valuedouble v)"

text \<open>\<^verbatim>\<open>rules_reload_locked\<close>.\<close>

definition rules_reload_locked :: "'k request_env \<Rightarrow> 'k pf_ctx \<Rightarrow> 'k pf_ctx" where
  "rules_reload_locked E c = c \<lparr> cx_ruleset := snd (pf_rules_load (hq_reload E) (cx_db c)) \<rparr>"

definition on_host :: "('k \<Rightarrow> 'a \<times> 'k) \<Rightarrow> 'k pf_ctx \<Rightarrow> 'k pf_ctx" where
  "on_host f c = c \<lparr> cx_host := snd (f (cx_host c)) \<rparr>"

section \<open>Group and mark of a rule\<close>

definition mark_rule :: "'k request_env \<Rightarrow> int \<Rightarrow> 'k pf_ctx \<Rightarrow> 'k pf_ctx" where
  "mark_rule E rid c = on_host (pf_nft_add_cgroup_mark (hq_host E) rid) (on_host (pf_cgroup_create_rule (hq_host E) rid) c)"

definition attach_rule :: "'k request_env \<Rightarrow> int \<Rightarrow> string \<Rightarrow> 'k pf_ctx \<Rightarrow> 'k pf_ctx" where
  "attach_rule E rid app c = on_host (pf_cgroup_assign_running_pids (hq_fnm E) (hq_host E) rid app) (mark_rule E rid c)"

definition detach_rule :: "'k request_env \<Rightarrow> int \<Rightarrow> 'k pf_ctx \<Rightarrow> 'k pf_ctx" where
  "detach_rule E rid c = on_host (pf_cgroup_remove_rule (hq_host E) rid) (on_host (pf_nft_remove_cgroup_mark (hq_host E) rid) c)"

text \<open>At start-up the groups and marks of the stored rules are restored.\<close>

definition setup_cgroups_for_existing_rules :: "'k request_env \<Rightarrow> 'k pf_ctx \<Rightarrow> 'k pf_ctx" where
  "setup_cgroups_for_existing_rules E c = fold (\<lambda>r c.
     if r_app_path r \<noteq> [] \<and> r_enabled r \<noteq> 0 \<and> r_action r \<noteq> PF_ACTION_DIRECT then mark_rule E (sint (r_id r)) c else c)
     (cx_ruleset c) c"

section \<open>Proxies\<close>

definition proxy_list :: "'k handler" where
  "proxy_list E params c = (case pf_config_proxy_list (hq_db E 0) (cx_db c) PF_MAX_PROXIES of
     Inr ps \<Rightarrow> (Result (J_Array (map proxy_to_json ps)), c)
   | Inl _ \<Rightarrow> (Error ''db error'', c))"

definition proxy_add :: "'k handler" where
  "proxy_add E params c = (case params of
     None \<Rightarrow> (Error ''missing params'', c)
   | Some p \<Rightarrow> (case pf_config_proxy_add (hq_db E 0) (hq_now E) (cx_db c) (proxy_from_json (hq_undef E) p) of
       (e, db) \<Rightarrow> (db_reply e, c \<lparr> cx_db := db \<rparr>)))"

text \<open>The fields of an edit that are present replace those of the stored row.\<close>

definition proxy_overlay :: "c_undef \<Rightarrow> json \<Rightarrow> pf_proxy \<Rightarrow> pf_proxy" where
  "proxy_overlay U params p = (let
     p = on_item params ''name'' (\<lambda>v p. p \<lparr> px_name := copy_if_str 64 v (px_name p) \<rparr>) p;
     p = on_item params ''type'' (\<lambda>v p. if valuestring v \<noteq> None then p \<lparr> px_type := pf_proxy_type_from_str (valuestring v) \<rparr> else p) p;
     p = on_item params ''host'' (\<lambda>v p. p \<lparr> px_host := copy_if_str (PF_DOMAIN_MAX + 1) v (px_host p) \<rparr>) p;
     p = on_item params ''port'' (\<lambda>v p. p \<lparr> px_port := cast_u16 U (valuedouble v) \<rparr>) p;
     p = on_item params ''username'' (\<lambda>v p. p \<lparr> px_username := copy_if_str 128 v (px_username p) \<rparr>) p;
     p = on_item params ''password'' (\<lambda>v p. p \<lparr> px_password := copy_if_str 128 v (px_password p) \<rparr>) p;
     p = on_item params ''ssh_key_path'' (\<lambda>v p. p \<lparr> px_ssh_key_path := copy_if_str PF_PATH_MAX v (px_ssh_key_path p) \<rparr>) p
   in on_item params ''enabled'' (\<lambda>v p. p \<lparr> px_enabled := (if cJSON_IsTrue v then 1 else 0) \<rparr>) p)"

text \<open>Switching a proxy on or off attaches or detaches the enabled application rules that use it.\<close>

definition synced :: "pf_proxy \<Rightarrow> pf_rule \<Rightarrow> bool" where
  "synced p r \<longleftrightarrow> r_action r = PF_ACTION_PROXY \<and> r_proxy_id r = px_id p \<and> r_enabled r \<noteq> 0 \<and> r_app_path r \<noteq> []"

definition sync_rules :: "'k request_env \<Rightarrow> pf_proxy \<Rightarrow> pf_rule list \<Rightarrow> 'k pf_ctx \<Rightarrow> 'k pf_ctx" where
  "sync_rules E p rs c = fold (\<lambda>r c. if \<not> synced p r then c
     else if px_enabled p \<noteq> 0 then attach_rule E (sint (r_id r)) (r_app_path r) c
     else detach_rule E (sint (r_id r)) c) rs c"

definition proxy_edit :: "'k handler" where
  "proxy_edit E params c = (case params of
     None \<Rightarrow> (Error ''missing params'', c)
   | Some j \<Rightarrow> let pid = (case cJSON_GetObjectItem j ''id'' of Some v \<Rightarrow> id_of E v | None \<Rightarrow> 0) in
      (case (if pid > 0 then pf_config_proxy_get (hq_db E 0) (cx_db c) pid else Inl PF_ERR) of
         Inl _ \<Rightarrow> (Error ''proxy not found'', c)
       | Inr old \<Rightarrow> let p = proxy_overlay (hq_undef E) j old in
          (case pf_config_proxy_update (hq_db E 1) (hq_now E) (cx_db c) p of
             (None, db) \<Rightarrow> let c = c \<lparr> cx_db := db \<rparr> in
               (ok_reply, if px_enabled old \<noteq> px_enabled p
                  then sync_rules E p (case pf_config_rule_list (hq_db E 2) db PF_MAX_RULES of Inr rs \<Rightarrow> rs | Inl _ \<Rightarrow> []) c
                  else c)
           | (Some _, db) \<Rightarrow> (Error ''db error'', c \<lparr> cx_db := db \<rparr>))))"

definition proxy_delete :: "'k handler" where
  "proxy_delete E params c = (case param params ''id'' of
     None \<Rightarrow> (Error ''missing id'', c)
   | Some v \<Rightarrow> let pid = id_of E v; refs = pf_config_proxy_ref_count (hq_db E 0) (cx_db c) pid in
       if refs > 0 then (Error (snprintf_s 128 (''Proxy is still used by '' @ show_int refs @ '' rule(s)/chain(s). Remove references first.'')), c)
       else (case pf_config_proxy_delete (hq_db E 1) (cx_db c) pid of (e, db) \<Rightarrow> (db_reply e, c \<lparr> cx_db := db \<rparr>)))"

definition latency_json :: "int \<Rightarrow> int \<Rightarrow> json" where
  "latency_json slow latency = J_Object [(''latency_ms'', j_int latency),
     (''health'', J_String (if latency \<ge> 0 then (if latency > slow then ''slow'' else ''online'') else ''offline''))]"

definition proxy_test :: "'k handler" where
  "proxy_test E params c = (case param params ''id'' of
     None \<Rightarrow> (Error ''missing id'', c)
   | Some v \<Rightarrow> let pid = id_of E v in
      (case pf_config_proxy_get (hq_db E 0) (cx_db c) pid of
         Inl _ \<Rightarrow> (Error ''proxy not found'', c)
       | Inr p \<Rightarrow> let latency = (case px_type p of
               PF_PROXY_SOCKS4 \<Rightarrow> fst (pf_socks_test (hq_net E) (fst (hq_clock E)) (snd (hq_clock E)) p)
             | PF_PROXY_SOCKS5 \<Rightarrow> fst (pf_socks_test (hq_net E) (fst (hq_clock E)) (snd (hq_clock E)) p)
             | PF_PROXY_HTTP \<Rightarrow> fst (pf_http_test (hq_evp E) (hq_net E) (fst (hq_clock E)) (snd (hq_clock E)) p)
             | PF_PROXY_SSH \<Rightarrow> hq_ssh_test E);
           h = (if latency < 0 then PF_HEALTH_OFFLINE else if latency > 1000 then PF_HEALTH_SLOW else PF_HEALTH_ONLINE)
         in (Result (latency_json 1000 latency),
             c \<lparr> cx_db := snd (pf_config_proxy_update_health (hq_db E 1) (hq_now E) (cx_db c) pid h latency) \<rparr>)))"

section \<open>Rules\<close>

definition rule_list :: "'k handler" where
  "rule_list E params c = (if \<not> hq_alloc E then (Error ''out of memory'', c)
     else case pf_config_rule_list (hq_db E 0) (cx_db c) PF_MAX_RULES of
       Inr rs \<Rightarrow> (Result (J_Array (map rule_to_json rs)), c)
     | Inl _ \<Rightarrow> (Error ''db error'', c))"

definition rule_add :: "'k handler" where
  "rule_add E params c = (case params of
     None \<Rightarrow> (Error ''missing params'', c)
   | Some j \<Rightarrow> let r = rule_from_json (hq_undef E) j in
      (case pf_config_rule_add (hq_db E 0) (hq_now E) (cx_db c) r of
         (None, db) \<Rightarrow> let c = c \<lparr> cx_db := db \<rparr>; new_id = pf_config_last_id db;
             c = (if r_app_path r \<noteq> [] \<and> r_action r \<noteq> PF_ACTION_DIRECT then attach_rule E new_id (r_app_path r) c else c)
           in (ok_reply, rules_reload_locked E c)
       | (Some _, db) \<Rightarrow> (Error ''db error'', c \<lparr> cx_db := db \<rparr>)))"

definition rule_overlay :: "c_undef \<Rightarrow> json \<Rightarrow> pf_rule \<Rightarrow> pf_rule" where
  "rule_overlay U params r = (let
     r = on_item params ''name'' (\<lambda>v r. r \<lparr> r_name := copy_if_str 64 v (r_name r) \<rparr>) r;
     r = on_item params ''priority'' (\<lambda>v r. r \<lparr> r_priority := cast_int U (valuedouble v) \<rparr>) r;
     r = on_item2 params ''match_app'' ''app_path'' (\<lambda>v r. r \<lparr> r_app_path := copy_if_str PF_PATH_MAX v (r_app_path r) \<rparr>) r;
     r = on_item2 params ''match_domain'' ''domain'' (\<lambda>v r. r \<lparr> r_domain := copy_if_str (PF_DOMAIN_MAX + 1) v (r_domain r) \<rparr>) r;
     r = on_item2 params ''match_ip'' ''ip_cidr'' (\<lambda>v r. r \<lparr> r_ip_cidr := copy_if_str 48 v (r_ip_cidr r) \<rparr>) r;
     r = on_item2 params ''match_port'' ''dst_port'' (\<lambda>v r. r \<lparr> r_dst_port := port_from_json U v (r_dst_port r) \<rparr>) r;
     r = on_item params ''action'' (\<lambda>v r. if valuestring v \<noteq> None then r \<lparr> r_action := pf_action_from_str (valuestring v) \<rparr> else r) r;
     r = on_item params ''proxy_id'' (\<lambda>v r. r \<lparr> r_proxy_id := cast_ref U v \<rparr>) r;
     r = on_item params ''chain_id'' (\<lambda>v r. r \<lparr> r_chain_id := cast_ref U v \<rparr>) r
   in on_item params ''enabled'' (\<lambda>v r. r \<lparr> r_enabled := (if cJSON_IsTrue v then 1 else 0) \<rparr>) r)"

definition rule_edit :: "'k handler" where
  "rule_edit E params c = (case params of
     None \<Rightarrow> (Error ''missing params'', c)
   | Some j \<Rightarrow> let rid = (case cJSON_GetObjectItem j ''id'' of Some v \<Rightarrow> id_of E v | None \<Rightarrow> 0) in
      (case (if rid > 0 then pf_config_rule_get (hq_db E 0) (cx_db c) rid else Inl PF_ERR) of
         Inl _ \<Rightarrow> (Error ''rule not found'', c)
       | Inr old \<Rightarrow> let r = rule_overlay (hq_undef E) j old in
          (case pf_config_rule_update (hq_db E 1) (hq_now E) (cx_db c) r of
             (None, db) \<Rightarrow> let c = detach_rule E (sint (r_id r)) (c \<lparr> cx_db := db \<rparr>);
                 c = (if r_app_path r \<noteq> [] \<and> r_enabled r \<noteq> 0 \<and> r_action r \<noteq> PF_ACTION_DIRECT
                   then attach_rule E (sint (r_id r)) (r_app_path r) c else c)
               in (ok_reply, rules_reload_locked E c)
           | (Some _, db) \<Rightarrow> (Error ''db error'', c \<lparr> cx_db := db \<rparr>))))"

definition rule_delete :: "'k handler" where
  "rule_delete E params c = (case param params ''id'' of
     None \<Rightarrow> (Error ''missing id'', c)
   | Some v \<Rightarrow> let rid = id_of E v;
         c = on_host (pf_nft_remove_cgroup_mark (hq_host E) rid) (on_host (pf_cgroup_remove_rule (hq_host E) rid) c) in
      (case pf_config_rule_delete (hq_db E 0) (cx_db c) rid of
         (None, db) \<Rightarrow> (ok_reply, rules_reload_locked E (c \<lparr> cx_db := db \<rparr>))
       | (Some _, db) \<Rightarrow> (Error ''db error'', c \<lparr> cx_db := db \<rparr>)))"

text \<open>One statement per id; a failing one does not stop the loop.\<close>

fun reorder_loop :: "'k request_env \<Rightarrow> nat \<Rightarrow> json list \<Rightarrow> bool \<times> pf_db \<Rightarrow> bool \<times> pf_db" where
  "reorder_loop E ri [] (ok, db) = (ok, db)"
| "reorder_loop E ri (v # vs) (ok, db) = (case set_rule_priority (hq_reorder E) ri db (id_of E v) (int ri) of
     (done, db) \<Rightarrow> reorder_loop E (ri + 1) vs (ok \<and> done, db))"

definition rule_reorder :: "'k handler" where
  "rule_reorder E params c = (case param params ''ids'' of
     Some (J_Array ids) \<Rightarrow> (case reorder_loop E 0 ids (True, cx_db c) of
         (True, db) \<Rightarrow> (ok_reply, rules_reload_locked E (c \<lparr> cx_db := db \<rparr>))
       | (False, db) \<Rightarrow> (Error ''db error'', c \<lparr> cx_db := db \<rparr>))
   | _ \<Rightarrow> (Error ''missing ids array'', c))"

section \<open>Chains\<close>

definition chain_list :: "'k handler" where
  "chain_list E params c = (case pf_config_chain_list (hq_db E 0) (cx_db c) PF_MAX_CHAINS of
     Inr cs \<Rightarrow> (Result (J_Array (map chain_to_json cs)), c)
   | Inl _ \<Rightarrow> (Error ''db error'', c))"

definition chain_add :: "'k handler" where
  "chain_add E params c = (case params of
     None \<Rightarrow> (Error ''missing params'', c)
   | Some j \<Rightarrow> (case pf_config_chain_add (hq_db E 0) (hq_now E) (cx_db c) (chain_from_json (hq_undef E) j) of
       (e, db) \<Rightarrow> (db_reply e, c \<lparr> cx_db := db \<rparr>)))"

definition chain_edit :: "'k handler" where
  "chain_edit E params c = (case params of
     None \<Rightarrow> (Error ''missing params'', c)
   | Some j \<Rightarrow> (case pf_config_chain_update (hq_db E 0) (cx_db c) (chain_from_json (hq_undef E) j) of
       (e, db) \<Rightarrow> (db_reply e, c \<lparr> cx_db := db \<rparr>)))"

definition chain_delete :: "'k handler" where
  "chain_delete E params c = (case param params ''id'' of
     None \<Rightarrow> (Error ''missing id'', c)
   | Some v \<Rightarrow> let cid = id_of E v; refs = pf_config_chain_ref_count (hq_db E 0) (cx_db c) cid in
       if refs > 0 then (Error (snprintf_s 128 (''Chain is still used by '' @ show_int refs @ '' rule(s). Remove references first.'')), c)
       else (case pf_config_chain_delete (hq_db E 1) (cx_db c) cid of (e, db) \<Rightarrow> (db_reply e, c \<lparr> cx_db := db \<rparr>)))"

definition chain_test :: "'k handler" where
  "chain_test E params c = (case param params ''id'' of
     None \<Rightarrow> (Error ''missing id'', c)
   | Some v \<Rightarrow> (case pf_config_chain_get (hq_db E 0) (cx_db c) (id_of E v) of
         Inl _ \<Rightarrow> (Error ''chain not found'', c)
       | Inr ch \<Rightarrow> let ps = (case pf_config_proxy_list (hq_db E 1) (cx_db c) PF_MAX_PROXIES of Inr ps \<Rightarrow> ps | Inl _ \<Rightarrow> [])
         in (Result (latency_json 2000 (fst (pf_chain_test (hq_net E) (fst (hq_clock E)) (snd (hq_clock E)) ch ps))), c)))"

section \<open>Settings\<close>

definition config_get :: "'k handler" where
  "config_get E params c = (case param_str params ''key'' of
     None \<Rightarrow> (Error ''missing key'', c)
   | Some key \<Rightarrow> (case pf_config_get (hq_db E 0) (cx_db c) key PF_BUF_SIZE of
       Inr v \<Rightarrow> (Result (J_String v), c)
     | Inl _ \<Rightarrow> (Error ''key not found'', c)))"

text \<open>A setting written by a handler whose result is ignored.\<close>

definition set_config :: "faults \<Rightarrow> string \<Rightarrow> string \<Rightarrow> 'k pf_ctx \<Rightarrow> 'k pf_ctx" where
  "set_config ok key v c = c \<lparr> cx_db := snd (pf_config_set ok (cx_db c) key v) \<rparr>"

text \<open>The key \<^verbatim>\<open>boot_enabled\<close> also switches the system service.\<close>

definition boot_switch :: "'k request_env \<Rightarrow> string \<Rightarrow> string \<Rightarrow> 'k pf_ctx \<Rightarrow> 'k pf_ctx" where
  "boot_switch E key val c = (if key = ''boot_enabled''
     then on_host (system_ok (hq_host E)
       (if val = ''true'' \<or> val = ''1'' then ''systemctl enable proxiflare.service >/dev/null 2>&1''
        else ''systemctl disable proxiflare.service >/dev/null 2>&1'')) c
     else c)"

definition config_set :: "'k handler" where
  "config_set E params c = (case (param_str params ''key'', param_str params ''value'') of
     (Some key, Some val) \<Rightarrow> let c = boot_switch E key val c in
       (case pf_config_set (hq_db E 0) (cx_db c) key val of (e, db) \<Rightarrow> (db_reply e, c \<lparr> cx_db := db \<rparr>))
   | _ \<Rightarrow> (Error ''missing key or value'', c))"

section \<open>Credentials\<close>

definition hex_digits :: string where "hex_digits = ''0123456789abcdef''"

definition hex_val :: "char \<Rightarrow> nat option" where
  "hex_val ch = find_index (\<lambda>x. x = tolower ch) hex_digits"

text \<open>\<^verbatim>\<open>%02x\<close> of a byte, and \<^verbatim>\<open>sscanf\<close> with \<^verbatim>\<open>%02x\<close>; texts other than two digits are left to the parameter.\<close>

definition hex_byte :: "byte \<Rightarrow> string" where
  "hex_byte b = [hex_digits ! (unat b div 16), hex_digits ! (unat b mod 16)]"

definition scan_byte :: "(string \<Rightarrow> byte) \<Rightarrow> string \<Rightarrow> byte" where
  "scan_byte undef s = (case s of
     a # b # _ \<Rightarrow> (case (hex_val a, hex_val b) of (Some x, Some y) \<Rightarrow> of_nat (16 * x + y) | _ \<Rightarrow> undef s)
   | _ \<Rightarrow> undef s)"

text \<open>The decoding loop: at most 16 pairs, the rest of the salt stays zero.\<close>

fun salt_loop :: "(string \<Rightarrow> byte) \<Rightarrow> nat \<Rightarrow> string \<Rightarrow> bytes" where
  "salt_loop undef 0 s = []"
| "salt_loop undef (Suc n) s = (if length s < 2 then replicate (Suc n) 0 else scan_byte undef s # salt_loop undef n (drop 2 s))"

definition credentials_unlock :: "'k handler" where
  "credentials_unlock E params c = (case param_str params ''password'' of
     None \<Rightarrow> (Error ''missing password'', c)
   | Some pw \<Rightarrow>
       let (salt, c) = (case pf_config_get (hq_db E 0) (cx_db c) ''crypto_salt'' 64 of
             Inr salt_hex \<Rightarrow> (salt_loop (hq_scan E) PF_SALT_LEN salt_hex, c)
           | Inl _ \<Rightarrow> let salt = (case pf_crypto_random_salt (hq_rand E) PF_SALT_LEN of Inr s \<Rightarrow> s | Inl _ \<Rightarrow> replicate PF_SALT_LEN 0)
               in (salt, set_config (hq_db E 1) ''crypto_salt'' (concat (map hex_byte salt)) c))
       in (case pf_crypto_unlock (hq_crypto E) (cx_crypto c) pw salt of
            (None, k) \<Rightarrow> (ok_reply, c \<lparr> cx_crypto := k \<rparr>)
          | (Some _, k) \<Rightarrow> (Error ''unlock failed'', c \<lparr> cx_crypto := k \<rparr>)))"

definition credentials_lock :: "'k handler" where
  "credentials_lock E params c = (ok_reply, c \<lparr> cx_crypto := pf_crypto_lock (cx_crypto c) \<rparr>)"

section \<open>System\<close>

text \<open>A setting read into a buffer that holds a default.\<close>

definition config_or :: "faults \<Rightarrow> pf_db \<Rightarrow> string \<Rightarrow> nat \<Rightarrow> string \<Rightarrow> string" where
  "config_or ok db key cap_n dflt = (case pf_config_get ok db key cap_n of Inr v \<Rightarrow> v | Inl _ \<Rightarrow> dflt)"

definition system_status :: "'k handler" where
  "system_status E params c = (let db = cx_db c;
     leak = config_or (hq_db E 0) db ''dns_leak_enabled'' 8 ''false'';
     server = config_or (hq_db E 1) db ''dns_server'' 64 ''1.1.1.1'';
     online = (case pf_config_proxy_list (hq_db E 2) db PF_MAX_PROXIES of
        Inr ps \<Rightarrow> length (filter (\<lambda>p. px_enabled p \<noteq> 0 \<and> px_health p = PF_HEALTH_ONLINE) ps) | Inl _ \<Rightarrow> 0);
     active = length (filter (\<lambda>r. r_enabled r \<noteq> 0) (cx_ruleset c))
   in (Result (J_Object [(''running'', J_Bool (cx_running c)), (''version'', J_String PF_VERSION),
         (''connections'', j_int (cx_conn_count c)), (''proxies_online'', j_int (int online)), (''rules_active'', j_int (int active)),
         (''crypto_unlocked'', J_Bool (cr_unlocked (cx_crypto c))), (''dns_active'', J_Bool (cx_dns_fd c > 0)),
         (''tproxy_active'', J_Bool (cx_listen_fd c > 0)), (''dns_leak_enabled'', J_Bool (leak = ''true'')),
         (''dns_server'', J_String server)]), c))"

definition system_version :: "'k handler" where
  "system_version E params c = (Result (J_String PF_VERSION), c)"

definition system_shutdown :: "'k handler" where
  "system_shutdown E params c = (Result (J_String ''shutting down''), c \<lparr> cx_running := False \<rparr>)"

section \<open>DNS protection\<close>

text \<open>\<^verbatim>\<open>(v && v->valuestring && v->valuestring[0]) ? v->valuestring : dflt\<close>.\<close>

definition text_or :: "json option \<Rightarrow> string \<Rightarrow> string" where
  "text_or v dflt = (case v of None \<Rightarrow> dflt | Some v \<Rightarrow> (case valuestring v of None \<Rightarrow> dflt | Some s \<Rightarrow> if s \<noteq> [] then s else dflt))"

text \<open>Opening and closing the socket of the local resolver.\<close>

definition resolver_open :: "'k request_env \<Rightarrow> 'k pf_ctx \<Rightarrow> 'k pf_ctx" where
  "resolver_open E c = c \<lparr> cx_udp_fd := (case hq_socket E of Some fd \<Rightarrow> fd | None \<Rightarrow> -1) \<rparr>"

definition resolver_close :: "'k pf_ctx \<Rightarrow> 'k pf_ctx" where
  "resolver_close c = c \<lparr> cx_udp_fd := -1 \<rparr>"

text \<open>The switch to a mode: whether it succeeded.\<close>

definition dns_switch :: "'k request_env \<Rightarrow> string \<Rightarrow> string \<Rightarrow> 'k pf_ctx \<Rightarrow> bool \<times> 'k pf_ctx" where
  "dns_switch E mode dns c = (if mode = ''via-proxy''
     then let c = (if cx_udp_fd c \<le> 0 then resolver_open E c else c) in
       if cx_udp_fd c > 0
       then (case pf_nft_dns_via_proxy (hq_host E) PF_DNS_RESOLVER_PORT (cx_host c) of (e, k) \<Rightarrow> (e = None, c \<lparr> cx_host := k \<rparr>))
       else (False, c)
     else let c = (if cx_udp_fd c > 0 then resolver_close c else c) in
       (case pf_nft_dns_leak_protect (hq_pton6 E) (hq_host E) dns (cx_host c) of (e, k) \<Rightarrow> (e = None, c \<lparr> cx_host := k \<rparr>)))"

definition dns_leak_enable :: "'k handler" where
  "dns_leak_enable E params c =
     (let server_v = (case param params ''dns_server'' of None \<Rightarrow> param params ''server'' | Some v \<Rightarrow> Some v);
          mode = text_or (param params ''mode'') ''force-server''; dns = text_or server_v ''1.1.1.1''
      in case dns_switch E mode dns c of
        (True, c) \<Rightarrow> let c = set_config (hq_db E 1) ''dns_mode'' mode (set_config (hq_db E 0) ''dns_leak_enabled'' ''true'' c);
            c = (if mode = ''force-server'' then set_config (hq_db E 2) ''dns_server'' dns c else c)
          in (ok_reply, c)
      | (False, c) \<Rightarrow> (Error ''failed to set DNS rules'', c))"

definition dns_leak_disable :: "'k handler" where
  "dns_leak_disable E params c =
     (let c = on_host (pf_nft_dns_leak_disable (hq_host E)) c; c = (if cx_udp_fd c > 0 then resolver_close c else c)
      in (ok_reply, set_config (hq_db E 0) ''dns_leak_enabled'' ''false'' c))"

definition dns_leak_status :: "'k handler" where
  "dns_leak_status E params c = (let db = cx_db c in
     (Result (J_Object [(''enabled'', J_Bool (config_or (hq_db E 0) db ''dns_leak_enabled'' 8 ''false'' = ''true'')),
        (''mode'', J_String (config_or (hq_db E 1) db ''dns_mode'' 32 ''force-server'')),
        (''dns_server'', J_String (config_or (hq_db E 2) db ''dns_server'' 64 ''1.1.1.1''))]), c))"

section \<open>Logs and inspection\<close>

definition log_event_json :: "u64 \<times> log_event \<Rightarrow> json" where
  "log_event_json se = (case se of (sq, ev) \<Rightarrow> J_Object [(''ts'', j_int (ev_ts ev)), (''app'', J_String (ev_app ev)),
     (''rule'', J_String (ev_rule ev)), (''proxy'', J_String (ev_proxy ev)), (''proxy_id'', j_int (uint (ev_proxy_id ev))),
     (''domain'', J_String (ev_domain ev)), (''dst_ip'', J_String (ev_dst_ip ev)), (''dst_port'', j_int (ev_dst_port ev)),
     (''action'', J_String (ev_action ev)), (''success'', j_int (ev_success ev)), (''bytes_tx'', j_int 0), (''bytes_rx'', j_int 0),
     (''latency_ms'', j_int 0), (''seq'', j_u64 sq)])"

definition log_recent_request :: "'k handler" where
  "log_recent_request E params c =
     (let since = (case param params ''since_seq'' of Some v \<Rightarrow> id_of E v | None \<Rightarrow> 0)
      in (Result (J_Array (map log_event_json (log_recent (cx_log c) since))), c))"

definition inspect_list_request :: "'k handler" where
  "inspect_list_request E params c = (Result (inspect_list (hq_undef E) params (cx_inspect c)), c)"

definition inspect_get_request :: "'k handler" where
  "inspect_get_request E params c = (case inspect_get params (cx_inspect c) of
     Some hit \<Rightarrow> (Result hit, c) | None \<Rightarrow> (Error ''not found'', c))"

definition inspect_enable :: "'k handler" where
  "inspect_enable E params c = (if mi_ca_key (cx_mitm c) = None
     then (Error ''CA not generated. Run: sudo proxiflare-daemon --generate-ca'', c)
     else (ok_reply, set_config (hq_db E 0) ''inspect_enabled'' ''true'' (c \<lparr> cx_mitm := (cx_mitm c) \<lparr> mi_enabled := 1 \<rparr> \<rparr>)))"

definition inspect_disable :: "'k handler" where
  "inspect_disable E params c =
     (ok_reply, set_config (hq_db E 0) ''inspect_enabled'' ''false'' (c \<lparr> cx_mitm := (cx_mitm c) \<lparr> mi_enabled := 0 \<rparr> \<rparr>))"

definition inspect_status :: "'k handler" where
  "inspect_status E params c = (Result (J_Object [(''enabled'', J_Bool (mi_enabled (cx_mitm c) \<noteq> 0)),
     (''ca_installed'', J_Bool (mi_ca_key (cx_mitm c) \<noteq> None)), (''ca_cert_path'', J_String PF_MITM_CA_CERT_PATH),
     (''cached_certs'', j_int (mi_cache_count (cx_mitm c))), (''ring_count'', j_int (int (rg_count (is_ring (cx_inspect c))))),
     (''skipped_h2'', j_u64 (is_skipped_h2 (cx_inspect c))), (''parse_failures'', j_u64 (is_parse_fail (cx_inspect c)))]), c)"

definition inspect_generate_ca :: "'k handler" where
  "inspect_generate_ca E params c = (case pf_mitm_generate_ca (hq_ca E) (cx_ca c) of
     (None, fs) \<Rightarrow> (case pf_mitm_init (hq_mitm E) fs (pf_mitm_close (cx_mitm c)) of
         (None, m) \<Rightarrow> (ok_reply, c \<lparr> cx_ca := fs, cx_mitm := m \<rparr>)
       | (Some _, m) \<Rightarrow> (Error ''CA generated but init failed'', c \<lparr> cx_ca := fs, cx_mitm := m \<rparr>))
   | (Some _, fs) \<Rightarrow> (Error ''CA generation failed'', c \<lparr> cx_ca := fs \<rparr>))"

definition quic_block_enable :: "'k handler" where
  "quic_block_enable E params c = (case pf_nft_block_quic (hq_host E) (cx_host c) of
     (None, k) \<Rightarrow> (ok_reply, set_config (hq_db E 0) ''quic_block_enabled'' ''true'' (c \<lparr> cx_host := k \<rparr>))
   | (Some _, k) \<Rightarrow> (Error ''nft rule failed'', c \<lparr> cx_host := k \<rparr>))"

definition quic_block_disable :: "'k handler" where
  "quic_block_disable E params c =
     (ok_reply, set_config (hq_db E 0) ''quic_block_enabled'' ''false'' (on_host (pf_nft_unblock_quic (hq_host E)) c))"

definition quic_block_status :: "'k handler" where
  "quic_block_status E params c = (Result (J_Object [(''enabled'',
     J_Bool (config_or (hq_db E 0) (cx_db c) ''quic_block_enabled'' 8 ''true'' \<noteq> ''false''))]), c)"

section \<open>Dispatch\<close>

definition handlers :: "(string \<times> 'k handler) list" where
  "handlers = [(''proxy.list'', proxy_list), (''proxy.add'', proxy_add), (''proxy.edit'', proxy_edit),
     (''proxy.delete'', proxy_delete), (''proxy.test'', proxy_test), (''rule.list'', rule_list), (''rule.add'', rule_add),
     (''rule.edit'', rule_edit), (''rule.delete'', rule_delete), (''chain.list'', chain_list), (''chain.add'', chain_add),
     (''chain.edit'', chain_edit), (''chain.delete'', chain_delete), (''chain.test'', chain_test), (''rule.reorder'', rule_reorder),
     (''config.get'', config_get), (''config.set'', config_set), (''credentials.unlock'', credentials_unlock),
     (''credentials.lock'', credentials_lock), (''system.status'', system_status), (''system.version'', system_version),
     (''system.shutdown'', system_shutdown), (''dns_leak.enable'', dns_leak_enable), (''dns_leak.disable'', dns_leak_disable),
     (''dns_leak.status'', dns_leak_status), (''log.recent'', log_recent_request), (''inspect.list'', inspect_list_request),
     (''inspect.get'', inspect_get_request), (''inspect.enable'', inspect_enable), (''inspect.disable'', inspect_disable),
     (''quic_block.enable'', quic_block_enable), (''quic_block.disable'', quic_block_disable),
     (''quic_block.status'', quic_block_status), (''inspect.status'', inspect_status), (''inspect.generate_ca'', inspect_generate_ca)]"

definition pf_handle_request :: "'k request_env \<Rightarrow> string \<Rightarrow> json option \<Rightarrow> 'k pf_ctx \<Rightarrow> json \<times> 'k pf_ctx" where
  "pf_handle_request E method params c = (case map_of handlers method of
     None \<Rightarrow> (reply_json (Error ''unknown method''), c)
   | Some h \<Rightarrow> (case h E params c of (r, c) \<Rightarrow> (reply_json r, c)))"

end
