(* ===== verification/Requests.thy ===== *)
theory Requests
  imports Handlers
begin

text \<open>
  What requests do to the daemon: the stored configuration keeps its integrity over every sequence of
  requests, the rules in force are the stored ones, queries change nothing, an edit changes what it
  names, and a stored rule takes effect on the next connection.
\<close>

section \<open>Frames\<close>

named_theorems frame "what a step of a handler leaves alone"

lemma on_host_frame [frame]:
  "cx_db (on_host f c) = cx_db c" "cx_ruleset (on_host f c) = cx_ruleset c" "cx_crypto (on_host f c) = cx_crypto c"
  "cx_mitm (on_host f c) = cx_mitm c" "cx_log (on_host f c) = cx_log c" "cx_inspect (on_host f c) = cx_inspect c"
  by (simp_all add: on_host_def)

lemma attach_frame [frame]:
  "cx_db (attach_rule E i a c) = cx_db c" "cx_ruleset (attach_rule E i a c) = cx_ruleset c"
  "cx_db (detach_rule E i c) = cx_db c" "cx_ruleset (detach_rule E i c) = cx_ruleset c"
  by (simp_all add: attach_rule_def mark_rule_def detach_rule_def frame)

lemma sync_frame [frame]: "cx_db (sync_rules E p rs c) = cx_db c \<and> cx_ruleset (sync_rules E p rs c) = cx_ruleset c"
  unfolding sync_rules_def by (induction rs arbitrary: c) (simp_all add: frame)

lemma reload_frame [frame]: "cx_db (rules_reload_locked E c) = cx_db c" "cx_host (rules_reload_locked E c) = cx_host c"
  by (simp_all add: rules_reload_locked_def)

lemma set_config_frame [frame]: "cx_ruleset (set_config ok k v c) = cx_ruleset c"
  by (simp add: set_config_def)

lemma resolver_frame [frame]:
  "cx_db (resolver_open E c) = cx_db c" "cx_ruleset (resolver_open E c) = cx_ruleset c"
  "cx_db (resolver_close c) = cx_db c" "cx_ruleset (resolver_close c) = cx_ruleset c"
  by (simp_all add: resolver_open_def resolver_close_def)

text \<open>The rules of the database are untouched by the operations on other tables.\<close>

lemma insert_hops_rules: "db_rules (snd (insert_hops ok k cid hs i db)) = db_rules db"
  by (induction hs arbitrary: k i db) (simp_all add: Let_def)

lemma rules_kept [frame]:
  "db_rules (snd (pf_config_proxy_add ok now db p)) = db_rules db"
  "db_rules (snd (pf_config_proxy_update ok now db p)) = db_rules db"
  "db_rules (snd (pf_config_proxy_delete ok db i)) = db_rules db"
  "db_rules (snd (pf_config_proxy_update_health ok now db i h l)) = db_rules db"
  "db_rules (snd (pf_config_chain_add ok now db ch)) = db_rules db"
  "db_rules (snd (pf_config_chain_update ok db ch)) = db_rules db"
  "db_rules (snd (pf_config_chain_delete ok db i)) = db_rules db"
  "db_rules (snd (pf_config_set ok db key v)) = db_rules db"
  by (simp_all add: pf_config_proxy_add_def pf_config_proxy_update_def pf_config_proxy_delete_def pf_config_proxy_update_health_def
      pf_config_chain_add_def pf_config_chain_update_def pf_config_chain_delete_def pf_config_set_def Let_def insert_hops_rules)

lemma set_config_rules [frame]: "db_rules (cx_db (set_config ok k v c)) = db_rules (cx_db c)"
  by (simp add: set_config_def frame)

text \<open>A failing statement on the rules changes nothing.\<close>

lemma rule_error:
  "pf_config_rule_add ok now db r = (Some e, db') \<Longrightarrow> db' = db"
  "pf_config_rule_update ok now db r = (Some e, db') \<Longrightarrow> db' = db"
  "pf_config_rule_delete ok db i = (Some e, db') \<Longrightarrow> db' = db"
  by (auto simp: pf_config_rule_add_def pf_config_rule_update_def pf_config_rule_delete_def Let_def split: if_splits)

section \<open>Integrity\<close>

lemma reach_set_config: "db_reach (cx_db c) \<Longrightarrow> db_reach (cx_db (set_config ok k v c))"
  by (simp add: set_config_def db_reach.reach_config_set)

lemma reach_pair:
  "db_reach db \<Longrightarrow> pf_config_proxy_add ok now db p = (e, db') \<Longrightarrow> db_reach db'"
  "db_reach db \<Longrightarrow> pf_config_proxy_update ok now db p = (e, db') \<Longrightarrow> db_reach db'"
  "db_reach db \<Longrightarrow> pf_config_proxy_delete ok db i = (e, db') \<Longrightarrow> db_reach db'"
  "db_reach db \<Longrightarrow> pf_config_rule_add ok now db r = (e, db') \<Longrightarrow> db_reach db'"
  "db_reach db \<Longrightarrow> pf_config_rule_update ok now db r = (e, db') \<Longrightarrow> db_reach db'"
  "db_reach db \<Longrightarrow> pf_config_rule_delete ok db i = (e, db') \<Longrightarrow> db_reach db'"
  "db_reach db \<Longrightarrow> pf_config_chain_add ok now db ch = (e, db') \<Longrightarrow> db_reach db'"
  "db_reach db \<Longrightarrow> pf_config_chain_update ok db ch = (e, db') \<Longrightarrow> db_reach db'"
  "db_reach db \<Longrightarrow> pf_config_chain_delete ok db i = (e, db') \<Longrightarrow> db_reach db'"
  "db_reach db \<Longrightarrow> pf_config_set ok db key v = (e, db') \<Longrightarrow> db_reach db'"
  using db_reach.intros by (metis snd_conv)+

lemma reach_reorder: "db_reach db \<Longrightarrow> db_reach (snd (reorder_loop E ri ids (ok, db)))"
proof (induction ids arbitrary: ri ok db)
  case (Cons v ids)
  obtain d db' where s: "set_rule_priority (hq_reorder E) ri db (id_of E v) (int ri) = (d, db')" by (rule prod.exhaust)
  hence "db_reach db'" using db_reach.reach_rule_priority [OF Cons.prems, of "hq_reorder E" ri "id_of E v" "int ri"] by simp
  thus ?case using Cons.IH s by simp
qed simp

definition keeps_reach :: "'k handler \<Rightarrow> bool" where
  "keeps_reach h \<longleftrightarrow> (\<forall>E params c. db_reach (cx_db c) \<longrightarrow> db_reach (cx_db (snd (h E params c))))"

named_theorems reach

lemma reach_queries [reach]:
  "keeps_reach proxy_list" "keeps_reach rule_list" "keeps_reach chain_list" "keeps_reach chain_test" "keeps_reach config_get"
  "keeps_reach credentials_lock" "keeps_reach system_status" "keeps_reach system_version" "keeps_reach system_shutdown"
  "keeps_reach dns_leak_status" "keeps_reach log_recent_request" "keeps_reach inspect_list_request" "keeps_reach inspect_get_request"
  "keeps_reach quic_block_status" "keeps_reach inspect_status" "keeps_reach inspect_generate_ca"
  by (simp_all add: keeps_reach_def proxy_list_def rule_list_def chain_list_def chain_test_def config_get_def credentials_lock_def
      system_status_def system_version_def system_shutdown_def dns_leak_status_def log_recent_request_def inspect_list_request_def
      inspect_get_request_def quic_block_status_def inspect_status_def inspect_generate_ca_def Let_def split: option.split sum.split prod.split)

lemma reach_proxies [reach]: "keeps_reach proxy_add" "keeps_reach proxy_edit" "keeps_reach proxy_delete" "keeps_reach proxy_test"
  by (auto simp: keeps_reach_def proxy_add_def proxy_edit_def proxy_delete_def proxy_test_def Let_def frame
      intro: reach_pair db_reach.reach_proxy_health split: option.split sum.split prod.split)

lemma reach_rules [reach]: "keeps_reach rule_add" "keeps_reach rule_edit" "keeps_reach rule_delete"
  by (auto simp: keeps_reach_def rule_add_def rule_edit_def rule_delete_def Let_def frame
      intro: reach_pair split: option.split sum.split prod.split)

lemma reach_reordering [reach]: "keeps_reach rule_reorder"
proof -
  have "db_reach db'" if "db_reach (cx_db c)" "reorder_loop E 0 ids (True, cx_db c) = (b, db')" for E :: "'a request_env" and c ids b db'
    using reach_reorder [OF that(1), of E 0 ids True] that(2) by simp
  thus ?thesis by (auto simp: keeps_reach_def rule_reorder_def frame split: option.split json.split prod.split bool.split)
qed

lemma reach_chains [reach]: "keeps_reach chain_add" "keeps_reach chain_edit" "keeps_reach chain_delete"
  by (auto simp: keeps_reach_def chain_add_def chain_edit_def chain_delete_def Let_def
      intro: reach_pair split: option.split prod.split)

lemma reach_switches [reach]: "keeps_reach dns_leak_disable" "keeps_reach inspect_enable" "keeps_reach inspect_disable"
  "keeps_reach quic_block_enable" "keeps_reach quic_block_disable"
  by (auto simp: keeps_reach_def dns_leak_disable_def inspect_enable_def
      inspect_disable_def quic_block_enable_def quic_block_disable_def Let_def frame
      intro!: reach_set_config split: option.split prod.split)

lemma boot_frame [frame]: "cx_db (boot_switch E key v c) = cx_db c" "cx_ruleset (boot_switch E key v c) = cx_ruleset c"
  by (simp_all add: boot_switch_def frame)

lemma reach_config_set [reach]: "keeps_reach config_set"
  by (auto simp: keeps_reach_def config_set_def Let_def frame intro: reach_pair split: option.split prod.split)

lemma reach_unlock [reach]: "keeps_reach credentials_unlock"
  by (auto simp: keeps_reach_def credentials_unlock_def Let_def intro!: reach_set_config split: option.split sum.split prod.split)

lemma switch_frame:
  "dns_switch E mode dns c = (ok, c') \<Longrightarrow> cx_db c' = cx_db c"
  "dns_switch E mode dns c = (ok, c') \<Longrightarrow> cx_ruleset c' = cx_ruleset c"
  unfolding dns_switch_def Let_def by (simp_all add: frame split: if_splits prod.splits) (auto simp: frame)

lemma reach_dns_enable [reach]: "keeps_reach dns_leak_enable"
proof -
  have "db_reach (cx_db (snd (dns_leak_enable E params c)))" if r: "db_reach (cx_db c)" for E :: "'a request_env" and params c
  proof -
    obtain ok c' where s: "dns_switch E (text_or (param params ''mode'') ''force-server'')
      (text_or (case param params ''dns_server'' of None \<Rightarrow> param params ''server'' | Some v \<Rightarrow> Some v) ''1.1.1.1'') c = (ok, c')" by (rule prod.exhaust)
    hence "db_reach (cx_db c')" using r switch_frame(1) [OF s] by simp
    thus ?thesis unfolding dns_leak_enable_def Let_def s by (cases ok) (simp_all add: reach_set_config)
  qed
  thus ?thesis by (simp add: keeps_reach_def)
qed

lemma all_handlers: "(\<And>h. h \<in> snd ` set handlers \<Longrightarrow> P h) \<Longrightarrow> map_of handlers m = Some h \<Longrightarrow> P h"
  by (force dest: map_of_SomeD)

lemma handlers_reach: "map_of handlers m = Some h \<Longrightarrow> keeps_reach h"
  by (rule all_handlers [where P = keeps_reach]) (auto simp: handlers_def reach)

text \<open>A sequence of requests, each with its environment.\<close>

definition serve :: "('k request_env \<times> string \<times> json option) list \<Rightarrow> 'k pf_ctx \<Rightarrow> 'k pf_ctx" where
  "serve rs c = fold (\<lambda>(E, m, p) c. snd (pf_handle_request E m p c)) rs c"

lemma serve_simps [simp]: "serve [] c = c" "serve ((E, m, p) # rs) c = serve rs (snd (pf_handle_request E m p c))"
  by (simp_all add: serve_def)

lemma handled:
  assumes "P c" "\<And>h. map_of handlers m = Some h \<Longrightarrow> P (snd (h E p c))"
  shows "P (snd (pf_handle_request E m p c))"
proof (cases "map_of handlers m :: 'a handler option")
  case (Some h)
  obtain r c' where "h E p c = (r, c')" by (rule prod.exhaust)
  thus ?thesis using assms(2) [OF Some] Some by (simp add: pf_handle_request_def)
qed (use assms(1) in \<open>simp add: pf_handle_request_def\<close>)

lemma request_reach: "db_reach (cx_db c) \<Longrightarrow> db_reach (cx_db (snd (pf_handle_request E m p c)))"
  by (rule handled) (simp_all add: handlers_reach [unfolded keeps_reach_def])

lemma serve_reach: "db_reach (cx_db c) \<Longrightarrow> db_reach (cx_db (serve rs c))"
  by (induction rs arbitrary: c) (auto simp: request_reach)

section \<open>The rules in force\<close>

text \<open>The stored rules in the order of their priorities, as many as fit.\<close>

definition stored_rules :: "pf_db \<Rightarrow> pf_rule list" where
  "stored_rules db = map row_to_rule (take PF_MAX_RULES (sort_key rr_priority (db_rules db)))"

definition in_force :: "'k pf_ctx \<Rightarrow> bool" where
  "in_force c \<longleftrightarrow> cx_ruleset c = stored_rules (cx_db c)"

text \<open>The statements that copy priorities and load the rules succeed; all others may fail.\<close>

definition rules_readable :: "'k request_env \<Rightarrow> bool" where
  "rules_readable E \<longleftrightarrow> hq_reload E 0 \<and> (\<forall>k. hq_reorder E k)"

lemma reload_in_force: "hq_reload E 0 \<Longrightarrow> in_force (rules_reload_locked E c)"
  by (simp add: in_force_def rules_reload_locked_def pf_rules_load_def pf_config_rule_list_def stored_rules_def PF_MAX_RULES_def)

definition rules_alone :: "'k handler \<Rightarrow> bool" where
  "rules_alone h \<longleftrightarrow> (\<forall>E params c. db_rules (cx_db (snd (h E params c))) = db_rules (cx_db c)
     \<and> cx_ruleset (snd (h E params c)) = cx_ruleset c)"

definition keeps_force :: "'k handler \<Rightarrow> bool" where
  "keeps_force h \<longleftrightarrow> (\<forall>E params c. rules_readable E \<longrightarrow> in_force c \<longrightarrow> in_force (snd (h E params c)))"

lemma alone_keeps: "rules_alone h \<Longrightarrow> keeps_force h"
  by (simp add: rules_alone_def keeps_force_def in_force_def stored_rules_def)

lemma rules_pair:
  "pf_config_proxy_add ok now db p = (e, db') \<Longrightarrow> db_rules db' = db_rules db"
  "pf_config_proxy_update ok now db p = (e, db') \<Longrightarrow> db_rules db' = db_rules db"
  "pf_config_proxy_delete ok db i = (e, db') \<Longrightarrow> db_rules db' = db_rules db"
  "pf_config_chain_add ok now db ch = (e, db') \<Longrightarrow> db_rules db' = db_rules db"
  "pf_config_chain_update ok db ch = (e, db') \<Longrightarrow> db_rules db' = db_rules db"
  "pf_config_chain_delete ok db i = (e, db') \<Longrightarrow> db_rules db' = db_rules db"
  "pf_config_set ok db key v = (e, db') \<Longrightarrow> db_rules db' = db_rules db"
  using rules_kept by (metis snd_conv)+

named_theorems alone

lemma alone_queries [alone]:
  "rules_alone proxy_list" "rules_alone rule_list" "rules_alone chain_list" "rules_alone chain_test" "rules_alone config_get"
  "rules_alone credentials_lock" "rules_alone system_status" "rules_alone system_version" "rules_alone system_shutdown"
  "rules_alone dns_leak_status" "rules_alone log_recent_request" "rules_alone inspect_list_request" "rules_alone inspect_get_request"
  "rules_alone quic_block_status" "rules_alone inspect_status" "rules_alone inspect_generate_ca"
  by (simp_all add: rules_alone_def proxy_list_def rule_list_def chain_list_def chain_test_def config_get_def credentials_lock_def
      system_status_def system_version_def system_shutdown_def dns_leak_status_def log_recent_request_def inspect_list_request_def
      inspect_get_request_def quic_block_status_def inspect_status_def inspect_generate_ca_def Let_def split: option.split sum.split prod.split)

lemma alone_proxies [alone]: "rules_alone proxy_add" "rules_alone proxy_edit" "rules_alone proxy_delete" "rules_alone proxy_test"
  by (auto simp: rules_alone_def proxy_add_def proxy_edit_def proxy_delete_def proxy_test_def Let_def frame
      dest!: rules_pair split: option.split sum.split prod.split)

lemma alone_chains [alone]: "rules_alone chain_add" "rules_alone chain_edit" "rules_alone chain_delete"
  by (auto simp: rules_alone_def chain_add_def chain_edit_def chain_delete_def Let_def frame dest!: rules_pair split: option.split prod.split)

lemma alone_settings [alone]: "rules_alone dns_leak_disable" "rules_alone inspect_enable" "rules_alone inspect_disable"
  "rules_alone quic_block_enable" "rules_alone quic_block_disable" "rules_alone config_set" "rules_alone credentials_unlock"
  by (auto simp: rules_alone_def dns_leak_disable_def inspect_enable_def inspect_disable_def quic_block_enable_def quic_block_disable_def
      config_set_def credentials_unlock_def Let_def frame dest!: rules_pair split: option.split sum.split prod.split)

lemma alone_dns_enable [alone]: "rules_alone dns_leak_enable"
  by (auto simp: rules_alone_def dns_leak_enable_def Let_def frame dest: switch_frame split: prod.split bool.split)

lemma force_rules: "keeps_force rule_add" "keeps_force rule_edit" "keeps_force rule_delete"
  by (auto simp: keeps_force_def rule_add_def rule_edit_def rule_delete_def Let_def frame rules_readable_def
      intro: reload_in_force dest!: rule_error split: option.split sum.split prod.split)
      (simp_all add: in_force_def stored_rules_def frame)

lemma reorder_all: "\<forall>k. hq_reorder E k \<Longrightarrow> fst (reorder_loop E ri ids (ok, db)) = ok"
  by (induction ids arbitrary: ri ok db) (simp_all add: set_rule_priority_def)

lemma force_reorder: "keeps_force rule_reorder"
proof -
  have "in_force (snd (rule_reorder E params c))" if e: "rules_readable E" and i: "in_force c" for E :: "'a request_env" and params c
  proof (cases "\<exists>ids. param params ''ids'' = Some (J_Array ids)")
    case True
    then obtain ids where ids: "param params ''ids'' = Some (J_Array ids)" by blast
    obtain db where db: "reorder_loop E 0 ids (True, cx_db c) = (True, db)"
      using reorder_all [of E 0 ids True "cx_db c"] e by (cases "reorder_loop E 0 ids (True, cx_db c)") (auto simp: rules_readable_def)
    show ?thesis using e by (simp add: rule_reorder_def ids db reload_in_force rules_readable_def)
  next
    case False
    thus ?thesis using i by (auto simp: rule_reorder_def split: option.split json.split)
  qed
  thus ?thesis by (simp add: keeps_force_def)
qed

lemma handlers_force: "map_of handlers m = Some h \<Longrightarrow> keeps_force h"
  by (rule all_handlers [where P = keeps_force]) (auto simp: handlers_def intro: alone alone_keeps force_rules force_reorder)

section \<open>Edits\<close>

lemma on_item_at: "(\<And>v y. s (f v y) = g v (s y)) \<Longrightarrow> s (on_item p n f x) = on_item p n g (s x)"
  by (simp add: on_item_def split: option.split)

lemma on_item2_at: "(\<And>v y. s (f v y) = g v (s y)) \<Longrightarrow> s (on_item2 p m n f x) = on_item2 p m n g (s x)"
  by (simp add: on_item2_def on_item_def split: option.split)

lemma on_item_frame: "(\<And>v y. s (f v y) = s y) \<Longrightarrow> s (on_item p n f x) = s x"
  by (simp add: on_item_def split: option.split)

lemma on_item2_frame: "(\<And>v y. s (f v y) = s y) \<Longrightarrow> s (on_item2 p m n f x) = s x"
  by (simp add: on_item2_def on_item_def split: option.split)

lemmas rule_frames =
  on_item_frame [where s = r_id] on_item_frame [where s = r_uid] on_item_frame [where s = r_gid] on_item_frame [where s = r_proto]
  on_item_frame [where s = r_name] on_item_frame [where s = r_priority] on_item_frame [where s = r_app_path]
  on_item_frame [where s = r_domain] on_item_frame [where s = r_ip_cidr] on_item_frame [where s = r_dst_port]
  on_item_frame [where s = r_action] on_item_frame [where s = r_proxy_id] on_item_frame [where s = r_chain_id]
  on_item2_frame [where s = r_id] on_item2_frame [where s = r_uid] on_item2_frame [where s = r_gid] on_item2_frame [where s = r_proto]
  on_item2_frame [where s = r_name] on_item2_frame [where s = r_priority] on_item2_frame [where s = r_app_path]
  on_item2_frame [where s = r_domain] on_item2_frame [where s = r_ip_cidr] on_item2_frame [where s = r_dst_port]
  on_item2_frame [where s = r_action] on_item2_frame [where s = r_proxy_id] on_item2_frame [where s = r_chain_id]

text \<open>An edit acts on each field by itself.\<close>

lemma rule_overlay_frame:
  "r_id (rule_overlay U j r) = r_id r" "r_uid (rule_overlay U j r) = r_uid r" "r_gid (rule_overlay U j r) = r_gid r"
  "r_proto (rule_overlay U j r) = r_proto r"
  unfolding rule_overlay_def Let_def by (simp_all add: rule_frames)

lemma rule_overlay_fields:
  "r_name (rule_overlay U j r) = on_item j ''name'' (copy_if_str 64) (r_name r)"
  "r_priority (rule_overlay U j r) = on_item j ''priority'' (\<lambda>v _. cast_int U (valuedouble v)) (r_priority r)"
  "r_app_path (rule_overlay U j r) = on_item2 j ''match_app'' ''app_path'' (copy_if_str PF_PATH_MAX) (r_app_path r)"
  "r_domain (rule_overlay U j r) = on_item2 j ''match_domain'' ''domain'' (copy_if_str (PF_DOMAIN_MAX + 1)) (r_domain r)"
  "r_ip_cidr (rule_overlay U j r) = on_item2 j ''match_ip'' ''ip_cidr'' (copy_if_str 48) (r_ip_cidr r)"
  "r_dst_port (rule_overlay U j r) = on_item2 j ''match_port'' ''dst_port'' (port_from_json U) (r_dst_port r)"
  "r_action (rule_overlay U j r) = on_item j ''action'' (\<lambda>v a. if valuestring v \<noteq> None then pf_action_from_str (valuestring v) else a) (r_action r)"
  "r_proxy_id (rule_overlay U j r) = on_item j ''proxy_id'' (\<lambda>v _. cast_ref U v) (r_proxy_id r)"
  "r_chain_id (rule_overlay U j r) = on_item j ''chain_id'' (\<lambda>v _. cast_ref U v) (r_chain_id r)"
  "r_enabled (rule_overlay U j r) = on_item j ''enabled'' (\<lambda>v _. if cJSON_IsTrue v then 1 else 0) (r_enabled r)"
  unfolding rule_overlay_def Let_def
  by (simp_all add: rule_frames on_item_frame [where s = r_enabled] on_item2_frame [where s = r_enabled]
      on_item_at [where s = r_name and g = "copy_if_str 64"] on_item_at [where s = r_priority and g = "\<lambda>v _. cast_int U (valuedouble v)"]
      on_item2_at [where s = r_app_path and g = "copy_if_str PF_PATH_MAX"] on_item2_at [where s = r_domain and g = "copy_if_str (PF_DOMAIN_MAX + 1)"]
      on_item2_at [where s = r_ip_cidr and g = "copy_if_str 48"] on_item2_at [where s = r_dst_port and g = "port_from_json U"]
      on_item_at [where s = r_action and g = "\<lambda>v a. if valuestring v \<noteq> None then pf_action_from_str (valuestring v) else a"]
      on_item_at [where s = r_proxy_id and g = "\<lambda>v _. cast_ref U v"] on_item_at [where s = r_chain_id and g = "\<lambda>v _. cast_ref U v"]
      on_item_at [where s = r_enabled and g = "\<lambda>v _. if cJSON_IsTrue v then 1 else 0"])

lemma on_item_inv: "P x \<Longrightarrow> (\<And>v. P (f v x)) \<Longrightarrow> P (on_item p n f x)"
  by (simp add: on_item_def split: option.split)

lemma on_item2_inv: "P x \<Longrightarrow> (\<And>v. P (f v x)) \<Longrightarrow> P (on_item2 p m n f x)"
  by (simp add: on_item2_def on_item_def split: option.split)

lemma copy_if_str_fits: "length x < n \<Longrightarrow> length (copy_if_str n v x) < n"
  using snprintf_s_length [of n] by (auto simp: copy_if_str_def split: option.split)

text \<open>Undefined casts to \<^verbatim>\<open>int\<close> still give an \<^verbatim>\<open>int\<close>.\<close>

definition undef_in_range :: "c_undef \<Rightarrow> bool" where
  "undef_in_range U \<longleftrightarrow> (\<forall>q. int32_range (ub_int U q))"

lemma cast_int_range: "undef_in_range U \<Longrightarrow> int32_range (cast_int U q)"
  unfolding cast_int_def undef_in_range_def int32_range_def by (cases "- (2 ^ 31) \<le> trunc0 q \<and> trunc0 q < 2 ^ 31") auto

lemma rule_overlay_fits:
  assumes "rule_fits r" "int32_range (r_priority r)" "int32_range (r_enabled r)" "undef_in_range U"
  shows "rule_fits (rule_overlay U j r)" "int32_range (r_priority (rule_overlay U j r))" "int32_range (r_enabled (rule_overlay U j r))"
proof -
  have "length (r_name (rule_overlay U j r)) < 64" "length (r_app_path (rule_overlay U j r)) < PF_PATH_MAX"
    "length (r_domain (rule_overlay U j r)) < PF_DOMAIN_MAX + 1" "length (r_ip_cidr (rule_overlay U j r)) < 48"
    unfolding rule_overlay_fields using assms(1) unfolding rule_fits_def
    by (auto intro!: on_item_inv [where P = "\<lambda>x. length x < _"] on_item2_inv [where P = "\<lambda>x. length x < _"] intro: copy_if_str_fits)
  thus "rule_fits (rule_overlay U j r)" by (simp add: rule_fits_def)
  show "int32_range (r_priority (rule_overlay U j r))"
    unfolding rule_overlay_fields by (rule on_item_inv [where P = int32_range]) (use assms(2,4) cast_int_range in auto)
  show "int32_range (r_enabled (rule_overlay U j r))"
    unfolding rule_overlay_fields by (rule on_item_inv [where P = int32_range]) (use assms(3) in \<open>auto simp: int32_range_def\<close>)
qed

text \<open>What is read from the database fits the arrays.\<close>

lemma col_opt_fits: "0 < n \<Longrightarrow> length (col_opt n x) < n"
  using snprintf_s_length [of n] by (simp add: col_opt_def split: option.split)

lemma row_to_rule_fits: "rule_fits (row_to_rule x)" "int32_range (r_priority (row_to_rule x))" "int32_range (r_enabled (row_to_rule x))"
  using snprintf_s_length [of 64 "rr_name x"] col_opt_fits [of PF_PATH_MAX] col_opt_fits [of "PF_DOMAIN_MAX + 1"] col_opt_fits [of 48]
  by (simp_all add: row_to_rule_def rule_fits_def PF_PATH_MAX_def int32_range_def int32_of_range [simplified])

text \<open>Reading back an updated row.\<close>

lemma find_map_if:
  assumes "\<And>x. k (f x) = k x"
  shows "find (\<lambda>x. k x = j) (map (\<lambda>x. if k x = i then f x else x) xs)
    = (if j = i then map_option f (find (\<lambda>x. k x = i) xs) else find (\<lambda>x. k x = j) xs)"
  by (induction xs) (auto simp: assms)

lemma updated_row_back:
  assumes "rule_fits r" "int32_range (r_priority r)" "int32_range (r_enabled r)"
  shows "row_to_rule (x \<lparr> rr_name := r_name r, rr_enabled := r_enabled r,
            rr_priority := r_priority r, rr_match_app := bind_opt (r_app_path r), rr_match_domain := bind_opt (r_domain r),
            rr_match_ip := bind_opt (r_ip_cidr r),
            rr_match_port := (if r_dst_port r \<noteq> 0 then Some (int (unat (r_dst_port r))) else None),
            rr_action := pf_action_str (r_action r), rr_proxy_id := bind_id (r_proxy_id r),
            rr_chain_id := bind_id (r_chain_id r), rr_updated_at := now \<rparr>)
     = r \<lparr> r_id := word_of_int (rr_id x), r_uid := 0, r_gid := 0, r_proto := 0 \<rparr>"
  by (cases x, simp only: rule_row.update_convs rule_row.select_convs) (rule rule_row_back [OF assms])

lemma rule_update_get:
  assumes "rule_fits r" "int32_range (r_priority r)" "int32_range (r_enabled r)" "ok 0"
    and "proxy_fk db (bind_id (r_proxy_id r))" "chain_fk db (bind_id (r_chain_id r))"
    and "pf_config_rule_get ok db (sint (r_id r)) = Inr old" "r_uid r = 0" "r_gid r = 0" "r_proto r = 0"
  shows "\<exists>db'. pf_config_rule_update ok now db r = (None, db') \<and> pf_config_rule_get (\<lambda>_. True) db' (sint (r_id r)) = Inr r
    \<and> (\<forall>i. i \<noteq> sint (r_id r) \<longrightarrow> pf_config_rule_get (\<lambda>_. True) db' i = pf_config_rule_get (\<lambda>_. True) db i)"
proof -
  obtain row where row: "find (\<lambda>x. rr_id x = sint (r_id r)) (db_rules db) = Some row"
    using assms(7) by (auto simp: pf_config_rule_get_def split: option.splits if_splits)
  hence id: "rr_id row = sint (r_id r)" by (auto simp: find_Some_iff)
  let ?f = "\<lambda>x. x \<lparr> rr_name := r_name r, rr_enabled := r_enabled r,
            rr_priority := r_priority r, rr_match_app := bind_opt (r_app_path r), rr_match_domain := bind_opt (r_domain r),
            rr_match_ip := bind_opt (r_ip_cidr r),
            rr_match_port := (if r_dst_port r \<noteq> 0 then Some (int (unat (r_dst_port r))) else None),
            rr_action := pf_action_str (r_action r), rr_proxy_id := bind_id (r_proxy_id r),
            rr_chain_id := bind_id (r_chain_id r), rr_updated_at := now \<rparr>"
  let ?db = "db \<lparr> db_rules := map (\<lambda>x. if rr_id x = sint (r_id r) then ?f x else x) (db_rules db) \<rparr>"
  have u: "pf_config_rule_update ok now db r = (None, ?db)" using assms(4,5,6) by (simp add: pf_config_rule_update_def Let_def)
  have f: "find (\<lambda>x. rr_id x = i) (db_rules ?db) = (if i = sint (r_id r) then map_option ?f (find (\<lambda>x. rr_id x = sint (r_id r)) (db_rules db))
      else find (\<lambda>x. rr_id x = i) (db_rules db))" for i
    using find_map_if [of rr_id ?f i "sint (r_id r)" "db_rules db"] by simp
  have "r \<lparr> r_id := word_of_int (rr_id row), r_uid := 0, r_gid := 0, r_proto := 0 \<rparr> = r"
    using assms(8-10) by (cases r) (simp add: id)
  hence "row_to_rule (?f row) = r" using updated_row_back [OF assms(1-3), where x = row and now = now] by simp
  hence "pf_config_rule_get (\<lambda>_. True) ?db (sint (r_id r)) = Inr r" unfolding pf_config_rule_get_def f by (simp add: row)
  moreover have "pf_config_rule_get (\<lambda>_. True) ?db i = pf_config_rule_get (\<lambda>_. True) db i" if "i \<noteq> sint (r_id r)" for i
    unfolding pf_config_rule_get_def f using that by simp
  ultimately show ?thesis using u by blast
qed

text \<open>No database statement fails.\<close>

definition no_faults :: "'k request_env \<Rightarrow> bool" where
  "no_faults E \<longleftrightarrow> (\<forall>n k. hq_db E n k) \<and> rules_readable E"

lemma rule_get_id: "pf_config_rule_get ok db i = Inr r \<Longrightarrow> 0 < i \<Longrightarrow> i < 2 ^ 31
  \<Longrightarrow> sint (r_id r) = i \<and> r_uid r = 0 \<and> r_gid r = 0 \<and> r_proto r = 0 \<and> rule_fits r \<and> int32_range (r_priority r) \<and> int32_range (r_enabled r)"
  by (auto simp: pf_config_rule_get_def row_to_rule_fits find_Some_iff split: option.splits if_splits)
    (simp_all add: row_to_rule_def sint_word_of_pos)

text \<open>
  C36: an edit changes exactly the fields it names.  If the request names a stored rule, no statement
  fails and the references it asks for exist, then the rule afterwards is the stored one overlaid with
  the named fields, every other rule is as before, and the rules in force are the stored ones; a field
  under none of its names in the request keeps its value.
\<close>

theorem rule_edit_overlays:
  assumes "no_faults E" "undef_in_range (hq_undef E)"
    and "cJSON_GetObjectItem j ''id'' = Some v" "0 < id_of E v" "id_of E v < 2 ^ 31"
    and "pf_config_rule_get (\<lambda>_. True) (cx_db c) (id_of E v) = Inr old" "new = rule_overlay (hq_undef E) j old"
    and "proxy_fk (cx_db c) (bind_id (r_proxy_id new))" "chain_fk (cx_db c) (bind_id (r_chain_id new))"
  shows "\<exists>c'. pf_handle_request E ''rule.edit'' (Some j) c = (reply_json ok_reply, c')
    \<and> pf_config_rule_get (\<lambda>_. True) (cx_db c') (id_of E v) = Inr new
    \<and> (\<forall>i. i \<noteq> id_of E v \<longrightarrow> pf_config_rule_get (\<lambda>_. True) (cx_db c') i = pf_config_rule_get (\<lambda>_. True) (cx_db c) i)
    \<and> cx_ruleset c' = stored_rules (cx_db c')
    \<and> (cJSON_GetObjectItem j ''name'' = None \<longrightarrow> r_name new = r_name old)
    \<and> (cJSON_GetObjectItem j ''priority'' = None \<longrightarrow> r_priority new = r_priority old)
    \<and> (cJSON_GetObjectItem j ''match_app'' = None \<and> cJSON_GetObjectItem j ''app_path'' = None \<longrightarrow> r_app_path new = r_app_path old)
    \<and> (cJSON_GetObjectItem j ''match_domain'' = None \<and> cJSON_GetObjectItem j ''domain'' = None \<longrightarrow> r_domain new = r_domain old)
    \<and> (cJSON_GetObjectItem j ''match_ip'' = None \<and> cJSON_GetObjectItem j ''ip_cidr'' = None \<longrightarrow> r_ip_cidr new = r_ip_cidr old)
    \<and> (cJSON_GetObjectItem j ''match_port'' = None \<and> cJSON_GetObjectItem j ''dst_port'' = None \<longrightarrow> r_dst_port new = r_dst_port old)
    \<and> (cJSON_GetObjectItem j ''action'' = None \<longrightarrow> r_action new = r_action old)
    \<and> (cJSON_GetObjectItem j ''proxy_id'' = None \<longrightarrow> r_proxy_id new = r_proxy_id old)
    \<and> (cJSON_GetObjectItem j ''chain_id'' = None \<longrightarrow> r_chain_id new = r_chain_id old)
    \<and> r_enabled new = (case cJSON_GetObjectItem j ''enabled'' of None \<Rightarrow> r_enabled old | Some e \<Rightarrow> if cJSON_IsTrue e then 1 else 0)"
proof -
  note old = rule_get_id [OF assms(6,4,5)]
  note fits = rule_overlay_fits [of old "hq_undef E" j, folded assms(7)]
  note same = rule_overlay_frame [of "hq_undef E" j old, folded assms(7)]
  have ok: "hq_db E n k" "hq_reload E 0" for n k using assms(1) by (simp_all add: no_faults_def rules_readable_def)
  have get: "pf_config_rule_get (hq_db E 0) (cx_db c) (id_of E v) = Inr old" using assms(6) ok(1) by (simp add: pf_config_rule_get_def)
  have id: "sint (r_id new) = id_of E v" using old same by simp
  have "pf_config_rule_get (hq_db E 1) (cx_db c) (sint (r_id new)) = Inr old" using assms(6) ok(1) id by (simp add: pf_config_rule_get_def)
  with fits old same assms(2,8,9) ok(1)
  obtain db' where db': "pf_config_rule_update (hq_db E 1) (hq_now E) (cx_db c) new = (None, db')"
    "pf_config_rule_get (\<lambda>_. True) db' (id_of E v) = Inr new"
    "\<forall>i. i \<noteq> id_of E v \<longrightarrow> pf_config_rule_get (\<lambda>_. True) db' i = pf_config_rule_get (\<lambda>_. True) (cx_db c) i"
    using rule_update_get [of new "hq_db E 1" "cx_db c" old "hq_now E"] id by auto
  have m: "map_of handlers ''rule.edit'' = Some rule_edit" by (simp add: handlers_def)
  obtain c' where c': "rule_edit E (Some j) c = (ok_reply, c')" "cx_db c' = db'" "in_force c'"
    using db'(1) get assms(3,4) ok(2) reload_in_force unfolding rule_edit_def Let_def assms(7)
    by (auto simp: frame)
  have "pf_handle_request E ''rule.edit'' (Some j) c = (reply_json ok_reply, c')" by (simp add: pf_handle_request_def m c'(1))
  thus ?thesis using db'(2,3) c'(2,3) unfolding in_force_def assms(7) rule_overlay_fields
    by (intro exI [of _ c']) (simp add: on_item_def on_item2_def split: option.split)
qed

section \<open>A new rule takes effect\<close>

lemma first_rule_blocks:
  assumes "pf_rules_match F rs None (match_domain_of now dns ip domain) (Some ip) port = Some r" "r_action r \<in> {PF_ACTION_BLOCK, PF_ACTION_REJECT}"
  shows "fst (proxy_connect_for_tproxy F evp net ok db now dns rs ip port domain g) = R_BLOCK"
proof -
  have "choose_rule F rs (match_domain_of now dns ip domain) ip port = Some r" using assms by (auto simp: choose_rule_def Let_def)
  thus ?thesis using assms(2) by (auto simp: proxy_connect_for_tproxy_def Let_def)
qed

lemma stored_rules_load: "prio_ok db \<Longrightarrow> stored_rules db = loaded_rules db"
  by (simp add: stored_rules_def loaded_rules_def pf_rules_load_list)

text \<open>What a successful insertion stores.\<close>

lemma rule_add_stored:
  assumes "ok 0" "proxy_fk db (bind_id (r_proxy_id r))" "chain_fk db (bind_id (r_chain_id r))"
    and "rule_fits r" "int32_range (r_priority r)" "int32_range (r_enabled r)"
  shows "\<exists>db' row. pf_config_rule_add ok now db r = (None, db') \<and> db_rules db' = db_rules db @ [row] \<and> rr_priority row = r_priority r
    \<and> row_to_rule row = r \<lparr> r_id := word_of_int (rr_id row), r_uid := 0, r_gid := 0, r_proto := 0 \<rparr>"
proof -
  let ?row = "\<lparr> rr_id = db_seq_rules db + 1, rr_name = r_name r, rr_enabled = r_enabled r,
            rr_priority = r_priority r, rr_match_app = bind_opt (r_app_path r), rr_match_domain = bind_opt (r_domain r),
            rr_match_ip = bind_opt (r_ip_cidr r),
            rr_match_port = (if r_dst_port r \<noteq> 0 then Some (int (unat (r_dst_port r))) else None),
            rr_action = pf_action_str (r_action r), rr_proxy_id = bind_id (r_proxy_id r),
            rr_chain_id = bind_id (r_chain_id r), rr_created_at = now, rr_updated_at = now \<rparr>"
  let ?db = "db \<lparr> db_rules := db_rules db @ [?row], db_seq_rules := db_seq_rules db + 1, db_last_rowid := db_seq_rules db + 1 \<rparr>"
  have "pf_config_rule_add ok now db r = (None, ?db)" using assms(1-3) by (simp add: pf_config_rule_add_def Let_def)
  moreover have "row_to_rule ?row = r \<lparr> r_id := word_of_int (rr_id ?row), r_uid := 0, r_gid := 0, r_proto := 0 \<rparr>"
    unfolding rule_row.select_convs by (rule rule_row_back [OF assms(4-6)])
  ultimately show ?thesis by (intro exI [of _ ?db] exI [of _ ?row]) simp
qed

text \<open>The rule a request describes always fits its record.\<close>

lemma copy_str_fits: "0 < n \<Longrightarrow> length (copy_str U n v) < n"
  using snprintf_s_length [of n] by (simp add: copy_str_def)

definition rule_ok :: "pf_rule \<Rightarrow> bool" where
  "rule_ok r \<longleftrightarrow> rule_fits r \<and> int32_range (r_priority r) \<and> int32_range (r_enabled r)"

lemma on_item_ok: "rule_ok r \<Longrightarrow> (\<And>v r. rule_ok r \<Longrightarrow> rule_ok (f v r)) \<Longrightarrow> rule_ok (on_item p n f r)"
  by (simp add: on_item_def split: option.split)

lemma on_item2_ok: "rule_ok r \<Longrightarrow> (\<And>v r. rule_ok r \<Longrightarrow> rule_ok (f v r)) \<Longrightarrow> rule_ok (on_item2 p m n f r)"
  by (simp add: on_item2_def on_item_def split: option.split)

lemma rule_from_json_fits:
  assumes "undef_in_range U"
  shows "rule_fits (rule_from_json U j)" "int32_range (r_priority (rule_from_json U j))" "int32_range (r_enabled (rule_from_json U j))"
proof -
  have upd: "rule_ok r \<Longrightarrow> rule_ok (r \<lparr> r_enabled := 1 \<rparr>)" for r by (simp add: rule_ok_def rule_fits_def int32_range_def)
  have "rule_ok (rule_from_json U j)"
    unfolding rule_from_json_def Let_def
    by (intro on_item_ok on_item2_ok upd)
      (simp_all add: rule_ok_def rule_fits_def rule_zero_def int32_range_def PF_PATH_MAX_def PF_DOMAIN_MAX_def copy_str_fits copy_if_str_fits
          cast_int_range [OF assms, unfolded int32_range_def, simplified])
  thus "rule_fits (rule_from_json U j)" "int32_range (r_priority (rule_from_json U j))" "int32_range (r_enabled (rule_from_json U j))" by (simp_all add: rule_ok_def)
qed

text \<open>
  C37: a new blocking rule takes effect at once.  If a client adds a rule without application pattern
  that says BLOCK or REJECT, and every stored rule that applies to a connection has a larger priority
  number, then the connection is dropped from the next time it is redirected, whatever proxies,
  network and name server do.
\<close>

theorem rule_add_blocks:
  assumes "no_faults E" "undef_in_range (hq_undef E)" "prio_ok (cx_db c)" "length (db_rules (cx_db c)) < PF_MAX_RULES"
    and r: "r = rule_from_json (hq_undef E) j" "proxy_fk (cx_db c) (bind_id (r_proxy_id r))" "chain_fk (cx_db c) (bind_id (r_chain_id r))"
    and block: "r_action r \<in> {PF_ACTION_BLOCK, PF_ACTION_REJECT}" "r_app_path r = []"
    and applies: "rule_applies F None (match_domain_of now dns ip domain) (Some ip) port r"
    and first: "\<forall>x \<in> set (db_rules (cx_db c)). rule_applies F None (match_domain_of now dns ip domain) (Some ip) port (row_to_rule x)
        \<longrightarrow> r_priority r < rr_priority x"
  shows "\<exists>c'. pf_handle_request E ''rule.add'' (Some j) c = (reply_json ok_reply, c')
    \<and> fst (proxy_connect_for_tproxy F evp net ok (cx_db c') now dns (cx_ruleset c') ip port domain g) = R_BLOCK"
proof -
  let ?d = "match_domain_of now dns ip domain" and ?db = "cx_db c"
  have ok: "hq_db E 0 0" "hq_reload E 0" using assms(1) by (simp_all add: no_faults_def rules_readable_def)
  note fits = rule_from_json_fits [OF assms(2), of j, folded r(1)]
  obtain db' row where add: "pf_config_rule_add (hq_db E 0) (hq_now E) ?db r = (None, db')" "db_rules db' = db_rules ?db @ [row]"
    "rr_priority row = r_priority r" "row_to_rule row = r \<lparr> r_id := word_of_int (rr_id row), r_uid := 0, r_gid := 0, r_proto := 0 \<rparr>"
    using rule_add_stored [of "hq_db E 0" ?db r "hq_now E", OF ok(1) r(2,3) fits] by blast
  have prio: "prio_ok db'" using assms(3) add(2,3) fits(2) by (auto simp: prio_ok_def)
  have all: "set (stored_rules db') = row_to_rule ` set (db_rules db')" using assms(4) add(2) by (simp add: stored_rules_def)
  have new: "rule_applies F None ?d (Some ip) port (row_to_rule row)" using applies add(4) by (simp add: rule_applies_def)
  hence "pf_rules_match F (stored_rules db') None ?d (Some ip) port \<noteq> None"
    using all add(2) by (auto simp: pf_rules_match_find find_None_iff)
  then obtain s where s: "pf_rules_match F (stored_rules db') None ?d (Some ip) port = Some s" by blast
  note least = rules_db.match_least_priority [of F db' None ?d "Some ip" port s, folded stored_rules_load [OF prio], OF s]
  then obtain x where x: "x \<in> set (db_rules db')" "s = row_to_rule x" using all by blast
  have "r_priority s \<le> r_priority (row_to_rule row)" using least new all add(2) by auto
  hence le: "r_priority s \<le> r_priority r" using add(4) by simp
  have "x = row"
  proof (rule ccontr)
    assume "x \<noteq> row"
    hence "x \<in> set (db_rules ?db)" using x(1) add(2) by simp
    hence "r_priority r < rr_priority x" "int32_range (rr_priority x)" using first least x(2) assms(3) by (auto simp: prio_ok_def)
    thus False using le x(2) by (simp add: row_to_rule_def int32_of_id int32_range_def)
  qed
  hence act: "r_action s \<in> {PF_ACTION_BLOCK, PF_ACTION_REJECT}" using block(1) x(2) add(4) by simp
  have m: "map_of handlers ''rule.add'' = Some rule_add" by (simp add: handlers_def)
  obtain c' where c': "rule_add E (Some j) c = (ok_reply, c')" "cx_db c' = db'" "in_force c'"
    using add(1) ok(2) block(2) reload_in_force unfolding rule_add_def Let_def r(1) by (auto simp: frame)
  have "fst (proxy_connect_for_tproxy F evp net ok (cx_db c') now dns (cx_ruleset c') ip port domain g) = R_BLOCK"
    using first_rule_blocks [OF s act] c'(2,3) by (simp add: in_force_def)
  thus ?thesis by (simp add: pf_handle_request_def m c'(1))
qed

section \<open>Integrity and queries\<close>

lemma serve_force: "in_force c \<Longrightarrow> \<forall>(E, m, p) \<in> set rs. rules_readable E \<Longrightarrow> in_force (serve rs c)"
proof (induction rs arbitrary: c)
  case (Cons a rs)
  obtain E m p where a: "a = (E, m, p)" by (rule prod_cases3)
  have E: "rules_readable E" using Cons.prems(2) a by simp
  have "in_force (snd (h E p c))" if "map_of handlers m = Some h" for h
    using handlers_force [OF that] Cons.prems(1) E unfolding keeps_force_def by blast
  hence "in_force (snd (pf_handle_request E m p c))" by (rule handled [where P = in_force, OF Cons.prems(1)])
  thus ?case using Cons a by simp
qed simp


definition query_methods :: "string list" where
  "query_methods = [''proxy.list'', ''rule.list'', ''chain.list'', ''chain.test'', ''config.get'', ''system.status'', ''system.version'',
     ''dns_leak.status'', ''log.recent'', ''inspect.list'', ''inspect.get'', ''quic_block.status'', ''inspect.status'']"

lemma query_alone:
  "m \<in> set query_methods \<Longrightarrow> map_of handlers m = Some h \<Longrightarrow> h \<in> {proxy_list, rule_list, chain_list, chain_test, config_get,
     system_status, system_version, dns_leak_status, log_recent_request, inspect_list_request, inspect_get_request, quic_block_status, inspect_status}"
  unfolding query_methods_def by (elim set_ConsD [elim_format] disjE; simp add: handlers_def)

definition pure_handler :: "'k handler \<Rightarrow> bool" where
  "pure_handler h \<longleftrightarrow> (\<forall>E params c. snd (h E params c) = c)"

lemma pure_queries: "h \<in> {proxy_list, rule_list, chain_list, chain_test, config_get, system_status, system_version, dns_leak_status,
    log_recent_request, inspect_list_request, inspect_get_request, quic_block_status, inspect_status} \<Longrightarrow> pure_handler h"
  by (auto simp: pure_handler_def proxy_list_def rule_list_def chain_list_def chain_test_def config_get_def
      system_status_def system_version_def dns_leak_status_def log_recent_request_def inspect_list_request_def
      inspect_get_request_def quic_block_status_def inspect_status_def Let_def split: option.split sum.split)

text \<open>
  Queries and unknown methods change nothing, neither the configuration nor the kernel nor the keys;
  an unknown method is answered with an error.
\<close>

theorem queries_change_nothing:
  assumes "m \<in> set query_methods \<or> m \<notin> fst ` set (handlers :: (string \<times> 'k handler) list)"
  shows "snd (pf_handle_request E m params (c :: 'k pf_ctx)) = c
    \<and> (m \<notin> fst ` set (handlers :: (string \<times> 'k handler) list) \<longrightarrow>
        fst (pf_handle_request E m params c) = J_Object [(''error'', J_String ''unknown method'')])"
proof (cases "map_of handlers m :: 'k handler option")
  case None
  thus ?thesis by (simp add: pf_handle_request_def reply_json_def)
next
  case (Some h)
  hence in_m: "m \<in> fst ` set (handlers :: (string \<times> 'k handler) list)" by (force dest: map_of_SomeD)
  hence "pure_handler h" using assms Some query_alone pure_queries by blast
  hence "snd (h E params c) = c" by (simp add: pure_handler_def)
  thus ?thesis using in_m Some by (cases "h E params c") (simp add: pf_handle_request_def)
qed

section \<open>Keys\<close>

lemma hex_val_digit: "n < 16 \<Longrightarrow> hex_val (hex_digits ! n) = Some n"
proof -
  have "\<forall>n \<in> set [0 ..< 16]. hex_val (hex_digits ! n) = Some n" by code_simp
  thus "n < 16 \<Longrightarrow> hex_val (hex_digits ! n) = Some n" by simp
qed

lemma scan_hex_byte: "scan_byte undef (hex_byte b @ s) = b"
proof -
  have b: "unat b < 256" using unsigned_less [of b, where ?'a = nat] by simp
  hence "hex_val (hex_digits ! (unat b div 16)) = Some (unat b div 16)" "hex_val (hex_digits ! (unat b mod 16)) = Some (unat b mod 16)"
    by (simp_all add: hex_val_digit)
  thus ?thesis by (simp add: scan_byte_def hex_byte_def)
qed

lemma salt_loop_hex: "length salt = n \<Longrightarrow> salt_loop undef n (concat (map hex_byte salt)) = salt"
proof (induction n arbitrary: salt)
  case (Suc n)
  then obtain b bs where s: "salt = b # bs" "length bs = n" by (cases salt) auto
  have l: "length (hex_byte b) = 2" by (simp add: hex_byte_def)
  show ?case using Suc.IH [OF s(2)] l scan_hex_byte [of undef b "concat (map hex_byte bs)"] by (simp add: s(1))
qed simp

lemma hex_length: "length (concat (map hex_byte salt)) = 2 * length salt"
  by (induction salt) (simp_all add: hex_byte_def)

lemma setting_back:
  assumes "ok 0" "length v < n"
  shows "pf_config_get (\<lambda>_. True) (snd (pf_config_set ok db k v)) k n = Inr v"
proof -
  have "find (\<lambda>(i, x, v). x = k) (filter (\<lambda>(i, x, v). x \<noteq> k) xs @ [(i, k, v)]) = Some (i, k, v)" for xs :: "(int \<times> string \<times> string) list" and i
    by (induction xs) auto
  thus ?thesis using assms by (simp add: pf_config_set_def pf_config_get_def Let_def snprintf_s_id)
qed

text \<open>
  The key that the credentials are unlocked with is stable.  The first unlocking draws a salt and
  stores it as text; whenever the daemon is unlocked later with the same password, after any
  lock or restart that keeps the stored setting, the same key is derived.  The password itself is
  verified by nothing: every password that the key derivation takes is accepted.
\<close>

theorem unlock_key_stable:
  assumes "no_faults E1" "no_faults E2" "pf_config_get (hq_db E1 0) (cx_db c) ''crypto_salt'' 64 = Inl e"
    and "hq_rand E1 = Some rnd" "PF_SALT_LEN \<le> length rnd" "argon2 (hq_crypto E2) = argon2 (hq_crypto E1)"
    and "param_str params ''password'' = Some pw" "pf_handle_request E1 ''credentials.unlock'' params c = (reply_json ok_reply, c1)"
    and "pf_config_get (\<lambda>_. True) (cx_db c2) ''crypto_salt'' 64 = pf_config_get (\<lambda>_. True) (cx_db c1) ''crypto_salt'' 64"
  shows "\<exists>c3. pf_handle_request E2 ''credentials.unlock'' params c2 = (reply_json ok_reply, c3)
    \<and> cr_key (cx_crypto c3) = cr_key (cx_crypto c1) \<and> cx_db c3 = cx_db c2
    \<and> (\<forall>params' pw'. param_str params' ''password'' = Some pw' \<and> argon2 (hq_crypto E2) (bytes_of pw') (take PF_SALT_LEN rnd) \<noteq> None \<longrightarrow>
        (\<exists>c4. pf_handle_request E2 ''credentials.unlock'' params' c2 = (reply_json ok_reply, c4) \<and> cr_unlocked (cx_crypto c4)))"
proof -
  let ?salt = "take PF_SALT_LEN rnd"
  have len: "length ?salt = PF_SALT_LEN" using assms(5) by simp
  have m: "map_of handlers ''credentials.unlock'' = Some credentials_unlock" by (simp add: handlers_def)
  have ok: "hq_db E1 n k" "hq_db E2 n k" for n k using assms(1,2) by (simp_all add: no_faults_def)
  have rs: "pf_crypto_random_salt (hq_rand E1) PF_SALT_LEN = Inr ?salt"
    using assms(4) by (simp add: pf_crypto_random_salt_def PF_SALT_LEN_def)
  obtain k1 where k1: "argon2 (hq_crypto E1) (bytes_of pw) ?salt = Some k1" "cr_key (cx_crypto c1) = k1"
    "cx_db c1 = snd (pf_config_set (hq_db E1 1) (cx_db c) ''crypto_salt'' (concat (map hex_byte ?salt)))"
    using assms(8) unfolding pf_handle_request_def m
    by (auto simp: credentials_unlock_def assms(3,7) rs pf_crypto_unlock_def derive_key_def set_config_def Let_def ok_reply_def reply_json_def
        split: option.splits)
  have "length (concat (map hex_byte ?salt)) < 64" using len hex_length [of ?salt] by (simp add: PF_SALT_LEN_def)
  hence "pf_config_get (\<lambda>_. True) (cx_db c2) ''crypto_salt'' 64 = Inr (concat (map hex_byte ?salt))"
    unfolding assms(9) k1(3) using setting_back ok by blast
  hence get: "pf_config_get (hq_db E2 0) (cx_db c2) ''crypto_salt'' 64 = Inr (concat (map hex_byte ?salt))"
    using ok by (simp add: pf_config_get_def)
  have un: "pf_handle_request E2 ''credentials.unlock'' ps c2 = (reply_json ok_reply, c2 \<lparr> cx_crypto :=
      (cx_crypto c2) \<lparr> cr_salt := ?salt, cr_key := k, cr_unlocked := True \<rparr> \<rparr>)"
    if "param_str ps ''password'' = Some p" "argon2 (hq_crypto E2) (bytes_of p) ?salt = Some k" for ps p k
    using that unfolding pf_handle_request_def m
    by (simp add: credentials_unlock_def get salt_loop_hex [OF len] pf_crypto_unlock_def derive_key_def)
  have any: "\<exists>c4. pf_handle_request E2 ''credentials.unlock'' ps c2 = (reply_json ok_reply, c4) \<and> cr_unlocked (cx_crypto c4)"
    if p: "param_str ps ''password'' = Some p \<and> argon2 (hq_crypto E2) (bytes_of p) ?salt \<noteq> None" for ps p
  proof -
    obtain k where "argon2 (hq_crypto E2) (bytes_of p) ?salt = Some k" using p by blast
    from un [OF _ this, of ps] show ?thesis using p by simp
  qed
  let ?c3 = "c2 \<lparr> cx_crypto := (cx_crypto c2) \<lparr> cr_salt := ?salt, cr_key := k1, cr_unlocked := True \<rparr> \<rparr>"
  have all: "\<forall>params' pw'. param_str params' ''password'' = Some pw' \<and> argon2 (hq_crypto E2) (bytes_of pw') ?salt \<noteq> None \<longrightarrow>
        (\<exists>c4. pf_handle_request E2 ''credentials.unlock'' params' c2 = (reply_json ok_reply, c4) \<and> cr_unlocked (cx_crypto c4))"
    using any by blast
  have "pf_handle_request E2 ''credentials.unlock'' params c2 = (reply_json ok_reply, ?c3)" using un assms(6,7) k1(1) by simp
  thus ?thesis using k1(2) all by (intro exI [of _ ?c3] conjI) simp_all
qed

text \<open>
  Any failure to read the salt counts as no salt, so it is replaced; and reinitialising the authority
  switches the interception off while the stored setting stays.
\<close>

lemma unlock_read_failure_replaces_salt:
  assumes "\<not> hq_db E 0 0" "hq_db E 1 0" "hq_rand E = Some rnd" "PF_SALT_LEN \<le> length rnd" "param_str params ''password'' = Some pw"
  shows "pf_config_get (\<lambda>_. True) (cx_db (snd (credentials_unlock E params c))) ''crypto_salt'' 64
    = Inr (concat (map hex_byte (take PF_SALT_LEN rnd)))"
proof -
  let ?salt = "take PF_SALT_LEN rnd"
  have len: "length (concat (map hex_byte ?salt)) < 64" using assms(4) hex_length [of ?salt] by (simp add: PF_SALT_LEN_def)
  have "pf_crypto_random_salt (hq_rand E) PF_SALT_LEN = Inr ?salt" using assms(3) by (simp add: pf_crypto_random_salt_def PF_SALT_LEN_def)
  hence "cx_db (snd (credentials_unlock E params c)) = snd (pf_config_set (hq_db E 1) (cx_db c) ''crypto_salt'' (concat (map hex_byte ?salt)))"
    using assms(1) unfolding credentials_unlock_def assms(5)
    by (simp add: pf_config_get_def set_config_def Let_def split: prod.split option.split)
  thus ?thesis using setting_back [of "hq_db E 1", OF assms(2) len] by simp
qed

lemma generate_ca_disables:
  "inspect_generate_ca E params c = (ok_reply, c') \<Longrightarrow> mi_enabled (cx_mitm c') = 0 \<and> cx_db c' = cx_db c"
  by (auto simp: inspect_generate_ca_def pf_mitm_init_def mitm_zero_def ok_reply_def Let_def split: prod.splits option.splits if_splits)

section \<open>Concrete requests\<close>

definition demo_env :: "unit request_env" where
  "demo_env = \<lparr> hq_undef = \<lparr> ub_u32 = (\<lambda>_. 0), ub_u16 = (\<lambda>_. 0), ub_int = (\<lambda>_. 0), ub_null_string = [] \<rparr>, hq_fnm = demo_fnm,
     hq_host = \<lparr> nft_feed = (\<lambda>_ k. (True, k)), popen_read = (\<lambda>_ _. None), system_ok = (\<lambda>_ k. (True, k)), c_mkdir = (\<lambda>_ k. (None, k)),
       c_rmdir = (\<lambda>_ k. (None, k)), file_read = (\<lambda>_ _. None), file_write = (\<lambda>_ _ k. (True, k)), read_dir = (\<lambda>_ _. None),
       c_readlink = (\<lambda>_ _. None) \<rparr>,
     hq_pton6 = (\<lambda>_. False), hq_crypto = demo_crypto, hq_db = (\<lambda>_ _. True), hq_reload = (\<lambda>_. True), hq_reorder = (\<lambda>_. True),
     hq_now = 5, hq_rand = Some (replicate 16 3), hq_scan = (\<lambda>_. 0), hq_alloc = True, hq_net = (\<lambda>_ _. None), hq_evp = (\<lambda>_. []),
     hq_clock = ((0, 0), (0, 0)), hq_ssh_test = -1, hq_socket = None,
     hq_ca = \<lparr> ce_make = True, ce_key_open = True, ce_key_write = True, ce_cert_open = True, ce_cert_write = True, ce_key = 7 \<rparr>,
     hq_mitm = env_ok \<rparr>"

definition demo_ctx :: "pf_db \<Rightarrow> unit pf_ctx" where
  "demo_ctx db = \<lparr> cx_db = db, cx_crypto = pf_crypto_init, cx_dns_fd = 0, cx_udp_fd = 0, cx_listen_fd = 0, cx_conn_count = 0,
     cx_ruleset = [], cx_mitm = mitm_ready, cx_running = True, cx_host = (), cx_ca = files_ok, cx_log = g_log_ring, cx_inspect = inspect_init \<rparr>"

lemma demo_sel: "hq_db demo_env = (\<lambda>_ _. True)" "hq_crypto demo_env = demo_crypto" "hq_rand demo_env = Some (replicate 16 3)"
  by (simp_all add: demo_env_def)

lemma demo_env_ok: "no_faults demo_env" "undef_in_range (hq_undef demo_env)" "rules_readable demo_env"
  by (simp_all add: no_faults_def rules_readable_def undef_in_range_def int32_range_def demo_env_def)

definition demo_block :: json where
  "demo_block = J_Object [(''match_domain'', J_String ''a.b''), (''action'', J_String ''BLOCK'')]"

definition demo_disable :: json where
  "demo_disable = J_Object [(''id'', J_Number 1), (''enabled'', J_Bool False)]"

theorem rule_edit_overlays_witness:
  "\<exists>c' r. pf_handle_request demo_env ''rule.edit'' (Some demo_disable) (demo_ctx demo_rules_db) = (reply_json ok_reply, c')
    \<and> pf_config_rule_get (\<lambda>_. True) (cx_db c') 1 = Inr r \<and> r_enabled r = 0 \<and> r_domain r = ''*.sky.ch''"
proof -
  have id: "cJSON_GetObjectItem demo_disable ''id'' = Some (J_Number 1)" and none: "cJSON_GetObjectItem demo_disable ''proxy_id'' = None"
    "cJSON_GetObjectItem demo_disable ''chain_id'' = None" "cJSON_GetObjectItem demo_disable ''match_domain'' = None"
    "cJSON_GetObjectItem demo_disable ''domain'' = None" "cJSON_GetObjectItem demo_disable ''enabled'' = Some (J_Bool False)" by code_simp+
  have one: "id_of demo_env (J_Number 1) = 1" by (simp add: id_of_def cast_int_def trunc0_def valuedouble_def)
  obtain old where old: "pf_config_rule_get (\<lambda>_. True) demo_rules_db 1 = Inr old" "r_domain old = ''*.sky.ch''" "r_proxy_id old = 1" "r_chain_id old = 0"
  proof -
    have "(case pf_config_rule_get (\<lambda>_. True) demo_rules_db 1 of Inl _ \<Rightarrow> False
      | Inr r \<Rightarrow> r_domain r = ''*.sky.ch'' \<and> r_proxy_id r = 1 \<and> r_chain_id r = 0)" by code_simp
    thus ?thesis using that by (auto split: sum.splits)
  qed
  let ?new = "rule_overlay (hq_undef demo_env) demo_disable old"
  have refs: "r_proxy_id ?new = 1" "r_chain_id ?new = 0" "r_domain ?new = ''*.sky.ch''"
    unfolding rule_overlay_fields using none old by (simp_all add: on_item_def on_item2_def)
  have fk: "proxy_fk demo_rules_db (bind_id 1)" "chain_fk demo_rules_db (bind_id 0)" by code_simp+
  from rule_edit_overlays [OF demo_env_ok(1,2) id, where c = "demo_ctx demo_rules_db" and old = old and new = ?new]
  obtain c' where "pf_handle_request demo_env ''rule.edit'' (Some demo_disable) (demo_ctx demo_rules_db) = (reply_json ok_reply, c')"
    "pf_config_rule_get (\<lambda>_. True) (cx_db c') 1 = Inr ?new" "r_enabled ?new = 0"
    using one old fk refs none by (auto simp: demo_ctx_def cJSON_IsTrue_def)
  thus ?thesis using refs by blast
qed

lemma demo_block_rule:
  "r_action (rule_from_json U demo_block) = PF_ACTION_BLOCK" "r_app_path (rule_from_json U demo_block) = []"
  "r_proxy_id (rule_from_json U demo_block) = 0" "r_chain_id (rule_from_json U demo_block) = 0" "r_enabled (rule_from_json U demo_block) = 1"
  "r_domain (rule_from_json U demo_block) = ''a.b''" "r_ip_cidr (rule_from_json U demo_block) = []" "r_dst_port (rule_from_json U demo_block) = 0"
proof -
  have items: "\<forall>n \<in> {''id'', ''name'', ''priority'', ''match_app'', ''app_path'', ''match_ip'', ''ip_cidr'', ''match_port'', ''dst_port'', ''proxy_id'',
      ''chain_id'', ''enabled''}. cJSON_GetObjectItem demo_block n = None" by code_simp
  have some: "cJSON_GetObjectItem demo_block ''match_domain'' = Some (J_String ''a.b'')"
    "cJSON_GetObjectItem demo_block ''action'' = Some (J_String ''BLOCK'')" "pf_action_from_str (Some ''BLOCK'') = PF_ACTION_BLOCK" by code_simp+
  have "rule_from_json U demo_block = rule_zero \<lparr> r_domain := ''a.b'', r_action := PF_ACTION_BLOCK, r_enabled := 1 \<rparr>"
    unfolding rule_from_json_def Let_def on_item_def on_item2_def using items some
    by (simp add: copy_if_str_def valuestring_def snprintf_s_id PF_DOMAIN_MAX_def)
  thus "r_action (rule_from_json U demo_block) = PF_ACTION_BLOCK" "r_app_path (rule_from_json U demo_block) = []"
    "r_proxy_id (rule_from_json U demo_block) = 0" "r_chain_id (rule_from_json U demo_block) = 0" "r_enabled (rule_from_json U demo_block) = 1"
    "r_domain (rule_from_json U demo_block) = ''a.b''" "r_ip_cidr (rule_from_json U demo_block) = []" "r_dst_port (rule_from_json U demo_block) = 0"
    by (simp_all add: rule_zero_def)
qed

theorem rule_add_blocks_witness:
  "\<exists>c'. pf_handle_request demo_env ''rule.add'' (Some demo_block) (demo_ctx demo_db) = (reply_json ok_reply, c')
    \<and> fst (proxy_connect_for_tproxy demo_fnm (\<lambda>_. []) (\<lambda>_ _. None) (\<lambda>_ _. True) (cx_db c') 9 (pf_dns_init []) (cx_ruleset c') ''1.2.3.4'' 443 ''a.b'' g_log_ring)
        = R_BLOCK"
proof -
  let ?r = "rule_from_json (hq_undef demo_env) demo_block" and ?c = "demo_ctx demo_db"
  have d: "match_domain_of 9 (pf_dns_init []) ''1.2.3.4'' ''a.b'' = Some ''a.b''" by (simp add: match_domain_of_def)
  note r = demo_block_rule
  have act: "r_action ?r \<in> {PF_ACTION_BLOCK, PF_ACTION_REJECT}" using r(1) by simp
  have ap: "rule_applies demo_fnm None (match_domain_of 9 (pf_dns_init []) ''1.2.3.4'' ''a.b'') (Some ''1.2.3.4'') 443 ?r"
  proof -
    have "pf_match_domain demo_fnm (Some ''a.b'') (Some ''a.b'')" by code_simp
    thus ?thesis unfolding rule_applies_def d r by simp
  qed
  have db: "db_rules (cx_db ?c) = []" by (simp add: demo_ctx_def demo_db_fields)
  have fk: "proxy_fk (cx_db ?c) (bind_id (r_proxy_id ?r))" "chain_fk (cx_db ?c) (bind_id (r_chain_id ?r))"
    unfolding r(3,4) by (simp_all add: bind_id_def proxy_fk_def chain_fk_def)
  show ?thesis
    by (rule rule_add_blocks [OF demo_env_ok(1,2) _ _ refl fk act r(2) ap]) (simp_all add: db prio_ok_def PF_MAX_RULES_def)
qed


theorem queries_change_nothing_witness:
  "pf_handle_request demo_env ''system.reboot'' None (demo_ctx demo_db) = (J_Object [(''error'', J_String ''unknown method'')], demo_ctx demo_db)"
proof -
  have "''system.reboot'' \<notin> fst ` set (handlers :: (string \<times> unit handler) list)" by (simp add: handlers_def)
  from queries_change_nothing [OF disjI2, OF this, of demo_env None "demo_ctx demo_db"] this show ?thesis by (metis prod.collapse)
qed

definition demo_password :: "json option" where
  "demo_password = Some (J_Object [(''password'', J_String ''secret'')])"

theorem unlock_key_stable_witness:
  "\<exists>c1 c3. pf_handle_request demo_env ''credentials.unlock'' demo_password (demo_ctx pf_db_empty) = (reply_json ok_reply, c1)
    \<and> pf_handle_request demo_env ''credentials.unlock'' demo_password (c1 \<lparr> cx_crypto := pf_crypto_lock (cx_crypto c1) \<rparr>) = (reply_json ok_reply, c3)
    \<and> cr_key (cx_crypto c3) = cr_key (cx_crypto c1)"
proof -
  let ?c = "demo_ctx pf_db_empty"
  have pw: "param_str demo_password ''password'' = Some ''secret''" by code_simp
  have get: "pf_config_get (\<lambda>_. True) (cx_db ?c) ''crypto_salt'' 64 = Inl PF_ERR_DB"
    by (simp add: pf_config_get_def demo_ctx_def pf_db_empty_def)
  have get': "pf_config_get (hq_db demo_env 0) (cx_db ?c) ''crypto_salt'' 64 = Inl PF_ERR_DB" using get by (simp add: demo_sel)
  have m: "map_of handlers ''credentials.unlock'' = Some credentials_unlock" by (simp add: handlers_def)
  have key: "derive_key demo_crypto ''secret'' x = Inr (take 32 (bytes_of ''secret'' @ x @ replicate 32 1))" for x
    by (simp add: derive_key_def demo_crypto_def)
  obtain c1 where c1: "pf_handle_request demo_env ''credentials.unlock'' demo_password ?c = (reply_json ok_reply, c1)"
    unfolding pf_handle_request_def m by (simp add: credentials_unlock_def pw get pf_crypto_unlock_def key demo_sel Let_def)
  have "hq_rand demo_env = Some (replicate 16 3)" "PF_SALT_LEN \<le> length (replicate 16 (3 :: byte))" by (simp_all add: demo_env_def PF_SALT_LEN_def)
  from unlock_key_stable [OF demo_env_ok(1) demo_env_ok(1) get' this refl pw c1, of "c1 \<lparr> cx_crypto := pf_crypto_lock (cx_crypto c1) \<rparr>"]
  have "\<exists>c3. pf_handle_request demo_env ''credentials.unlock'' demo_password (c1 \<lparr> cx_crypto := pf_crypto_lock (cx_crypto c1) \<rparr>) = (reply_json ok_reply, c3)
    \<and> cr_key (cx_crypto c3) = cr_key (cx_crypto c1)" by auto
  thus ?thesis using c1 by blast
qed

end
