(* ===== verification/Monitor.thy ===== *)
theory Monitor
  imports Host Routing Cgroup
begin

text \<open>
  \<^verbatim>\<open>monitor.c\<close>: the proc connector of the kernel reports every exec and exit as a netlink message.  One
  call of \<^verbatim>\<open>pf_monitor_process\<close> receives one datagram into a buffer on the stack and walks over its
  messages; each event becomes a call of the callback, which moves the process between cgroups.

  The buffer is a list of 4096 bytes: the datagram, followed by whatever the stack held before.
  Multi-byte fields are read in the byte order of the machine (little endian) by checked accessors, so
  that a read outside the buffer is the outcome \<open>W_oob\<close>.
\<close>

section \<open>Reading the buffer\<close>

definition rd16 :: "bytes \<Rightarrow> nat \<Rightarrow> u16 option" where
  "rd16 mem i = (if i + 2 \<le> length mem then Some (u16be (mem ! (i + 1)) (mem ! i)) else None)"

definition rd32 :: "bytes \<Rightarrow> nat \<Rightarrow> u32 option" where
  "rd32 mem i = (if i + 4 \<le> length mem
     then Some (u32be (mem ! (i + 3)) (mem ! (i + 2)) (mem ! (i + 1)) (mem ! i)) else None)"

definition le16 :: "u16 \<Rightarrow> bytes" where "le16 w = [lo8 w, hi8 w]"
definition le32 :: "u32 \<Rightarrow> bytes" where "le32 w = rev (be32 w)"

section \<open>Messages of the connector\<close>

text \<open>
  The layout of \<^verbatim>\<open>linux/netlink.h\<close>, \<^verbatim>\<open>linux/connector.h\<close> and \<^verbatim>\<open>linux/cn_proc.h\<close>: \<^verbatim>\<open>nlmsghdr\<close> (length, type,
  flags, sequence number, port: 16 bytes), \<^verbatim>\<open>cn_msg\<close> (idx, val, seq, ack, 16-bit len and flags: 20
  bytes), \<^verbatim>\<open>proc_event\<close> (what, cpu, time stamp, then the process number first: 40 bytes).
\<close>

definition NLMSG_NOOP :: u16 where "NLMSG_NOOP = 1"
definition NLMSG_ERROR :: u16 where "NLMSG_ERROR = 2"
definition NLMSG_DONE :: u16 where "NLMSG_DONE = 3"
definition CN_IDX_PROC :: u32 where "CN_IDX_PROC = 1"
definition CN_VAL_PROC :: u32 where "CN_VAL_PROC = 1"
definition PROC_CN_MCAST_LISTEN :: u32 where "PROC_CN_MCAST_LISTEN = 1"
definition PROC_EVENT_EXEC :: u32 where "PROC_EVENT_EXEC = 2"
definition PROC_EVENT_EXIT :: u32 where "PROC_EVENT_EXIT = 0x80000000"

lemmas cn_constants = NLMSG_NOOP_def NLMSG_ERROR_def NLMSG_DONE_def CN_IDX_PROC_def CN_VAL_PROC_def
  PROC_CN_MCAST_LISTEN_def PROC_EVENT_EXEC_def PROC_EVENT_EXIT_def

text \<open>\<^verbatim>\<open>NLMSG_ALIGN\<close> in 32-bit unsigned arithmetic.\<close>

definition nlmsg_align :: "u32 \<Rightarrow> u32" where
  "nlmsg_align len = (len + 3) AND NOT 3"

text \<open>The body of the loop: what one message is to the code.\<close>

datatype msg_view = V_oob | V_skip | V_event int bool

definition event_view :: "bytes \<Rightarrow> nat \<Rightarrow> msg_view" where
  "event_view mem ev = (case rd32 mem ev of
     None \<Rightarrow> V_oob
   | Some what \<Rightarrow>
       if what = PROC_EVENT_EXEC \<or> what = PROC_EVENT_EXIT then
         (case rd32 mem (ev + 16) of
            None \<Rightarrow> V_oob
          | Some pid \<Rightarrow> if sint pid \<le> 0 then V_skip else V_event (sint pid) (what = PROC_EVENT_EXEC))
       else V_skip)"

definition cn_view :: "bytes \<Rightarrow> nat \<Rightarrow> msg_view" where
  "cn_view mem cm = (case rd32 mem cm of
     None \<Rightarrow> V_oob
   | Some idx \<Rightarrow> if idx \<noteq> CN_IDX_PROC then V_skip else (case rd32 mem (cm + 4) of
       None \<Rightarrow> V_oob
     | Some val \<Rightarrow> if val \<noteq> CN_VAL_PROC then V_skip else (case rd16 mem (cm + 16) of
         None \<Rightarrow> V_oob
       | Some len \<Rightarrow> if unat len < 40 then V_skip else event_view mem (cm + 20))))"

definition msg_view_at :: "bytes \<Rightarrow> nat \<Rightarrow> u32 \<Rightarrow> msg_view" where
  "msg_view_at mem off nlmsg_len = (case rd16 mem (off + 4) of
     None \<Rightarrow> V_oob
   | Some ty \<Rightarrow> if ty = NLMSG_ERROR \<or> ty = NLMSG_NOOP then V_skip else (case rd32 mem (off + 12) of
       None \<Rightarrow> V_oob
     | Some port \<Rightarrow> if port \<noteq> 0 then V_skip
         else if unat (nlmsg_len - 16) < 20 then V_skip else cn_view mem (off + 16)))"

section \<open>The walk over a datagram\<close>

text \<open>
  \<open>n\<close> is the signed count of bytes left: \<^verbatim>\<open>NLMSG_NEXT\<close> subtracts the aligned length from it, and
  \<^verbatim>\<open>NLMSG_OK\<close> compares its value cast to 32 bits without sign.  \<open>cb\<close> is the callback on the state it
  changes.  The walk need not end, so its value is an option.
\<close>

datatype walk_end = W_done | W_oob

partial_function (option) nl_walk ::
  "(int \<Rightarrow> bool \<Rightarrow> 's \<Rightarrow> 's) \<Rightarrow> bytes \<Rightarrow> nat \<Rightarrow> int \<Rightarrow> 's \<Rightarrow> (walk_end \<times> 's) option" where
  "nl_walk cb mem off n s =
     (if uint (word_of_int n :: u32) < 16 then Some (W_done, s)
      else case rd32 mem off of
        None \<Rightarrow> Some (W_oob, s)
      | Some len \<Rightarrow>
          if unat len < 16 \<or> len > word_of_int n then Some (W_done, s)
          else (case msg_view_at mem off len of
            V_oob \<Rightarrow> Some (W_oob, s)
          | V_skip \<Rightarrow> nl_walk cb mem (off + unat (nlmsg_align len)) (n - uint (nlmsg_align len)) s
          | V_event pid is_exec \<Rightarrow>
              nl_walk cb mem (off + unat (nlmsg_align len)) (n - uint (nlmsg_align len)) (cb pid is_exec s)))"

section \<open>The monitor\<close>

record 's pf_monitor =
  mon_nl_fd :: int
  mon_callback :: "int \<Rightarrow> string \<Rightarrow> bool \<Rightarrow> 's \<Rightarrow> 's"

text \<open>The result of \<^verbatim>\<open>recv\<close>: EAGAIN, EWOULDBLOCK or EINTR; another error; a datagram.\<close>

datatype mon_recv = MR_again | MR_fail | MR_data bytes

definition pf_monitor_get_exe :: "'k host \<Rightarrow> int \<Rightarrow> nat \<Rightarrow> 'k \<Rightarrow> int \<times> string" where
  "pf_monitor_get_exe H pid buf_len k = (if buf_len = 0 then (-1, [])
     else case c_readlink H (snprintf_s 64 (''/proc/'' @ show_int pid @ ''/exe'')) k of
       None \<Rightarrow> (-1, [])
     | Some target \<Rightarrow> let buf = take (buf_len - 1) target in (int (length buf), buf))"

definition mon_dispatch :: "'k host \<Rightarrow> 'k pf_monitor \<Rightarrow> int \<Rightarrow> bool \<Rightarrow> 'k \<Rightarrow> 'k" where
  "mon_dispatch H mon pid is_exec k =
     mon_callback mon pid (if is_exec then snd (pf_monitor_get_exe H pid PF_PATH_MAX k) else []) is_exec k"

definition MON_BUF :: nat where "MON_BUF = 4096"

definition pf_monitor_process ::
  "'k host \<Rightarrow> 'k pf_monitor option \<Rightarrow> bytes \<Rightarrow> mon_recv \<Rightarrow> 'k \<Rightarrow> ((walk_end \<times> pf_err option) \<times> 'k) option" where
  "pf_monitor_process H mon stack rcv k = (case mon of
     None \<Rightarrow> Some ((W_done, Some PF_ERR), k)
   | Some mon \<Rightarrow>
       if mon_nl_fd mon < 0 then Some ((W_done, Some PF_ERR), k)
       else case rcv of
         MR_again \<Rightarrow> Some ((W_done, None), k)
       | MR_fail \<Rightarrow> Some ((W_done, Some PF_ERR_NET), k)
       | MR_data d \<Rightarrow>
           let d = take MON_BUF d; buf = d @ drop (length d) stack in
           map_option (\<lambda>(e, k). ((e, None), k)) (nl_walk (mon_dispatch H mon) buf 0 (int (length d)) k))"

text \<open>\<^verbatim>\<open>proc_cn_subscribe\<close> builds one message of \<^verbatim>\<open>CN_MSG_SIZE(4)\<close> = 40 bytes.\<close>

definition subscribe_msg :: "u32 \<Rightarrow> bytes" where
  "subscribe_msg mypid = le32 40 @ le16 NLMSG_DONE @ le16 0 @ le32 0 @ le32 mypid
     @ le32 CN_IDX_PROC @ le32 CN_VAL_PROC @ le32 0 @ le32 0 @ le16 4 @ le16 0 @ le32 PROC_CN_MCAST_LISTEN"

text \<open>
  Opening: \<open>sock\<close> is the descriptor \<^verbatim>\<open>socket\<close> returns, none on failure; \<open>bound\<close> and \<open>sent\<close> tell whether
  \<^verbatim>\<open>bind\<close> and \<^verbatim>\<open>sendto\<close> (of the given message) succeed; \<open>fds\<close> are the open descriptors.
\<close>

definition proc_cn_subscribe :: "(bytes \<Rightarrow> bool) \<Rightarrow> u32 \<Rightarrow> bool" where
  "proc_cn_subscribe sent mypid = sent (subscribe_msg mypid)"

definition pf_monitor_init ::
  "int option \<Rightarrow> bool \<Rightarrow> (bytes \<Rightarrow> bool) \<Rightarrow> u32 \<Rightarrow> (int \<Rightarrow> string \<Rightarrow> bool \<Rightarrow> 's \<Rightarrow> 's) \<Rightarrow> int list
    \<Rightarrow> pf_err option \<times> 's pf_monitor \<times> int list" where
  "pf_monitor_init sock bound sent mypid callback fds =
     (let mon = \<lparr> mon_nl_fd = -1, mon_callback = callback \<rparr> in
      case sock of
        None \<Rightarrow> (Some PF_ERR_NET, mon, fds)
      | Some fd \<Rightarrow>
          let fds' = fd # fds in
          if \<not> bound then (Some PF_ERR_NET, mon, remove1 fd fds')
          else if \<not> proc_cn_subscribe sent mypid then (Some PF_ERR_NET, mon, remove1 fd fds')
          else (None, mon \<lparr> mon_nl_fd := fd \<rparr>, fds'))"

definition pf_monitor_close :: "'s pf_monitor option \<Rightarrow> int list \<Rightarrow> 's pf_monitor option \<times> int list" where
  "pf_monitor_close mon fds = (case mon of
     None \<Rightarrow> (None, fds)
   | Some m \<Rightarrow> if 0 \<le> mon_nl_fd m then (Some (m \<lparr> mon_nl_fd := -1 \<rparr>), remove1 (mon_nl_fd m) fds) else (mon, fds))"

definition pf_monitor_get_fd :: "'s pf_monitor option \<Rightarrow> int" where
  "pf_monitor_get_fd mon = (case mon of Some m \<Rightarrow> mon_nl_fd m | None \<Rightarrow> -1)"

text \<open>The callback of the daemon: \<^verbatim>\<open>on_process_event\<close> with the cgroup operation it ends in.\<close>

definition process_event :: "fnm_env \<Rightarrow> 'k host \<Rightarrow> pf_rule list \<Rightarrow> int \<Rightarrow> string \<Rightarrow> bool \<Rightarrow> 'k \<Rightarrow> 'k" where
  "process_event E H rs pid exe_path is_exec k = (case on_process_event E rs pid exe_path is_exec of
     Assign_pid rule_id p \<Rightarrow> snd (pf_cgroup_assign_pid H rule_id p k)
   | Remove_pid p \<Rightarrow> snd (pf_cgroup_remove_pid H p k)
   | No_op \<Rightarrow> k)"

section \<open>Reading what was written\<close>

lemma le_length [simp]: "length (le16 w) = 2" "length (le32 v) = 4"
  by (simp_all add: le16_def le32_def)

lemma rd16_here [simp]: "rd16 (le16 w @ r) 0 = Some w"
  by (simp add: rd16_def le16_def)

lemma rd32_here [simp]: "rd32 (le32 w @ r) 0 = Some w"
proof -
  obtain a b c d where e: "be32 w = [a, b, c, d]" by (auto simp: be32_def)
  show ?thesis by (simp add: rd32_def le32_def e u32be_be32 [OF e])
qed

lemma rd16_skip [simp]: "length xs \<le> i \<Longrightarrow> rd16 (xs @ r) i = rd16 r (i - length xs)"
  by (auto simp: rd16_def nth_append Suc_diff_le)

lemma rd32_skip [simp]: "length xs \<le> i \<Longrightarrow> rd32 (xs @ r) i = rd32 r (i - length xs)"
  by (auto simp: rd32_def nth_append numeral_eq_Suc Suc_diff_le)

lemma unat_nlmsg_align: "unat len + 3 < 2 ^ 32 \<Longrightarrow> unat (nlmsg_align len) = (unat len + 3) div 4 * 4"
proof -
  assume a: "unat len + 3 < 2 ^ 32"
  have "unat (len + 3) = unat len + 3" using a by (simp add: unat_add_lem [THEN iffD1])
  moreover have "nlmsg_align len = (len + 3) - take_bit 2 (len + 3)"
  proof -
    have "(len + 3) AND NOT 3 = (len + 3) AND NOT (mask 2)" by (simp add: mask_eq_exp_minus_1)
    also have "\<dots> = push_bit 2 (drop_bit 2 (len + 3))"
      by (rule bit_word_eqI) (auto simp: bit_simps not_less dest!: le_Suc_ex)
    also have "\<dots> = (len + 3) - take_bit 2 (len + 3)"
      using bits_ident [of 2 "len + 3"] by (simp add: eq_diff_eq)
    finally show ?thesis by (simp add: nlmsg_align_def)
  qed
  moreover have "take_bit 2 (len + 3) \<le> len + 3" by (simp add: word_le_nat_alt unsigned_take_bit_eq)
  ultimately have "unat (nlmsg_align len) = unat len + 3 - take_bit 2 (unat len + 3)"
    by (simp only: unat_sub unsigned_take_bit_eq)
  thus ?thesis by (simp add: take_bit_eq_mod minus_mod_eq_div_mult)
qed

section \<open>A datagram of well-formed messages\<close>

text \<open>
  \<open>From_kernel\<close>: a process event the way \<^verbatim>\<open>cn_proc\<close> sends it; \<open>Foreign\<close>: any other netlink message of
  whole words, of type NOOP or ERROR or sent by a process.
\<close>

datatype nl_item =
    From_kernel (ni_seq: u32) (ni_cpu: u32) (ni_time: bytes) (ni_what: u32) (ni_pid: u32) (ni_detail: bytes)
  | Foreign (nf_type: u16) (nf_flags: u16) (nf_seq: u32) (nf_port: u32) (nf_body: bytes)

definition nl_header :: "nat \<Rightarrow> u16 \<Rightarrow> u16 \<Rightarrow> u32 \<Rightarrow> u32 \<Rightarrow> bytes" where
  "nl_header n ty flags seq port = le32 (of_nat n) @ le16 ty @ le16 flags @ le32 seq @ le32 port"

fun nl_encode :: "nl_item \<Rightarrow> bytes" where
  "nl_encode (From_kernel seq cpu time what pid detail) = nl_header 76 NLMSG_DONE 0 seq 0
     @ le32 CN_IDX_PROC @ le32 CN_VAL_PROC @ le32 seq @ le32 0 @ le16 40 @ le16 0
     @ le32 what @ le32 cpu @ time @ le32 pid @ detail"
| "nl_encode (Foreign ty flags seq port body) = nl_header (16 + length body) ty flags seq port @ body"

fun nl_item_ok :: "nl_item \<Rightarrow> bool" where
  "nl_item_ok (From_kernel seq cpu time what pid detail) \<longleftrightarrow> length time = 8 \<and> length detail = 20"
| "nl_item_ok (Foreign ty flags seq port body) \<longleftrightarrow>
     4 dvd length body \<and> (ty = NLMSG_ERROR \<or> ty = NLMSG_NOOP \<or> port \<noteq> 0)"

fun nl_events :: "nl_item list \<Rightarrow> (int \<times> bool) list" where
  "nl_events [] = []"
| "nl_events (From_kernel seq cpu time what pid detail # ms) =
     (if (what = PROC_EVENT_EXEC \<or> what = PROC_EVENT_EXIT) \<and> 0 < sint pid
      then [(sint pid, what = PROC_EVENT_EXEC)] else []) @ nl_events ms"
| "nl_events (Foreign ty flags seq port body # ms) = nl_events ms"

lemma nl_header_length [simp]: "length (nl_header n ty flags seq port) = 16"
  by (simp add: nl_header_def)

lemma nl_encode_length: "nl_item_ok m \<Longrightarrow> 16 \<le> length (nl_encode m) \<and> 4 dvd length (nl_encode m)"
  by (cases m) auto

lemma nl_encode_head:
  "nl_item_ok m \<Longrightarrow> rd32 (pre @ nl_encode m @ post) (length pre) = Some (of_nat (length (nl_encode m)))"
  by (cases m) (simp_all add: nl_header_def)

lemma event_view_shift [simp]:
  "length xs \<le> i \<Longrightarrow> event_view (xs @ r) i = event_view r (i - length xs)"
  by (simp add: event_view_def cong: option.case_cong if_cong)

lemma cn_view_shift [simp]: "length xs \<le> i \<Longrightarrow> cn_view (xs @ r) i = cn_view r (i - length xs)"
  by (simp add: cn_view_def cong: option.case_cong if_cong)

lemma msg_view_at_shift [simp]:
  "length xs \<le> i \<Longrightarrow> msg_view_at (xs @ r) i len = msg_view_at r (i - length xs) len"
  by (simp add: msg_view_at_def cong: option.case_cong if_cong)

lemma event_view_kernel:
  "length time = 8 \<Longrightarrow> event_view (le32 what @ le32 cpu @ time @ le32 pid @ r) 0 =
     (if (what = PROC_EVENT_EXEC \<or> what = PROC_EVENT_EXIT) \<and> 0 < sint pid
      then V_event (sint pid) (what = PROC_EVENT_EXEC) else V_skip)"
  by (simp add: event_view_def cong: option.case_cong if_cong)

lemma cn_view_kernel:
  "cn_view (le32 CN_IDX_PROC @ le32 CN_VAL_PROC @ le32 seq @ le32 ack @ le16 40 @ le16 flags @ r) 0 = event_view r 0"
  by (simp add: cn_view_def)

lemma msg_view_item:
  assumes "nl_item_ok m"
  shows "msg_view_at (nl_encode m @ post) 0 (of_nat (length (nl_encode m))) =
    (case nl_events [m] of [] \<Rightarrow> V_skip | (p, ex) # _ \<Rightarrow> V_event p ex)"
proof (cases m)
  case (From_kernel seq cpu time what pid detail)
  have [simp]: "NLMSG_DONE \<noteq> NLMSG_ERROR" "NLMSG_DONE \<noteq> NLMSG_NOOP" by (simp_all add: cn_constants)
  show ?thesis using assms unfolding From_kernel
    by (simp add: msg_view_at_def nl_header_def cn_view_kernel event_view_kernel)
next
  case (Foreign ty flags seq port body)
  show ?thesis using assms unfolding Foreign by (auto simp: msg_view_at_def nl_header_def)
qed

lemma nl_events_append: "nl_events (m # ms) = nl_events [m] @ nl_events ms"
  by (cases m) auto

lemma nl_events_single: "nl_events [m] = [] \<or> (\<exists>p ex. nl_events [m] = [(p, ex)])"
  by (cases m) auto

abbreviation run_events :: "(int \<Rightarrow> bool \<Rightarrow> 's \<Rightarrow> 's) \<Rightarrow> (int \<times> bool) list \<Rightarrow> 's \<Rightarrow> 's" where
  "run_events cb evs s \<equiv> fold (\<lambda>(p, ex). cb p ex) evs s"

text \<open>One message at the head of what is left, wherever the datagram ends after it.\<close>

lemma nl_walk_item:
  assumes m: "nl_item_ok m" "length (nl_encode m) \<le> 4096"
    and n: "uint (word_of_int n :: u32) \<ge> int (length (nl_encode m))"
  shows "nl_walk cb (pre @ nl_encode m @ post) (length pre) n s =
    nl_walk cb (pre @ nl_encode m @ post) (length (pre @ nl_encode m)) (n - int (length (nl_encode m)))
      (run_events cb (nl_events [m]) s)"
proof -
  let ?L = "length (nl_encode m)" and ?mem = "pre @ nl_encode m @ post"
  have L: "16 \<le> ?L" "4 dvd ?L" using nl_encode_length [OF m(1)] by auto
  have u: "unat (of_nat ?L :: u32) = ?L" using m(2) by (intro unat_of_nat_lt) simp
  have ua: "unat (nlmsg_align (of_nat ?L)) = ?L"
    using L(2) m(2) u by (subst unat_nlmsg_align) (auto simp: dvd_def)
  have ui: "uint (nlmsg_align (of_nat ?L)) = int ?L" using ua by (metis uint_nat)
  have le: "\<not> of_nat ?L > (word_of_int n :: u32)"
    using n u by (simp only: word_less_nat_alt uint_nat of_nat_le_iff not_less)
  have ge: "\<not> uint (word_of_int n :: u32) < 16" using n L(1) by linarith
  have view: "msg_view_at ?mem (length pre) (of_nat ?L) =
      (case nl_events [m] of [] \<Rightarrow> V_skip | (p, ex) # _ \<Rightarrow> V_event p ex)"
    using msg_view_item [OF m(1), of post] by simp
  have walk: "nl_walk cb ?mem (length pre) n s = (case msg_view_at ?mem (length pre) (of_nat ?L) of
      V_oob \<Rightarrow> Some (W_oob, s)
    | V_skip \<Rightarrow> nl_walk cb ?mem (length pre + ?L) (n - int ?L) s
    | V_event p ex \<Rightarrow> nl_walk cb ?mem (length pre + ?L) (n - int ?L) (cb p ex s))"
  proof -
    have c: "\<not> (unat (of_nat ?L :: u32) < 16 \<or> of_nat ?L > (word_of_int n :: u32))" using u L(1) le by simp
    show ?thesis
      by (rule trans [OF nl_walk.simps]) (simp only: nl_encode_head [OF m(1)] if_not_P [OF ge] if_not_P [OF c] option.case ua ui)
  qed
  show ?thesis unfolding walk view length_append
    using nl_events_single [of m] by (elim disjE exE) simp_all
qed

lemma uint_small_count: "n \<le> 4096 \<Longrightarrow> uint (word_of_int (int n) :: u32) = int n"
  by (simp only: uint_word_of_int) simp

lemma nl_walk_items:
  assumes "\<forall>m \<in> set ms. nl_item_ok m" "length (concat (map nl_encode ms)) \<le> 4096"
  shows "nl_walk cb (pre @ concat (map nl_encode ms) @ post) (length pre)
           (int (length (concat (map nl_encode ms)))) s = Some (W_done, run_events cb (nl_events ms) s)"
  using assms
proof (induction ms arbitrary: pre s)
  case Nil
  show ?case by (subst nl_walk.simps) simp
next
  case (Cons m ms)
  let ?r = "concat (map nl_encode ms)" and ?e = "nl_encode m"
  have b: "length ?e + length ?r \<le> 4096" using Cons.prems(2) by simp
  hence u: "uint (word_of_int (int (length ?e + length ?r)) :: u32) = int (length ?e + length ?r)"
    by (rule uint_small_count)
  have "nl_walk cb (pre @ ?e @ ?r @ post) (length pre) (int (length ?e + length ?r)) s =
    nl_walk cb ((pre @ ?e) @ ?r @ post) (length (pre @ ?e)) (int (length ?r)) (run_events cb (nl_events [m]) s)"
    using nl_walk_item [of m "int (length ?e + length ?r)" cb pre "?r @ post" s] Cons.prems(1) b u by simp
  also have "\<dots> = Some (W_done, run_events cb (nl_events ms) (run_events cb (nl_events [m]) s))"
    using Cons.prems b by (intro Cons.IH) auto
  finally show ?case by (subst nl_events_append) simp
qed

text \<open>
  A datagram of process events and foreign messages is processed completely: the call returns, every
  exec and exit of the kernel reaches the callback once and in order, messages sent by processes reach
  it never, and nothing depends on what the buffer held before.
\<close>

lemma monitor_delivers_events:
  assumes "0 \<le> mon_nl_fd mon" "\<forall>m \<in> set ms. nl_item_ok m" "length (concat (map nl_encode ms)) \<le> MON_BUF"
  shows "pf_monitor_process H (Some mon) stack (MR_data (concat (map nl_encode ms))) k =
    Some ((W_done, None), run_events (mon_dispatch H mon) (nl_events ms) k)"
proof -
  have "take MON_BUF (concat (map nl_encode ms)) = concat (map nl_encode ms)" using assms(3) by simp
  moreover have "length (concat (map nl_encode ms)) \<le> 4096" using assms(3) by (simp add: MON_BUF_def)
  ultimately show ?thesis
    using assms(1) nl_walk_items [OF assms(2), of "mon_dispatch H mon" "[]" "drop (length (concat (map nl_encode ms))) stack" k]
    unfolding pf_monitor_process_def Let_def by (simp del: length_concat)
qed

section \<open>A message that does not end on a word\<close>

text \<open>
  \<^verbatim>\<open>NLMSG_NEXT\<close> subtracts the length rounded up, so an unaligned last message takes the count below
  zero; the cast in the loop condition turns that into a count of almost 4 GiB.
\<close>

lemma nl_walk_unaligned:
  fixes ty flags :: u16 and seq :: u32 and post :: bytes
  assumes "port \<noteq> 0" "length body \<le> 4000" "length pad = 4 - length body mod 4" "length body mod 4 \<noteq> 0"
    and m: "nl_item_ok m"  "length (nl_encode m) \<le> 4096"
  defines "mem \<equiv> (nl_header (16 + length body) ty flags seq port @ body @ pad) @ nl_encode m @ post"
  shows "nl_walk cb mem 0 (int (16 + length body)) s =
    nl_walk cb mem (16 + length body + length pad + length (nl_encode m)) (- int (length pad + length (nl_encode m)))
      (run_events cb (nl_events [m]) s)"
proof -
  let ?h = "nl_header (16 + length body) ty flags seq port"
  let ?L = "16 + length body"
  have u: "unat (of_nat ?L :: u32) = ?L" using assms(2) by (intro unat_of_nat_lt) simp
  have pad: "1 \<le> length pad" "length pad \<le> 3" using assms(3,4) by linarith+
  have al: "(?L + 3) div 4 * 4 = ?L + length pad" using assms(3,4) by presburger
  have ua: "unat (nlmsg_align (of_nat ?L)) = ?L + length pad"
    using assms(2) u al by (subst unat_nlmsg_align) auto
  have ui: "uint (nlmsg_align (of_nat ?L)) = int (?L + length pad)" using ua by (metis uint_nat)
  have n: "uint (word_of_int (int ?L) :: u32) = int ?L" using assms(2) by (intro uint_small_count) simp
  have ge: "\<not> uint (word_of_int (int ?L) :: u32) < 16" using n by linarith
  have c: "\<not> (unat (of_nat ?L :: u32) < 16 \<or> of_nat ?L > (word_of_int (int ?L) :: u32))" using u by simp
  have hd: "rd32 mem 0 = Some (of_nat ?L)" unfolding mem_def nl_header_def append_assoc by (rule rd32_here)
  have view: "msg_view_at mem 0 (of_nat ?L) = V_skip"
    using assms(1) unfolding mem_def by (simp add: msg_view_at_def nl_header_def)
  have neg: "uint (word_of_int (- int (length pad)) :: u32) \<ge> int (length (nl_encode m))"
  proof -
    have "length pad = 1 \<or> length pad = 2 \<or> length pad = 3" using pad by linarith
    thus ?thesis using m(2) by (elim disjE) (simp_all add: unsigned_minus_1_eq_mask mask_eq_exp_minus_1)
  qed
  have "nl_walk cb mem 0 (int ?L) s = nl_walk cb mem (?L + length pad) (- int (length pad)) s"
    by (rule trans [OF nl_walk.simps]) (simp only: hd if_not_P [OF ge] if_not_P [OF c] option.case view msg_view.case ua ui, simp)
  also have "\<dots> = nl_walk cb mem (?L + length pad + length (nl_encode m)) (- int (length pad + length (nl_encode m)))
      (run_events cb (nl_events [m]) s)"
    using nl_walk_item [OF m neg, of cb "?h @ body @ pad" post s] by (simp add: mem_def algebra_simps)
  finally show ?thesis .
qed

text \<open>
  A datagram that consists of one message whose length is no multiple of four makes the walk leave
  the datagram: when the bytes behind it look like a process event, that event reaches the
  callback although no such message was received.
\<close>

theorem unaligned_message_reads_stale:
  fixes ty flags :: u16 and seq eseq cpu :: u32
  assumes "port \<noteq> 0" "length body \<le> 4000" "length pad = 4 - length body mod 4" "length body mod 4 \<noteq> 0"
    and "length time = 8" "length detail = 20" "0 < sint pid"
  defines "datagram \<equiv> nl_header (16 + length body) ty flags seq port @ body"
    and "stale \<equiv> nl_encode (From_kernel eseq cpu time PROC_EVENT_EXEC pid detail)"
  shows "nl_walk cb (datagram @ pad @ stale @ post) 0 (int (length datagram)) s =
    nl_walk cb (datagram @ pad @ stale @ post) (length (datagram @ pad @ stale)) (- int (length (pad @ stale)))
      (cb (sint pid) True s)"
  using nl_walk_unaligned [OF assms(1-4), where m = "From_kernel eseq cpu time PROC_EVENT_EXEC pid detail" and ty = ty
      and flags = flags and seq = seq and post = post and cb = cb and s = s]
    assms(5-7) by (simp add: datagram_def stale_def cn_constants)

theorem unaligned_message_reads_stale_witness:
  "nl_walk (\<lambda>p ex s. (p, ex) # s) (nl_header 17 NLMSG_DONE 0 0 99 @ [0] @ [0, 0, 0] @
       nl_encode (From_kernel 1 0 (replicate 8 0) PROC_EVENT_EXEC 7 (replicate 20 0)) @ replicate 16 0) 0 17 []
   = Some (W_done, [(7, True)])"
proof -
  let ?e = "nl_encode (From_kernel 1 0 (replicate 8 0) PROC_EVENT_EXEC 7 (replicate 20 0))"
  let ?mem = "nl_header 17 NLMSG_DONE 0 0 99 @ [0] @ [0, 0, 0] @ ?e @ replicate 16 0"
  have r: "rd32 ?mem 96 = Some 0" by (simp add: rd32_def u32be_def nth_append eval_nat_numeral)
  have "nl_walk (\<lambda>p ex s. (p, ex) # s) ?mem 96 (-79) [(7, True)] = Some (W_done, [(7, True)])"
    by (subst nl_walk.simps) (simp only: r, simp)
  thus ?thesis
    using unaligned_message_reads_stale [where port = 99 and body = "[0]" and pad = "[0, 0, 0]" and time = "replicate 8 0"
      and detail = "replicate 20 0" and pid = 7 and cb = "\<lambda>p ex s. (p, ex) # s" and ty = NLMSG_DONE and flags = 0
      and seq = 0 and eseq = 1 and cpu = 0 and post = "replicate 16 0" and s = "[]"] by simp
qed

section \<open>From events to cgroups\<close>

text \<open>
  What the events mean for the groups: an exec of a program some rule names moves the process into the
  group of that rule, an exit of a process in a rule's group moves it to the root group.
\<close>

definition process_rule :: "fnm_env \<Rightarrow> pf_rule list \<Rightarrow> string \<Rightarrow> pf_rule option" where
  "process_rule E rs exe =
     (let named = (\<lambda>a. find (\<lambda>r. r_enabled r \<noteq> 0 \<and> r_app_path r \<noteq> [] \<and> pf_match_app E (Some (r_app_path r)) (Some a)) rs);
          acting = (\<lambda>r. r_action r \<noteq> PF_ACTION_DIRECT)
      in case named exe of
           Some r \<Rightarrow> if acting r then Some r else
             (case named (after_slash exe) of Some r \<Rightarrow> if acting r then Some r else None | None \<Rightarrow> None)
         | None \<Rightarrow> (case named (after_slash exe) of Some r \<Rightarrow> if acting r then Some r else None | None \<Rightarrow> None))"

definition exe_of :: "'k host \<Rightarrow> 'k \<Rightarrow> int \<Rightarrow> string" where
  "exe_of H k p = (case c_readlink H (exe_link p) k of Some t \<Rightarrow> take (PF_PATH_MAX - 1) t | None \<Rightarrow> [])"

fun group_step :: "fnm_env \<Rightarrow> pf_rule list \<Rightarrow> (int \<Rightarrow> string) \<Rightarrow> string set \<Rightarrow> int \<times> bool
    \<Rightarrow> (int \<Rightarrow> string option) \<Rightarrow> (int \<Rightarrow> string option)" where
  "group_step E rs exe dirs (p, True) g = (case process_rule E rs (exe p) of
     Some r \<Rightarrow> if 0 < sint (r_id r) \<and> rule_dir (sint (r_id r)) \<in> dirs \<and> g p \<noteq> None
       then g(p \<mapsto> rule_dir (sint (r_id r))) else g
   | None \<Rightarrow> g)"
| "group_step E rs exe dirs (p, False) g =
     (if \<exists>n. 0 < n \<and> n < 2 ^ 31 \<and> g p = Some (rule_dir n) then g(p \<mapsto> PF_CGROUP_BASE) else g)"

lemma nl_events_range: "(p, ex) \<in> set (nl_events ms) \<Longrightarrow> 0 < p \<and> p < 2 ^ 31"
proof (induction ms rule: nl_events.induct)
  case (2 seq cpu time what pid detail ms)
  have "sint pid < 2 ^ 31" using sint_lt [of pid] by simp
  thus ?case using 2 by (auto split: if_splits)
qed auto

lemma assign_pid_groups:
  fixes k :: 'k
  assumes "cg_documented H V" "proc_documented H" "n < 2 ^ 31" "0 < p" "p < 2 ^ 31"
  defines "k' \<equiv> snd (pf_cgroup_assign_pid H n p k)"
  shows "cg_dirs V k' = cg_dirs V k" "c_readlink H link k' = c_readlink H link k"
    "cg_group V k' = (if 0 < n \<and> rule_dir n \<in> cg_dirs V k \<and> cg_group V k p \<noteq> None
       then (cg_group V k)(p \<mapsto> rule_dir n) else cg_group V k)"
proof -
  have "cg_dirs V k' = cg_dirs V k \<and> c_readlink H link k' = c_readlink H link k
    \<and> cg_group V k' = (if 0 < n \<and> rule_dir n \<in> cg_dirs V k \<and> cg_group V k p \<noteq> None
       then (cg_group V k)(p \<mapsto> rule_dir n) else cg_group V k)"
  proof (cases "0 < n")
    case True
    have "length (rule_dir n @ ''/cgroup.procs'') < PF_PATH_MAX" using rule_dir_length [OF True assms(3)] by (simp add: PF_PATH_MAX_def)
    hence path: "snprintf_s PF_PATH_MAX (rule_dir n @ ''/cgroup.procs'') = rule_dir n @ ''/cgroup.procs''" by (rule snprintf_s_id)
    have pid: "snprintf_s 32 (show_int p) = show_int p" using show_int_length [OF assms(4,5)] by (intro snprintf_s_id) linarith
    obtain ok k1 where w: "write_file H (rule_dir n @ ''/cgroup.procs'') (show_int p) k = (ok, k1)" by (rule prod.exhaust)
    have k1: "k' = k1" unfolding k'_def pf_cgroup_assign_pid_def rule_path_dir [OF True assms(3)] option.case path pid w by simp
    have "c_readlink H link k1 = c_readlink H link k" using assms(2) w unfolding proc_documented_def write_file_def by blast
    thus ?thesis unfolding k1 using cg_write [OF assms(1) our_dirs(2) [OF True assms(3)] assms(4,5) w] True by simp
  next
    case False
    thus ?thesis unfolding k'_def pf_cgroup_assign_pid_def by (simp add: rule_path_def)
  qed
  thus "cg_dirs V k' = cg_dirs V k" "c_readlink H link k' = c_readlink H link k"
    "cg_group V k' = (if 0 < n \<and> rule_dir n \<in> cg_dirs V k \<and> cg_group V k p \<noteq> None
       then (cg_group V k)(p \<mapsto> rule_dir n) else cg_group V k)" by blast+
qed

lemma remove_pid_links:
  assumes "proc_documented H"
  shows "c_readlink H link (snd (pf_cgroup_remove_pid H p k)) = c_readlink H link k"
proof -
  have w: "c_readlink H link (snd (write_file H f x k)) = c_readlink H link k" for f x
    using assms unfolding proc_documented_def write_file_def by (metis prod.collapse)
  have "c_readlink H link (remove_pid_loop H q ds k) = c_readlink H link k" for q ds
    by (induction ds) (auto simp: Let_def w split: option.split)
  thus ?thesis by (simp add: pf_cgroup_remove_pid_def split: option.split)
qed

lemma get_exe_of: "0 < p \<Longrightarrow> p < 2 ^ 31 \<Longrightarrow> snd (pf_monitor_get_exe H p PF_PATH_MAX k) = exe_of H k p"
proof -
  assume p: "0 < p" "p < 2 ^ 31"
  have "snprintf_s 64 (exe_link p) = exe_link p"
    using show_int_length [OF p] by (intro snprintf_s_id) (simp add: exe_link_def)
  thus ?thesis by (simp add: pf_monitor_get_exe_def exe_of_def exe_link_def PF_PATH_MAX_def Let_def split: option.split)
qed

lemma process_event_exec:
  "on_process_event E rs p exe True = (case process_rule E rs exe of Some r \<Rightarrow> Assign_pid (sint (r_id r)) p | None \<Rightarrow> No_op)"
proof -
  have n: "r_app_path r \<noteq> []" if "match_app_any_loop E rs a = Some r" for a r
    using that unfolding match_app_any_find by (auto simp: find_Some_iff)
  show ?thesis
    unfolding on_process_event_def process_rule_def pf_rules_match_app_any_def after_slash_def Let_def option.case
      match_app_any_find [symmetric]
    by (auto split: option.splits dest: n)
qed

text \<open>What the groups and the daemon's own directory are relied on for, beside \<open>cg_documented\<close>: lists of
  members fit the buffer of \<^verbatim>\<open>pf_cgroup_remove_pid\<close>.\<close>

definition small_groups :: "'k host \<Rightarrow> bool" where
  "small_groups H \<longleftrightarrow> (\<forall>k d out. file_read H (d @ ''/cgroup.procs'') k = Some out \<longrightarrow> length out \<le> 4095)"

lemma process_event_step:
  fixes ex :: bool
  assumes doc: "cg_documented H V" "proc_documented H" "small_groups H"
    and k: "PF_CGROUP_BASE \<in> cg_dirs V k" "0 < p" "p < 2 ^ 31"
    and cb: "mon_callback mon = process_event E H rs"
  defines "k' \<equiv> mon_dispatch H mon p ex k"
  shows "cg_dirs V k' = cg_dirs V k" "exe_of H k' = exe_of H k"
    "cg_group V k' = group_step E rs (exe_of H k) (cg_dirs V k) (p, ex) (cg_group V k)"
proof -
  have "cg_dirs V k' = cg_dirs V k \<and> exe_of H k' = exe_of H k
    \<and> cg_group V k' = group_step E rs (exe_of H k) (cg_dirs V k) (p, ex) (cg_group V k)"
  proof (cases ex)
    case True
    have k': "k' = (case process_rule E rs (exe_of H k p) of Some r \<Rightarrow> snd (pf_cgroup_assign_pid H (sint (r_id r)) p k) | None \<Rightarrow> k)"
      unfolding k'_def mon_dispatch_def cb process_event_def using get_exe_of [OF k(2,3), of H k] True
      by (simp add: process_event_exec split: option.split)
    show ?thesis
    proof (cases "process_rule E rs (exe_of H k p)")
      case None
      thus ?thesis using k' True by simp
    next
      case (Some r)
      have "sint (r_id r) < 2 ^ 31" using sint_lt [of "r_id r"] by simp
      note g = assign_pid_groups [where k = k, OF doc(1,2) this k(2,3)]
      have k'': "k' = snd (pf_cgroup_assign_pid H (sint (r_id r)) p k)" using k' unfolding Some by simp
      have "exe_of H k' = exe_of H k" unfolding k'' exe_of_def g(2) by simp
      thus ?thesis using True Some unfolding k'' g(1,3) by simp
    qed
  next
    case False
    have k': "k' = snd (pf_cgroup_remove_pid H p k)"
      unfolding k'_def mon_dispatch_def cb process_event_def using False by (simp add: on_process_event_def)
    have "case read_dir H PF_CGROUP_BASE k of None \<Rightarrow> PF_CGROUP_BASE \<notin> cg_dirs V k
       | Some ds \<Rightarrow> {d \<in> set ds. prefix ''rule_'' d} = {''rule_'' @ show_int n | n. 0 < n \<and> n < 2 ^ 31 \<and> rule_dir n \<in> cg_dirs V k}"
      using doc(1) unfolding cg_documented_def cg_listing_def by blast
    hence rd: "read_dir H PF_CGROUP_BASE k \<noteq> None" using k(1) by (cases "read_dir H PF_CGROUP_BASE k") (simp_all only: option.case option.distinct not_True_eq_False simp_thms)
    have "exe_of H k' = exe_of H k" unfolding k' by (simp add: exe_of_def fun_eq_iff remove_pid_links [OF doc(2)])
    moreover obtain k1 where "pf_cgroup_remove_pid H p k = (None, k1)" "cg_dirs V k1 = cg_dirs V k"
      "cg_group V k1 = (if \<exists>n. 0 < n \<and> n < 2 ^ 31 \<and> cg_group V k p = Some (rule_dir n)
         then (cg_group V k)(p \<mapsto> PF_CGROUP_BASE) else cg_group V k)"
      using remove_pid_exact [OF doc(1) k rd doc(3) [unfolded small_groups_def, THEN spec [of _ k]]] by blast
    ultimately show ?thesis using False k' by simp
  qed
  thus "cg_dirs V k' = cg_dirs V k" "exe_of H k' = exe_of H k"
    "cg_group V k' = group_step E rs (exe_of H k) (cg_dirs V k) (p, ex) (cg_group V k)" by blast+
qed

lemma run_events_groups:
  assumes doc: "cg_documented H V" "proc_documented H" "small_groups H"
    and "PF_CGROUP_BASE \<in> cg_dirs V k" "mon_callback mon = process_event E H rs"
    and "\<forall>(p, ex) \<in> set evs. 0 < p \<and> p < 2 ^ 31"
  shows "cg_dirs V (run_events (mon_dispatch H mon) evs k) = cg_dirs V k
    \<and> cg_group V (run_events (mon_dispatch H mon) evs k) =
        fold (group_step E rs (exe_of H k) (cg_dirs V k)) evs (cg_group V k)"
  using assms(4-6)
proof (induction evs arbitrary: k)
  case (Cons e evs)
  obtain p ex where e: "e = (p, ex)" by (rule prod.exhaust)
  note s = process_event_step [OF doc Cons.prems(1) _ _ Cons.prems(2), of p ex]
  show ?case using Cons.IH [of "mon_dispatch H mon p ex k"] Cons.prems s unfolding e by simp
qed simp

text \<open>
  C18: a datagram of the proc connector acts on the cgroups as the fold of its events: every exec
  of a program named by a rule moves exactly that process into the group of the rule, every exit moves
  it to the root group, in the order of the messages; messages sent by processes and the bytes
  the buffer held before have no effect, and the call returns.
\<close>

theorem events_drive_groups:
  assumes "cg_documented H V" "proc_documented H" "small_groups H"
    and "PF_CGROUP_BASE \<in> cg_dirs V k" "0 \<le> mon_nl_fd mon" "mon_callback mon = process_event E H rs"
    and "\<forall>m \<in> set ms. nl_item_ok m" "length (concat (map nl_encode ms)) \<le> MON_BUF"
  shows "\<exists>k'. pf_monitor_process H (Some mon) stack (MR_data (concat (map nl_encode ms))) k = Some ((W_done, None), k')
    \<and> cg_dirs V k' = cg_dirs V k
    \<and> cg_group V k' = fold (group_step E rs (exe_of H k) (cg_dirs V k)) (nl_events ms) (cg_group V k)"
  using run_events_groups [OF assms(1-4,6), of "nl_events ms"] nl_events_range [of _ _ ms]
    monitor_delivers_events [OF assms(5,7,8), of H stack k] by fastforce

lemma demo_small_groups: "small_groups demo_kern"
proof -
  have "length out \<le> 4095" if "demo_read f k = Some out" for f out k
  proof -
    obtain d where "out = members_text (filter (\<lambda>p. demo_group k p = Some d) demo_pids)" using \<open>demo_read f k = Some out\<close> by (auto simp: demo_read_def)
    moreover have "length (show_int 7) \<le> 10" "length (show_int 12) \<le> 10" "length (show_int 71) \<le> 10"
      using show_int_length [of 7] show_int_length [of 12] show_int_length [of 71] by simp_all
    hence "length (members_text (filter P demo_pids)) \<le> 33" for P
      by (simp add: members_text_def demo_pids_def)
    ultimately have "length out \<le> 33" by simp
    thus ?thesis by simp
  qed
  thus ?thesis by (simp add: small_groups_def)
qed

text \<open>Process 7 runs curl and starts; a forged exit of it, sent by process 99, follows.\<close>

definition demo_mon :: "demo_state pf_monitor" where
  "demo_mon = \<lparr> mon_nl_fd = 5, mon_callback = process_event demo_fnm demo_kern
     [demo_rule 1 10 ''/usr/bin/curl'' [] [] PF_ACTION_PROXY] \<rparr>"

definition demo_datagram :: "nl_item list" where
  "demo_datagram = [From_kernel 1 0 (replicate 8 0) PROC_EVENT_EXEC 7 (replicate 20 0),
     Foreign NLMSG_DONE 0 2 99 (drop 16 (nl_encode (From_kernel 2 0 (replicate 8 0) PROC_EVENT_EXIT 7 (replicate 20 0))))]"

theorem events_drive_groups_witness:
  "\<exists>k'. pf_monitor_process demo_kern (Some demo_mon) (replicate 4096 0) (MR_data (concat (map nl_encode demo_datagram))) ([1], [])
      = Some ((W_done, None), k') \<and> demo_group k' 7 = Some (rule_dir 1) \<and> demo_group k' 12 = Some PF_CGROUP_BASE"
proof -
  let ?rs = "[demo_rule 1 10 ''/usr/bin/curl'' [] [] PF_ACTION_PROXY]" and ?k = "([1], []) :: demo_state"
  have e: "exe_of demo_kern ?k 7 = ''/usr/bin/curl''" by (simp add: exe_of_def demo_kern_def PF_PATH_MAX_def)
  have r: "process_rule demo_fnm ?rs ''/usr/bin/curl'' = Some (hd ?rs)"
    by (simp add: process_rule_def demo_rule_def pf_match_app_def Let_def)
  have ev: "nl_events demo_datagram = [(7, True)]" by (simp add: demo_datagram_def)
  have g: "PF_CGROUP_BASE \<in> cg_dirs demo_view ?k" "rule_dir 1 \<in> cg_dirs demo_view ?k"
    "demo_group ?k 7 = Some PF_CGROUP_BASE" "demo_group ?k 12 = Some PF_CGROUP_BASE"
    by (simp_all add: demo_group_def demo_pids_def demo_valid_def demo_dirs_def)
  have ok: "\<forall>m \<in> set demo_datagram. nl_item_ok m" "length (concat (map nl_encode demo_datagram)) \<le> MON_BUF"
    by (simp_all add: demo_datagram_def MON_BUF_def)
  have id: "sint (r_id (hd ?rs)) = 1" by (simp add: demo_rule_def)
  show ?thesis
    using events_drive_groups [OF demo_kern_documented demo_proc_documented demo_small_groups g(1) _ _ ok, of demo_mon demo_fnm ?rs "replicate 4096 0"]
      g e r id unfolding ev by (auto simp: demo_mon_def)
qed

end
