(* ===== verification/Ssh.thy ===== *)
theory Ssh
  imports Socks "HOL-Library.Multiset"
begin

text \<open>
  \<^verbatim>\<open>proxy_ssh.c\<close>: a pool of SSH sessions, one per proxy, over which \<^verbatim>\<open>direct-tcpip\<close> channels are opened.
  The library libssh2 and the network are the record \<open>ssh_ops\<close> of functions on a state \<open>'w\<close>; the open
  descriptors and the session objects the library has allocated are kept beside that state, so that
  what the pool owes can be accounted for.  A pointer into the pool is a slot number.
\<close>

section \<open>The world of the pool\<close>

datatype dial = D_no_socket | D_refused | D_accepted

record 'w ssh_ops =
  so_resolve :: "string \<Rightarrow> int \<Rightarrow> 'w \<Rightarrow> dial list option \<times> 'w"
  so_session_init :: "'w \<Rightarrow> bool \<times> 'w"
  so_handshake :: "int \<Rightarrow> int \<Rightarrow> 'w \<Rightarrow> int \<times> 'w"
  so_auth_password :: "int \<Rightarrow> string \<Rightarrow> string \<Rightarrow> 'w \<Rightarrow> int \<times> 'w"
  so_auth_pubkey :: "int \<Rightarrow> string \<Rightarrow> string \<Rightarrow> 'w \<Rightarrow> int \<times> 'w"
  so_set_blocking :: "int \<Rightarrow> 'w \<Rightarrow> 'w"
  so_disconnect :: "int \<Rightarrow> string \<Rightarrow> 'w \<Rightarrow> 'w"
  so_session_free :: "int \<Rightarrow> 'w \<Rightarrow> 'w"
  so_direct_tcpip :: "int \<Rightarrow> string \<Rightarrow> int \<Rightarrow> 'w \<Rightarrow> bool \<times> 'w"
  so_channel_free :: "'w \<Rightarrow> 'w"
  so_lib_init :: "'w \<Rightarrow> int \<times> 'w"
  so_lib_exit :: "'w \<Rightarrow> 'w"

text \<open>
  \<open>so_resolve\<close>: what the addresses of a host answer, in order; none if \<^verbatim>\<open>getaddrinfo\<close> fails.
  \<open>so_session_init\<close> and \<open>so_direct_tcpip\<close> tell whether the result is a pointer other than NULL.
\<close>

record 'w ssh_world =
  sw_fds :: "int list"
  sw_live :: "int list"
  sw_lib :: 'w

text \<open>A number not in use: the lowest free descriptor, or the name of a new object.\<close>

definition fresh :: "int list \<Rightarrow> int" where
  "fresh xs = (case find_index (\<lambda>n. int n \<notin> set xs) [0..<length xs + 1] of Some n \<Rightarrow> int n | None \<Rightarrow> int (length xs))"

lemma fresh_not_in: "fresh xs \<notin> set xs" "0 \<le> fresh xs"
proof -
  have "\<exists>n \<in> set [0..<length xs + 1]. int n \<notin> set xs"
  proof (rule ccontr)
    assume "\<not> ?thesis"
    hence "int ` {0..<length xs + 1} \<subseteq> set xs" by (auto simp: less_Suc_eq)
    hence "card (int ` {0..<length xs + 1}) \<le> card (set xs)" by (intro card_mono) auto
    moreover have "card (int ` {0..<length xs + 1}) = length xs + 1" by (simp add: card_image)
    ultimately show False using card_length [of xs] by linarith
  qed
  then obtain n where n: "find_index (\<lambda>n. int n \<notin> set xs) [0..<length xs + 1] = Some n"
    by (metis find_index_None option.exhaust)
  hence "n < length [0..<length xs + 1] \<and> int ([0..<length xs + 1] ! n) \<notin> set xs" unfolding find_index_Some by blast
  hence "int n \<notin> set xs" using nth_upt [of 0 n "length xs + 1"] by (auto simp del: upt_Suc)
  thus "fresh xs \<notin> set xs" "0 \<le> fresh xs" unfolding fresh_def n option.case by simp_all
qed

lemma fresh_not_neg [simp]: "\<not> fresh xs < 0"
  using fresh_not_in(2) [of xs] by simp

definition ssh_lib :: "('w \<Rightarrow> 'w) \<Rightarrow> 'w ssh_world \<Rightarrow> 'w ssh_world" where
  "ssh_lib f w = w \<lparr> sw_lib := f (sw_lib w) \<rparr>"

definition ssh_close :: "int \<Rightarrow> 'w ssh_world \<Rightarrow> 'w ssh_world" where
  "ssh_close fd w = w \<lparr> sw_fds := remove1 fd (sw_fds w) \<rparr>"

definition ssh_free :: "'w ssh_ops \<Rightarrow> int \<Rightarrow> 'w ssh_world \<Rightarrow> 'w ssh_world" where
  "ssh_free S h w = w \<lparr> sw_live := remove1 h (sw_live w), sw_lib := so_session_free S h (sw_lib w) \<rparr>"

definition ssh_init :: "'w ssh_ops \<Rightarrow> 'w ssh_world \<Rightarrow> int option \<times> 'w ssh_world" where
  "ssh_init S w = (case so_session_init S (sw_lib w) of (ok, l) \<Rightarrow>
     if ok then (Some (fresh (sw_live w)), w \<lparr> sw_live := fresh (sw_live w) # sw_live w, sw_lib := l \<rparr>)
     else (None, w \<lparr> sw_lib := l \<rparr>))"

text \<open>\<^verbatim>\<open>tcp_connect\<close>: every descriptor that does not get connected is closed.\<close>

fun dial_loop :: "dial list \<Rightarrow> int list \<Rightarrow> int \<times> int list" where
  "dial_loop [] fds = (-1, fds)"
| "dial_loop (D_no_socket # rp) fds = dial_loop rp fds"
| "dial_loop (D_refused # rp) fds = (let fd = fresh fds in dial_loop rp (remove1 fd (fd # fds)))"
| "dial_loop (D_accepted # rp) fds = (fresh fds, fresh fds # fds)"

definition ssh_tcp_connect :: "'w ssh_ops \<Rightarrow> string \<Rightarrow> int \<Rightarrow> 'w ssh_world \<Rightarrow> int \<times> 'w ssh_world" where
  "ssh_tcp_connect S host port w = (case so_resolve S host port (sw_lib w) of
     (None, l) \<Rightarrow> (-1, w \<lparr> sw_lib := l \<rparr>)
   | (Some rp, l) \<Rightarrow> (case dial_loop rp (sw_fds w) of (fd, fds) \<Rightarrow> (fd, w \<lparr> sw_fds := fds, sw_lib := l \<rparr>)))"

section \<open>Sessions\<close>

record ssh_session =
  ss_session :: "int option"
  ss_sock_fd :: int
  ss_proxy_id :: int
  ss_connected :: bool

record ssh_pool =
  sp_sessions :: "ssh_session list"
  sp_count :: nat

definition zero_session :: ssh_session where
  "zero_session = \<lparr> ss_session = None, ss_sock_fd = -1, ss_proxy_id = 0, ss_connected = False \<rparr>"

definition session_invalidate :: "'w ssh_ops \<Rightarrow> ssh_session \<Rightarrow> 'w ssh_world \<Rightarrow> ssh_session \<times> 'w ssh_world" where
  "session_invalidate S s w =
     (let (s, w) = (case ss_session s of
          Some h \<Rightarrow> (s \<lparr> ss_session := None \<rparr>, ssh_free S h (ssh_lib (so_disconnect S h ''Closing session'') w))
        | None \<Rightarrow> (s, w));
          (s, w) = (if 0 \<le> ss_sock_fd s then (s \<lparr> ss_sock_fd := -1 \<rparr>, ssh_close (ss_sock_fd s) w) else (s, w))
      in (s \<lparr> ss_connected := False \<rparr>, w))"

text \<open>Step 3 of \<^verbatim>\<open>ssh_session_create\<close>: the password first, then the key file; the reason on failure.\<close>

definition ssh_auth :: "'w ssh_ops \<Rightarrow> int \<Rightarrow> pf_proxy \<Rightarrow> 'w ssh_world \<Rightarrow> string option \<times> 'w ssh_world" where
  "ssh_auth S h p w =
     (let user = (if px_username p \<noteq> [] then px_username p else ''root'') in
      if px_password p \<noteq> [] then
        (case so_auth_password S h user (px_password p) (sw_lib w) of
           (rc, l) \<Rightarrow> (if rc \<noteq> 0 then Some ''Auth failed'' else None, w \<lparr> sw_lib := l \<rparr>))
      else if px_ssh_key_path p \<noteq> [] then
        (case so_auth_pubkey S h user (px_ssh_key_path p) (sw_lib w) of
           (rc, l) \<Rightarrow> (if rc \<noteq> 0 then Some ''Auth failed'' else None, w \<lparr> sw_lib := l \<rparr>))
      else (Some ''No credentials'', w))"

definition ssh_session_create ::
  "'w ssh_ops \<Rightarrow> ssh_session \<Rightarrow> pf_proxy \<Rightarrow> 'w ssh_world \<Rightarrow> bool \<times> ssh_session \<times> 'w ssh_world" where
  "ssh_session_create S sess p w = (case ssh_tcp_connect S (px_host p) (uint (px_port p)) w of (fd, w) \<Rightarrow>
     if fd < 0 then (False, sess, w)
     else (case ssh_init S w of
       (None, w) \<Rightarrow> (False, sess, ssh_close fd w)
     | (Some h, w) \<Rightarrow> (case so_handshake S h fd (sw_lib w) of (rc, l) \<Rightarrow>
         let w = w \<lparr> sw_lib := l \<rparr> in
         if rc \<noteq> 0 then (False, sess, ssh_close fd (ssh_free S h w))
         else (case ssh_auth S h p w of
           (Some reason, w) \<Rightarrow> (False, sess, ssh_close fd (ssh_free S h (ssh_lib (so_disconnect S h reason) w)))
         | (None, w) \<Rightarrow>
             (True, sess \<lparr> ss_session := Some h, ss_sock_fd := fd, ss_proxy_id := sint (px_id p), ss_connected := True \<rparr>,
              ssh_lib (so_set_blocking S h) w)))))"

section \<open>The pool\<close>

text \<open>\<open>mutex\<close> tells whether \<^verbatim>\<open>pthread_mutex_init\<close> succeeds.\<close>

definition pf_ssh_pool_init :: "'w ssh_ops \<Rightarrow> bool \<Rightarrow> 'w ssh_world \<Rightarrow> int \<times> ssh_pool \<times> 'w ssh_world" where
  "pf_ssh_pool_init S mutex w =
     (if \<not> mutex then (-1, \<lparr> sp_sessions = replicate PF_MAX_PROXIES (zero_session \<lparr> ss_sock_fd := 0 \<rparr>), sp_count = 0 \<rparr>, w)
      else let pool = \<lparr> sp_sessions = replicate PF_MAX_PROXIES zero_session, sp_count = 0 \<rparr> in
        (case so_lib_init S (sw_lib w) of (rc, l) \<Rightarrow> (if rc \<noteq> 0 then -1 else 0, pool, w \<lparr> sw_lib := l \<rparr>)))"

fun close_loop :: "'w ssh_ops \<Rightarrow> nat list \<Rightarrow> ssh_session list \<Rightarrow> 'w ssh_world \<Rightarrow> ssh_session list \<times> 'w ssh_world" where
  "close_loop S [] xs w = (xs, w)"
| "close_loop S (i # is) xs w =
     (if ss_connected (xs ! i)
      then (case session_invalidate S (xs ! i) w of (s, w) \<Rightarrow> close_loop S is (xs[i := s]) w)
      else close_loop S is xs w)"

definition pf_ssh_pool_close :: "'w ssh_ops \<Rightarrow> ssh_pool \<Rightarrow> 'w ssh_world \<Rightarrow> ssh_pool \<times> 'w ssh_world" where
  "pf_ssh_pool_close S pool w = (case close_loop S [0..<sp_count pool] (sp_sessions pool) w of
     (xs, w) \<Rightarrow> (pool \<lparr> sp_sessions := xs, sp_count := 0 \<rparr>, ssh_lib (so_lib_exit S) w))"

definition pf_ssh_get_session ::
  "'w ssh_ops \<Rightarrow> ssh_pool \<Rightarrow> pf_proxy \<Rightarrow> 'w ssh_world \<Rightarrow> nat option \<times> ssh_pool \<times> 'w ssh_world" where
  "pf_ssh_get_session S pool p w =
     (let used = take (sp_count pool) (sp_sessions pool) in
      case find_index (\<lambda>s. ss_proxy_id s = sint (px_id p) \<and> ss_connected s) used of
        Some i \<Rightarrow> (Some i, pool, w)
      | None \<Rightarrow>
          (case (if sp_count pool < PF_MAX_PROXIES then Some (sp_count pool) else find_index (\<lambda>s. \<not> ss_connected s) used) of
             None \<Rightarrow> (None, pool, w)
           | Some slot \<Rightarrow>
               (case ssh_session_create S zero_session p w of
                  (False, s, w) \<Rightarrow> (None, pool \<lparr> sp_sessions := (sp_sessions pool)[slot := s] \<rparr>, w)
                | (True, s, w) \<Rightarrow>
                    (Some slot, \<lparr> sp_sessions = (sp_sessions pool)[slot := s],
                       sp_count = (if slot = sp_count pool then sp_count pool + 1 else sp_count pool) \<rparr>, w))))"

text \<open>The label \<^verbatim>\<open>retry_connect\<close> with the flag \<^verbatim>\<open>retry\<close>; true for a channel.\<close>

definition ssh_try ::
  "'w ssh_ops \<Rightarrow> ssh_pool \<Rightarrow> pf_proxy \<Rightarrow> string \<Rightarrow> int \<Rightarrow> 'w ssh_world \<Rightarrow> (nat option \<times> bool) \<times> ssh_pool \<times> 'w ssh_world" where
  "ssh_try S pool p host port w = (case pf_ssh_get_session S pool p w of
     (None, pool, w) \<Rightarrow> ((None, False), pool, w)
   | (Some i, pool, w) \<Rightarrow> (case so_direct_tcpip S (the (ss_session (sp_sessions pool ! i))) host port (sw_lib w) of
       (ok, l) \<Rightarrow> ((Some i, ok), pool, w \<lparr> sw_lib := l \<rparr>)))"

definition pf_ssh_connect ::
  "'w ssh_ops \<Rightarrow> ssh_pool \<Rightarrow> pf_proxy \<Rightarrow> string \<Rightarrow> int \<Rightarrow> 'w ssh_world \<Rightarrow> bool \<times> ssh_pool \<times> 'w ssh_world" where
  "pf_ssh_connect S pool p dst_host dst_port w =
     (if dst_port < 1 \<or> dst_port > 65535 then (False, pool, w)
      else case ssh_try S pool p dst_host dst_port w of
        ((None, _), pool, w) \<Rightarrow> (False, pool, w)
      | ((Some i, True), pool, w) \<Rightarrow> (True, pool, w)
      | ((Some i, False), pool, w) \<Rightarrow>
          (case session_invalidate S (sp_sessions pool ! i) w of (s, w) \<Rightarrow>
             (case ssh_try S (pool \<lparr> sp_sessions := (sp_sessions pool)[i := s] \<rparr>) p dst_host dst_port w of
                ((_, ok), pool, w) \<Rightarrow> (ok, pool, w))))"

definition pf_ssh_get_fd :: "ssh_session option \<Rightarrow> int" where
  "pf_ssh_get_fd sess = (case sess of None \<Rightarrow> -1 | Some s \<Rightarrow> ss_sock_fd s)"

definition pf_ssh_test ::
  "'w ssh_ops \<Rightarrow> int \<times> int \<Rightarrow> int \<times> int \<Rightarrow> ssh_pool \<Rightarrow> pf_proxy \<Rightarrow> 'w ssh_world \<Rightarrow> int \<times> ssh_pool \<times> 'w ssh_world" where
  "pf_ssh_test S t0 t1 pool p w =
     (if px_type p \<noteq> PF_PROXY_SSH then (-1, pool, w)
      else case pf_ssh_connect S pool p ''httpbin.org'' 443 w of
        (False, pool, w) \<Rightarrow> (-1, pool, w)
      | (True, pool, w) \<Rightarrow> (elapsed_ms t0 t1, pool, ssh_lib (so_channel_free S) w))"

section \<open>What a call owes\<close>

text \<open>Descriptors and session objects as multisets; a call that fails returns all it took.\<close>

definition world_holds :: "int multiset \<Rightarrow> int multiset \<Rightarrow> 'w ssh_world \<Rightarrow> bool" where
  "world_holds F L w \<longleftrightarrow> mset (sw_fds w) = F \<and> mset (sw_live w) = L"

named_theorems holds

lemma holds_lib [holds]: "world_holds F L w \<Longrightarrow> world_holds F L (ssh_lib f w)"
  "world_holds F L w \<Longrightarrow> world_holds F L (w \<lparr> sw_lib := l \<rparr>)"
  by (simp_all add: world_holds_def ssh_lib_def)

lemma holds_close [holds]: "world_holds (add_mset fd F) L w \<Longrightarrow> world_holds F L (ssh_close fd w)"
  by (simp add: world_holds_def ssh_close_def)

lemma holds_free [holds]: "world_holds F (add_mset h L) w \<Longrightarrow> world_holds F L (ssh_free S h w)"
  by (simp add: world_holds_def ssh_free_def)

lemma dial_loop_holds:
  "dial_loop rp fds = (fd, fds') \<Longrightarrow> (if fd < 0 then fds' = fds else fd \<notin> set fds \<and> fds' = fd # fds)"
  by (induction rp fds rule: dial_loop.induct) (use fresh_not_in in \<open>auto simp: Let_def split: if_splits\<close>)

lemma ssh_tcp_connect_holds:
  assumes "world_holds F L w" "ssh_tcp_connect S host port w = (fd, w')"
  shows "if fd < 0 then world_holds F L w' else fd \<notin># F \<and> world_holds (add_mset fd F) L w'"
proof (cases "so_resolve S host port (sw_lib w)")
  case (Pair r l)
  show ?thesis
  proof (cases r)
    case None
    thus ?thesis using assms Pair by (auto simp: ssh_tcp_connect_def intro: holds)
  next
    case (Some rp)
    obtain fd' fds' where d: "dial_loop rp (sw_fds w) = (fd', fds')" by (rule prod.exhaust)
    show ?thesis using assms Pair Some d dial_loop_holds [OF d]
      by (auto simp: ssh_tcp_connect_def world_holds_def split: if_splits)
  qed
qed

lemma ssh_init_holds:
  assumes "world_holds F L w" "ssh_init S w = (r, w')"
  shows "case r of None \<Rightarrow> world_holds F L w' | Some h \<Rightarrow> h \<notin># L \<and> world_holds F (add_mset h L) w'"
  using assms fresh_not_in(1) [of "sw_live w"]
  by (auto simp: ssh_init_def world_holds_def split: prod.splits if_splits)

lemma ssh_auth_holds:
  assumes "world_holds F L w" "ssh_auth S h p w = (r, w')"
  shows "world_holds F L w'"
  using assms by (auto simp: ssh_auth_def Let_def holds split: prod.splits if_splits)

lemma ssh_create_holds:
  assumes "world_holds F L w" "ssh_session_create S s0 p w = (ok, s, w')"
  shows "if ok then \<exists>h fd. 0 \<le> fd \<and> fd \<notin># F \<and> h \<notin># L \<and> world_holds (add_mset fd F) (add_mset h L) w'
      \<and> s = s0 \<lparr> ss_session := Some h, ss_sock_fd := fd, ss_proxy_id := sint (px_id p), ss_connected := True \<rparr>
    else s = s0 \<and> world_holds F L w'"
proof -
  obtain fd w1 where t: "ssh_tcp_connect S (px_host p) (uint (px_port p)) w = (fd, w1)" by (rule prod.exhaust)
  note T = ssh_tcp_connect_holds [OF assms(1) t]
  note def = assms(2) [unfolded ssh_session_create_def t prod.case]
  show ?thesis
  proof (cases "fd < 0")
    case True
    thus ?thesis using T def by auto
  next
    case False
    hence T': "fd \<notin># F" "world_holds (add_mset fd F) L w1" using T by auto
    obtain r w2 where i: "ssh_init S w1 = (r, w2)" by (rule prod.exhaust)
    note I = ssh_init_holds [OF T'(2) i]
    show ?thesis
    proof (cases r)
      case None
      thus ?thesis using I def False i by (auto intro: holds)
    next
      case (Some h)
      hence I': "h \<notin># L" "world_holds (add_mset fd F) (add_mset h L) w2" using I by auto
      obtain rc l where hs: "so_handshake S h fd (sw_lib w2) = (rc, l)" by (rule prod.exhaust)
      let ?w3 = "w2 \<lparr> sw_lib := l \<rparr>"
      have w3: "world_holds (add_mset fd F) (add_mset h L) ?w3" using I'(2) by (rule holds)
      obtain a w4 where au: "ssh_auth S h p ?w3 = (a, w4)" by (rule prod.exhaust)
      note A = ssh_auth_holds [OF w3 au]
      show ?thesis
      proof (cases "rc \<noteq> 0 \<or> a \<noteq> None")
        case True
        hence "ok = False \<and> s = s0 \<and> world_holds F L w'"
          using def False i Some hs au w3 A by (cases "rc = 0"; cases a) (auto simp: Let_def intro!: holds)
        thus ?thesis by simp
      next
        case False': False
        hence "ok" "w' = ssh_lib (so_set_blocking S h) w4"
          "s = s0 \<lparr> ss_session := Some h, ss_sock_fd := fd, ss_proxy_id := sint (px_id p), ss_connected := True \<rparr>"
          using def False i Some hs au by (auto simp: Let_def)
        moreover have "world_holds (add_mset fd F) (add_mset h L) w'" unfolding calculation(2) by (rule holds) (rule A)
        ultimately show ?thesis using False T'(1) I'(1)
          by (simp only: if_True not_less) (intro exI [of _ h] exI [of _ fd], simp)
      qed
    qed
  qed
qed

section \<open>The invariant of the pool\<close>

definition slot_ok :: "ssh_session \<Rightarrow> bool" where
  "slot_ok s \<longleftrightarrow> (if ss_connected s then ss_session s \<noteq> None \<and> 0 \<le> ss_sock_fd s else ss_session s = None \<and> ss_sock_fd s < 0)"

definition used_slots :: "ssh_session list \<Rightarrow> ssh_session multiset" where
  "used_slots xs = filter_mset ss_connected (mset xs)"

text \<open>
  \<open>F\<close> and \<open>L\<close> are what the rest of the process has open.  Beside that every open descriptor and every live
  session object belongs to exactly one connected slot, and a proxy has at most one.
\<close>

definition pool_inv :: "int multiset \<Rightarrow> int multiset \<Rightarrow> ssh_pool \<Rightarrow> 'w ssh_world \<Rightarrow> bool" where
  "pool_inv F L pool w \<longleftrightarrow> length (sp_sessions pool) = PF_MAX_PROXIES \<and> sp_count pool \<le> PF_MAX_PROXIES
     \<and> (\<forall>s \<in> set (sp_sessions pool). slot_ok s)
     \<and> (\<forall>i < PF_MAX_PROXIES. sp_count pool \<le> i \<longrightarrow> \<not> ss_connected (sp_sessions pool ! i))
     \<and> (\<forall>i < PF_MAX_PROXIES. \<forall>j < PF_MAX_PROXIES. ss_connected (sp_sessions pool ! i) \<and> ss_connected (sp_sessions pool ! j)
          \<and> ss_proxy_id (sp_sessions pool ! i) = ss_proxy_id (sp_sessions pool ! j) \<longrightarrow> i = j)
     \<and> world_holds (F + image_mset ss_sock_fd (used_slots (sp_sessions pool)))
                  (L + image_mset (the \<circ> ss_session) (used_slots (sp_sessions pool))) w"

lemma session_slots_update:
  assumes "i < length xs"
  shows "used_slots (xs[i := s]) = (if ss_connected s then {#s#} else {#})
    + (if ss_connected (xs ! i) then used_slots xs - {#xs ! i#} else used_slots xs)"
  using assms by (auto simp: used_slots_def mset_update)

lemma used_slot_split:
  assumes "i < length xs" "ss_connected (xs ! i)"
  shows "used_slots xs = add_mset (xs ! i) (used_slots (xs[i := s]) - (if ss_connected s then {#s#} else {#}))"
  using assms by (auto simp: session_slots_update) (simp_all add: used_slots_def)

lemma pool_inv_slot:
  assumes "pool_inv F L pool w" "i < PF_MAX_PROXIES"
  shows "slot_ok (sp_sessions pool ! i)" "i < length (sp_sessions pool)"
    "ss_connected (sp_sessions pool ! i) \<Longrightarrow> i < sp_count pool"
  using assms by (auto simp: pool_inv_def not_less [symmetric])

lemma pool_inv_invalidate:
  assumes inv: "pool_inv F L pool w" and i: "i < PF_MAX_PROXIES" "ss_connected (sp_sessions pool ! i)"
    and s: "session_invalidate S (sp_sessions pool ! i) w = (s, w')"
  shows "pool_inv F L (pool \<lparr> sp_sessions := (sp_sessions pool)[i := s] \<rparr>) w'"
    "s = (sp_sessions pool ! i) \<lparr> ss_session := None, ss_sock_fd := -1, ss_connected := False \<rparr>"
proof -
  let ?xs = "sp_sessions pool"
  have len: "i < length ?xs" using pool_inv_slot(2) [OF inv i(1)] .
  obtain h fd where hf: "ss_session (?xs ! i) = Some h" "ss_sock_fd (?xs ! i) = fd" "0 \<le> fd"
    using pool_inv_slot(1) [OF inv i(1)] i(2) by (auto simp: slot_ok_def)
  have s': "s = (?xs ! i) \<lparr> ss_session := None, ss_sock_fd := -1, ss_connected := False \<rparr>"
    "w' = ssh_close fd (ssh_free S h (ssh_lib (so_disconnect S h ''Closing session'') w))"
    using s hf by (auto simp: session_invalidate_def)
  have u: "used_slots ?xs = add_mset (?xs ! i) (used_slots (?xs[i := s]))"
    using used_slot_split [OF len i(2), of s] s'(1) by simp
  have "world_holds (F + image_mset ss_sock_fd (used_slots (?xs[i := s]))) (L + image_mset (the \<circ> ss_session) (used_slots (?xs[i := s]))) w'"
    using inv hf unfolding pool_inv_def u s'(2) by (intro holds) simp
  moreover have "slot_ok s" using s'(1) by (simp add: slot_ok_def)
  moreover have "\<not> ss_connected s" using s'(1) by simp
  ultimately show "pool_inv F L (pool \<lparr> sp_sessions := ?xs[i := s] \<rparr>) w'"
    using inv len unfolding pool_inv_def by (auto simp: nth_list_update dest!: set_update_subset_insert [THEN subsetD])
  show "s = (?xs ! i) \<lparr> ss_session := None, ss_sock_fd := -1, ss_connected := False \<rparr>" by (rule s'(1))
qed

lemma pool_inv_create:
  assumes inv: "pool_inv F L pool w" and i: "i < PF_MAX_PROXIES" "i \<le> sp_count pool" "\<not> ss_connected (sp_sessions pool ! i)"
    and new: "\<And>j. j < PF_MAX_PROXIES \<Longrightarrow> ss_connected (sp_sessions pool ! j) \<Longrightarrow> ss_proxy_id (sp_sessions pool ! j) \<noteq> sint (px_id p)"
    and c: "ssh_session_create S zero_session p w = (ok, s, w')"
  defines "n \<equiv> if ok \<and> i = sp_count pool then sp_count pool + 1 else sp_count pool"
  shows "pool_inv F L \<lparr> sp_sessions = (sp_sessions pool)[i := s], sp_count = n \<rparr> w'"
    "ss_connected s = ok" "ok \<Longrightarrow> ss_proxy_id s = sint (px_id p)"
proof -
  let ?xs = "sp_sessions pool"
  have len: "i < length ?xs" using pool_inv_slot(2) [OF inv i(1)] .
  have W: "world_holds (F + image_mset ss_sock_fd (used_slots ?xs)) (L + image_mset (the \<circ> ss_session) (used_slots ?xs)) w"
    using inv by (simp add: pool_inv_def)
  note C = ssh_create_holds [OF W c]
  have s: "ss_connected s = ok \<and> slot_ok s \<and> (ok \<longrightarrow> ss_proxy_id s = sint (px_id p))
    \<and> world_holds (F + image_mset ss_sock_fd (used_slots (?xs[i := s]))) (L + image_mset (the \<circ> ss_session) (used_slots (?xs[i := s]))) w'"
    using C i(3) by (cases ok) (auto simp: session_slots_update [OF len] slot_ok_def zero_session_def)
  have n: "n \<le> PF_MAX_PROXIES" "sp_count pool \<le> n" "ok \<Longrightarrow> i < n" using inv i(1,2) by (auto simp: n_def pool_inv_def)
  have new': "\<forall>j < PF_MAX_PROXIES. ss_connected (?xs ! j) \<longrightarrow> ss_proxy_id (?xs ! j) \<noteq> sint (px_id p)" using new by blast
  show "pool_inv F L \<lparr> sp_sessions = ?xs[i := s], sp_count = n \<rparr> w'"
    using inv s len n new' unfolding pool_inv_def
    by (auto simp: nth_list_update dest!: set_update_subset_insert [THEN subsetD])
  show "ss_connected s = ok" "ok \<Longrightarrow> ss_proxy_id s = sint (px_id p)" using s by auto
qed

lemma get_session_inv:
  assumes inv: "pool_inv F L pool w" and g: "pf_ssh_get_session S pool p w = (r, pool', w')"
  shows "pool_inv F L pool' w'"
    "r = Some i \<Longrightarrow> i < PF_MAX_PROXIES \<and> ss_connected (sp_sessions pool' ! i) \<and> ss_proxy_id (sp_sessions pool' ! i) = sint (px_id p)"
proof -
  let ?xs = "sp_sessions pool" and ?used = "take (sp_count pool) (sp_sessions pool)"
  let ?P = "\<lambda>s. ss_proxy_id s = sint (px_id p) \<and> ss_connected s"
  have len: "length ?xs = PF_MAX_PROXIES" "sp_count pool \<le> PF_MAX_PROXIES" "length ?used = sp_count pool"
    using inv by (simp_all add: pool_inv_def)
  have "pool_inv F L pool' w' \<and> (\<forall>i. r = Some i \<longrightarrow> i < PF_MAX_PROXIES \<and> ss_connected (sp_sessions pool' ! i)
    \<and> ss_proxy_id (sp_sessions pool' ! i) = sint (px_id p))"
  proof (cases "find_index ?P ?used")
    case (Some i)
    hence "i < sp_count pool" "?P (?xs ! i)" using len by (auto simp: find_index_Some)
    thus ?thesis using g Some inv len(2) by (auto simp: pf_ssh_get_session_def)
  next
    case None
    have new: "ss_proxy_id (?xs ! j) \<noteq> sint (px_id p)" if "j < PF_MAX_PROXIES" "ss_connected (?xs ! j)" for j
    proof -
      have "j < sp_count pool" using pool_inv_slot(3) [OF inv that] .
      hence "?xs ! j \<in> set ?used" using len by (metis nth_mem nth_take)
      thus ?thesis using None that(2) by (auto simp: find_index_None)
    qed
    let ?slot = "if sp_count pool < PF_MAX_PROXIES then Some (sp_count pool) else find_index (\<lambda>s. \<not> ss_connected s) ?used"
    show ?thesis
    proof (cases ?slot)
      case None': None
      thus ?thesis using g None inv by (simp add: pf_ssh_get_session_def)
    next
      case (Some i)
      have i: "i < PF_MAX_PROXIES" "i \<le> sp_count pool" "\<not> ss_connected (?xs ! i)"
        using Some len inv by (auto simp: find_index_Some pool_inv_def split: if_splits)
      obtain ok s w1 where c: "ssh_session_create S zero_session p w = (ok, s, w1)" by (metis prod.exhaust)
      note C = pool_inv_create [OF inv i new c]
      show ?thesis
      proof (cases ok)
        case True
        have "r = Some i \<and> pool' = \<lparr> sp_sessions = ?xs[i := s], sp_count = (if i = sp_count pool then sp_count pool + 1 else sp_count pool) \<rparr> \<and> w' = w1"
          using g None Some c True unfolding pf_ssh_get_session_def Let_def by simp
        thus ?thesis using C True i(1) len by simp
      next
        case False
        have "r = None \<and> pool' = \<lparr> sp_sessions = ?xs[i := s], sp_count = sp_count pool \<rparr> \<and> w' = w1"
          using g None Some c False unfolding pf_ssh_get_session_def Let_def by auto
        thus ?thesis using C False by simp
      qed
    qed
  qed
  thus "pool_inv F L pool' w'"
    "r = Some i \<Longrightarrow> i < PF_MAX_PROXIES \<and> ss_connected (sp_sessions pool' ! i) \<and> ss_proxy_id (sp_sessions pool' ! i) = sint (px_id p)"
    by blast+
qed

lemma pool_inv_world: "pool_inv F L pool w \<Longrightarrow> pool_inv F L pool (w \<lparr> sw_lib := l \<rparr>)"
  "pool_inv F L pool w \<Longrightarrow> pool_inv F L pool (ssh_lib f w)"
  by (simp_all add: pool_inv_def holds)

lemma ssh_try_inv:
  assumes "pool_inv F L pool w" "ssh_try S pool p host port w = ((r, ok), pool', w')"
  shows "pool_inv F L pool' w'" "r = Some i \<Longrightarrow> i < PF_MAX_PROXIES \<and> ss_connected (sp_sessions pool' ! i)"
proof -
  obtain r1 pool1 w1 where g: "pf_ssh_get_session S pool p w = (r1, pool1, w1)" by (metis prod.exhaust)
  note G = get_session_inv [OF assms(1) g]
  have e: "pool' = pool1 \<and> r = r1 \<and> (\<exists>l. w' = w1 \<lparr> sw_lib := l \<rparr>)"
    using assms(2) g by (cases r1) (auto simp: ssh_try_def split: prod.splits intro: exI [of _ "sw_lib w1"])
  then obtain l where "pool' = pool1" "w' = w1 \<lparr> sw_lib := l \<rparr>" by blast
  thus "pool_inv F L pool' w'" using pool_inv_world(1) [OF G(1)] by simp
  show "r = Some i \<Longrightarrow> i < PF_MAX_PROXIES \<and> ss_connected (sp_sessions pool' ! i)" using e G(2) by blast
qed

lemma ssh_connect_inv:
  assumes "pool_inv F L pool w" "pf_ssh_connect S pool p host port w = (ok, pool', w')"
  shows "pool_inv F L pool' w'"
proof (cases "port < 1 \<or> port > 65535")
  case True
  thus ?thesis using assms by (auto simp: pf_ssh_connect_def)
next
  case False
  obtain r1 ok1 pool1 w1 where t: "ssh_try S pool p host port w = ((r1, ok1), pool1, w1)" by (metis prod.exhaust)
  note T = ssh_try_inv [OF assms(1) t]
  show ?thesis
  proof (cases "r1 = None \<or> ok1")
    case True
    thus ?thesis using assms(2) t T(1) False by (cases r1; cases ok1) (auto simp: pf_ssh_connect_def)
  next
    case retry: False
    then obtain i where i: "r1 = Some i" "\<not> ok1" by auto
    hence I: "i < PF_MAX_PROXIES" "ss_connected (sp_sessions pool1 ! i)" using T(2) by auto
    obtain s w2 where v: "session_invalidate S (sp_sessions pool1 ! i) w1 = (s, w2)" by (rule prod.exhaust)
    note V = pool_inv_invalidate(1) [OF T(1) I v]
    obtain r2 ok2 pool2 w3 where t2: "ssh_try S (pool1 \<lparr> sp_sessions := (sp_sessions pool1)[i := s] \<rparr>) p host port w2 = ((r2, ok2), pool2, w3)"
      by (metis prod.exhaust)
    have "pool' = pool2 \<and> w' = w3" using assms(2) t i v t2 False by (auto simp: pf_ssh_connect_def)
    thus ?thesis using ssh_try_inv(1) [OF V t2] by simp
  qed
qed

lemma ssh_test_inv:
  assumes "pool_inv F L pool w" "pf_ssh_test S t0 t1 pool p w = (r, pool', w')"
  shows "pool_inv F L pool' w'"
proof (cases "px_type p \<noteq> PF_PROXY_SSH")
  case True
  thus ?thesis using assms by (auto simp: pf_ssh_test_def)
next
  case False
  obtain ok pool1 w1 where c: "pf_ssh_connect S pool p ''httpbin.org'' 443 w = (ok, pool1, w1)" by (metis prod.exhaust)
  have I: "pool_inv F L pool1 w1" by (rule ssh_connect_inv [OF assms(1) c])
  show ?thesis using assms(2) False c I pool_inv_world(2) [OF I] by (cases ok) (auto simp: pf_ssh_test_def)
qed

section \<open>Every history of the pool\<close>

lemma pool_init_inv:
  assumes "pf_ssh_pool_init S True w = (r, pool, w')"
  shows "pool_inv (mset (sw_fds w)) (mset (sw_live w)) pool w'"
  using assms by (auto simp: pf_ssh_pool_init_def pool_inv_def used_slots_def world_holds_def slot_ok_def zero_session_def
      filter_mset_eq_conv Let_def split: prod.splits)

lemma close_loop_inv:
  assumes "pool_inv F L (pool \<lparr> sp_sessions := xs \<rparr>) w" "\<forall>i \<in> set is. i < PF_MAX_PROXIES" "close_loop S is xs w = (xs', w')"
  shows "pool_inv F L (pool \<lparr> sp_sessions := xs' \<rparr>) w' \<and>
    (\<forall>i < PF_MAX_PROXIES. ss_connected (xs' ! i) \<longrightarrow> ss_connected (xs ! i) \<and> i \<notin> set is)"
  using assms
proof (induction "is" arbitrary: xs w)
  case (Cons i "is")
  have i: "i < PF_MAX_PROXIES" "i < length xs" using Cons.prems(1,2) by (auto simp: pool_inv_def)
  show ?case
  proof (cases "ss_connected (xs ! i)")
    case True
    obtain s w1 where v: "session_invalidate S (xs ! i) w = (s, w1)" by (rule prod.exhaust)
    note V = pool_inv_invalidate [OF Cons.prems(1) i(1), simplified, OF True v]
    have "close_loop S is (xs[i := s]) w1 = (xs', w')" using Cons.prems(3) True v by simp
    note IH = Cons.IH [OF V(1) _ this]
    have "\<not> ss_connected s" using V(2) by simp
    thus ?thesis using IH Cons.prems(2) i by (auto simp: nth_list_update split: if_splits)
  next
    case False
    hence "close_loop S is xs w = (xs', w')" using Cons.prems(3) by simp
    thus ?thesis using Cons.IH [OF Cons.prems(1)] Cons.prems(2) False by auto
  qed
qed simp

lemma pool_close_returns:
  assumes inv: "pool_inv F L pool w" and c: "pf_ssh_pool_close S pool w = (pool', w')"
  shows "world_holds F L w'"
proof -
  obtain xs w1 where l: "close_loop S [0..<sp_count pool] (sp_sessions pool) w = (xs, w1)" by (rule prod.exhaust)
  have "\<forall>i \<in> set [0..<sp_count pool]. i < PF_MAX_PROXIES" using inv by (auto simp: pool_inv_def)
  from close_loop_inv [OF _ this l, where pool = pool] inv
  have I: "pool_inv F L (pool \<lparr> sp_sessions := xs \<rparr>) w1"
    "\<forall>i < PF_MAX_PROXIES. ss_connected (xs ! i) \<longrightarrow> ss_connected (sp_sessions pool ! i) \<and> \<not> i < sp_count pool" by auto
  have none: "\<not> ss_connected s" if "s \<in> set xs" for s
  proof -
    obtain i where i: "i < PF_MAX_PROXIES" "s = xs ! i"
      using \<open>s \<in> set xs\<close> I(1) by (auto simp: in_set_conv_nth pool_inv_def)
    thus ?thesis using I(2) pool_inv_slot(3) [OF inv i(1)] by blast
  qed
  hence "used_slots xs = {#}" by (auto simp: used_slots_def filter_mset_eq_conv)
  hence "world_holds F L w1" using I(1) by (simp add: pool_inv_def)
  thus ?thesis using c l by (auto simp: pf_ssh_pool_close_def intro: holds)
qed

datatype ssh_call = SC_connect pf_proxy string int | SC_test pf_proxy "int \<times> int" "int \<times> int"

fun ssh_step :: "'w ssh_ops \<Rightarrow> ssh_call \<Rightarrow> ssh_pool \<times> 'w ssh_world \<Rightarrow> ssh_pool \<times> 'w ssh_world" where
  "ssh_step S (SC_connect p host port) (pool, w) = snd (pf_ssh_connect S pool p host port w)"
| "ssh_step S (SC_test p t0 t1) (pool, w) = snd (pf_ssh_test S t0 t1 pool p w)"

lemma ssh_run_inv:
  "pool_inv F L (fst pw) (snd pw) \<Longrightarrow> pool_inv F L (fst (fold (ssh_step S) calls pw)) (snd (fold (ssh_step S) calls pw))"
proof (induction calls arbitrary: pw)
  case (Cons c calls)
  obtain pool w where pw: "pw = (pool, w)" by (rule prod.exhaust)
  have "pool_inv F L (fst (ssh_step S c pw)) (snd (ssh_step S c pw))"
  proof (cases c)
    case (SC_connect p host port)
    obtain ok pool' w' where e: "pf_ssh_connect S pool p host port w = (ok, pool', w')" by (metis prod.exhaust)
    show ?thesis using ssh_connect_inv [OF _ e] Cons.prems unfolding SC_connect pw ssh_step.simps e by simp
  next
    case (SC_test p t0 t1)
    obtain r pool' w' where e: "pf_ssh_test S t0 t1 pool p w = (r, pool', w')" by (metis prod.exhaust)
    show ?thesis using ssh_test_inv [OF _ e] Cons.prems unfolding SC_test pw ssh_step.simps e by simp
  qed
  thus ?case using Cons.IH by simp
qed simp

text \<open>
  C17: whatever the network and the SSH library answer over any sequence of connections and tests, every
  open descriptor and every session object belongs to exactly one connected slot of the pool, no proxy has
  two sessions, the pool stays within its array, and closing it returns everything it took.
\<close>

theorem ssh_pool_accounts:
  assumes "pf_ssh_pool_init S True w0 = (r, pool0, w1)" "fold (ssh_step S) calls (pool0, w1) = (pool, w)"
  shows "pool_inv (mset (sw_fds w0)) (mset (sw_live w0)) pool w \<and>
    (case pf_ssh_pool_close S pool w of (_, w') \<Rightarrow>
       mset (sw_fds w') = mset (sw_fds w0) \<and> mset (sw_live w') = mset (sw_live w0))"
proof -
  have I: "pool_inv (mset (sw_fds w0)) (mset (sw_live w0)) pool w"
    using ssh_run_inv [of _ _ "(pool0, w1)" S calls] pool_init_inv [OF assms(1)] assms(2) by simp
  obtain pool' w' where c: "pf_ssh_pool_close S pool w = (pool', w')" by (rule prod.exhaust)
  show ?thesis using I pool_close_returns [OF I c] c by (simp add: world_holds_def)
qed

text \<open>A server that accepts the first connection and drops its session on the second channel.\<close>

definition demo_ssh :: "nat ssh_ops" where
  "demo_ssh = \<lparr> so_resolve = (\<lambda>host port n. (Some [D_refused, D_accepted], n)), so_session_init = (\<lambda>n. (True, n)),
     so_handshake = (\<lambda>h fd n. (0, n)), so_auth_password = (\<lambda>h u pw n. (0, n)), so_auth_pubkey = (\<lambda>h u k n. (-16, n)),
     so_set_blocking = (\<lambda>h n. n), so_disconnect = (\<lambda>h r n. n), so_session_free = (\<lambda>h n. n),
     so_direct_tcpip = (\<lambda>h host port n. (n \<noteq> 1, n + 1)), so_channel_free = (\<lambda>n. n),
     so_lib_init = (\<lambda>n. (0, n)), so_lib_exit = (\<lambda>n. n) \<rparr>"

definition demo_ssh_proxy :: "string \<Rightarrow> pf_proxy" where
  "demo_ssh_proxy host = \<lparr> px_id = 4, px_name = ''s'', px_type = PF_PROXY_SSH, px_host = host, px_port = 22, px_username = [],
     px_password = ''pw'', px_ssh_key_path = [], px_health = PF_HEALTH_UNKNOWN, px_latency_ms = 0, px_last_check = 0,
     px_bytes_sent = 0, px_bytes_recv = 0, px_enabled = 1 \<rparr>"

definition demo_ssh_world :: "nat ssh_world" where
  "demo_ssh_world = \<lparr> sw_fds = [2, 1, 0], sw_live = [], sw_lib = 0 \<rparr>"

definition demo_ssh_run :: "ssh_pool \<times> nat ssh_world" where
  "demo_ssh_run = (case pf_ssh_pool_init demo_ssh True demo_ssh_world of (_, pw) \<Rightarrow>
     fold (ssh_step demo_ssh) [SC_connect (demo_ssh_proxy ''a'') ''x.ch'' 80, SC_test (demo_ssh_proxy ''a'') (1, 0) (1, 7000000)] pw)"

theorem ssh_pool_accounts_witness:
  "case pf_ssh_pool_close demo_ssh (fst demo_ssh_run) (snd demo_ssh_run) of (_, w') \<Rightarrow> mset (sw_fds w') = {#0, 1, 2#} \<and> sw_live w' = []"
proof -
  obtain r pool0 w1 where i: "pf_ssh_pool_init demo_ssh True demo_ssh_world = (r, pool0, w1)" by (metis prod.exhaust)
  have "fold (ssh_step demo_ssh) [SC_connect (demo_ssh_proxy ''a'') ''x.ch'' 80, SC_test (demo_ssh_proxy ''a'') (1, 0) (1, 7000000)] (pool0, w1)
      = (fst demo_ssh_run, snd demo_ssh_run)"
    by (simp only: demo_ssh_run_def i prod.case prod.collapse)
  from ssh_pool_accounts [OF i this] show ?thesis
    by (auto simp: demo_ssh_world_def split: prod.splits)
qed

section \<open>Settings of a proxy that change\<close>

text \<open>
  A session is found by the number of its proxy alone.  After the host, the port or the credentials of
  a proxy were edited, connections and tests still use the session to the old server as long as it
  opens channels, and nothing of the new settings is looked at.
\<close>

theorem edited_proxy_keeps_session:
  assumes "pool_inv F L pool w" "i < PF_MAX_PROXIES" "ss_connected (sp_sessions pool ! i)"
    and "ss_proxy_id (sp_sessions pool ! i) = sint (px_id p)" "1 \<le> port" "port \<le> 65535"
    and "so_direct_tcpip S (the (ss_session (sp_sessions pool ! i))) host port (sw_lib w) = (True, l)"
  shows "pf_ssh_connect S pool p host port w = (True, pool, w \<lparr> sw_lib := l \<rparr>)"
proof -
  let ?P = "\<lambda>s. ss_proxy_id s = sint (px_id p) \<and> ss_connected s"
  have len: "length (sp_sessions pool) = PF_MAX_PROXIES" "sp_count pool \<le> PF_MAX_PROXIES" using assms(1) by (auto simp: pool_inv_def)
  have ic: "i < sp_count pool" using pool_inv_slot(3) [OF assms(1-3)] .
  have "j = i" if "j < sp_count pool" "?P (sp_sessions pool ! j)" for j
    using assms(1-4) that len(2) unfolding pool_inv_def by (metis less_le_trans)
  hence "find_index ?P (take (sp_count pool) (sp_sessions pool)) = Some i"
    unfolding find_index_Some using ic len assms(3,4) by (metis (no_types, lifting) length_take min.absorb2 nth_take order.strict_trans less_irrefl)
  hence "pf_ssh_get_session S pool p w = (Some i, pool, w)" by (simp add: pf_ssh_get_session_def)
  thus ?thesis using assms(5-7) by (simp add: pf_ssh_connect_def ssh_try_def)
qed

text \<open>Proxy 4 was edited from host a to host b while its session was open.\<close>

definition demo_ssh_pool :: ssh_pool where
  "demo_ssh_pool = \<lparr> sp_sessions = \<lparr> ss_session = Some 0, ss_sock_fd = 3, ss_proxy_id = 4, ss_connected = True \<rparr>
     # replicate 255 zero_session, sp_count = 1 \<rparr>"

theorem edited_proxy_keeps_session_witness:
  "pf_ssh_connect demo_ssh demo_ssh_pool (demo_ssh_proxy ''b'') ''x.ch'' 80 \<lparr> sw_fds = [3, 2, 1, 0], sw_live = [0], sw_lib = 5 \<rparr>
    = (True, demo_ssh_pool, \<lparr> sw_fds = [3, 2, 1, 0], sw_live = [0], sw_lib = 6 \<rparr>)"
proof -
  let ?w = "\<lparr> sw_fds = [3, 2, 1, 0], sw_live = [0], sw_lib = 5 :: nat \<rparr>"
  have z: "\<not> ss_connected zero_session" by (simp add: zero_session_def)
  have "used_slots (sp_sessions demo_ssh_pool) = {# \<lparr> ss_session = Some 0, ss_sock_fd = 3, ss_proxy_id = 4, ss_connected = True \<rparr> #}"
    using z by (simp add: used_slots_def demo_ssh_pool_def filter_mset_eq_conv)
  moreover have "\<forall>s \<in> set (sp_sessions demo_ssh_pool). slot_ok s"
    by (simp add: demo_ssh_pool_def slot_ok_def zero_session_def)
  moreover have "j = 0" if "j < PF_MAX_PROXIES" "ss_connected (sp_sessions demo_ssh_pool ! j)" for j
    using that z by (cases j) (auto simp: demo_ssh_pool_def PF_MAX_PROXIES_def)
  ultimately have "pool_inv {#0, 1, 2#} {#} demo_ssh_pool ?w"
    using z by (auto simp: pool_inv_def world_holds_def) (auto simp: demo_ssh_pool_def PF_MAX_PROXIES_def)
  from edited_proxy_keeps_session [OF this, of 0 "demo_ssh_proxy ''b''" 80 demo_ssh "''x.ch''" 6] show ?thesis
    by (simp add: demo_ssh_pool_def demo_ssh_proxy_def demo_ssh_def PF_MAX_PROXIES_def)
qed

end
