(* ===== verification/Logger.thy ===== *)
theory Logger
  imports Json Host "HOL-Library.Sublist"
begin

text \<open>
  \<^verbatim>\<open>logger.c\<close>: the connection log on disk, with rotation by size, and the JSON object of an entry.  The file
  system is a map from names to contents; \<open>opens\<close> tells which names \<^verbatim>\<open>fopen(name, "a")\<close> can open, \<open>stamp\<close> is
  \<^verbatim>\<open>strftime\<close> in the local time zone, and \<open>printed\<close> tells whether \<^verbatim>\<open>fprintf\<close> reports a written line.
\<close>

section \<open>Files\<close>

type_synonym files = "string \<Rightarrow> string option"

definition fopen_a :: "(string \<Rightarrow> bool) \<Rightarrow> string \<Rightarrow> files \<Rightarrow> files option" where
  "fopen_a opens name fs = (if opens name then Some (case fs name of None \<Rightarrow> fs(name \<mapsto> []) | Some _ \<Rightarrow> fs) else None)"

definition c_remove :: "string \<Rightarrow> files \<Rightarrow> files" where
  "c_remove name fs = fs(name := None)"

definition c_rename :: "string \<Rightarrow> string \<Rightarrow> files \<Rightarrow> files" where
  "c_rename old new fs = (case fs old of None \<Rightarrow> fs | Some c \<Rightarrow> if old = new then fs else fs(old := None, new \<mapsto> c))"

definition file_append :: "string \<Rightarrow> string \<Rightarrow> files \<Rightarrow> files" where
  "file_append name data fs = fs(name \<mapsto> (case fs name of Some c \<Rightarrow> c | None \<Rightarrow> []) @ data)"

section \<open>The logger\<close>

text \<open>\<open>lo_open\<close>: \<^verbatim>\<open>log_file\<close> is not NULL; it is always the file named by \<^verbatim>\<open>log_path\<close>.\<close>

record pf_logger =
  lo_disk_enabled :: bool
  lo_log_path :: string
  lo_open :: bool
  lo_max_size :: nat
  lo_max_files :: nat
  lo_current_size :: nat

definition app_basename :: "string \<Rightarrow> string" where
  "app_basename app_path = (if app_path = [] then ''unknown''
     else case strrchr app_path (CHR ''/'') of Some i \<Rightarrow> drop (i + 1) app_path | None \<Rightarrow> app_path)"

definition pf_logger_init :: "string \<Rightarrow> pf_logger" where
  "pf_logger_init path = \<lparr> lo_disk_enabled = False, lo_log_path = snprintf_s PF_PATH_MAX path, lo_open = False,
     lo_max_size = 100 * 1024 * 1024, lo_max_files = 5, lo_current_size = 0 \<rparr>"

definition pf_logger_close :: "pf_logger \<Rightarrow> pf_logger" where
  "pf_logger_close lo = lo \<lparr> lo_open := False, lo_disk_enabled := False \<rparr>"

definition pf_logger_disk_enable :: "(string \<Rightarrow> bool) \<Rightarrow> pf_logger \<Rightarrow> files \<Rightarrow> pf_err option \<times> pf_logger \<times> files" where
  "pf_logger_disk_enable opens lo fs =
     (if lo_disk_enabled lo \<and> lo_open lo then (None, lo, fs)
      else case fopen_a opens (lo_log_path lo) fs of
        None \<Rightarrow> (Some PF_ERR, lo \<lparr> lo_open := False \<rparr>, fs)
      | Some fs \<Rightarrow> (None, lo \<lparr> lo_open := True, lo_disk_enabled := True,
          lo_current_size := length (the (fs (lo_log_path lo))) \<rparr>, fs))"

definition pf_logger_disk_disable :: "pf_logger \<Rightarrow> pf_err option \<times> pf_logger" where
  "pf_logger_disk_disable lo = (None, lo \<lparr> lo_open := False, lo_disk_enabled := False \<rparr>)"

text \<open>\<^verbatim>\<open>%02d\<close> of a number that is not negative.\<close>

definition show_02d :: "nat \<Rightarrow> string" where
  "show_02d n = (if n < 10 then CHR ''0'' # show_nat n else show_nat n)"

definition slot_name :: "string \<Rightarrow> nat \<Rightarrow> string" where
  "slot_name path i = snprintf_s (PF_PATH_MAX + 16) (path @ CHR ''.'' # show_02d i)"

fun rotate_loop :: "string \<Rightarrow> nat \<Rightarrow> nat \<Rightarrow> files \<Rightarrow> files" where
  "rotate_loop path max_files 0 fs = fs"
| "rotate_loop path max_files (Suc i') fs =
     (let i = Suc i';
          old_name = (if i = 1 then snprintf_s (PF_PATH_MAX + 16) path else slot_name path (i - 1));
          new_name = slot_name path i;
          fs = (if i = max_files then c_remove new_name fs else fs)
      in rotate_loop path max_files i' (c_rename old_name new_name fs))"

definition pf_logger_rotate :: "(string \<Rightarrow> bool) \<Rightarrow> pf_logger \<Rightarrow> files \<Rightarrow> pf_err option \<times> pf_logger \<times> files" where
  "pf_logger_rotate opens lo fs =
     (let fs = rotate_loop (lo_log_path lo) (lo_max_files lo) (lo_max_files lo) fs in
      case fopen_a opens (lo_log_path lo) fs of
        None \<Rightarrow> (Some PF_ERR, lo \<lparr> lo_open := False, lo_disk_enabled := False \<rparr>, fs)
      | Some fs \<Rightarrow> (None, lo \<lparr> lo_open := True, lo_current_size := 0 \<rparr>, fs))"

definition log_line :: "(int \<Rightarrow> string) \<Rightarrow> pf_log_entry \<Rightarrow> string" where
  "log_line stamp e = ''['' @ snprintf_s 32 (stamp (le_ts e)) @ ''] ['' @ app_basename (le_app_path e) @ '':'' @ show_nat (unat (le_uid e))
     @ ''] '' @ le_domain e @ [CHR 0x20, CHR 0xE2, CHR 0x86, CHR 0x92, CHR 0x20] @ le_dst_ip e @ '':'' @ show_nat (unat (le_dst_port e))
     @ '' ('' @ pf_action_str (le_action e) @ '') '' @ show_nat (unat (le_bytes_sent e)) @ ''/'' @ show_nat (unat (le_bytes_recv e))
     @ '' '' @ show_nat (unat (le_latency_ms e)) @ ''ms'' @ [CHR 0x0A]"

definition log_entry_json :: "pf_log_entry \<Rightarrow> json" where
  "log_entry_json e = J_Object [(''ts'', j_int (le_ts e)), (''app'', J_String (app_basename (le_app_path e))),
     (''uid'', j_int (uint (le_uid e))), (''domain'', J_String (le_domain e)), (''dst_ip'', J_String (le_dst_ip e)),
     (''dst_port'', j_int (uint (le_dst_port e))), (''proxy_id'', j_int (uint (le_proxy_id e))),
     (''action'', J_String (pf_action_str (le_action e))), (''bytes_tx'', j_int (uint (le_bytes_sent e))),
     (''bytes_rx'', j_int (uint (le_bytes_recv e))), (''latency_ms'', j_int (uint (le_latency_ms e))),
     (''success'', j_int (le_success e))]"

definition pf_logger_log ::
  "(string \<Rightarrow> bool) \<Rightarrow> (int \<Rightarrow> string) \<Rightarrow> bool \<Rightarrow> pf_log_entry \<Rightarrow> pf_logger \<times> files \<Rightarrow> json \<times> pf_logger \<times> files" where
  "pf_logger_log opens stamp printed e lf = (case lf of (lo, fs) \<Rightarrow>
     (log_entry_json e,
      if \<not> (lo_disk_enabled lo \<and> lo_open lo) \<or> \<not> printed then (lo, fs)
      else let line = log_line stamp e;
               fs = file_append (lo_log_path lo) line fs;
               lo = lo \<lparr> lo_current_size := lo_current_size lo + length line \<rparr>
           in if lo_current_size lo \<ge> lo_max_size lo then snd (pf_logger_rotate opens lo fs) else (lo, fs)))"

section \<open>Rotation\<close>

text \<open>The name of the \<open>j\<close>th newest file: the log itself, then its numbered predecessors.\<close>

definition seg_name :: "string \<Rightarrow> nat \<Rightarrow> string" where
  "seg_name path j = (if j = 0 then path else path @ CHR ''.'' # show_02d j)"

lemma show_02d_inj: "show_02d i = show_02d j \<Longrightarrow> i = j"
proof -
  assume e: "show_02d i = show_02d j"
  have v: "nat_of_digits (show_02d n) = n" for n
  proof (cases "n < 10")
    case True
    have "nat_of_digits (CHR ''0'' # s) = nat_of_digits s" for s by (simp add: nat_of_digits_def digit_val_def)
    thus ?thesis using True by (simp add: show_02d_def)
  qed (simp add: show_02d_def)
  show "i = j" using v e by metis
qed

lemma seg_name_inj: "seg_name path i = seg_name path j \<longleftrightarrow> i = j"
  using show_02d_inj by (auto simp: seg_name_def)

lemma slot_names:
  assumes "length path < PF_PATH_MAX" "0 < i" "i < 1000"
  shows "slot_name path i = seg_name path i" "snprintf_s (PF_PATH_MAX + 16) path = seg_name path 0"
proof -
  have "length (show_nat i) \<le> 3" using assms(3) by (intro show_nat_length) simp_all
  hence "length (show_02d i) \<le> 4" by (simp add: show_02d_def)
  thus "slot_name path i = seg_name path i" "snprintf_s (PF_PATH_MAX + 16) path = seg_name path 0"
    using assms by (simp_all add: slot_name_def seg_name_def snprintf_s_id)
qed

lemma c_rename_at:
  assumes "old \<noteq> new"
  shows "c_rename old new fs old = None" "fs old = None \<longrightarrow> fs new = None \<Longrightarrow> c_rename old new fs new = fs old"
  using assms by (auto simp: c_rename_def split: option.split)

lemma c_rename_other: "n \<noteq> old \<Longrightarrow> n \<noteq> new \<Longrightarrow> c_rename old new fs n = fs n"
  by (simp add: c_rename_def split: option.split)

lemma rotate_loop_shifts:
  assumes "length path < PF_PATH_MAX" "m < 1000" "i \<le> m"
    and "\<forall>j \<le> i. fs (seg_name path j) = cont j" "\<forall>j < i. cont j = None \<longrightarrow> cont (Suc j) = None"
  defines "fs' \<equiv> rotate_loop path m i fs"
  shows "0 < i \<Longrightarrow> fs' (seg_name path 0) = None" "\<And>j. j < i \<Longrightarrow> fs' (seg_name path (Suc j)) = cont j"
    "\<And>n. (\<And>j. j \<le> i \<Longrightarrow> n \<noteq> seg_name path j) \<Longrightarrow> fs' n = fs n"
proof -
  have "(0 < i \<longrightarrow> fs' (seg_name path 0) = None) \<and> (\<forall>j < i. fs' (seg_name path (Suc j)) = cont j)
    \<and> (\<forall>n. (\<forall>j \<le> i. n \<noteq> seg_name path j) \<longrightarrow> fs' n = fs n)"
    using assms(3-5) unfolding fs'_def
  proof (induction i arbitrary: fs cont)
    case (Suc i)
    let ?old = "seg_name path i" and ?new = "seg_name path (Suc i)"
    let ?fs1 = "c_rename ?old ?new (if Suc i = m then c_remove ?new fs else fs)"
    have n0: "snprintf_s (PF_PATH_MAX + 16) path = seg_name path 0" using slot_names(2) [OF assms(1), of 1] by simp
    have names: "slot_name path (Suc i) = ?new"
      "(if Suc i = 1 then snprintf_s (PF_PATH_MAX + 16) path else slot_name path (Suc i - 1)) = ?old"
      using slot_names(1) [OF assms(1), of "Suc i"] slot_names(1) [OF assms(1), of i] Suc.prems(1) assms(2)
      unfolding n0 by (cases i; simp)+
    have step: "rotate_loop path m (Suc i) fs = rotate_loop path m i ?fs1"
      by (simp only: rotate_loop.simps Let_def names)
    have at: "fs ?old = cont i" "fs ?new = cont (Suc i)" using Suc.prems(2) by simp_all
    have new: "?fs1 ?new = cont i" "?fs1 ?old = None"
    proof -
      have ne: "?old \<noteq> ?new" by (simp add: seg_name_inj)
      have gap: "cont (Suc i) = None" if "cont i = None" by (rule Suc.prems(3) [rule_format, OF lessI that])
      let ?fs0 = "if Suc i = m then c_remove ?new fs else fs"
      have o: "?fs0 ?old = cont i" using at(1) by (simp add: c_remove_def seg_name_inj)
      moreover have "?fs0 ?new = None" if "cont i = None" using at(2) gap [OF that] by (simp add: c_remove_def)
      ultimately show "?fs1 ?new = cont i" "?fs1 ?old = None"
        using c_rename_at [OF ne, of ?fs0] by metis+
    qed
    have other: "?fs1 n = fs n" if n: "n \<noteq> ?old" "n \<noteq> ?new" for n
      using c_rename_other [OF n, of "if Suc i = m then c_remove ?new fs else fs"] n(2) by (cases "Suc i = m") (simp_all add: c_remove_def)
    have c1: "\<forall>j \<le> i. ?fs1 (seg_name path j) = (cont(i := None)) j"
      using new(2) other Suc.prems(2) by (auto simp: seg_name_inj)
    have c2: "\<forall>j < i. (cont(i := None)) j = None \<longrightarrow> (cont(i := None)) (Suc j) = None"
    proof (intro allI impI)
      fix j assume j: "j < i" "(cont(i := None)) j = None"
      hence "cont (Suc j) = None" by (intro Suc.prems(3) [rule_format]) auto
      thus "(cont(i := None)) (Suc j) = None" by simp
    qed
    note IH = Suc.IH [OF _ c1 c2, folded step]
    have "i \<le> m" using Suc.prems(1) by simp
    note IH = IH [OF this]
    have keep: "rotate_loop path m (Suc i) fs ?new = cont i" using IH new(1) by (auto simp: seg_name_inj)
    have zero: "rotate_loop path m (Suc i) fs (seg_name path 0) = None"
      using IH new(2) unfolding step by (cases i) auto
    have shifted: "rotate_loop path m (Suc i) fs (seg_name path (Suc j)) = cont j" if "j < Suc i" for j
      using IH keep that by (cases "j = i") (auto simp: less_Suc_eq)
    have frame: "rotate_loop path m (Suc i) fs n = fs n" if "\<forall>j \<le> Suc i. n \<noteq> seg_name path j" for n
      using IH that other [of n] by auto
    show ?case using zero shifted frame by blast
  qed simp
  thus "0 < i \<Longrightarrow> fs' (seg_name path 0) = None" "\<And>j. j < i \<Longrightarrow> fs' (seg_name path (Suc j)) = cont j"
    "\<And>n. (\<And>j. j \<le> i \<Longrightarrow> n \<noteq> seg_name path j) \<Longrightarrow> fs' n = fs n" by blast+
qed

section \<open>What the files hold\<close>

text \<open>The log as a list of segments, newest first: at most \<open>n\<close> closed ones behind the current one.\<close>

definition files_hold :: "string \<Rightarrow> nat \<Rightarrow> string list \<Rightarrow> files \<Rightarrow> bool" where
  "files_hold path n segs fs \<longleftrightarrow> (\<forall>j \<le> n. fs (seg_name path j) = (if j < length segs then Some (segs ! j) else None))"

definition keep_line :: "nat \<Rightarrow> nat \<Rightarrow> string \<Rightarrow> string list \<Rightarrow> string list" where
  "keep_line mx n line segs = (case segs of [] \<Rightarrow> [] | cur # old \<Rightarrow>
     if length (cur @ line) \<ge> mx then [] # take n ((cur @ line) # old) else (cur @ line) # old)"

definition logging :: "pf_logger \<Rightarrow> string list \<Rightarrow> files \<Rightarrow> bool" where
  "logging lo segs fs \<longleftrightarrow> lo_disk_enabled lo \<and> lo_open lo \<and> length (lo_log_path lo) < PF_PATH_MAX \<and> lo_max_files lo < 1000
     \<and> segs \<noteq> [] \<and> length segs \<le> lo_max_files lo + 1 \<and> lo_current_size lo = length (hd segs)
     \<and> files_hold (lo_log_path lo) (lo_max_files lo) segs fs"

lemma rotate_holds:
  assumes "files_hold path n segs fs" "segs \<noteq> []" "length path < PF_PATH_MAX" "n < 1000" "0 < n"
  shows "files_hold path n ([] # take n segs) ((rotate_loop path n n fs)(path \<mapsto> []))"
    "rotate_loop path n n fs path = None"
proof -
  let ?cont = "\<lambda>j. if j < length segs then Some (segs ! j) else None"
  have a: "\<forall>j \<le> n. fs (seg_name path j) = ?cont j" using assms(1) by (simp add: files_hold_def)
  have b: "\<forall>j < n. ?cont j = None \<longrightarrow> ?cont (Suc j) = None" by auto
  note R = rotate_loop_shifts [OF assms(3,4) order.refl a b]
  have p: "seg_name path 0 = path" by (simp add: seg_name_def)
  have "((rotate_loop path n n fs)(path \<mapsto> [])) (seg_name path j) = (if j < length ([] # take n segs) then Some (([] # take n segs) ! j) else None)"
    if "j \<le> n" for j
  proof (cases j)
    case 0
    thus ?thesis using p by simp
  next
    case (Suc i)
    have "seg_name path j \<noteq> path" using Suc seg_name_inj [of path j 0] p by simp
    moreover have "rotate_loop path n n fs (seg_name path (Suc i)) = ?cont i" using R(2) [of i] that Suc by simp
    ultimately show ?thesis using Suc that by auto
  qed
  thus "files_hold path n ([] # take n segs) ((rotate_loop path n n fs)(path \<mapsto> []))" unfolding files_hold_def by blast
  show "rotate_loop path n n fs path = None" using R(1) assms(5) p by simp
qed

lemma append_holds:
  assumes "files_hold path n (cur # old) fs"
  shows "files_hold path n ((cur @ d) # old) (file_append path d fs)"
proof -
  have p: "seg_name path 0 = path" by (simp add: seg_name_def)
  have c: "fs path = Some cur" using assms p by (auto simp: files_hold_def dest: spec [of _ 0])
  have "file_append path d fs (seg_name path j) = (if j < length ((cur @ d) # old) then Some (((cur @ d) # old) ! j) else None)"
    if "j \<le> n" for j
    using assms that seg_name_inj [of path j 0] p c by (cases j) (auto simp: files_hold_def file_append_def)
  thus ?thesis by (simp add: files_hold_def)
qed

lemma log_step_holds:
  assumes "logging lo segs fs" "opens (lo_log_path lo)" "0 < lo_max_files lo" "pf_logger_log opens stamp True e (lo, fs) = (j, lo', fs')"
  shows "logging lo' (keep_line (lo_max_size lo) (lo_max_files lo) (log_line stamp e) segs) fs'
    \<and> lo_log_path lo' = lo_log_path lo \<and> lo_max_size lo' = lo_max_size lo \<and> lo_max_files lo' = lo_max_files lo"
proof -
  let ?p = "lo_log_path lo" and ?n = "lo_max_files lo" and ?line = "log_line stamp e"
  obtain cur old where segs: "segs = cur # old" using assms(1) by (cases segs) (auto simp: logging_def)
  have L: "lo_disk_enabled lo" "lo_open lo" "length ?p < PF_PATH_MAX" "?n < 1000" "length (cur # old) \<le> ?n + 1"
    "lo_current_size lo = length cur" "files_hold ?p ?n (cur # old) fs"
    using assms(1) unfolding logging_def segs by auto
  note A = append_holds [OF L(7), of ?line]
  have big: "lo_current_size lo + length ?line = length (cur @ ?line)" using L(6) by simp
  show ?thesis
  proof (cases "length (cur @ ?line) \<ge> lo_max_size lo")
    case False
    hence "lo' = lo \<lparr> lo_current_size := length (cur @ ?line) \<rparr>" "fs' = file_append ?p ?line fs"
      using assms(4) L(1,2) big by (auto simp: pf_logger_log_def Let_def)
    thus ?thesis using L A False by (auto simp: logging_def keep_line_def segs)
  next
    case True
    have R: "files_hold ?p ?n ([] # take ?n ((cur @ ?line) # old)) ((rotate_loop ?p ?n ?n (file_append ?p ?line fs))(?p \<mapsto> []))"
      "rotate_loop ?p ?n ?n (file_append ?p ?line fs) ?p = None"
      using rotate_holds [OF A _ L(3,4) assms(3)] by simp_all
    have "lo' = lo \<lparr> lo_open := True, lo_current_size := 0 \<rparr>"
      "fs' = (rotate_loop ?p ?n ?n (file_append ?p ?line fs))(?p \<mapsto> [])"
      using assms(2,4) L(1,2) big True R(2) by (auto simp: pf_logger_log_def pf_logger_rotate_def fopen_a_def Let_def)
    thus ?thesis using L R(1) True by (auto simp: logging_def keep_line_def segs)
  qed
qed

definition log_all :: "(string \<Rightarrow> bool) \<Rightarrow> (int \<Rightarrow> string) \<Rightarrow> pf_log_entry list \<Rightarrow> pf_logger \<times> files \<Rightarrow> pf_logger \<times> files" where
  "log_all opens stamp es lf = fold (\<lambda>e lf. snd (pf_logger_log opens stamp True e lf)) es lf"

lemma log_all_holds:
  assumes "logging lo segs fs" "opens (lo_log_path lo)" "0 < lo_max_files lo" "log_all opens stamp es (lo, fs) = (lo', fs')"
  shows "logging lo' (fold (\<lambda>e. keep_line (lo_max_size lo) (lo_max_files lo) (log_line stamp e)) es segs) fs'
    \<and> lo_log_path lo' = lo_log_path lo \<and> lo_max_size lo' = lo_max_size lo \<and> lo_max_files lo' = lo_max_files lo"
  using assms
proof (induction es arbitrary: lo segs fs)
  case (Cons e es)
  obtain j lo1 fs1 where l: "pf_logger_log opens stamp True e (lo, fs) = (j, lo1, fs1)" by (metis prod.exhaust)
  note S = log_step_holds [OF Cons.prems(1-3) l]
  have "log_all opens stamp es (lo1, fs1) = (lo', fs')" using Cons.prems(4) l by (simp add: log_all_def)
  from Cons.IH [OF S [THEN conjunct1] _ _ this] S Cons.prems(2,3) show ?case by simp
qed (simp add: log_all_def)

text \<open>The segments hold the newest lines: what is gone came before, and only once all slots are full.\<close>

definition newest :: "nat \<Rightarrow> nat \<Rightarrow> string \<Rightarrow> string list \<Rightarrow> bool" where
  "newest mx n logged segs \<longleftrightarrow> segs \<noteq> [] \<and> length (hd segs) < mx \<and> (\<forall>s \<in> set (tl segs). mx \<le> length s)
     \<and> (\<exists>gone. logged = gone @ concat (rev segs) \<and> (gone = [] \<or> length segs = n + 1))"

lemma keep_line_newest:
  assumes "newest mx n logged segs" "0 < mx" "0 < n" "length segs \<le> n + 1"
  shows "newest mx n (logged @ line) (keep_line mx n line segs)"
proof -
  obtain cur old where segs: "segs = cur # old" using assms(1) by (cases segs) (auto simp: newest_def)
  obtain gone where g: "logged = gone @ concat (rev segs)" "gone = [] \<or> length segs = n + 1"
    using assms(1) by (auto simp: newest_def)
  have old: "\<forall>s \<in> set old. mx \<le> length s" using assms(1) by (simp add: newest_def segs)
  show ?thesis
  proof (cases "length (cur @ line) \<ge> mx")
    case False
    thus ?thesis using g old assms(1) by (auto simp: newest_def keep_line_def segs)
  next
    case True
    let ?all = "(cur @ line) # old"
    have k: "keep_line mx n line segs = [] # take n ?all" using True by (simp add: keep_line_def segs)
    have "concat (rev ?all) = concat (rev (drop n ?all)) @ concat (rev (take n ?all))"
      by (metis append_take_drop_id concat_append rev_append)
    hence "logged @ line = (gone @ concat (rev (drop n ?all))) @ concat (rev ([] # take n ?all))"
      using g(1) by (simp add: segs)
    moreover have "gone @ concat (rev (drop n ?all)) = [] \<or> length ([] # take n ?all) = n + 1"
      using g(2) assms(4) by (cases "length ?all \<le> n") (auto simp: segs)
    moreover have "\<forall>s \<in> set (take n ?all). mx \<le> length s" using old True by (metis in_set_takeD set_ConsD)
    ultimately show ?thesis unfolding newest_def k using assms(2) by auto
  qed
qed

lemma keep_line_bound: "length segs \<le> n + 1 \<Longrightarrow> length (keep_line mx n line segs) \<le> n + 1"
  by (auto simp: keep_line_def split: list.split)

lemma keep_lines_newest:
  assumes "newest mx n logged segs" "0 < mx" "0 < n" "length segs \<le> n + 1"
  shows "newest mx n (logged @ concat (map f es)) (fold (\<lambda>e. keep_line mx n (f e)) es segs)"
  using assms
proof (induction es arbitrary: logged segs)
  case (Cons e es)
  from Cons.IH [OF keep_line_newest [OF Cons.prems] Cons.prems(2,3) keep_line_bound [OF Cons.prems(4)]]
  show ?case by simp
qed simp

lemma newest_kept:
  assumes "newest mx n logged segs" "gone \<noteq> []" "logged = gone @ concat (rev segs)"
  shows "n * mx \<le> length (concat (rev segs))"
proof -
  obtain g where g: "logged = g @ concat (rev segs)" "g = [] \<or> length segs = n + 1" "\<forall>s \<in> set (tl segs). mx \<le> length s"
    using assms(1) by (auto simp: newest_def)
  hence l: "length segs = n + 1" using assms(2,3) by auto
  have "mx * length xs \<le> length (concat (rev xs))" if "\<forall>s \<in> set xs. mx \<le> length s" for xs :: "string list"
    using that by (induction xs) auto
  from this [OF g(3)] have "mx * n \<le> length (concat (rev (tl segs)))" using l by simp
  also have "\<dots> \<le> length (concat (rev segs))" using l by (cases segs) auto
  finally show ?thesis by (simp add: mult.commute)
qed

text \<open>
  C40: what is logged after the log was opened is on disk in order, cut at line ends into the log file
  and its five numbered predecessors: the files hold exactly the newest lines, the log file stays below 100 MiB,
  and a line disappears only when at least 500 MiB of newer ones are kept.
\<close>

theorem log_files_keep_newest:
  assumes "\<forall>j \<le> 5. fs0 (seg_name path j) = None" "length path < PF_PATH_MAX" "opens path"
    and "pf_logger_disk_enable opens (pf_logger_init path) fs0 = (r, lo, fs)"
    and "log_all opens stamp es (lo, fs) = (lo', fs')"
  shows "\<exists>segs gone. files_hold path 5 segs fs' \<and> segs \<noteq> [] \<and> length segs \<le> 6
    \<and> lo_current_size lo' = length (hd segs) \<and> length (hd segs) < 100 * 2 ^ 20
    \<and> concat (map (log_line stamp) es) = gone @ concat (rev segs)
    \<and> (gone = [] \<or> 500 * 2 ^ 20 \<le> length (concat (rev segs)))"
proof -
  have p: "seg_name path 0 = path" by (simp add: seg_name_def)
  have "fs0 path = None" using assms(1) p by (metis zero_le)
  hence lo: "lo = (pf_logger_init path) \<lparr> lo_open := True, lo_disk_enabled := True, lo_current_size := 0 \<rparr>" "fs = fs0(path \<mapsto> [])"
    using assms(2-4) by (auto simp: pf_logger_disk_enable_def pf_logger_init_def fopen_a_def snprintf_s_id)
  have init: "lo_log_path lo = path" "lo_max_files lo = 5" "lo_max_size lo = 100 * 2 ^ 20"
    using assms(2) by (simp_all add: lo(1) pf_logger_init_def snprintf_s_id)
  have "files_hold path 5 [[]] fs"
    unfolding files_hold_def lo(2) using assms(1) p seg_name_inj [of path _ 0] by auto
  hence "logging lo [[]] fs" using assms(2) by (simp add: logging_def init) (simp add: lo(1))
  from log_all_holds [OF this _ _ assms(5)]
  have L: "logging lo' (fold (\<lambda>e. keep_line (100 * 2 ^ 20) 5 (log_line stamp e)) es [[]]) fs'"
    "lo_log_path lo' = path" "lo_max_files lo' = 5"
    using assms(3) unfolding init by simp_all
  have N: "newest (100 * 2 ^ 20) 5 (concat (map (log_line stamp) es)) (fold (\<lambda>e. keep_line (100 * 2 ^ 20) 5 (log_line stamp e)) es [[]])"
    using keep_lines_newest [of "100 * 2 ^ 20" 5 "[]" "[[]]" "log_line stamp" es] by (simp add: newest_def)
  then obtain gone where g: "concat (map (log_line stamp) es) = gone @ concat (rev (fold (\<lambda>e. keep_line (100 * 2 ^ 20) 5 (log_line stamp e)) es [[]]))"
    by (auto simp: newest_def)
  have k: "gone = [] \<or> 500 * 2 ^ 20 \<le> length (concat (rev (fold (\<lambda>e. keep_line (100 * 2 ^ 20) 5 (log_line stamp e)) es [[]])))"
    using newest_kept [OF N _ g] by (cases "gone = []") simp_all
  have lg: "files_hold path 5 (fold (\<lambda>e. keep_line (100 * 2 ^ 20) 5 (log_line stamp e)) es [[]]) fs'"
    "length (fold (\<lambda>e. keep_line (100 * 2 ^ 20) 5 (log_line stamp e)) es [[]]) \<le> 6"
    "lo_current_size lo' = length (hd (fold (\<lambda>e. keep_line (100 * 2 ^ 20) 5 (log_line stamp e)) es [[]]))"
    using L(1) unfolding logging_def L(2,3) by simp_all
  show ?thesis using lg g k N unfolding newest_def by blast
qed

definition demo_entry :: pf_log_entry where
  "demo_entry = \<lparr> le_ts = 0, le_rule_id = 1, le_proxy_id = 2, le_uid = 1000, le_app_path = ''/usr/bin/curl'', le_domain = ''x.ch'',
     le_dst_ip = ''10.0.0.1'', le_dst_port = 443, le_action = PF_ACTION_PROXY, le_success = 1, le_latency_ms = 12,
     le_bytes_sent = 7, le_bytes_recv = 9 \<rparr>"

theorem log_files_keep_newest_witness:
  "\<exists>segs gone. files_hold ''l'' 5 segs (snd (log_all (\<lambda>_. True) (\<lambda>_. ''t'') [demo_entry, demo_entry]
      (snd (pf_logger_disk_enable (\<lambda>_. True) (pf_logger_init ''l'') (\<lambda>_. None)))))
    \<and> concat (map (log_line (\<lambda>_. ''t'')) [demo_entry, demo_entry]) = gone @ concat (rev segs)"
proof -
  obtain r lo fs where d: "pf_logger_disk_enable (\<lambda>_. True) (pf_logger_init ''l'') (\<lambda>_. None) = (r, lo, fs)" by (metis prod.exhaust)
  obtain lo' fs' where a: "log_all (\<lambda>_. True) (\<lambda>_. ''t'') [demo_entry, demo_entry] (lo, fs) = (lo', fs')" by (rule prod.exhaust)
  show ?thesis using log_files_keep_newest [OF _ _ _ d a] a unfolding d by (auto simp: PF_PATH_MAX_def)
qed

end
