(* ===== verification/Daemon.thy ===== *)
theory Daemon
  imports Requests
begin

text \<open>
  The start-up of \<^verbatim>\<open>main()\<close> (\<^verbatim>\<open>main.c\<close>) as far as it restores what the database says: rules, interception,
  nftables, DNS protection, control groups.  A step returns the result of its last command beside the
  context; the code only logs it.
\<close>

section \<open>Start-up\<close>

definition PF_TPROXY_PORT :: int where "PF_TPROXY_PORT = 12345"

definition start_mitm :: "'k request_env \<Rightarrow> 'k pf_ctx \<Rightarrow> 'k pf_ctx" where
  "start_mitm E c = (case pf_mitm_init (hq_mitm E) (cx_ca c) (cx_mitm c) of
     (Some _, m) \<Rightarrow> c \<lparr> cx_mitm := m \<rparr>
   | (None, m) \<Rightarrow>
       if config_or (hq_db E 0) (cx_db c) ''inspect_enabled'' 8 ''false'' = ''true'' \<and> mi_ca_key m \<noteq> None
       then c \<lparr> cx_mitm := m \<lparr> mi_enabled := 1 \<rparr> \<rparr> else c \<lparr> cx_mitm := m \<rparr>)"

definition start_quic :: "'k request_env \<Rightarrow> 'k pf_ctx \<Rightarrow> pf_err option \<times> 'k pf_ctx" where
  "start_quic E c = (if config_or (hq_db E 1) (cx_db c) ''quic_block_enabled'' 8 ''true'' \<noteq> ''false''
     then (case pf_nft_block_quic (hq_host E) (cx_host c) of (e, k) \<Rightarrow> (e, c \<lparr> cx_host := k \<rparr>))
     else (None, c))"

definition start_dns :: "'k request_env \<Rightarrow> 'k pf_ctx \<Rightarrow> pf_err option \<times> 'k pf_ctx" where
  "start_dns E c =
     (let dns_leak = config_or (hq_db E 2) (cx_db c) ''dns_leak_enabled'' 8 ''false'';
          dns_mode = config_or (hq_db E 3) (cx_db c) ''dns_mode'' 32 ''force-server''
      in if dns_leak \<noteq> ''true'' then (None, c)
         else if dns_mode = ''via-proxy'' then
           (let c = resolver_open E c in
            if hq_socket E = None then (Some PF_ERR, c)
            else case pf_nft_dns_via_proxy (hq_host E) PF_DNS_RESOLVER_PORT (cx_host c) of (e, k) \<Rightarrow> (e, c \<lparr> cx_host := k \<rparr>))
         else let dns_server = config_or (hq_db E 4) (cx_db c) ''dns_server'' 64 ''1.1.1.1'' in
           (case pf_nft_dns_leak_protect (hq_pton6 E) (hq_host E) dns_server (cx_host c) of (e, k) \<Rightarrow> (e, c \<lparr> cx_host := k \<rparr>)))"

definition start_nft :: "'k request_env \<Rightarrow> 'k pf_ctx \<Rightarrow> pf_err option \<times> 'k pf_ctx" where
  "start_nft E c = (case pf_nft_init (hq_host E) (cx_host c) of
     (Some e, k) \<Rightarrow> (Some e, c \<lparr> cx_host := k \<rparr>)
   | (None, k) \<Rightarrow>
       let c = c \<lparr> cx_host := k \<rparr>;
           c = on_host (pf_nft_setup_dns_redirect (hq_host E)) c;
           c = on_host (pf_nft_setup_tproxy (hq_host E) PF_TPROXY_PORT) c
       in (case start_quic E c of (q, c) \<Rightarrow> (case start_dns E c of (d, c) \<Rightarrow> (if q = None then d else q, c))))"

text \<open>\<open>dns_fd\<close> and \<open>listen_fd\<close> are the descriptors \<^verbatim>\<open>pf_dns_init\<close> and \<^verbatim>\<open>pf_tproxy_init\<close> open, if they do.\<close>

definition daemon_start :: "'k request_env \<Rightarrow> int option \<Rightarrow> int option \<Rightarrow> 'k pf_ctx \<Rightarrow> pf_err option \<times> 'k pf_ctx" where
  "daemon_start E dns_fd listen_fd c =
     (let c = rules_reload_locked E c;
          c = start_mitm E c;
          c = c \<lparr> cx_dns_fd := (case dns_fd of Some fd \<Rightarrow> fd | None \<Rightarrow> -1) \<rparr>
      in case start_nft E c of (e, c) \<Rightarrow>
         let c = on_host (pf_cgroup_init (hq_host E)) c;
             c = c \<lparr> cx_listen_fd := (case listen_fd of Some fd \<Rightarrow> fd | None \<Rightarrow> -1) \<rparr>
         in (e, setup_cgroups_for_existing_rules E c))"

section \<open>What a start leaves behind\<close>

text \<open>What nft is relied on for beyond \<open>nft_documented\<close>: tables and the two rules without a comment of the daemon's.\<close>

definition redirect_cmd :: string where
  "redirect_cmd = add_rule ''inet proxiflare output'' (scope1 @ '' udp dport 53 queue num 0 bypass'') ''pf_dns_nfqueue''"

definition tproxy_cmd :: string where
  "tproxy_cmd = snprintf_s 256 (''add rule ip proxiflare_tproxy prerouting ip protocol tcp meta mark 1 tproxy to 127.0.0.1:''
     @ show_int PF_TPROXY_PORT @ [LF])"

definition drop_table_cmd :: string where "drop_table_cmd = ''delete table inet proxiflare'' @ [LF]"

definition nft_tables :: "'k host \<Rightarrow> ('k \<Rightarrow> string \<Rightarrow> nft_rule list) \<Rightarrow> bool" where
  "nft_tables H rules \<longleftrightarrow>
     (\<forall>k ok k'. nft_feed H drop_table_cmd k = (ok, k') \<longrightarrow> (if ok then \<forall>c \<in> set nft_chains. rules k' c = [] else rules k' = rules k))
   \<and> (\<forall>s \<in> {''delete table ip proxiflare_tproxy'' @ [LF], main_table, tproxy_table, tproxy_cmd}. \<forall>k. rules (snd (nft_feed H s k)) = rules k)
   \<and> (\<forall>cmd k. rules (snd (system_ok H cmd k)) = rules k)
   \<and> (\<forall>k c. c \<noteq> ''inet proxiflare output'' \<longrightarrow> rules (snd (nft_feed H redirect_cmd k)) c = rules k c)"

definition cleared :: "'k host \<Rightarrow> ('k \<Rightarrow> string \<Rightarrow> nft_rule list) \<Rightarrow> 'k \<Rightarrow> bool" where
  "cleared H rules k \<longleftrightarrow> (\<forall>c \<in> set nft_chains. rules k c = []) \<or> fst (nft_feed H drop_table_cmd k)"

lemma nft_run_snd: "snd (nft_run H s k) = snd (nft_feed H s k)"
  by (simp add: nft_run_def split: prod.split)

lemma run_cmd_snd: "snd (run_cmd H s k) = snd (system_ok H s k)"
  by (simp add: run_cmd_def split: prod.split)

lemma nft_tablesD:
  assumes "nft_tables H rules"
  shows "nft_feed H drop_table_cmd k = (ok, k') \<Longrightarrow> if ok then \<forall>c \<in> set nft_chains. rules k' c = [] else rules k' = rules k"
    "s \<in> {''delete table ip proxiflare_tproxy'' @ [LF], main_table, tproxy_table, tproxy_cmd} \<Longrightarrow> rules (snd (nft_run H s k)) = rules k"
    "rules (snd (run_cmd H cmd k)) = rules k"
    "c \<noteq> ''inet proxiflare output'' \<Longrightarrow> rules (snd (nft_run H redirect_cmd k)) c = rules k c"
  using assms unfolding nft_tables_def nft_run_snd run_cmd_snd by (elim conjE; simp only: split_paired_all; metis)+

lemma nft_init_empty:
  assumes T: "nft_tables H rules" and "cleared H rules k" "pf_nft_init H k = (None, k')" "c \<in> set nft_chains"
  shows "rules k' c = []"
proof -
  note same = nft_tablesD(2) [OF T] and cmd = nft_tablesD(3) [OF T]
  let ?k1 = "snd (nft_run H drop_table_cmd k)"
  obtain ok k1 where d: "nft_feed H drop_table_cmd k = (ok, k1)" by (rule prod.exhaust)
  have "if ok then \<forall>c \<in> set nft_chains. rules k1 c = [] else rules k1 = rules k" by (rule nft_tablesD(1) [OF T d])
  hence e: "rules ?k1 c = []" using assms(2,4) d by (auto simp: cleared_def nft_run_snd split: if_splits)
  let ?k2 = "snd (nft_run H (''delete table ip proxiflare_tproxy'' @ [LF]) ?k1)"
  obtain r k3 where m: "nft_run H main_table ?k2 = (r, k3)" by (rule prod.exhaust)
  have k3: "rules k3 = rules ?k1" using same [of main_table ?k2] same [of "''delete table ip proxiflare_tproxy'' @ [LF]" ?k1] m by simp
  have init: "(case r of Some _ \<Rightarrow> (Some PF_ERR, k3) | None \<Rightarrow> (None,
      snd (run_cmd H ''ip route add local 0.0.0.0/0 dev lo table 100'' (snd (run_cmd H ''ip rule add fwmark 1 lookup 100''
        (snd (run_cmd H ''ip route del local 0.0.0.0/0 dev lo table 100 2>/dev/null''
          (snd (run_cmd H ''ip rule del fwmark 1 lookup 100 2>/dev/null'' (snd (nft_run H tproxy_table k3))))))))))) = (None, k')"
    using assms(3) m by (cases r) (simp_all only: pf_nft_init_def drop_table_cmd_def Let_def prod.case option.case)
  have "r = None" "rules k' = rules k3" using init cmd same by (cases r; auto)+
  thus ?thesis using k3 e by simp
qed

abbreviation NAT :: string where "NAT \<equiv> ''inet proxiflare output_nat''"
abbreviation FILTER :: string where "FILTER \<equiv> ''inet proxiflare output_filter''"

lemma block_quic_view:
  assumes H: "nft_documented H rules" "nft_can_delete H rules" "nft_view rules k FILTER = []"
    and "pf_nft_block_quic H k = (None, k')"
  shows "nft_view rules k' = (nft_view rules k)(FILTER := [(''pf_block_quic'', quic_body)])"
proof -
  have "length (filter (\<lambda>(cm, b). prefix ''pf_block_quic'' cm) (nft_view rules k FILTER)) \<le> 256" using assms(3) by simp
  from delete_view [OF H(1,2) out_chains(3) _ comment_keys(2) this, of "''inet''" "''proxiflare''" "''output_filter''"]
  obtain k1 where d: "nft_delete_by_comment H ''inet'' ''proxiflare'' ''output_filter'' ''pf_block_quic'' k = (None, k1)"
    "nft_view rules k1 = (nft_view rules k)(FILTER := filter (\<lambda>(cm, b). \<not> prefix ''pf_block_quic'' cm) (nft_view rules k FILTER))"
    by auto
  hence k1: "nft_view rules k1 = nft_view rules k" using assms(3) by (auto simp: fun_eq_iff)
  have "nft_run H (add_rule FILTER quic_body ''pf_block_quic'') k1 = (None, k')"
    using assms(4) d(1) unfolding pf_nft_block_quic_def nft_step_run Let_def by simp
  from add_view [OF H(1) _ this] show ?thesis using assms(3) by (simp add: daemon_rule_def k1)
qed

text \<open>The mode of DNS protection that is stored.\<close>

definition stored_dns :: "'k request_env \<Rightarrow> pf_db \<Rightarrow> u32 \<Rightarrow> dns_op" where
  "stored_dns E db w =
     (if config_or (hq_db E 2) db ''dns_leak_enabled'' 8 ''false'' \<noteq> ''true'' then Dns_off
      else if config_or (hq_db E 3) db ''dns_mode'' 32 ''force-server'' = ''via-proxy'' then Via_proxy PF_DNS_RESOLVER_PORT
      else Force_server w)"

lemma start_dns_view:
  assumes H: "nft_documented (hq_host E) rules" "nft_can_delete (hq_host E) rules"
    and "nft_view rules (cx_host c) NAT = []" "start_dns E c = (None, c')"
    and "config_or (hq_db E 4) (cx_db c) ''dns_server'' 64 ''1.1.1.1'' = inet_ntop4 w"
  shows "nft_view rules (cx_host c') = (nft_view rules (cx_host c))(NAT := dns_rules (stored_dns E (cx_db c) w))"
    "cx_db c' = cx_db c" "cx_ruleset c' = cx_ruleset c" "cx_mitm c' = cx_mitm c"
proof -
  have op: "nft_view rules k' = (nft_view rules (cx_host c))(NAT := dns_rules op)"
    if "dns_op_run (hq_pton6 E) (hq_host E) op (cx_host c) = (None, k')" for op k'
    using dns_op_view(1) [OF H _ _ that] assms(3) by simp
  let ?leak = "config_or (hq_db E 2) (cx_db c) ''dns_leak_enabled'' 8 ''false''"
  let ?mode = "config_or (hq_db E 3) (cx_db c) ''dns_mode'' 32 ''force-server''"
  have "nft_view rules (cx_host c') = (nft_view rules (cx_host c))(NAT := dns_rules (stored_dns E (cx_db c) w))
    \<and> cx_db c' = cx_db c \<and> cx_ruleset c' = cx_ruleset c \<and> cx_mitm c' = cx_mitm c"
  proof (cases "?leak = ''true''")
    case False
    thus ?thesis using assms(3,4) by (auto simp: start_dns_def stored_dns_def dns_rules_def fun_eq_iff)
  next
    case leak: True
    show ?thesis
    proof (cases "?mode = ''via-proxy''")
      case True
      obtain k' where "pf_nft_dns_via_proxy (hq_host E) PF_DNS_RESOLVER_PORT (cx_host c) = (None, k')" "c' = (resolver_open E c) \<lparr> cx_host := k' \<rparr>"
        using assms(4) leak True by (auto simp: start_dns_def Let_def resolver_open_def split: if_splits prod.splits)
      thus ?thesis using op [of "Via_proxy PF_DNS_RESOLVER_PORT" k'] leak True
        by (simp add: dns_op_run_def stored_dns_def resolver_open_def)
    next
      case False
      obtain k' where "pf_nft_dns_leak_protect (hq_pton6 E) (hq_host E) (inet_ntop4 w) (cx_host c) = (None, k')" "c' = c \<lparr> cx_host := k' \<rparr>"
        using assms(4,5) leak False by (auto simp: start_dns_def Let_def split: prod.splits)
      thus ?thesis using op [of "Force_server w" k'] leak False by (simp add: dns_op_run_def stored_dns_def)
    qed
  qed
  thus "nft_view rules (cx_host c') = (nft_view rules (cx_host c))(NAT := dns_rules (stored_dns E (cx_db c) w))"
    "cx_db c' = cx_db c" "cx_ruleset c' = cx_ruleset c" "cx_mitm c' = cx_mitm c" by blast+
qed

definition quic_rules :: "'k request_env \<Rightarrow> pf_db \<Rightarrow> (string \<times> string) list" where
  "quic_rules E db = (if config_or (hq_db E 1) db ''quic_block_enabled'' 8 ''true'' \<noteq> ''false'' then [(''pf_block_quic'', quic_body)] else [])"

lemma start_quic_view:
  assumes "nft_documented (hq_host E) rules" "nft_can_delete (hq_host E) rules" "nft_view rules (cx_host c) FILTER = []"
    and "start_quic E c = (None, c')"
  shows "nft_view rules (cx_host c') = (nft_view rules (cx_host c))(FILTER := quic_rules E (cx_db c))"
    "cx_db c' = cx_db c" "cx_ruleset c' = cx_ruleset c" "cx_mitm c' = cx_mitm c"
proof -
  have "nft_view rules (cx_host c') = (nft_view rules (cx_host c))(FILTER := quic_rules E (cx_db c))
    \<and> cx_db c' = cx_db c \<and> cx_ruleset c' = cx_ruleset c \<and> cx_mitm c' = cx_mitm c"
  proof (cases "config_or (hq_db E 1) (cx_db c) ''quic_block_enabled'' 8 ''true'' = ''false''")
    case True
    hence "c' = c" using assms(4) by (simp add: start_quic_def)
    thus ?thesis using True assms(3) by (simp add: quic_rules_def fun_eq_iff)
  next
    case False
    obtain r k' where q: "pf_nft_block_quic (hq_host E) (cx_host c) = (r, k')" by (rule prod.exhaust)
    hence "r = None" "c' = c \<lparr> cx_host := k' \<rparr>" using assms(4) False by (simp_all add: start_quic_def)
    thus ?thesis using block_quic_view [OF assms(1-3)] q False by (simp add: quic_rules_def)
  qed
  thus "nft_view rules (cx_host c') = (nft_view rules (cx_host c))(FILTER := quic_rules E (cx_db c))"
    "cx_db c' = cx_db c" "cx_ruleset c' = cx_ruleset c" "cx_mitm c' = cx_mitm c" by blast+
qed

lemma mkdir_rules: "nft_documented H rules \<Longrightarrow> rules (snd (c_mkdir H p k)) = rules k"
  by (simp add: nft_documented_def)

lemma cgroup_rules:
  assumes "nft_documented H rules"
  shows "rules (snd (pf_cgroup_init H k)) = rules k" "rules (snd (pf_cgroup_create_rule H n k)) = rules k"
proof -
  have "snd (pf_cgroup_init H k) = snd (c_mkdir H PF_CGROUP_BASE k)"
    by (simp add: pf_cgroup_init_def split: prod.split option.split)
  thus "rules (snd (pf_cgroup_init H k)) = rules k" using mkdir_rules [OF assms] by simp
  have "snd (pf_cgroup_create_rule H n k) = (case rule_path n PF_PATH_MAX of None \<Rightarrow> k | Some p \<Rightarrow> snd (c_mkdir H p k))"
    by (simp add: pf_cgroup_create_rule_def split: prod.split option.split)
  thus "rules (snd (pf_cgroup_create_rule H n k)) = rules k" using mkdir_rules [OF assms] by (simp split: option.split)
qed

lemma mark_rule_view:
  assumes "nft_documented (hq_host E) rules" "0 < n" "n < 2 ^ 31" "ch \<noteq> ''inet proxiflare output''"
  shows "nft_view rules (cx_host (mark_rule E n c)) ch = nft_view rules (cx_host c) ch"
proof -
  let ?k = "snd (pf_cgroup_create_rule (hq_host E) n (cx_host c))"
  obtain r k' where a: "pf_nft_add_cgroup_mark (hq_host E) n ?k = (r, k')" by (rule prod.exhaust)
  have "nft_view rules ?k = nft_view rules (cx_host c)" by (rule nft_view_same) (rule cgroup_rules(2) [OF assms(1)])
  thus ?thesis using add_mark_view [OF assms(1-3) a] a assms(4) by (auto simp: mark_rule_def on_host_def)
qed

lemma mark_rule_frame: "cx_db (mark_rule E n c) = cx_db c" "cx_ruleset (mark_rule E n c) = cx_ruleset c" "cx_mitm (mark_rule E n c) = cx_mitm c"
  by (simp_all add: mark_rule_def on_host_def)

lemma setup_cgroups_view:
  assumes "nft_documented (hq_host E) rules" "\<forall>r \<in> set (cx_ruleset c). 0 < sint (r_id r)" "ch \<noteq> ''inet proxiflare output''"
  shows "nft_view rules (cx_host (setup_cgroups_for_existing_rules E c)) ch = nft_view rules (cx_host c) ch
    \<and> cx_db (setup_cgroups_for_existing_rules E c) = cx_db c \<and> cx_ruleset (setup_cgroups_for_existing_rules E c) = cx_ruleset c
    \<and> cx_mitm (setup_cgroups_for_existing_rules E c) = cx_mitm c"
proof -
  let ?f = "\<lambda>r c. if r_app_path r \<noteq> [] \<and> r_enabled r \<noteq> 0 \<and> r_action r \<noteq> PF_ACTION_DIRECT then mark_rule E (sint (r_id r)) c else c"
  have "nft_view rules (cx_host (fold ?f rs c)) ch = nft_view rules (cx_host c) ch \<and> cx_db (fold ?f rs c) = cx_db c
    \<and> cx_ruleset (fold ?f rs c) = cx_ruleset c \<and> cx_mitm (fold ?f rs c) = cx_mitm c"
    if "\<forall>r \<in> set rs. 0 < sint (r_id r)" for rs c
    using that
  proof (induction rs arbitrary: c)
    case (Cons r rs)
    have i: "0 < sint (r_id r)" "sint (r_id r) < 2 ^ 31" using Cons.prems sint_lt [of "r_id r"] by simp_all
    show ?case using Cons.IH [of "?f r c"] Cons.prems mark_rule_view [OF assms(1) i assms(3), of c]
      by (simp add: mark_rule_frame)
  qed simp
  thus ?thesis using assms(2) by (simp add: setup_cgroups_for_existing_rules_def)
qed

lemma start_nft_view:
  assumes H: "nft_documented (hq_host E) rules" "nft_can_delete (hq_host E) rules" "nft_tables (hq_host E) rules"
    and "cleared (hq_host E) rules (cx_host c)" "start_nft E c = (None, c')"
    and server: "config_or (hq_db E 4) (cx_db c) ''dns_server'' 64 ''1.1.1.1'' = inet_ntop4 w"
  shows "nft_view rules (cx_host c') NAT = dns_rules (stored_dns E (cx_db c) w)"
    "nft_view rules (cx_host c') FILTER = quic_rules E (cx_db c)"
    "cx_db c' = cx_db c" "cx_ruleset c' = cx_ruleset c" "cx_mitm c' = cx_mitm c"
proof -
  let ?H = "hq_host E"
  obtain r k0 where i: "pf_nft_init ?H (cx_host c) = (r, k0)" by (rule prod.exhaust)
  have r: "r = None" using assms(5) i by (cases r) (simp_all add: start_nft_def)
  let ?k1 = "snd (pf_nft_setup_dns_redirect ?H k0)" let ?k2 = "snd (pf_nft_setup_tproxy ?H PF_TPROXY_PORT ?k1)"
  let ?c1 = "c \<lparr> cx_host := ?k2 \<rparr>"
  obtain q c2 where q: "start_quic E ?c1 = (q, c2)" by (rule prod.exhaust)
  obtain d c3 where d: "start_dns E c2 = (d, c3)" by (rule prod.exhaust)
  have "(if q = None then d else q, c3) = (None, c')"
    using assms(5) i r q d unfolding start_nft_def by (simp add: on_host_def Let_def)
  hence ok: "q = None" "d = None" "c3 = c'" by (simp_all split: if_splits)
  have e: "nft_view rules ?k2 ch = []" if "ch \<in> {NAT, FILTER}" for ch
  proof -
    have "rules k0 ch = []" using nft_init_empty [OF H(3) assms(4) i [unfolded r]] \<open>ch \<in> {NAT, FILTER}\<close> out_chains by blast
    moreover have "rules ?k1 ch = rules k0 ch"
      using nft_tablesD(4) [OF H(3), of ch k0] \<open>ch \<in> {NAT, FILTER}\<close> unfolding pf_nft_setup_dns_redirect_def nft_step_run redirect_cmd_def by auto
    moreover have "rules ?k2 = rules ?k1"
      using nft_tablesD(2) [OF H(3), of tproxy_cmd ?k1] unfolding pf_nft_setup_tproxy_def nft_step_run tproxy_cmd_def by blast
    ultimately show ?thesis by (simp add: nft_view_def)
  qed
  have fe: "nft_view rules (cx_host ?c1) FILTER = []" using e [of FILTER] by simp
  note Q = start_quic_view [OF H(1,2) fe q [unfolded ok(1)]]
  have ne: "nft_view rules (cx_host c2) NAT = []" using Q(1) e [of NAT] by simp
  have sv: "config_or (hq_db E 4) (cx_db c2) ''dns_server'' 64 ''1.1.1.1'' = inet_ntop4 w" using server Q(2) by simp
  note D = start_dns_view [OF H(1,2) ne d [unfolded ok(2)] sv, unfolded ok(3)]
  show "nft_view rules (cx_host c') NAT = dns_rules (stored_dns E (cx_db c) w)"
    "nft_view rules (cx_host c') FILTER = quic_rules E (cx_db c)"
    "cx_db c' = cx_db c" "cx_ruleset c' = cx_ruleset c" "cx_mitm c' = cx_mitm c"
    using Q D by simp_all
qed

lemma start_mitm_frame: "cx_db (start_mitm E c) = cx_db c" "cx_ruleset (start_mitm E c) = cx_ruleset c" "cx_host (start_mitm E c) = cx_host c"
  by (simp_all add: start_mitm_def split: prod.split option.split)

lemma daemon_start_state:
  assumes H: "nft_documented (hq_host E) rules" "nft_can_delete (hq_host E) rules" "nft_tables (hq_host E) rules"
    and "cleared (hq_host E) rules (cx_host c)" "daemon_start E dns_fd listen_fd c = (None, c')"
    and "config_or (hq_db E 4) (cx_db c) ''dns_server'' 64 ''1.1.1.1'' = inet_ntop4 w"
    and "\<forall>r \<in> set (snd (pf_rules_load (hq_reload E) (cx_db c))). 0 < sint (r_id r)"
  shows "nft_view rules (cx_host c') NAT = dns_rules (stored_dns E (cx_db c) w)"
    "nft_view rules (cx_host c') FILTER = quic_rules E (cx_db c)"
    "cx_db c' = cx_db c" "cx_ruleset c' = snd (pf_rules_load (hq_reload E) (cx_db c))"
    "cx_mitm c' = cx_mitm (start_mitm E c)"
proof -
  let ?rs = "snd (pf_rules_load (hq_reload E) (cx_db c))"
  let ?c1 = "(start_mitm E (rules_reload_locked E c)) \<lparr> cx_dns_fd := (case dns_fd of Some fd \<Rightarrow> fd | None \<Rightarrow> -1) \<rparr>"
  have c1: "cx_db ?c1 = cx_db c" "cx_ruleset ?c1 = ?rs" "cx_host ?c1 = cx_host c"
    by (simp_all add: start_mitm_frame rules_reload_locked_def)
  have m: "cx_mitm (start_mitm E (rules_reload_locked E c)) = cx_mitm (start_mitm E c)"
    by (auto simp: start_mitm_def rules_reload_locked_def split: prod.split option.split)
  obtain e c2 where n: "start_nft E ?c1 = (e, c2)" by (rule prod.exhaust)
  let ?c3 = "(on_host (pf_cgroup_init (hq_host E)) c2) \<lparr> cx_listen_fd := (case listen_fd of Some fd \<Rightarrow> fd | None \<Rightarrow> -1) \<rparr>"
  have o: "e = None" "c' = setup_cgroups_for_existing_rules E ?c3"
    using assms(5) n by (simp_all add: daemon_start_def Let_def)
  note N = start_nft_view [OF H _ n [unfolded o(1)], unfolded c1, OF assms(4,6)]
  have c3: "cx_db ?c3 = cx_db c" "cx_ruleset ?c3 = ?rs" "cx_mitm ?c3 = cx_mitm (start_mitm E c)"
    "nft_view rules (cx_host ?c3) = nft_view rules (cx_host c2)"
    using N(3,4,5) m nft_view_same [of rules, OF cgroup_rules(1) [OF H(1)]] by (simp_all add: on_host_def)
  have S: "nft_view rules (cx_host c') ch = nft_view rules (cx_host c2) ch \<and> cx_db c' = cx_db c \<and> cx_ruleset c' = ?rs
      \<and> cx_mitm c' = cx_mitm (start_mitm E c)" if "ch \<noteq> ''inet proxiflare output''" for ch
    using setup_cgroups_view [OF H(1) _ that, of ?c3] assms(7) unfolding o(2) c3 by simp
  show "nft_view rules (cx_host c') NAT = dns_rules (stored_dns E (cx_db c) w)"
    "nft_view rules (cx_host c') FILTER = quic_rules E (cx_db c)"
    "cx_db c' = cx_db c" "cx_ruleset c' = snd (pf_rules_load (hq_reload E) (cx_db c))"
    "cx_mitm c' = cx_mitm (start_mitm E c)"
    using S [of NAT] S [of FILTER] N(1,2) by simp_all
qed


section \<open>Protection survives a restart\<close>

lemma config_or_set:
  assumes "ok1 0" "ok2 0" "0 < n"
  shows "config_or ok2 (snd (pf_config_set ok1 db k v)) k' n d = (if k' = k then snprintf_s n v else config_or ok2 db k' n d)"
proof -
  have g: "pf_config_get ok2 db' k'' n = pf_config_get ok1 db' k'' n" for db' k''
    using assms by (simp add: pf_config_get_def)
  show ?thesis using config_set_get [where ok = ok1 and n = n and db = db and k = k and v = v, OF assms(1,3)] by (auto simp: config_or_def g)
qed

lemma leak_enable_runs:
  fixes E :: "'k request_env"
  assumes "pf_handle_request E ''dns_leak.enable'' params c = (reply_json ok_reply, c1)"
    and "text_or (param params ''mode'') ''force-server'' = mode"
    and "text_or (case param params ''dns_server'' of None \<Rightarrow> param params ''server'' | Some v \<Rightarrow> Some v) ''1.1.1.1'' = inet_ntop4 w"
    and "mode \<in> {''force-server'', ''via-proxy''}"
  defines "op \<equiv> if mode = ''via-proxy'' then Via_proxy PF_DNS_RESOLVER_PORT else Force_server w"
  obtains c0 :: "'k pf_ctx" and k' where "dns_op_run (hq_pton6 E) (hq_host E) op (cx_host c) = (None, k')" "cx_host c1 = k'"
    "cx_db c0 = cx_db c" "cx_db c1 = cx_db (let c = set_config (hq_db E 1) ''dns_mode'' mode (set_config (hq_db E 0) ''dns_leak_enabled'' ''true'' c0)
       in if mode = ''force-server'' then set_config (hq_db E 2) ''dns_server'' (inet_ntop4 w) c else c)"
proof -
  have m: "map_of handlers ''dns_leak.enable'' = Some dns_leak_enable" by (simp add: handlers_def)
  obtain ok c0 where s: "dns_switch E mode (inet_ntop4 w) c = (ok, c0)" by (rule prod.exhaust)
  have ne: "reply_json (Error e) \<noteq> reply_json ok_reply" for e by (simp add: reply_json_def ok_reply_def)
  have h: "pf_handle_request E ''dns_leak.enable'' params c = (case dns_leak_enable E params c of (r, c) \<Rightarrow> (reply_json r, c))"
    by (simp add: pf_handle_request_def m)
  let ?c1 = "let c = set_config (hq_db E 1) ''dns_mode'' mode (set_config (hq_db E 0) ''dns_leak_enabled'' ''true'' c0)
       in if mode = ''force-server'' then set_config (hq_db E 2) ''dns_server'' (inet_ntop4 w) c else c"
  have d: "dns_leak_enable E params c = (if ok then (ok_reply, ?c1) else (Error ''failed to set DNS rules'', c0))"
    unfolding dns_leak_enable_def Let_def assms(2,3) s by (cases ok) simp_all
  hence ok: "ok" "c1 = ?c1" using assms(1) h ne [of "''failed to set DNS rules''"] by (auto split: if_splits)
  obtain k' where k: "dns_op_run (hq_pton6 E) (hq_host E) op (cx_host c) = (None, k')" "cx_host c0 = k'" "cx_db c0 = cx_db c"
  proof (cases "mode = ''via-proxy''")
    case True
    thus ?thesis using s ok(1) that
      by (auto simp: dns_switch_def op_def dns_op_run_def resolver_open_def Let_def split: if_splits prod.splits)
  next
    case False
    thus ?thesis using s ok(1) that
      by (auto simp: dns_switch_def op_def dns_op_run_def resolver_close_def Let_def split: if_splits prod.splits)
  qed
  have "cx_host c1 = k'" using ok(2) k(2) by (simp add: set_config_def Let_def)
  show ?thesis by (rule that [OF k(1) \<open>cx_host c1 = k'\<close> k(3) arg_cong [OF ok(2), of cx_db]])
qed

text \<open>
  C7: DNS protection survives a restart.  When a client has switched it on, a daemon started later on the
  same database puts the same rules into the NAT chain as the request did, those of the mode and the server
  the client asked for, whatever the earlier run left in the kernel.
\<close>

theorem restart_keeps_dns_protection:
  fixes c :: "'k pf_ctx"
  assumes H1: "nft_documented (hq_host E1) rules" "nft_can_delete (hq_host E1) rules" "nft_view rules (cx_host c) NAT = []"
    and enable: "pf_handle_request E1 ''dns_leak.enable'' params c = (reply_json ok_reply, c1)"
      "text_or (param params ''mode'') ''force-server'' = mode" "mode \<in> {''force-server'', ''via-proxy''}"
      "text_or (case param params ''dns_server'' of None \<Rightarrow> param params ''server'' | Some v \<Rightarrow> Some v) ''1.1.1.1'' = inet_ntop4 w"
    and faults: "\<And>n. hq_db E1 n 0" "\<And>n. hq_db E2 n 0"
    and H2: "nft_documented (hq_host E2) rules" "nft_can_delete (hq_host E2) rules" "nft_tables (hq_host E2) rules"
      "cleared (hq_host E2) rules (cx_host c2)"
    and start: "cx_db c2 = cx_db c1" "daemon_start E2 dns_fd listen_fd c2 = (None, c3)"
      "\<forall>r \<in> set (snd (pf_rules_load (hq_reload E2) (cx_db c2))). 0 < sint (r_id r)"
      "mode = ''via-proxy'' \<Longrightarrow> \<exists>v. config_or (hq_db E2 4) (cx_db c) ''dns_server'' 64 ''1.1.1.1'' = inet_ntop4 v"
  shows "nft_view rules (cx_host c3) NAT = nft_view rules (cx_host c1) NAT
    \<and> nft_view rules (cx_host c3) NAT = dns_rules (if mode = ''via-proxy'' then Via_proxy PF_DNS_RESOLVER_PORT else Force_server w)"
proof -
  let ?op = "if mode = ''via-proxy'' then Via_proxy PF_DNS_RESOLVER_PORT else Force_server w"
  obtain c0 :: "'k pf_ctx" and k' where R: "dns_op_run (hq_pton6 E1) (hq_host E1) ?op (cx_host c) = (None, k')" "cx_host c1 = k'"
    "cx_db c0 = cx_db c" "cx_db c1 = cx_db (let c = set_config (hq_db E1 1) ''dns_mode'' mode (set_config (hq_db E1 0) ''dns_leak_enabled'' ''true'' c0)
       in if mode = ''force-server'' then set_config (hq_db E1 2) ''dns_server'' (inet_ntop4 w) c else c)"
    by (rule leak_enable_runs [OF enable(1,2,4,3)])
  have now: "nft_view rules (cx_host c1) NAT = dns_rules ?op"
    using dns_op_view(1) [OF H1(1,2) _ _ R(1)] H1(3) R(2) by simp
  have short: "snprintf_s 64 (inet_ntop4 w) = inet_ntop4 w" using inet_ntop4_length [of w] by (intro snprintf_s_id) simp
  have db: "config_or (hq_db E2 2) (cx_db c2) ''dns_leak_enabled'' 8 ''false'' = ''true''"
    "config_or (hq_db E2 3) (cx_db c2) ''dns_mode'' 32 ''force-server'' = mode"
    "config_or (hq_db E2 4) (cx_db c2) ''dns_server'' 64 ''1.1.1.1'' =
      (if mode = ''force-server'' then inet_ntop4 w else config_or (hq_db E2 4) (cx_db c) ''dns_server'' 64 ''1.1.1.1'')"
    using enable(3) R(3,4) start(1) faults short
    by (auto simp: set_config_def config_or_set Let_def snprintf_s_id)
  obtain v where v: "config_or (hq_db E2 4) (cx_db c2) ''dns_server'' 64 ''1.1.1.1'' = inet_ntop4 v" "mode = ''force-server'' \<longrightarrow> v = w"
    using db(3) start(4) enable(3) by (cases "mode = ''force-server''") auto
  have "stored_dns E2 (cx_db c2) v = ?op" using db(1,2) v(2) enable(3) by (auto simp: stored_dns_def)
  thus ?thesis using daemon_start_state(1) [OF H2 start(2) v(1) start(3)] now by simp
qed

section \<open>A concrete machine\<close>

text \<open>The nft of theory Nft, with the tables.\<close>

definition boot_scripts :: "string list" where
  "boot_scripts = [''delete table ip proxiflare_tproxy'' @ [LF], main_table, tproxy_table, tproxy_cmd, redirect_cmd]"

definition boot_host :: "nat list host" where
  "boot_host = demo_host \<lparr> nft_feed := (\<lambda>s k. if s = drop_table_cmd then (True, [])
     else if s \<in> set boot_scripts then (True, k) else demo_feed s k) \<rparr>"

lemma boot_sel [simp]: "nft_feed boot_host s k = (if s = drop_table_cmd then (True, []) else if s \<in> set boot_scripts then (True, k) else demo_feed s k)"
  "popen_read boot_host = popen_read demo_host" "system_ok boot_host = (\<lambda>c k. (True, k))" "c_mkdir boot_host = (\<lambda>p k. (None, k))"
  by (simp_all add: boot_host_def demo_host_def)

lemma boot_delete_cmd: "delete_cmd c h \<noteq> drop_table_cmd" "delete_cmd c h \<notin> set boot_scripts"
proof -
  have "take 3 (snprintf_s 256 (''add'' @ s)) = ''add''" for s :: string by (simp add: snprintf_s_def)
  hence t: "take 3 tproxy_cmd = ''add''" unfolding tproxy_cmd_def by (metis append_Cons append_Nil)
  have "delete_cmd c h \<noteq> tproxy_cmd"
  proof
    assume e: "delete_cmd c h = tproxy_cmd"
    have "take 3 (delete_cmd c h) = ''del''" by (simp add: delete_cmd_def)
    thus False unfolding e t by simp
  qed
  thus "delete_cmd c h \<noteq> drop_table_cmd" "delete_cmd c h \<notin> set boot_scripts"
    by (auto simp: delete_cmd_def drop_table_cmd_def boot_scripts_def main_table_def tproxy_table_def redirect_cmd_def add_rule_def)
qed

lemma char_in_nfqueue: "QUOT \<notin> set ''pf_dns_nfqueue''"
  by simp

lemma boot_add_rule:
  assumes "daemon_rule c body cm"
  shows "add_rule c body cm \<noteq> drop_table_cmd" "add_rule c body cm \<notin> set boot_scripts"
proof -
  have c: "c \<in> set nft_chains" "QUOT \<notin> set cm" using daemon_rule_shape [OF assms] by auto
  have "take 11 (snprintf_s 256 (''add rule ip'' @ s)) = ''add rule ip''" for s :: string by (simp add: snprintf_s_def)
  hence t: "take 11 tproxy_cmd = ''add rule ip''" unfolding tproxy_cmd_def by (metis append_Cons append_Nil)
  have i: "take 11 (add_rule c body cm) = ''add rule in''" using c(1) by (auto simp: add_rule_def nft_chains_def)
  have "add_rule c body cm \<noteq> tproxy_cmd"
  proof
    assume e: "add_rule c body cm = tproxy_cmd"
    show False using i unfolding e t by simp
  qed
  moreover have "add_rule c body cm \<noteq> redirect_cmd"
  proof
    assume "add_rule c body cm = redirect_cmd"
    from add_rule_inj [OF this [unfolded redirect_cmd_def] c(1) out_chains(1) c(2) char_in_nfqueue]
    have "cm = ''pf_dns_nfqueue''" by blast
    thus False using assms by (auto simp: daemon_rule_def mark_comment_def)
  qed
  ultimately show "add_rule c body cm \<noteq> drop_table_cmd" "add_rule c body cm \<notin> set boot_scripts"
    by (auto simp: drop_table_cmd_def boot_scripts_def main_table_def tproxy_table_def add_rule_def)
qed

lemma demo_host_sel: "nft_feed demo_host = demo_feed" "popen_read demo_host = demo_list"
  by (simp_all add: demo_host_def)

lemma boot_documented: "nft_documented boot_host demo_kernel" "nft_can_delete boot_host demo_kernel"
proof -
  note D = demo_documented [unfolded nft_documented_def]
  have "nft_listing boot_host demo_kernel" using D by (simp add: nft_listing_def)
  moreover have "nft_adding boot_host demo_kernel"
  proof -
    have "nft_feed boot_host (add_rule c body cm) k = nft_feed demo_host (add_rule c body cm) k" if "daemon_rule c body cm" for c body cm k
      using boot_add_rule [OF that] by (simp add: demo_host_sel)
    thus ?thesis using D unfolding nft_adding_def by simp
  qed
  moreover have "nft_deleting boot_host demo_kernel"
    using D boot_delete_cmd unfolding nft_deleting_def by (simp add: demo_host_sel)
  ultimately show "nft_documented boot_host demo_kernel" by (simp add: nft_documented_def)
  show "nft_can_delete boot_host demo_kernel"
    using demo_can_delete boot_delete_cmd unfolding nft_can_delete_def by (simp add: demo_host_sel)
qed

lemma tproxy_not_drop: "tproxy_cmd \<noteq> drop_table_cmd"
proof
  assume e: "tproxy_cmd = drop_table_cmd"
  have "take 3 (snprintf_s 256 (''add'' @ s)) = ''add''" for s :: string by (simp add: snprintf_s_def)
  hence t: "take 3 tproxy_cmd = ''add''" unfolding tproxy_cmd_def by (metis append_Cons append_Nil)
  show False using t unfolding e by (simp add: drop_table_cmd_def)
qed

lemma boot_tables: "nft_tables boot_host demo_kernel"
proof -
  have empty: "demo_kernel [] c = []" for c by (simp add: demo_kernel_def demo_item_def demo_at_def)
  have "s \<noteq> drop_table_cmd" if "s \<in> {''delete table ip proxiflare_tproxy'' @ [LF], main_table, tproxy_table, tproxy_cmd}" for s
    using that tproxy_not_drop by (auto simp: drop_table_cmd_def main_table_def tproxy_table_def)
  moreover have "redirect_cmd \<noteq> drop_table_cmd" by (simp add: redirect_cmd_def add_rule_def drop_table_cmd_def)
  ultimately show ?thesis unfolding nft_tables_def using empty by (auto simp: boot_scripts_def)
qed

lemma boot_delete_none:
  assumes "c = ''inet proxiflare '' @ ch" "c \<in> set nft_chains" "demo_kernel k c = []"
  shows "nft_delete_by_comment boot_host ''inet'' ''proxiflare'' ch key k = (None, k)"
proof -
  have "length c \<le> 100" using assms(2) by (auto simp: nft_chains_def)
  hence s: "snprintf_s 256 (''nft -a list chain '' @ c @ '' 2>/dev/null'') = list_cmd c"
    by (simp add: list_cmd_def snprintf_s_id)
  have "list_cmd c = list_cmd c' \<longleftrightarrow> c = c'" for c c' by (simp add: list_cmd_def)
  hence "demo_list (list_cmd c) k = Some []" using assms(2,3) by (auto simp: demo_list_def nft_chains_def)
  hence p: "popen_read boot_host (snprintf_s 256 (''nft -a list chain '' @ c @ '' 2>/dev/null'')) k = Some []"
    unfolding s by (simp add: demo_host_sel)
  have c: "''inet'' @ '' '' @ ''proxiflare'' @ '' '' @ ch = c" by (simp add: assms(1))
  show ?thesis unfolding nft_delete_by_comment_def Let_def c p by (simp add: fgets_all.simps)
qed

lemma boot_add:
  assumes "j < length demo_rules" "demo_rules ! j = (c, b, m)" "length k < 8"
  shows "nft_run boot_host (add_rule c b m) k = (None, k @ [Suc j])"
proof -
  have "daemon_rule c b m" using assms demo_rules_daemon by (metis nth_mem)
  thus ?thesis using boot_add_rule demo_add [OF assms] by (simp add: nft_run_def)
qed

lemma boot_via:
  assumes "demo_kernel k NAT = []" "length k < 7"
  shows "pf_nft_dns_via_proxy boot_host PF_DNS_RESOLVER_PORT k = (None, k @ [3, 4])"
proof -
  have d: "nft_delete_by_comment boot_host ''inet'' ''proxiflare'' ''output_nat'' ''pf_dns_leak'' k = (None, k)"
    using assms(1) by (intro boot_delete_none [where c = NAT]) simp_all
  have u: "nft_run boot_host (add_rule NAT (via_body ''udp'' 5353) ''pf_dns_leak'') k = (None, k @ [3])"
    using boot_add [of 2 NAT "via_body ''udp'' 5353" "''pf_dns_leak''" k] assms(2) by (simp add: demo_rules_def)
  have t: "nft_run boot_host (add_rule NAT (via_body ''tcp'' 5353) ''pf_dns_leak'') (k @ [3]) = (None, (k @ [3]) @ [4])"
    using boot_add [of 3 NAT "via_body ''tcp'' 5353" "''pf_dns_leak''" "k @ [3]"] assms(2) by (simp add: demo_rules_def)
  have s: "snprintf_s 512 (add_rule NAT (via_body p 5353) ''pf_dns_leak'') = add_rule NAT (via_body p 5353) ''pf_dns_leak''"
    if "p \<in> {''udp'', ''tcp''}" for p using that by (intro via_script) simp_all
  show ?thesis unfolding pf_nft_dns_via_proxy_def PF_DNS_RESOLVER_PORT_def d Let_def nft_step_run
    by (simp add: s u t)
qed

lemma boot_quic: "pf_nft_block_quic boot_host [] = (None, [5])"
proof -
  have "demo_kernel [] FILTER = []" by (simp add: demo_kernel_def demo_item_def demo_at_def)
  hence d: "nft_delete_by_comment boot_host ''inet'' ''proxiflare'' ''output_filter'' ''pf_block_quic'' [] = (None, [])"
    by (intro boot_delete_none [where c = FILTER]) simp_all
  have "nft_run boot_host (add_rule FILTER quic_body ''pf_block_quic'') [] = (None, [5])"
    using boot_add [of 4 FILTER quic_body "''pf_block_quic''" "[]"] by (simp add: demo_rules_def)
  thus ?thesis by (simp add: pf_nft_block_quic_def d nft_step_run)
qed

lemma boot_scripts_not_drop: "drop_table_cmd \<notin> set boot_scripts"
proof -
  have "''delete table ip proxiflare_tproxy'' @ [LF] \<noteq> drop_table_cmd" "main_table \<noteq> drop_table_cmd" "tproxy_table \<noteq> drop_table_cmd"
    "redirect_cmd \<noteq> drop_table_cmd"
    by (simp_all add: drop_table_cmd_def main_table_def tproxy_table_def redirect_cmd_def add_rule_def)
  thus ?thesis using tproxy_not_drop by (simp only: boot_scripts_def list.set insert_iff empty_iff) metis
qed

lemma boot_init: "pf_nft_init boot_host k = (None, [])" "snd (pf_nft_setup_dns_redirect boot_host []) = []"
  "snd (pf_nft_setup_tproxy boot_host PF_TPROXY_PORT []) = []"
proof -
  have run: "nft_run boot_host s k = (None, k)" if "s \<in> set boot_scripts" for s k
  proof -
    have "s \<noteq> drop_table_cmd" using boot_scripts_not_drop that by metis
    thus ?thesis using that by (auto simp: nft_run_def)
  qed
  have del: "nft_run boot_host drop_table_cmd k = (None, [])" for k by (simp add: nft_run_def)
  have cmd: "run_cmd boot_host c k = (None, k)" for c k by (simp add: run_cmd_def)
  show "pf_nft_init boot_host k = (None, [])"
    unfolding pf_nft_init_def drop_table_cmd_def [symmetric] Let_def by (simp add: del cmd run boot_scripts_def)
  show "snd (pf_nft_setup_dns_redirect boot_host []) = []"
    unfolding pf_nft_setup_dns_redirect_def nft_step_run redirect_cmd_def [symmetric] by (simp add: run boot_scripts_def)
  show "snd (pf_nft_setup_tproxy boot_host PF_TPROXY_PORT []) = []"
    unfolding pf_nft_setup_tproxy_def nft_step_run tproxy_cmd_def [symmetric] by (simp add: run boot_scripts_def)
qed

definition boot_env :: "nat list request_env" where
  "boot_env = \<lparr> hq_undef = hq_undef demo_env, hq_fnm = demo_fnm, hq_host = boot_host, hq_pton6 = (\<lambda>_. False), hq_crypto = demo_crypto,
     hq_db = (\<lambda>_ _. True), hq_reload = (\<lambda>_. True), hq_reorder = (\<lambda>_. True), hq_now = 5, hq_rand = None, hq_scan = (\<lambda>_. 0),
     hq_alloc = True, hq_net = (\<lambda>_ _. None), hq_evp = (\<lambda>_. []), hq_clock = ((0, 0), (0, 0)), hq_ssh_test = -1, hq_socket = Some 6,
     hq_ca = hq_ca demo_env, hq_mitm = env_ok \<rparr>"

definition boot_ctx :: "pf_db \<Rightarrow> int \<Rightarrow> nat list \<Rightarrow> nat list pf_ctx" where
  "boot_ctx db udp k = \<lparr> cx_db = db, cx_crypto = pf_crypto_init, cx_dns_fd = 0, cx_udp_fd = udp, cx_listen_fd = 0, cx_conn_count = 0,
     cx_ruleset = [], cx_mitm = mitm_ready, cx_running = True, cx_host = k, cx_ca = files_ok, cx_log = g_log_ring, cx_inspect = inspect_init \<rparr>"

lemma boot_env_sel [simp]: "hq_host boot_env = boot_host" "hq_db boot_env = (\<lambda>_ _. True)" "hq_reload boot_env = (\<lambda>_. True)"
  "hq_socket boot_env = Some 6"
  by (simp_all add: boot_env_def)

lemma boot_ctx_sel [simp]: "cx_db (boot_ctx db udp k) = db" "cx_host (boot_ctx db udp k) = k" "cx_udp_fd (boot_ctx db udp k) = udp"
  by (simp_all add: boot_ctx_def)

lemma default_server: "''1.1.1.1'' = inet_ntop4 0x01010101"
proof -
  have "char_of (49 :: nat) = CHR ''1''" by (simp add: char_of_eq_iff)
  thus ?thesis by (simp add: inet_ntop4_def show_nat.simps digit_char_def)
qed

lemma load_no_rules: "db_rules db = [] \<Longrightarrow> snd (pf_rules_load ok db) = []"
  by (simp add: pf_rules_load_def pf_config_rule_list_def split: sum.split)

text \<open>A start on this machine reports no failure, whatever was left in the kernel.\<close>

lemma boot_start:
  assumes "db_rules db = []" "config_or (\<lambda>_. True) db ''quic_block_enabled'' 8 ''true'' \<noteq> ''false''"
    and "config_or (\<lambda>_. True) db ''dns_leak_enabled'' 8 ''false'' \<noteq> ''true'' \<or> config_or (\<lambda>_. True) db ''dns_mode'' 32 ''force-server'' = ''via-proxy''"
  shows "fst (daemon_start boot_env None None (boot_ctx db 0 k)) = None"
proof -
  let ?c1 = "(start_mitm boot_env (rules_reload_locked boot_env (boot_ctx db 0 k))) \<lparr> cx_dns_fd := -1 \<rparr>"
  have c1: "cx_db ?c1 = db" "cx_host ?c1 = k" by (simp_all add: start_mitm_frame rules_reload_locked_def)
  have nat5: "demo_kernel [5] NAT = []" by (simp add: demo_kernel_def demo_item_def demo_at_def demo_rules_def upt_rec)
  have q: "start_quic boot_env (?c1 \<lparr> cx_host := [] \<rparr>) = (None, ?c1 \<lparr> cx_host := [5] \<rparr>)"
    using assms(2) c1 by (simp add: start_quic_def boot_quic)
  have d: "fst (start_dns boot_env (?c1 \<lparr> cx_host := [5] \<rparr>)) = None"
    using assms(3) c1 boot_via [OF nat5] by (auto simp: start_dns_def Let_def resolver_open_def)
  have "fst (start_nft boot_env ?c1) = None"
    using c1(2) d unfolding start_nft_def boot_env_sel c1(2) boot_init(1)
    by (simp add: on_host_def boot_init(2,3) q Let_def split: prod.split)
  moreover obtain e c2 where "start_nft boot_env ?c1 = (e, c2)" by (rule prod.exhaust)
  ultimately show ?thesis by (simp add: daemon_start_def Let_def)
qed


text \<open>A client switches DNS over the proxy on; the daemon is killed and started again.\<close>

definition demo_leak :: json where "demo_leak = J_Object [(''mode'', J_String ''via-proxy'')]"

theorem restart_keeps_dns_protection_witness:
  "\<exists>c1 c3. pf_handle_request boot_env ''dns_leak.enable'' (Some demo_leak) (boot_ctx pf_db_empty 5 []) = (reply_json ok_reply, c1)
    \<and> daemon_start boot_env None None (boot_ctx (cx_db c1) 0 (cx_host c1)) = (None, c3)
    \<and> nft_view demo_kernel (cx_host c3) NAT = dns_rules (Via_proxy PF_DNS_RESOLVER_PORT)"
proof -
  let ?c = "boot_ctx pf_db_empty 5 []"
  let ?on = "?c \<lparr> cx_host := [3, 4] \<rparr>"
  let ?c1 = "set_config (\<lambda>_. True) ''dns_mode'' ''via-proxy'' (set_config (\<lambda>_. True) ''dns_leak_enabled'' ''true'' ?on)"
  have ps: "param (Some demo_leak) ''mode'' = Some (J_String ''via-proxy'')" "param (Some demo_leak) ''dns_server'' = None"
    "param (Some demo_leak) ''server'' = None" by code_simp+
  have mode: "text_or (param (Some demo_leak) ''mode'') ''force-server'' = ''via-proxy''"
    and server: "text_or (case param (Some demo_leak) ''dns_server'' of None \<Rightarrow> param (Some demo_leak) ''server'' | Some v \<Rightarrow> Some v) ''1.1.1.1''
      = inet_ntop4 0x01010101"
    unfolding default_server [symmetric] ps by (simp_all add: text_or_def valuestring_def)
  have empty: "demo_kernel [] NAT = []" by (simp add: demo_kernel_def demo_item_def demo_at_def)
  have v: "pf_nft_dns_via_proxy boot_host PF_DNS_RESOLVER_PORT [] = (None, [3, 4])" using boot_via [OF empty] by simp
  have sw: "dns_switch boot_env ''via-proxy'' x ?c = (True, ?on)" for x
    unfolding dns_switch_def Let_def by (simp add: v)
  have m: "map_of handlers ''dns_leak.enable'' = Some dns_leak_enable" by (simp add: handlers_def)
  have req: "pf_handle_request boot_env ''dns_leak.enable'' (Some demo_leak) ?c = (reply_json ok_reply, ?c1)"
    unfolding pf_handle_request_def m option.case dns_leak_enable_def mode Let_def sw by simp
  have none: "config_or ok pf_db_empty key n d = d" for ok key n d by (simp add: config_or_def pf_config_get_def pf_db_empty_def)
  have db: "config_or (\<lambda>_. True) (cx_db ?c1) k n d = (if k = ''dns_mode'' then snprintf_s n ''via-proxy''
      else if k = ''dns_leak_enabled'' then snprintf_s n ''true'' else d)" if "0 < n" for k n d
    using that by (simp add: set_config_def config_or_set none)
  have rules: "db_rules (cx_db ?c1) = []" by (simp add: frame pf_db_empty_def)
  obtain e c3 where s: "daemon_start boot_env None None (boot_ctx (cx_db ?c1) 0 [3, 4]) = (e, c3)" by (rule prod.exhaust)
  have e: "e = None" using boot_start [OF rules, of "[3, 4]"] s by (simp add: db snprintf_s_id)
  have host: "cx_host ?c1 = [3, 4]" by (simp add: set_config_def)
  have start: "daemon_start boot_env None None (boot_ctx (cx_db ?c1) 0 (cx_host ?c1)) = (None, c3)" using s e host by simp
  have view: "nft_view demo_kernel (cx_host ?c) NAT = []" using empty by (simp add: nft_view_def)
  have cl: "cleared boot_host demo_kernel k" for k by (simp add: cleared_def)
  have "nft_view demo_kernel (cx_host c3) NAT = dns_rules (Via_proxy PF_DNS_RESOLVER_PORT)"
    using restart_keeps_dns_protection [of boot_env demo_kernel ?c "Some demo_leak" ?c1 "''via-proxy''" "0x01010101" boot_env
        "boot_ctx (cx_db ?c1) 0 (cx_host ?c1)" None None c3] boot_documented boot_tables cl view req mode server start rules
      default_server load_no_rules [OF rules] by (simp add: none) blast
  thus ?thesis using req start by blast
qed

end
