(* ===== verification/Event_Loop.thy ===== *)
theory Event_Loop
  imports Daemon Ipc Tproxy Monitor Ssh Logger Inspect Dns_Resolver Stats
begin

text \<open>
  \<^verbatim>\<open>main.c\<close>, the process: command line, signals, opening of the kernel interfaces (\<^verbatim>\<open>ipc.c\<close>, \<^verbatim>\<open>tproxy.c\<close>,
  \<^verbatim>\<open>dns.c\<close>), the start in the order of the code, what the event loop does with a readable descriptor, the
  threads it starts, and shutdown.  The operations are those of the theories of the components.
\<close>

section \<open>Command line, process file, signals\<close>

datatype args_result = AR_run bool string ca_files | AR_exit int ca_files

fun parse_args :: "ca_env \<Rightarrow> bool \<Rightarrow> string \<Rightarrow> ca_files \<Rightarrow> string list \<Rightarrow> args_result" where
  "parse_args C foreground config_dir fs [] = AR_run foreground config_dir fs"
| "parse_args C foreground config_dir fs (a # as) =
     (if a = ''--foreground'' then parse_args C True config_dir fs as
      else if a = ''--config-dir'' \<and> as \<noteq> [] then parse_args C foreground (hd as) fs (tl as)
      else if a = ''--generate-ca'' then
        (case pf_mitm_generate_ca C fs of (None, fs) \<Rightarrow> AR_exit 0 fs | (Some _, fs) \<Rightarrow> AR_exit 1 fs)
      else AR_exit 1 fs)"

text \<open>\<open>opened\<close>: \<^verbatim>\<open>fopen\<close> succeeds; what is written then does not change the result.\<close>

definition write_pid_file :: "'k host \<Rightarrow> bool \<Rightarrow> int \<Rightarrow> string \<Rightarrow> 'k \<Rightarrow> bool \<times> 'k" where
  "write_pid_file H opened pid path k =
     (let dir = snprintf_s PF_PATH_MAX path;
          k = (case strrchr dir (CHR ''/'') of Some i \<Rightarrow> snd (c_mkdir H (take i dir) k) | None \<Rightarrow> k)
      in if \<not> opened then (False, k) else (True, snd (file_write H path (show_int pid @ [LF]) k)))"

definition SIGINT :: int where "SIGINT = 2"
definition SIGTERM :: int where "SIGTERM = 15"

definition sig_handler :: "int \<Rightarrow> 'k pf_ctx \<Rightarrow> 'k pf_ctx" where
  "sig_handler signum c = (if signum = SIGTERM \<or> signum = SIGINT then c \<lparr> cx_running := False \<rparr> else c)"

definition sig_hup :: "int \<Rightarrow> bool \<Rightarrow> bool" where
  "sig_hup signum reload = True"

text \<open>The flag \<^verbatim>\<open>g_in_fatal\<close>; the handler ends the process either way.\<close>

definition sig_fatal :: "'k host \<Rightarrow> bool \<Rightarrow> 'k \<Rightarrow> bool \<times> 'k" where
  "sig_fatal H in_fatal k = (if in_fatal then (True, k)
     else (True, snd (system_ok H (''nft delete table inet proxiflare 2>/dev/null; '' @ ''nft delete table ip proxiflare_tproxy 2>/dev/null; ''
       @ ''ip rule del fwmark 1 lookup 100 2>/dev/null; '' @ ''ip route flush table 100 2>/dev/null'') k)))"

section \<open>Opening the kernel interfaces\<close>

text \<open>
  How the calls of a set-up go: the descriptor of \<^verbatim>\<open>socket\<close>, the socket option that is checked, \<^verbatim>\<open>bind\<close> (to the
  given address), \<^verbatim>\<open>listen\<close>, \<^verbatim>\<open>fcntl\<close>, the descriptor of \<^verbatim>\<open>epoll_create1\<close>.  \<open>fds\<close> are the open descriptors.
\<close>

record 'a listen_env =
  ls_socket :: "int option"
  ls_option :: bool
  ls_bind :: "'a \<Rightarrow> bool"
  ls_listen :: bool
  ls_nonblock :: bool
  ls_epoll :: "int option"

definition pf_ipc_open :: "string listen_env \<Rightarrow> string \<Rightarrow> int list \<Rightarrow> int \<times> pf_ipc \<times> int list" where
  "pf_ipc_open L socket_path fds = (let ipc = pf_ipc_init (-1) in case ls_socket L of
     None \<Rightarrow> (-1, ipc, fds)
   | Some fd \<Rightarrow> let fds = fd # fds in
       if \<not> ls_bind L (take 107 socket_path) then (-1, ipc, remove1 fd fds)
       else if \<not> ls_listen L then (-1, ipc, remove1 fd fds)
       else if \<not> ls_nonblock L then (-1, ipc, remove1 fd fds)
       else (fd, ipc \<lparr> ip_listen_fd := fd \<rparr>, fds))"

definition pf_tproxy_open :: "u16 listen_env \<Rightarrow> int \<Rightarrow> int list \<Rightarrow> pf_err option \<times> pf_tproxy \<times> int list" where
  "pf_tproxy_open L port fds = (let tp = pf_tproxy_init (-1) (-1) in case ls_socket L of
     None \<Rightarrow> (Some PF_ERR_NET, tp, fds)
   | Some fd \<Rightarrow> let fds = fd # fds in
       if \<not> ls_option L then (Some PF_ERR_NET, tp, remove1 fd fds)
       else if \<not> ls_bind L (of_int port) then (Some PF_ERR_NET, tp, remove1 fd fds)
       else if \<not> ls_listen L then (Some PF_ERR_NET, tp, remove1 fd fds)
       else (case ls_epoll L of
         None \<Rightarrow> (Some PF_ERR_NET, tp, remove1 fd fds)
       | Some efd \<Rightarrow> (None, tp \<lparr> tp_listen_fd := fd, tp_epoll_fd := efd \<rparr>, efd # fds)))"

text \<open>The queue of netfilter: what the calls of the library return, and which of its objects are held.\<close>

record nfq_env =
  nq_open :: bool
  nq_bind_pf :: bool
  nq_create :: bool
  nq_mode :: bool
  nq_fd :: int

datatype nfq_object = Nfq_handle | Nfq_queue

definition pf_dns_open :: "nfq_env \<Rightarrow> pf_rule list \<Rightarrow> nfq_object list \<Rightarrow> pf_err option \<times> int \<times> pf_dns \<times> nfq_object list" where
  "pf_dns_open N rs held = (let dns = pf_dns_init rs in
     if \<not> nq_open N then (Some PF_ERR_NET, -1, dns, held)
     else let held = Nfq_handle # held in
       if \<not> nq_bind_pf N then (Some PF_ERR_NET, -1, dns, remove1 Nfq_handle held)
       else if \<not> nq_create N then (Some PF_ERR_NET, -1, dns, remove1 Nfq_handle held)
       else let held = Nfq_queue # held in
         if \<not> nq_mode N then (Some PF_ERR_NET, -1, dns, remove1 Nfq_handle (remove1 Nfq_queue held))
         else (None, nq_fd N, dns, held))"

text \<open>The pointers \<^verbatim>\<open>queue\<close> and \<^verbatim>\<open>nfq\<close> are not NULL exactly when their objects are held.\<close>

definition pf_dns_close :: "nfq_object list \<Rightarrow> nfq_object list" where
  "pf_dns_close held = remove1 Nfq_handle (remove1 Nfq_queue held)"

text \<open>A call of \<^verbatim>\<open>recv\<close>: EAGAIN, EWOULDBLOCK or EINTR; another error; data the library refuses; a packet.\<close>

datatype nfq_recv = NR_again | NR_fail | NR_refused | NR_packet bytes

definition pf_dns_process :: "fnm_env \<Rightarrow> int \<Rightarrow> nfq_recv \<Rightarrow> pf_dns \<Rightarrow> pf_err option \<times> pf_dns" where
  "pf_dns_process E now rcv dns = (case rcv of
     NR_again \<Rightarrow> (None, dns)
   | NR_fail \<Rightarrow> (Some PF_ERR_NET, dns)
   | NR_refused \<Rightarrow> (Some PF_ERR_NET, dns)
   | NR_packet payload \<Rightarrow> (None, dns_callback E now payload dns))"

section \<open>The daemon\<close>

text \<open>
  \<^verbatim>\<open>struct pf_ctx\<close> with the state the requests do not reach, the globals of \<^verbatim>\<open>main.c\<close>, the descriptors in the epoll
  set, and the work handed to threads: accepted connections and DNS queries.
\<close>

record 'k daemon =
  dm_ctx :: "'k pf_ctx"
  dm_ipc :: pf_ipc
  dm_dns :: pf_dns
  dm_nfq :: "nfq_object list"
  dm_resolver :: doh_resolver
  dm_cache :: doh_cache
  dm_tproxy :: pf_tproxy
  dm_logger :: pf_logger
  dm_stats :: pf_stats
  dm_monitor :: "'k pf_monitor"
  dm_capture :: capture_sys
  dm_inspect_cb :: bool
  dm_reload :: bool
  dm_watched :: "int list"
  dm_accepting :: "int list"
  dm_queries :: "bytes list"

definition epoll_add :: "int \<Rightarrow> int list \<Rightarrow> int list" where
  "epoll_add fd ws = (if fd < 0 \<or> fd \<in> set ws then ws else ws @ [fd])"

definition epoll_del :: "int \<Rightarrow> int list \<Rightarrow> int list" where
  "epoll_del fd ws = (if fd < 0 then ws else remove1 fd ws)"

definition add_positive :: "int \<Rightarrow> int list \<Rightarrow> int list" where
  "add_positive fd ws = (if 0 < fd then epoll_add fd ws else ws)"

definition loop_watch :: "'k daemon \<Rightarrow> 'k daemon" where
  "loop_watch D = D \<lparr> dm_watched := add_positive (mon_nl_fd (dm_monitor D)) (add_positive (tp_listen_fd (dm_tproxy D))
     (add_positive (cx_udp_fd (dm_ctx D)) (add_positive (cx_dns_fd (dm_ctx D)) (epoll_add (ip_listen_fd (dm_ipc D)) [])))) \<rparr>"

section \<open>Start\<close>

text \<open>What the start meets, in the order of the code: the database file, memory, locks and the kernel interfaces.\<close>

record 'k boot_env =
  bt_request :: "'k request_env"
  bt_pid_file :: bool
  bt_pid :: int
  bt_db :: "pf_db option"
  bt_memory :: bool
  bt_locks :: bool
  bt_ipc :: "string listen_env"
  bt_ssh_mutex :: bool
  bt_queue :: bool
  bt_worker :: bool
  bt_nfq :: nfq_env
  bt_tproxy :: "u16 listen_env"
  bt_netlink :: "int option"
  bt_bound :: bool
  bt_sent :: "bytes \<Rightarrow> bool"
  bt_epoll :: "int option"

definition PF_PID_FILE :: string where "PF_PID_FILE = ''/run/proxiflare/proxiflare.pid''"
definition PF_SOCKET_PATH :: string where "PF_SOCKET_PATH = ''/run/proxiflare/proxiflare.sock''"
definition PF_LOG_PATH :: string where "PF_LOG_PATH = ''/var/log/proxiflare/proxiflare.log''"

text \<open>The context after \<^verbatim>\<open>memset\<close>, with the database and the files of the authority on disk.\<close>

definition zero_ctx :: "pf_db \<Rightarrow> ca_files \<Rightarrow> 'k \<Rightarrow> 'k pf_ctx" where
  "zero_ctx db ca k = \<lparr> cx_db = db, cx_crypto = pf_crypto_init, cx_dns_fd = 0, cx_udp_fd = 0, cx_listen_fd = 0, cx_conn_count = 0,
     cx_ruleset = [], cx_mitm = mitm_fresh, cx_running = True, cx_host = k, cx_ca = ca, cx_log = g_log_ring, cx_inspect = inspect_init \<rparr>"

definition doh_zero :: doh_resolver where
  "doh_zero = \<lparr> rv_doh_host = [], rv_doh_port = 0 \<rparr>"

text \<open>The queue and its worker; without a worker the queue is closed and nobody drains it.\<close>

definition start_capture :: "bool \<Rightarrow> bool \<Rightarrow> capture_sys" where
  "start_capture queue worker =
     (let q = pf_capture_queue_init;
          idle = \<lparr> cw_queue = q, cw_running = False, cw_pc = W_Exited, cw_unsent = 0, cw_stopping = False, cw_seen = [] \<rparr>
      in if \<not> queue then idle
         else case pf_capture_worker_start False worker q of
           (_, Some s) \<Rightarrow> s
         | (_, None) \<Rightarrow> idle \<lparr> cw_queue := snd (cq_close_loop q) \<rparr>)"

definition boot_daemon ::
  "'k boot_env \<Rightarrow> 'k pf_ctx \<Rightarrow> pf_ipc \<Rightarrow> pf_dns \<Rightarrow> nfq_object list \<Rightarrow> pf_tproxy \<Rightarrow> pf_logger \<Rightarrow> 'k pf_monitor \<Rightarrow> 'k daemon" where
  "boot_daemon B c ipc dns held tp lo mon = \<lparr> dm_ctx = c, dm_ipc = ipc, dm_dns = dns, dm_nfq = held,
     dm_resolver = (case pf_dns_resolver_init (0 < cx_udp_fd c) True of Some r \<Rightarrow> r | None \<Rightarrow> doh_zero),
     dm_cache = g_dns_cache, dm_tproxy = tp, dm_logger = lo, dm_stats = pf_stats_init, dm_monitor = mon,
     dm_capture = start_capture (bt_queue B) (bt_worker B),
     dm_inspect_cb = (fst (pf_mitm_init (hq_mitm (bt_request B)) (cx_ca c) mitm_fresh) = None),
     dm_reload = False, dm_watched = [], dm_accepting = [], dm_queries = [] \<rparr>"

datatype 'a start_result = Exits int | Runs 'a | Shuts_down 'a

definition main_start ::
  "'k boot_env \<Rightarrow> 'w ssh_ops \<Rightarrow> ca_files \<Rightarrow> 'k \<Rightarrow> 'w ssh_world \<Rightarrow> ('k daemon \<times> ssh_pool \<times> 'w ssh_world) start_result" where
  "main_start B S ca k w =
     (let E = bt_request B; H = hq_host E;
          k = snd (write_pid_file H (bt_pid_file B) (bt_pid B) PF_PID_FILE k)
      in case bt_db B of None \<Rightarrow> Exits 1
      | Some db \<Rightarrow>
        let c = zero_ctx db ca k; lo = pf_logger_init PF_LOG_PATH
        in if \<not> bt_memory B then Exits 1
           else if \<not> bt_locks B then Exits 1
           else (case pf_ipc_open (bt_ipc B) PF_SOCKET_PATH (sw_fds w) of (ipc_fd, ipc, fds) \<Rightarrow>
             if ipc_fd < 0 then Exits 1
             else (case pf_ssh_pool_init S (bt_ssh_mutex B) (w \<lparr> sw_fds := fds \<rparr>) of (_, pool, w) \<Rightarrow>
               case pf_dns_open (bt_nfq B) [] [] of (dns_err, dns_fd, dns, held) \<Rightarrow>
               case pf_tproxy_open (bt_tproxy B) PF_TPROXY_PORT (sw_fds w) of (tp_err, tp, fds) \<Rightarrow>
               case pf_monitor_init (bt_netlink B) (bt_bound B) (bt_sent B) (of_int (bt_pid B)) (process_event (hq_fnm E) H []) fds of
                 (mon_err, mon, fds) \<Rightarrow>
               let c = snd (daemon_start E (if dns_err = None then Some dns_fd else None)
                         (if tp_err = None then Some (tp_listen_fd tp) else None) c);
                   D = boot_daemon B c ipc dns held tp lo mon;
                   w = w \<lparr> sw_fds := fds \<rparr>
               in (case bt_epoll B of None \<Rightarrow> Shuts_down (D, pool, w)
                   | Some epfd \<Rightarrow> Runs (loop_watch D, pool, w \<lparr> sw_fds := epfd # fds \<rparr>)))))"

section \<open>One readable descriptor\<close>

datatype main_event = ME_ipc_accept | ME_dns | ME_doh | ME_accept | ME_monitor | ME_client nat | ME_relay nat | ME_none

definition dispatch :: "'k daemon \<Rightarrow> int \<Rightarrow> main_event" where
  "dispatch D fd =
     (if fd = ip_listen_fd (dm_ipc D) then ME_ipc_accept
      else if cx_dns_fd (dm_ctx D) > 0 \<and> fd = cx_dns_fd (dm_ctx D) then ME_dns
      else if cx_udp_fd (dm_ctx D) > 0 \<and> fd = cx_udp_fd (dm_ctx D) then ME_doh
      else if tp_listen_fd (dm_tproxy D) > 0 \<and> fd = tp_listen_fd (dm_tproxy D) then ME_accept
      else if mon_nl_fd (dm_monitor D) > 0 \<and> fd = mon_nl_fd (dm_monitor D) then ME_monitor
      else case main_find_client (dm_ipc D) fd of
        Some j \<Rightarrow> ME_client j
      | None \<Rightarrow> (case main_find_conn (dm_tproxy D) fd of Some j \<Rightarrow> ME_relay j | None \<Rightarrow> ME_none))"

text \<open>
  What an event meets: the JSON library, the environment of requests, the time, the results of \<^verbatim>\<open>accept\<close> on the
  two listening sockets, what the netfilter queue, the UDP socket and the netlink socket deliver (with the old
  bytes of the monitor's buffer), and whether memory and a thread can be had.
\<close>

record 'k event_env =
  ev_json :: cjson
  ev_request :: "'k request_env"
  ev_now :: int
  ev_client :: accept_result
  ev_nfq :: nfq_recv
  ev_udp :: "bytes option"
  ev_conn :: "int option"
  ev_netlink :: mon_recv
  ev_stack :: bytes
  ev_memory :: bool
  ev_thread :: bool

definition request_handler :: "'k request_env \<Rightarrow> 'k pf_ctx ipc_handler" where
  "request_handler E c m params = (case pf_handle_request E m params c of (r, c) \<Rightarrow> (Some r, c))"

text \<open>The epoll set follows the socket of the resolver, which requests open and close.\<close>

definition watch_resolver :: "int \<Rightarrow> int \<Rightarrow> int list \<Rightarrow> int list" where
  "watch_resolver old new ws = (if new = old then ws else add_positive new (if 0 < old then epoll_del old ws else ws))"

definition client_event :: "'k event_env \<Rightarrow> nat \<Rightarrow> int \<Rightarrow> 'k daemon \<Rightarrow> 'k daemon" where
  "client_event V j fd D =
     (let c = (dm_ctx D) \<lparr> cx_conn_count := tp_conn_count (dm_tproxy D) \<rparr> in
      case pf_ipc_process (ev_json V) (Some (request_handler (ev_request V))) j (dm_ipc D, c) of (rc, ipc, c') \<Rightarrow>
        let ws = watch_resolver (cx_udp_fd c) (cx_udp_fd c') (dm_watched D) in
        D \<lparr> dm_ipc := ipc, dm_ctx := c',
          dm_resolver := (if 0 < cx_udp_fd c' \<and> cx_udp_fd c' \<noteq> cx_udp_fd c then the (pf_dns_resolver_init True True) else dm_resolver D),
          dm_watched := (if rc < 0 then epoll_del fd ws else ws) \<rparr>)"

text \<open>The relay with what it hands to \<^verbatim>\<open>on_inspect_data\<close>.\<close>

definition relay_event :: "'k event_env \<Rightarrow> nat \<Rightarrow> 'k daemon \<Rightarrow> 'k daemon" where
  "relay_event V j D =
     (let tp = dm_tproxy D; conn = tp_conns tp ! j in
      case pf_tproxy_relay (dm_inspect_cb D) j tp of (ok, tp') \<Rightarrow>
        let q = fold (\<lambda>(data, is_request, c) q. on_inspect_data (ev_now V) data is_request c q)
              (drop (length (tp_captured tp)) (tp_captured tp')) (cw_queue (dm_capture D));
            D = D \<lparr> dm_tproxy := tp', dm_capture := (dm_capture D) \<lparr> cw_queue := q \<rparr> \<rparr>
        in if ok then D
           else D \<lparr> dm_watched := epoll_del (cn_proxy_fd conn) (epoll_del (cn_client_fd conn) (dm_watched D)),
                    dm_tproxy := pf_tproxy_close_conn j tp' \<rparr>)"

definition handle_event :: "'k event_env \<Rightarrow> int \<Rightarrow> 'k daemon \<Rightarrow> 'k daemon option" where
  "handle_event V fd D = (case dispatch D fd of
     ME_ipc_accept \<Rightarrow> (case pf_ipc_accept (ev_client V) (dm_ipc D) of (idx, ipc) \<Rightarrow>
       Some (D \<lparr> dm_ipc := ipc,
         dm_watched := (if 0 \<le> idx then epoll_add (ic_fd (ip_clients ipc ! nat idx)) (dm_watched D) else dm_watched D) \<rparr>))
   | ME_dns \<Rightarrow> Some (D \<lparr> dm_dns := snd (pf_dns_process (hq_fnm (ev_request V)) (ev_now V) (ev_nfq V)
       ((dm_dns D) \<lparr> dns_ruleset := cx_ruleset (dm_ctx D) \<rparr>)) \<rparr>)
   | ME_doh \<Rightarrow> Some (case pf_dns_resolver_process (ev_udp V) (ev_memory V) (ev_thread V) of
       Some q \<Rightarrow> D \<lparr> dm_queries := dm_queries D @ [q] \<rparr> | None \<Rightarrow> D)
   | ME_accept \<Rightarrow> Some (case ev_conn V of
       None \<Rightarrow> D
     | Some cfd \<Rightarrow> if ev_memory V \<and> ev_thread V then D \<lparr> dm_accepting := dm_accepting D @ [cfd] \<rparr>
         else D \<lparr> dm_tproxy := drop_fds [cfd] (dm_tproxy D) \<rparr>)
   | ME_monitor \<Rightarrow>
       (let H = hq_host (ev_request V);
            mon = (dm_monitor D) \<lparr> mon_callback := process_event (hq_fnm (ev_request V)) H (cx_ruleset (dm_ctx D)) \<rparr>
        in map_option (\<lambda>(r, k). D \<lparr> dm_ctx := (dm_ctx D) \<lparr> cx_host := k \<rparr> \<rparr>)
             (pf_monitor_process H (Some mon) (ev_stack V) (ev_netlink V) (cx_host (dm_ctx D))))
   | ME_client j \<Rightarrow> Some (client_event V j fd D)
   | ME_relay j \<Rightarrow> Some (relay_event V j D)
   | ME_none \<Rightarrow> Some D)"

text \<open>One turn of the loop: a pending reload, then the events \<^verbatim>\<open>epoll_wait\<close> reports, each with what it meets.\<close>

definition loop_reload :: "'k request_env \<Rightarrow> 'k daemon \<Rightarrow> 'k daemon" where
  "loop_reload E D = (if dm_reload D then D \<lparr> dm_ctx := rules_reload_locked E (dm_ctx D), dm_reload := False \<rparr> else D)"

fun loop_events :: "('k event_env \<times> int) list \<Rightarrow> 'k daemon \<Rightarrow> 'k daemon option" where
  "loop_events [] D = Some D"
| "loop_events ((V, fd) # es) D = (case handle_event V fd D of None \<Rightarrow> None | Some D \<Rightarrow> loop_events es D)"

definition loop_turn :: "'k request_env \<Rightarrow> ('k event_env \<times> int) list \<Rightarrow> 'k daemon \<Rightarrow> 'k daemon option" where
  "loop_turn E es D = (if \<not> cx_running (dm_ctx D) then Some D else loop_events es (loop_reload E D))"

section \<open>The threads\<close>

text \<open>
  What an accept thread meets: \<open>accept_env\<close>, the faults of its database calls, and \<open>fd\<close>, the descriptor of the
  tunnel if the callback makes one.  The thread runs as one step; the handshakes of interception are the
  outcomes \<open>ae_wrap_server\<close> and \<open>ae_wrap_client\<close>.
\<close>

definition thread_cb :: "'k request_env \<Rightarrow> int \<Rightarrow> (nat \<Rightarrow> faults) \<Rightarrow> int \<Rightarrow> 'k daemon \<Rightarrow> connect_cb" where
  "thread_cb E now ok fd D = (let c = dm_ctx D in
     main_connect_cb (hq_fnm E) (hq_evp E) (hq_net E) ok (cx_db c) now (dm_dns D) (cx_ruleset c) (cx_log c) fd)"

definition accept_thread :: "'k request_env \<Rightarrow> int \<Rightarrow> (nat \<Rightarrow> faults) \<Rightarrow> int \<Rightarrow> accept_env \<Rightarrow> 'k daemon \<Rightarrow> 'k daemon" where
  "accept_thread E now ok fd e D =
     (let c = dm_ctx D; m = cx_mitm c;
          route = proxy_connect_for_tproxy (hq_fnm E) (hq_evp E) (hq_net E) ok (cx_db c) now (dm_dns D) (cx_ruleset c);
          st = \<lparr> mitm_state.mi_enabled = (pf_mitm.mi_enabled m \<noteq> 0), mitm_state.mi_ca_key = (pf_mitm.mi_ca_key m \<noteq> None) \<rparr>
      in case tproxy_accept_thread (Some (thread_cb E now ok fd D)) st e (dm_tproxy D) of (idx, tp) \<Rightarrow>
        D \<lparr> dm_tproxy := tp, dm_accepting := remove1 (ae_cfd e) (dm_accepting D),
          dm_ctx := (case ae_orig e of None \<Rightarrow> c
            | Some (ip, port) \<Rightarrow> c \<lparr> cx_log := snd (snd (route (inet_ntop4 ip) (int (unat port)) (peek_domain (take 4096 (ae_peek e))) (cx_log c))) \<rparr>),
          dm_watched := (case idx of None \<Rightarrow> dm_watched D
            | Some i \<Rightarrow> epoll_add (cn_proxy_fd (tp_conns tp ! i)) (epoll_add (cn_client_fd (tp_conns tp ! i)) (dm_watched D))) \<rparr>)"

definition dns_thread :: "'s tls \<Rightarrow> bytes \<Rightarrow> 'k request_env \<Rightarrow> int \<Rightarrow> int \<Rightarrow> (nat \<Rightarrow> faults) \<Rightarrow> bytes \<Rightarrow> 'k daemon \<Rightarrow> 'k daemon" where
  "dns_thread T junk E t0 t1 ok query D =
     (case dns_worker T junk (hq_evp E) (hq_net E) ok (cx_db (dm_ctx D)) (dm_resolver D) t0 t1 query (dm_cache D) of
        (answer, cache, _) \<Rightarrow> D \<lparr> dm_cache := cache, dm_queries := remove1 query (dm_queries D) \<rparr>)"

text \<open>One step of the capture worker, with the messages it processes in it.\<close>

definition capture_thread :: "'d codecs \<Rightarrow> string \<Rightarrow> bool option \<Rightarrow> 'k daemon \<Rightarrow> 'k daemon option" where
  "capture_thread C after err D = (case worker_step err (dm_capture D) of
     None \<Rightarrow> None
   | Some sys \<Rightarrow>
       map_option (\<lambda>s. D \<lparr> dm_capture := sys, dm_ctx := (dm_ctx D) \<lparr> cx_inspect := s \<rparr> \<rparr>)
         (capture_run C after (List.map_filter id (drop (length (cw_seen (dm_capture D))) (cw_seen sys))) (cx_inspect (dm_ctx D))))"

section \<open>The way out\<close>

text \<open>In the order of the code; \<open>fds\<close> are the descriptors the SSH pool, the monitor and epoll account for.\<close>

definition daemon_stop ::
  "'k host \<Rightarrow> 'w ssh_ops \<Rightarrow> int option \<Rightarrow> 'k daemon \<Rightarrow> ssh_pool \<Rightarrow> 'w ssh_world \<Rightarrow> 'k daemon \<times> ssh_pool \<times> 'w ssh_world" where
  "daemon_stop H S epfd D pool w =
     (let sys = (dm_capture D) \<lparr> cw_running := False, cw_pc := W_Exited, cw_queue := snd (cq_close_loop (cw_queue (dm_capture D))) \<rparr>;
          fds = (case epfd of Some fd \<Rightarrow> remove1 fd (sw_fds w) | None \<Rightarrow> sw_fds w);
          c = dm_ctx D;
          k = snd (pf_nft_cleanup H (cx_host c));
          k = pf_cgroup_cleanup H k;
          (mon, fds) = (if 0 \<le> mon_nl_fd (dm_monitor D)
            then (case pf_monitor_close (Some (dm_monitor D)) fds of (m, fds) \<Rightarrow> (the m, fds)) else (dm_monitor D, fds));
          tp = (if 0 \<le> tp_listen_fd (dm_tproxy D) then pf_tproxy_close (dm_tproxy D) else dm_tproxy D);
          (nfq, dns_fd) = (if 0 \<le> cx_dns_fd c then (pf_dns_close (dm_nfq D), -1) else (dm_nfq D, cx_dns_fd c));
          m = pf_mitm_close (cx_mitm c);
          (pool, w) = pf_ssh_pool_close S pool (w \<lparr> sw_fds := fds \<rparr>);
          ipc = pf_ipc_close (dm_ipc D);
          lo = pf_logger_close (dm_logger D)
      in (D \<lparr> dm_ctx := c \<lparr> cx_host := k, cx_mitm := m, cx_dns_fd := dns_fd, cx_ruleset := [] \<rparr>, dm_ipc := ipc, dm_nfq := nfq,
            dm_tproxy := tp, dm_logger := lo, dm_monitor := mon, dm_capture := sys, dm_watched := [] \<rparr>, pool, w))"

end
