(* ===== verification/Lifecycle.thy ===== *)
theory Lifecycle
  imports Event_Loop
begin

text \<open>
  What the daemon as a whole keeps, over every interleaving of events, threads and signals: the tables of
  the components stay consistent, the stored rules stay in force, no message of the capture queue is
  left without a wake-up, and exactly the descriptors the event loop has to serve are watched.
\<close>

section \<open>Requests and the sockets of the loop\<close>

text \<open>A handler leaves the queue of netfilter alone and the resolver's socket as it was, closed, or newly opened.\<close>

definition keeps_fds :: "'k handler \<Rightarrow> bool" where
  "keeps_fds h \<longleftrightarrow> (\<forall>E params c. cx_dns_fd (snd (h E params c)) = cx_dns_fd c
     \<and> (cx_udp_fd (snd (h E params c)) \<in> {cx_udp_fd c, -1} \<or> hq_socket E = Some (cx_udp_fd (snd (h E params c)))))"

lemma same_fds_steps [simp]:
  "cx_dns_fd (on_host f c) = cx_dns_fd c" "cx_udp_fd (on_host f c) = cx_udp_fd c"
  "cx_dns_fd (rules_reload_locked E c) = cx_dns_fd c" "cx_udp_fd (rules_reload_locked E c) = cx_udp_fd c"
  "cx_dns_fd (set_config ok k v c) = cx_dns_fd c" "cx_udp_fd (set_config ok k v c) = cx_udp_fd c"
  "cx_dns_fd (boot_switch E key v c) = cx_dns_fd c" "cx_udp_fd (boot_switch E key v c) = cx_udp_fd c"
  "cx_dns_fd (mark_rule E n c) = cx_dns_fd c" "cx_udp_fd (mark_rule E n c) = cx_udp_fd c"
  "cx_dns_fd (attach_rule E n a c) = cx_dns_fd c" "cx_udp_fd (attach_rule E n a c) = cx_udp_fd c"
  "cx_dns_fd (detach_rule E n c) = cx_dns_fd c" "cx_udp_fd (detach_rule E n c) = cx_udp_fd c"
  by (simp_all add: on_host_def rules_reload_locked_def set_config_def boot_switch_def mark_rule_def attach_rule_def detach_rule_def)

lemma sync_fds [simp]: "cx_dns_fd (sync_rules E p rs c) = cx_dns_fd c" "cx_udp_fd (sync_rules E p rs c) = cx_udp_fd c"
proof -
  have "cx_dns_fd (sync_rules E p rs c) = cx_dns_fd c \<and> cx_udp_fd (sync_rules E p rs c) = cx_udp_fd c"
    unfolding sync_rules_def by (induction rs arbitrary: c) simp_all
  thus "cx_dns_fd (sync_rules E p rs c) = cx_dns_fd c" "cx_udp_fd (sync_rules E p rs c) = cx_udp_fd c" by simp_all
qed

named_theorems sockets "the handlers that keep the sockets"

lemma sockets_queries [sockets]:
  "keeps_fds proxy_list" "keeps_fds rule_list" "keeps_fds chain_list" "keeps_fds chain_test" "keeps_fds config_get"
  "keeps_fds credentials_lock" "keeps_fds system_status" "keeps_fds system_version" "keeps_fds system_shutdown"
  "keeps_fds dns_leak_status" "keeps_fds log_recent_request" "keeps_fds inspect_list_request" "keeps_fds inspect_get_request"
  "keeps_fds quic_block_status" "keeps_fds inspect_status" "keeps_fds inspect_generate_ca"
  by (simp_all add: keeps_fds_def proxy_list_def rule_list_def chain_list_def chain_test_def config_get_def credentials_lock_def
      system_status_def system_version_def system_shutdown_def dns_leak_status_def log_recent_request_def inspect_list_request_def
      inspect_get_request_def quic_block_status_def inspect_status_def inspect_generate_ca_def Let_def split: option.split sum.split prod.split)

lemma sockets_rows [sockets]:
  "keeps_fds proxy_add" "keeps_fds proxy_edit" "keeps_fds proxy_delete" "keeps_fds proxy_test"
  "keeps_fds rule_add" "keeps_fds rule_edit" "keeps_fds rule_delete" "keeps_fds chain_add" "keeps_fds chain_edit" "keeps_fds chain_delete"
  by (simp_all add: keeps_fds_def proxy_add_def proxy_edit_def proxy_delete_def proxy_test_def rule_add_def rule_edit_def rule_delete_def
      chain_add_def chain_edit_def chain_delete_def Let_def split: option.split sum.split prod.split)

lemma sockets_settings [sockets]: "keeps_fds inspect_enable" "keeps_fds inspect_disable"
  "keeps_fds quic_block_enable" "keeps_fds quic_block_disable" "keeps_fds config_set" "keeps_fds credentials_unlock"
  by (simp_all add: keeps_fds_def inspect_enable_def inspect_disable_def quic_block_enable_def quic_block_disable_def
      config_set_def credentials_unlock_def Let_def split: option.split sum.split prod.split)

lemma sockets_reorder [sockets]: "keeps_fds rule_reorder"
  by (simp add: keeps_fds_def rule_reorder_def split: option.split json.split prod.split bool.split)

lemma switch_fds:
  "cx_dns_fd (snd (dns_switch E mode dns c)) = cx_dns_fd c
    \<and> (cx_udp_fd (snd (dns_switch E mode dns c)) \<in> {cx_udp_fd c, -1} \<or> hq_socket E = Some (cx_udp_fd (snd (dns_switch E mode dns c))))"
  by (simp add: dns_switch_def resolver_open_def resolver_close_def Let_def split: option.split prod.split)

lemma sockets_dns_disable [sockets]: "keeps_fds dns_leak_disable"
  by (simp add: keeps_fds_def dns_leak_disable_def resolver_close_def Let_def)

lemma sockets_dns_enable [sockets]: "keeps_fds dns_leak_enable"
proof -
  have "cx_dns_fd (snd (dns_leak_enable E params c)) = cx_dns_fd c
    \<and> (cx_udp_fd (snd (dns_leak_enable E params c)) \<in> {cx_udp_fd c, -1} \<or> hq_socket E = Some (cx_udp_fd (snd (dns_leak_enable E params c))))"
    for E :: "'a request_env" and params c
  proof -
    obtain ok c' where s: "dns_switch E (text_or (param params ''mode'') ''force-server'')
      (text_or (case param params ''dns_server'' of None \<Rightarrow> param params ''server'' | Some v \<Rightarrow> Some v) ''1.1.1.1'') c = (ok, c')" by (rule prod.exhaust)
    note switch_fds [of E "text_or (param params ''mode'') ''force-server''"
      "text_or (case param params ''dns_server'' of None \<Rightarrow> param params ''server'' | Some v \<Rightarrow> Some v) ''1.1.1.1''" c, unfolded s snd_conv]
    thus ?thesis unfolding dns_leak_enable_def Let_def s by (cases ok) simp_all
  qed
  thus ?thesis unfolding keeps_fds_def by blast
qed

lemma handlers_fds: "map_of handlers m = Some h \<Longrightarrow> keeps_fds h"
  by (rule all_handlers [where P = keeps_fds]) (auto simp: handlers_def sockets)

text \<open>Everything a served stream of lines can do to the context.\<close>

definition served_ctx :: "'k request_env \<Rightarrow> 'k pf_ctx \<Rightarrow> 'k pf_ctx \<Rightarrow> bool" where
  "served_ctx E c c' \<longleftrightarrow> cx_dns_fd c' = cx_dns_fd c
     \<and> (cx_udp_fd c' \<in> {cx_udp_fd c, -1} \<or> hq_socket E = Some (cx_udp_fd c'))
     \<and> (db_reach (cx_db c) \<longrightarrow> db_reach (cx_db c')) \<and> (rules_readable E \<and> in_force c \<longrightarrow> in_force c')"

lemma served_refl: "served_ctx E c c"
  by (simp add: served_ctx_def)

lemma served_trans: "served_ctx E a b \<Longrightarrow> served_ctx E b c \<Longrightarrow> served_ctx E a c"
  unfolding served_ctx_def by auto

lemma served_request: "served_ctx E c (snd (pf_handle_request E m p c))"
proof (rule handled [where P = "served_ctx E c"])
  show "served_ctx E c (snd (h E p c))" if h: "map_of handlers m = Some h" for h
    using handlers_fds [OF h] handlers_reach [OF h] handlers_force [OF h]
    unfolding served_ctx_def keeps_fds_def keeps_reach_def keeps_force_def by blast
qed (rule served_refl)

lemma served_line: "served_ctx E (snd x) (snd (ipc_request J (Some (request_handler E)) l x))"
proof -
  have "served_ctx E c (snd (ipc_request J (Some (request_handler E)) l (cl, c)))" for cl c
    using served_request [of E c] served_refl [of E c]
    by (auto simp: ipc_request_def request_handler_def Let_def split_beta split: option.split)
  thus ?thesis by (cases x) simp
qed

lemma served_lines: "served_ctx E (snd x) (snd (snd (ipc_lines J (Some (request_handler E)) d x)))"
proof -
  have "served_ctx E (snd x) (snd (foldl (\<lambda>x l. ipc_request J (Some (request_handler E)) l x) x ls))" for ls
  proof (induction ls arbitrary: x)
    case (Cons l ls)
    show ?case using served_trans [OF served_line Cons.IH] by simp
  qed (simp add: served_refl)
  thus ?thesis by (simp add: ipc_server.loop_lines)
qed

text \<open>What one call of \<^verbatim>\<open>pf_ipc_process\<close> does: it removes the client and serves nothing, or serves and keeps it.\<close>

lemma process_cases:
  assumes "pf_ipc_process J h idx (ipc, st) = (rc, ipc', st')"
  obtains (gone) "rc < 0" "ipc' = client_remove idx ipc" "st' = st"
  | (kept) c where "0 \<le> rc" "ipc' = ipc \<lparr> ip_clients := (ip_clients ipc)[idx := c] \<rparr>" "ic_fd c = ic_fd (ip_clients ipc ! idx)"
      "st' = st \<or> (\<exists>d x. st' = snd (snd (ipc_lines J h d (x, st))))"
proof -
  let ?c = "ip_clients ipc ! idx"
  have same: "ipc = ipc \<lparr> ip_clients := (ip_clients ipc)[idx := ?c] \<rparr>" by simp
  show ?thesis
  proof (cases "length (ic_buf ?c) + 1 \<ge> PF_BUF_SIZE \<or> (\<forall>d rs. ic_rx ?c = Rd_Data d # rs \<longrightarrow> d = [])")
    case True
    hence "(rc < 0 \<and> ipc' = client_remove idx ipc \<and> st' = st)
      \<or> (0 \<le> rc \<and> (ipc' = ipc \<or> (\<exists>rs. ipc' = ipc \<lparr> ip_clients := (ip_clients ipc)[idx := ?c \<lparr> ic_rx := rs \<rparr>] \<rparr>)) \<and> st' = st)"
      using assms by (auto simp: pf_ipc_process_def Let_def split: if_splits list.splits read_result.splits)
    thus ?thesis
    proof (elim disjE conjE exE)
      assume "0 \<le> rc" "ipc' = ipc" "st' = st"
      thus ?thesis using kept [of ?c] same by simp
    next
      fix rs assume "0 \<le> rc" "ipc' = ipc \<lparr> ip_clients := (ip_clients ipc)[idx := ?c \<lparr> ic_rx := rs \<rparr>] \<rparr>" "st' = st"
      thus ?thesis using kept [of "?c \<lparr> ic_rx := rs \<rparr>"] by simp
    qed (rule gone)
  next
    case False
    then obtain d rs where d: "ic_rx ?c = Rd_Data d # rs" "d \<noteq> []" "length (ic_buf ?c) + 1 < PF_BUF_SIZE" by auto
    define k where "k = PF_BUF_SIZE - length (ic_buf ?c) - 1"
    obtain b y where y: "ipc_lines J h (ic_buf ?c @ take k d) (?c, st) = (b, y)" by (rule prod.exhaust)
    have fd: "ic_fd (fst y) = ic_fd ?c" using ipc_lines_frame [of J h "ic_buf ?c @ take k d" "(?c, st)"] y by simp
    note p = process_chunk [OF refl d(3,1,2) k_def refl y, unfolded assms]
    have "st' = snd (snd (ipc_lines J h (ic_buf ?c @ take k d) (?c, st)))" using p y by simp
    hence st: "st' = st \<or> (\<exists>d x. st' = snd (snd (ipc_lines J h d (x, st))))" by blast
    show ?thesis
      by (rule kept [where c = "fst (set_rx b (if length d \<le> k then rs else Rd_Data (drop k d) # rs) y)", OF _ _ _ st])
        (use p fd in \<open>simp_all add: set_rx_def\<close>)
  qed
qed

section \<open>Descriptors of the tables\<close>

lemma remove_fds:
  assumes "idx < length (ip_clients ipc)" "0 \<le> ic_fd (ip_clients ipc ! idx)"
  shows "fds_of (ip_clients ipc) = add_mset (ic_fd (ip_clients ipc ! idx)) (fds_of (ip_clients (client_remove idx ipc)))"
  using fds_of_update [OF assms(1), of "(ip_clients ipc ! idx) \<lparr> ic_fd := -1, ic_buf := [], ic_log := False, ic_stats := False \<rparr>"] assms(2)
  by (simp add: client_remove_def own_fd_def Let_def)

lemma same_client_fds:
  "idx < length cs \<Longrightarrow> ic_fd c = ic_fd (cs ! idx) \<Longrightarrow> fds_of (cs[idx := c]) = fds_of cs"
  using fds_of_update [of idx cs c] by (simp add: own_fd_def split: if_splits)

lemma accept_fds:
  assumes "ipc_inv acc ipc" "0 \<le> cfd" "pf_ipc_accept (Acc_Conn cfd uid nb rx wr) ipc = (idx, ipc')"
  shows "fds_of (ip_clients ipc') = (if 0 \<le> idx then add_mset cfd (fds_of (ip_clients ipc)) else fds_of (ip_clients ipc))"
    "0 \<le> idx \<Longrightarrow> ic_fd (ip_clients ipc' ! nat idx) = cfd" "ip_listen_fd ipc' = ip_listen_fd ipc"
proof -
  have "fds_of (ip_clients ipc') = (if 0 \<le> idx then add_mset cfd (fds_of (ip_clients ipc)) else fds_of (ip_clients ipc))
    \<and> (0 \<le> idx \<longrightarrow> ic_fd (ip_clients ipc' ! nat idx) = cfd) \<and> ip_listen_fd ipc' = ip_listen_fd ipc"
  proof (rule accept_cases [OF assms(1), of uid nb cfd rx wr])
    fix i
    let ?c = "(ip_clients ipc ! i) \<lparr> ic_fd := cfd, ic_buf := [], ic_log := False, ic_stats := False, ic_rx := rx, ic_wr := wr, ic_out := [] \<rparr>"
    assume i: "i < length (ip_clients ipc)" "ic_fd (ip_clients ipc ! i) < 0"
      and eq: "pf_ipc_accept (Acc_Conn cfd uid nb rx wr) ipc
        = (int i, ipc \<lparr> ip_clients := (ip_clients ipc)[i := ?c], ip_client_count := ip_client_count ipc + 1 \<rparr>)"
    have "fds_of ((ip_clients ipc)[i := ?c]) = add_mset cfd (fds_of (ip_clients ipc))"
      using fds_of_update [OF i(1), of ?c] i(2) assms(2) by (simp add: own_fd_def)
    thus ?thesis using eq assms(3) i(1) by auto
  qed (use assms(3) in auto)
  thus "fds_of (ip_clients ipc') = (if 0 \<le> idx then add_mset cfd (fds_of (ip_clients ipc)) else fds_of (ip_clients ipc))"
    "0 \<le> idx \<Longrightarrow> ic_fd (ip_clients ipc' ! nat idx) = cfd" "ip_listen_fd ipc' = ip_listen_fd ipc" by blast+
qed

lemma find_client_fd:
  assumes "ipc_inv acc ipc" "main_find_client ipc fd = Some j"
  shows "j < PF_MAX_CLIENTS" "ic_fd (ip_clients ipc ! j) = fd"
proof -
  have j: "j < nat (ip_client_count ipc)" "ic_fd (ip_clients ipc ! j) = fd"
    using assms(2) unfolding main_find_client_def find_Some_iff by (auto simp: nth_upt)
  have "size (fds_of (ip_clients ipc)) \<le> length (ip_clients ipc)" unfolding size_fds_of by (rule length_filter_le)
  thus "j < PF_MAX_CLIENTS" "ic_fd (ip_clients ipc ! j) = fd" using j assms(1) by (auto simp: ipc_inv_def)
qed

text \<open>The proxy's table.\<close>

lemma close_fds:
  assumes "tp_inv fds tp" "i < PF_MAX_CONNECTIONS" "cn_active (tp_conns tp ! i)"
  shows "table_fds tp = table_fds (pf_tproxy_close_conn i tp) + {# cn_client_fd (tp_conns tp ! i), cn_proxy_fd (tp_conns tp ! i) #}"
    "\<not> cn_active (tp_conns (pf_tproxy_close_conn i tp) ! i)" "tp_listen_fd (pf_tproxy_close_conn i tp) = tp_listen_fd tp"
proof -
  let ?c = "tp_conns tp ! i"
  let ?d = "?c \<lparr> cn_client_ssl := False, cn_server_ssl := False, cn_client_fd := -1, cn_proxy_fd := -1, cn_active := False, cn_inspect := False \<rparr>"
  have l: "i < length (tp_conns tp)" and ok: "conn_ok ?c" using assms(1,2) by (auto simp: tp_inv_def)
  have fd: "0 \<le> cn_client_fd ?c" "0 \<le> cn_proxy_fd ?c" using ok assms(3) by (auto simp: conn_ok_def)
  have e: "tp_conns (pf_tproxy_close_conn i tp) = (tp_conns tp)[i := ?d]" "tp_listen_fd (pf_tproxy_close_conn i tp) = tp_listen_fd tp"
    using assms(2,3) fd by (simp_all add: pf_tproxy_close_conn_def Let_def)
  have "table_fds (tp \<lparr> tp_conns := (tp_conns tp)[i := ?d] \<rparr>) + own_fds ?c = table_fds tp" 
    using table_fds_update [OF l, of ?d] by (simp add: own_fds_def)
  moreover have "own_fds ?c = {# cn_client_fd ?c, cn_proxy_fd ?c #}" using assms(3) fd by (simp add: own_fds_def conn_fds_def)
  ultimately show "table_fds tp = table_fds (pf_tproxy_close_conn i tp) + {# cn_client_fd ?c, cn_proxy_fd ?c #}"
    by (simp add: table_fds_def e(1))
  show "\<not> cn_active (tp_conns (pf_tproxy_close_conn i tp) ! i)" "tp_listen_fd (pf_tproxy_close_conn i tp) = tp_listen_fd tp" using e l by simp_all
qed

lemma put_fds: "i < length (tp_conns tp) \<Longrightarrow> own_fds c = own_fds (tp_conns tp ! i) \<Longrightarrow> table_fds (put_conn i c tp) = table_fds tp"
  using table_fds_update [of i tp c] by (simp add: put_conn_def)

lemma capture_same: "table_fds (capture cb b d c tp) = table_fds tp" "tp_listen_fd (capture cb b d c tp) = tp_listen_fd tp"
  by (simp_all add: capture_def split: option.split)

lemma put_same: "tp_listen_fd (put_conn i c tp) = tp_listen_fd tp" "length (tp_conns (put_conn i c tp)) = length (tp_conns tp)"
  by (simp_all add: put_conn_def)

lemma request_conn: "cn_client_fd (fst (snd (relay_request c))) = cn_client_fd c \<and> cn_proxy_fd (fst (snd (relay_request c))) = cn_proxy_fd c"
  by (rule relay_request_frame [of c]) simp

lemma response_conn: "cn_client_fd (fst (snd (relay_response c))) = cn_client_fd c \<and> cn_proxy_fd (fst (snd (relay_response c))) = cn_proxy_fd c"
  by (rule relay_response_frame [of c]) simp

lemma relay_fds:
  assumes inv: "tp_inv fds tp" and i: "i < PF_MAX_CONNECTIONS" and act: "cn_active (tp_conns tp ! i)"
    and r: "pf_tproxy_relay cb i tp = (ok, tp')"
  shows "table_fds tp = (if ok then table_fds tp' else table_fds tp' + {# cn_client_fd (tp_conns tp ! i), cn_proxy_fd (tp_conns tp ! i) #})"
    "tp_listen_fd tp' = tp_listen_fd tp" "\<not> ok \<Longrightarrow> \<not> cn_active (tp_conns tp' ! i)"
proof -
  let ?c = "tp_conns tp ! i"
  let ?q = "relay_request ?c"
  let ?c1 = "fst (snd ?q)" and ?r = "relay_response (fst (snd ?q))"
  let ?p1 = "put_conn i ?c1 tp"
  let ?t1 = "capture cb True (snd (snd ?q)) ?c1 ?p1"
  let ?p2 = "put_conn i (fst (snd ?r)) ?t1"
  have l: "i < length (tp_conns tp)" and ok: "conn_ok ?c" using inv i by (auto simp: tp_inv_def)
  have fd: "0 \<le> cn_client_fd ?c" "0 \<le> cn_proxy_fd ?c" using ok act by (auto simp: conn_ok_def)
  have at1: "tp_conns ?p1 ! i = ?c1" "tp_conns ?t1 ! i = ?c1" "i < length (tp_conns ?t1)" using l by (simp_all add: put_conn_def)
  have at2: "tp_conns ?p2 ! i = fst (snd ?r)" using at1(3) by (simp add: put_conn_def)
  have f1: "table_fds ?p1 = table_fds tp" by (rule put_fds [OF l]) (use relay_frame(1) [of ?c] in simp)
  have inv1: "tp_inv fds ?p1" using inv i ok by (intro tp_inv_put) simp_all
  hence "tp_inv fds ?t1" by simp
  hence inv2: "tp_inv fds ?p2" using i ok at1 by (intro tp_inv_put) simp_all
  have f2: "table_fds ?p2 = table_fds tp"
    using put_fds [OF at1(3), of "fst (snd ?r)"] relay_frame(2) [of ?c1] unfolding at1(2) capture_same f1 by simp
  have c1: "cn_active ?c1" "cn_client_fd ?c1 = cn_client_fd ?c" "cn_proxy_fd ?c1 = cn_proxy_fd ?c"
    using relay_frame(1) [of ?c] request_conn [of ?c] act by simp_all
  have c2: "cn_active (fst (snd ?r))" "cn_client_fd (fst (snd ?r)) = cn_client_fd ?c" "cn_proxy_fd (fst (snd ?r)) = cn_proxy_fd ?c"
    using relay_frame(2) [of ?c1] response_conn [of ?c1] c1 by simp_all
  note x1 = close_fds [OF inv1 i, unfolded at1(1), OF c1(1)] and x2 = close_fds [OF inv2 i, unfolded at2, OF c2(1)]
  have lf: "tp_listen_fd ?p1 = tp_listen_fd tp" "tp_listen_fd ?p2 = tp_listen_fd tp" by (simp_all add: put_same capture_same)
  have "table_fds tp = (if ok then table_fds tp' else table_fds tp' + {# cn_client_fd ?c, cn_proxy_fd ?c #})
    \<and> tp_listen_fd tp' = tp_listen_fd tp \<and> (\<not> ok \<longrightarrow> \<not> cn_active (tp_conns tp' ! i))"
  proof (cases "fst ?q")
    case False
    hence "ok = False \<and> tp' = pf_tproxy_close_conn i ?p1" using r i act fd by (simp add: pf_tproxy_relay_def split_beta)
    thus ?thesis using x1 c1 f1 lf by simp
  next
    case first: True
    show ?thesis
    proof (cases "fst ?r")
      case False
      hence "ok = False \<and> tp' = pf_tproxy_close_conn i ?p2" using r i act fd first by (simp add: pf_tproxy_relay_def Let_def split_beta)
      thus ?thesis using x2 c2 f2 lf by simp
    next
      case True
      hence "ok = True \<and> tp' = capture cb False (snd (snd ?r)) (fst (snd ?r)) ?p2"
        using r i act fd first by (simp add: pf_tproxy_relay_def Let_def split_beta)
      thus ?thesis using f2 lf by (simp add: capture_same)
    qed
  qed
  thus "table_fds tp = (if ok then table_fds tp' else table_fds tp' + {# cn_client_fd ?c, cn_proxy_fd ?c #})"
    "tp_listen_fd tp' = tp_listen_fd tp" "\<not> ok \<Longrightarrow> \<not> cn_active (tp_conns tp' ! i)" by blast+
qed

lemma thread_fds:
  assumes inv: "tp_inv fds tp" and cfd: "0 \<le> ae_cfd e" and t: "tproxy_accept_thread cb m e tp = (idx, tp')"
  shows "idx = None \<Longrightarrow> table_fds tp' = table_fds tp"
    "idx = Some i \<Longrightarrow> \<exists>fd. opened_fds cb e = [ae_cfd e, fd] \<and> table_fds tp' = table_fds tp + {# ae_cfd e, fd #}
      \<and> cn_client_fd (tp_conns tp' ! i) = ae_cfd e \<and> cn_proxy_fd (tp_conns tp' ! i) = fd"
    "tp_listen_fd tp' = tp_listen_fd tp"
proof -
  have drop: "table_fds (drop_fds gone tp) = table_fds tp \<and> tp_listen_fd (drop_fds gone tp) = tp_listen_fd tp" for gone
    by (simp add: drop_fds_def table_fds_def)
  have "(idx = None \<longrightarrow> table_fds tp' = table_fds tp) \<and> (\<forall>i. idx = Some i \<longrightarrow> (\<exists>fd. opened_fds cb e = [ae_cfd e, fd]
      \<and> table_fds tp' = table_fds tp + {# ae_cfd e, fd #} \<and> cn_client_fd (tp_conns tp' ! i) = ae_cfd e \<and> cn_proxy_fd (tp_conns tp' ! i) = fd))
    \<and> tp_listen_fd tp' = tp_listen_fd tp"
  proof (cases "ae_orig e")
    case None
    thus ?thesis using t drop by (auto simp: tproxy_accept_thread_def)
  next
    case (Some a)
    obtain ip port where a: "a = (ip, port)" by (cases a)
    let ?ip = "inet_ntop4 ip" and ?p = "int (unat port)" and ?k = "take 4096 (ae_peek e)"
    show ?thesis
    proof (cases "tproxy_connect cb e ?ip ?p (peek_domain ?k)")
      case (Inl gone)
      thus ?thesis using t drop Some a by (auto simp: tproxy_accept_thread_def Let_def)
    next
      case (Inr fd)
      hence o: "opened_fds cb e = [ae_cfd e, fd]" and fd: "0 \<le> fd" using Some a
        by (auto simp: tproxy_connect_def opened_fds_def Let_def split: option.splits if_splits)
      show ?thesis
      proof (cases "find_free_slot tp")
        case None
        thus ?thesis using t drop Inr Some a by (auto simp: tproxy_accept_thread_def Let_def)
      next
        case slot: (Some j)
        let ?c = "mitm_handshake m e (peek_domain ?k) (peek_tls ?k) (new_conn e ?ip ?p (peek_domain ?k) (peek_tls ?k) fd)"
        have r: "idx = Some j" "tp' = claim_slot j ?c tp" using t Inr Some a slot by (auto simp: tproxy_accept_thread_def Let_def)
        note f = find_free_slot_Some [OF slot]
        have c: "cn_client_fd ?c = ae_cfd e" "cn_proxy_fd ?c = fd" "cn_active ?c" by (simp_all add: mitm_handshake_def new_conn_def)
        have "own_fds (tp_conns tp ! j) = {#}" "own_fds ?c = {# ae_cfd e, fd #}" using f c cfd fd by (simp_all add: own_fds_def conn_fds_def)
        hence "table_fds (tp \<lparr> tp_conns := (tp_conns tp)[j := ?c] \<rparr>) = table_fds tp + {# ae_cfd e, fd #}"
          using table_fds_update [of j tp ?c] f by simp
        thus ?thesis using r o c f by (simp add: claim_slot_def)
      qed
    qed
  qed
  thus "idx = None \<Longrightarrow> table_fds tp' = table_fds tp"
    "idx = Some i \<Longrightarrow> \<exists>fd. opened_fds cb e = [ae_cfd e, fd] \<and> table_fds tp' = table_fds tp + {# ae_cfd e, fd #}
      \<and> cn_client_fd (tp_conns tp' ! i) = ae_cfd e \<and> cn_proxy_fd (tp_conns tp' ! i) = fd"
    "tp_listen_fd tp' = tp_listen_fd tp" by blast+
qed

section \<open>The invariant of the daemon\<close>

text \<open>
  \<open>served_fds\<close>: the descriptors somebody has to react to; \<open>open_fds\<close>: those and the ones accept threads hold.  The
  epoll set is exactly the first, and no number occurs twice.
\<close>

definition pos_fd :: "int \<Rightarrow> int multiset" where
  "pos_fd fd = (if 0 < fd then {# fd #} else {#})"

definition served_fds :: "'k daemon \<Rightarrow> int multiset" where
  "served_fds D = pos_fd (ip_listen_fd (dm_ipc D)) + pos_fd (cx_dns_fd (dm_ctx D)) + pos_fd (cx_udp_fd (dm_ctx D))
     + pos_fd (tp_listen_fd (dm_tproxy D)) + pos_fd (mon_nl_fd (dm_monitor D)) + fds_of (ip_clients (dm_ipc D)) + table_fds (dm_tproxy D)"

definition open_fds :: "'k daemon \<Rightarrow> int multiset" where
  "open_fds D = served_fds D + mset (dm_accepting D)"

definition once :: "int multiset \<Rightarrow> bool" where
  "once M \<longleftrightarrow> (\<forall>fd. count M fd \<le> 1) \<and> (\<forall>fd \<in># M. 0 < fd)"

definition watch_inv :: "'k daemon \<Rightarrow> bool" where
  "watch_inv D \<longleftrightarrow> mset (dm_watched D) = served_fds D \<and> once (open_fds D)"

definition daemon_inv :: "int list \<Rightarrow> int list \<Rightarrow> 'k daemon \<Rightarrow> bool" where
  "daemon_inv acc fds D \<longleftrightarrow> ipc_inv acc (dm_ipc D)
     \<and> (\<exists>taken. tp_inv taken (dm_tproxy D) \<and> mset fds = mset taken + mset (dm_accepting D))
     \<and> db_reach (cx_db (dm_ctx D)) \<and> in_force (dm_ctx D) \<and> no_lost_wakeup (dm_capture D) \<and> watch_inv D"

lemma once_add: "once M \<Longrightarrow> 0 < fd \<Longrightarrow> fd \<notin># M \<Longrightarrow> once (add_mset fd M)"
  by (auto simp: once_def not_in_iff)

lemma once_less: "once M \<Longrightarrow> N \<subseteq># M \<Longrightarrow> once N"
  unfolding once_def by (metis mset_subset_eq_count mset_subset_eqD le_trans)

lemma epoll_add_mset: "0 \<le> fd \<Longrightarrow> fd \<notin># M \<Longrightarrow> mset ws = M \<Longrightarrow> mset (epoll_add fd ws) = add_mset fd M"
  by (auto simp: epoll_add_def)

lemma epoll_del_mset: "0 \<le> fd \<Longrightarrow> mset ws = add_mset fd M \<Longrightarrow> mset (epoll_del fd ws) = M"
  by (simp add: epoll_del_def)

lemma add_positive_mset: "fd \<notin># M \<Longrightarrow> mset ws = M \<Longrightarrow> mset (add_positive fd ws) = M + pos_fd fd"
  by (auto simp: add_positive_def pos_fd_def epoll_add_def)

lemma add_positive_once:
  assumes "once (M + pos_fd fd)" "mset ws = M"
  shows "mset (add_positive fd ws) = M + pos_fd fd"
proof (cases "0 < fd")
  case True
  have "count (M + pos_fd fd) fd \<le> 1" using assms(1) by (simp only: once_def)
  hence "fd \<notin># M" using True by (simp add: pos_fd_def not_in_iff)
  thus ?thesis by (rule add_positive_mset [OF _ assms(2)])
qed (use assms(2) in \<open>simp add: add_positive_def pos_fd_def\<close>)

section \<open>The steps of the daemon\<close>

text \<open>The kernel hands out positive numbers that are not in use; the rules can be read back.\<close>

definition fresh_fd :: "'k daemon \<Rightarrow> int \<Rightarrow> bool" where
  "fresh_fd D fd \<longleftrightarrow> 0 < fd \<and> fd \<notin># open_fds D"

definition kernel_ok :: "'k event_env \<Rightarrow> 'k daemon \<Rightarrow> bool" where
  "kernel_ok V D \<longleftrightarrow> rules_readable (ev_request V)
     \<and> (case ev_client V of Acc_Conn cfd uid nb rx wr \<Rightarrow> fresh_fd D cfd | Acc_None \<Rightarrow> True)
     \<and> (case ev_conn V of Some cfd \<Rightarrow> fresh_fd D cfd | None \<Rightarrow> True)
     \<and> (case hq_socket (ev_request V) of Some fd \<Rightarrow> fresh_fd D fd \<or> 0 < fd \<and> fd = cx_udp_fd (dm_ctx D) | None \<Rightarrow> True)"

definition thread_ok :: "int \<Rightarrow> accept_env \<Rightarrow> 'k daemon \<Rightarrow> bool" where
  "thread_ok fd e D \<longleftrightarrow> ae_cfd e \<in> set (dm_accepting D) \<and> fresh_fd D fd \<and> (ae_direct_fd e < 0 \<or> fresh_fd D (ae_direct_fd e))"

text \<open>The descriptors an event takes from the kernel for the clients and for the proxy.\<close>

definition new_client :: "'k event_env \<Rightarrow> int \<Rightarrow> 'k daemon \<Rightarrow> int list" where
  "new_client V fd D = (case ev_client V of Acc_Conn cfd uid nb rx wr \<Rightarrow> if dispatch D fd = ME_ipc_accept then [cfd] else [] | Acc_None \<Rightarrow> [])"

definition new_conns :: "'k event_env \<Rightarrow> int \<Rightarrow> 'k daemon \<Rightarrow> int list" where
  "new_conns V fd D = (case ev_conn V of Some cfd \<Rightarrow> if dispatch D fd = ME_accept then [cfd] else [] | None \<Rightarrow> [])"

definition boot_fds :: "'k boot_env \<Rightarrow> int list" where
  "boot_fds B = concat (map (\<lambda>x. case x of None \<Rightarrow> [] | Some fd \<Rightarrow> [fd])
     [ls_socket (bt_ipc B), Some (nq_fd (bt_nfq B)), hq_socket (bt_request B), ls_socket (bt_tproxy B), bt_netlink B])"

definition boot_ok :: "'k boot_env \<Rightarrow> bool" where
  "boot_ok B \<longleftrightarrow> hq_reload (bt_request B) 0 \<and> (\<forall>db. bt_db B = Some db \<longrightarrow> db_reach db)
     \<and> distinct (boot_fds B) \<and> (\<forall>fd \<in> set (boot_fds B). 0 < fd)"

text \<open>\<open>acc\<close> and \<open>fds\<close> list the descriptors the server and the proxy were ever given.\<close>

inductive daemon_run :: "'w ssh_ops \<Rightarrow> 's tls \<Rightarrow> 'd codecs \<Rightarrow> int list \<Rightarrow> int list \<Rightarrow> 'k daemon \<Rightarrow> bool" for S T C where
  start: "main_start B S ca k w = Runs (D, pool, w') \<Longrightarrow> boot_ok B \<Longrightarrow> daemon_run S T C [] [] D"
| event: "daemon_run S T C acc fds D \<Longrightarrow> fd \<in> set (dm_watched D) \<Longrightarrow> kernel_ok V D \<Longrightarrow> handle_event V fd D = Some D'
    \<Longrightarrow> daemon_run S T C (acc @ new_client V fd D) (fds @ new_conns V fd D) D'"
| reload: "daemon_run S T C acc fds D \<Longrightarrow> hq_reload E 0 \<Longrightarrow> daemon_run S T C acc fds (loop_reload E D)"
| accepting: "daemon_run S T C acc fds D \<Longrightarrow> thread_ok fd e D
    \<Longrightarrow> daemon_run S T C acc (fds @ tl (opened_fds (Some (thread_cb E now ok fd D)) e)) (accept_thread E now ok fd e D)"
| resolving: "daemon_run S T C acc fds D \<Longrightarrow> daemon_run S T C acc fds (dns_thread T junk E t0 t1 ok q D)"
| capturing: "daemon_run S T C acc fds D \<Longrightarrow> capture_thread C after err D = Some D' \<Longrightarrow> daemon_run S T C acc fds D'"
| signal_hup: "daemon_run S T C acc fds D \<Longrightarrow> daemon_run S T C acc fds (D \<lparr> dm_reload := sig_hup n (dm_reload D) \<rparr>)"
| signal_term: "daemon_run S T C acc fds D \<Longrightarrow> daemon_run S T C acc fds (D \<lparr> dm_ctx := sig_handler n (dm_ctx D) \<rparr>)"

section \<open>Every step keeps the invariant\<close>

lemma daemon_invI:
  assumes "ipc_inv acc (dm_ipc D)" "tp_inv taken (dm_tproxy D)" "mset fds = mset taken + mset (dm_accepting D)"
    "db_reach (cx_db (dm_ctx D))" "in_force (dm_ctx D)" "no_lost_wakeup (dm_capture D)" "watch_inv D"
  shows "daemon_inv acc fds D"
  using assms unfolding daemon_inv_def by blast

lemma daemon_invE:
  assumes "daemon_inv acc fds D"
  obtains taken where "ipc_inv acc (dm_ipc D)" "tp_inv taken (dm_tproxy D)" "mset fds = mset taken + mset (dm_accepting D)"
    "db_reach (cx_db (dm_ctx D))" "in_force (dm_ctx D)" "no_lost_wakeup (dm_capture D)"
    "mset (dm_watched D) = served_fds D" "once (open_fds D)"
  using assms unfolding daemon_inv_def watch_inv_def by blast

lemma watch_gain:
  assumes "mset (dm_watched D) = served_fds D" "once (open_fds D)" "0 < fd" "fd \<notin># open_fds D"
    and "served_fds D' = add_mset fd (served_fds D)" "dm_watched D' = epoll_add fd (dm_watched D)" "mset (dm_accepting D') = mset (dm_accepting D)"
  shows "watch_inv D'"
proof -
  have "fd \<notin># served_fds D" using assms(4) by (auto simp: open_fds_def)
  hence "mset (dm_watched D') = served_fds D'" using epoll_add_mset [of fd "served_fds D" "dm_watched D"] assms(1,3,5,6) by simp
  moreover have "open_fds D' = add_mset fd (open_fds D)" by (simp add: open_fds_def assms(5,7))
  ultimately show ?thesis using once_add [OF assms(2-4)] by (simp add: watch_inv_def)
qed

lemma watch_lose:
  assumes "mset (dm_watched D) = served_fds D" "once (open_fds D)" "0 \<le> fd"
    and "served_fds D = add_mset fd (served_fds D')" "dm_watched D' = epoll_del fd (dm_watched D)" "mset (dm_accepting D') = mset (dm_accepting D)"
  shows "watch_inv D'"
proof -
  have "mset (dm_watched D') = served_fds D'" using epoll_del_mset [OF assms(3), of "dm_watched D" "served_fds D'"] assms(1,4,5) by simp
  moreover have "open_fds D' \<subseteq># open_fds D" by (simp add: open_fds_def assms(4,6))
  ultimately show ?thesis using once_less [OF assms(2)] by (simp add: watch_inv_def)
qed

lemma watch_same:
  assumes "mset (dm_watched D) = served_fds D" "once (open_fds D)"
    and "served_fds D' = served_fds D" "dm_watched D' = dm_watched D" "mset (dm_accepting D') \<subseteq># mset (dm_accepting D)"
  shows "watch_inv D'"
proof -
  have "open_fds D' \<subseteq># open_fds D" by (simp add: open_fds_def assms(3,5))
  thus ?thesis using once_less [OF assms(2)] assms(1,3,4) by (simp add: watch_inv_def)
qed

lemma in_force_update [simp]:
  "in_force (c \<lparr> cx_host := k \<rparr>) = in_force c" "in_force (c \<lparr> cx_log := g \<rparr>) = in_force c" "in_force (c \<lparr> cx_inspect := s \<rparr>) = in_force c"
  "in_force (c \<lparr> cx_conn_count := n \<rparr>) = in_force c" "in_force (c \<lparr> cx_running := b \<rparr>) = in_force c"
  by (simp_all add: in_force_def)

lemma event_ipc_accept:
  assumes inv: "daemon_inv acc fds D" and k: "kernel_ok V D" and d: "dispatch D fd = ME_ipc_accept" and h: "handle_event V fd D = Some D'"
  shows "daemon_inv (acc @ new_client V fd D) (fds @ new_conns V fd D) D'"
proof (cases "ev_client V")
  case Acc_None
  hence "D' = D" using d h by (simp add: handle_event_def)
  thus ?thesis using inv d Acc_None by (simp add: new_client_def new_conns_def split: option.split)
next
  case (Acc_Conn cfd uid nb rx wr)
  obtain taken where I: "ipc_inv acc (dm_ipc D)" "tp_inv taken (dm_tproxy D)" "mset fds = mset taken + mset (dm_accepting D)"
    "db_reach (cx_db (dm_ctx D))" "in_force (dm_ctx D)" "no_lost_wakeup (dm_capture D)"
    "mset (dm_watched D) = served_fds D" "once (open_fds D)" by (rule daemon_invE [OF inv])
  have f: "0 < cfd" "cfd \<notin># open_fds D" using k Acc_Conn by (auto simp: kernel_ok_def fresh_fd_def)
  obtain idx ipc' where a: "pf_ipc_accept (Acc_Conn cfd uid nb rx wr) (dm_ipc D) = (idx, ipc')" by (rule prod.exhaust)
  note A = accept_fds [OF I(1) _ a]
  have D': "D' = D \<lparr> dm_ipc := ipc', dm_watched := (if 0 \<le> idx then epoll_add (ic_fd (ip_clients ipc' ! nat idx)) (dm_watched D) else dm_watched D) \<rparr>"
    using h d a Acc_Conn by (simp add: handle_event_def del: pf_ipc_accept.simps)
  have "cfd \<notin># fds_of (ip_clients (dm_ipc D))" using f(2) by (auto simp: open_fds_def served_fds_def)
  hence i: "ipc_inv (acc @ [cfd]) ipc'" using ipc_inv_accept [OF I(1), of cfd uid nb rx wr] f(1) a by simp
  have w: "watch_inv D'"
  proof (cases "0 \<le> idx")
    case True
    show ?thesis
      by (rule watch_gain [OF I(7,8) f]) (use True A f(1) in \<open>simp_all add: D' served_fds_def\<close>)
  next
    case False
    show ?thesis by (rule watch_same [OF I(7,8)]) (use False A f(1) in \<open>simp_all add: D' served_fds_def\<close>)
  qed
  have new: "new_client V fd D = [cfd]" "new_conns V fd D = []"
    using d Acc_Conn by (simp_all add: new_client_def new_conns_def split: option.split)
  show ?thesis unfolding new append_Nil2 by (rule daemon_invI [where taken = taken]) (use I i w in \<open>simp_all add: D'\<close>)
qed

lemma dns_callback_frame: "daemon_inv acc fds (D \<lparr> dm_dns := x \<rparr>) = daemon_inv acc fds D"
  by (simp add: daemon_inv_def watch_inv_def open_fds_def served_fds_def)

lemma queries_frame: "daemon_inv acc fds (D \<lparr> dm_queries := x \<rparr>) = daemon_inv acc fds D"
  by (simp add: daemon_inv_def watch_inv_def open_fds_def served_fds_def)

lemma cache_frame: "daemon_inv acc fds (D \<lparr> dm_cache := x \<rparr>) = daemon_inv acc fds D"
  by (simp add: daemon_inv_def watch_inv_def open_fds_def served_fds_def)

lemma reload_flag_frame: "daemon_inv acc fds (D \<lparr> dm_reload := x \<rparr>) = daemon_inv acc fds D"
  by (simp add: daemon_inv_def watch_inv_def open_fds_def served_fds_def)

lemma ctx_frame:
  assumes "daemon_inv acc fds D" "cx_db c = cx_db (dm_ctx D)" "in_force (dm_ctx D) \<Longrightarrow> in_force c"
    "cx_dns_fd c = cx_dns_fd (dm_ctx D)" "cx_udp_fd c = cx_udp_fd (dm_ctx D)"
  shows "daemon_inv acc fds (D \<lparr> dm_ctx := c \<rparr>)"
  using assms by (simp add: daemon_inv_def watch_inv_def open_fds_def served_fds_def)

lemma event_accept:
  assumes inv: "daemon_inv acc fds D" and k: "kernel_ok V D" and d: "dispatch D fd = ME_accept" and h: "handle_event V fd D = Some D'"
  shows "daemon_inv (acc @ new_client V fd D) (fds @ new_conns V fd D) D'"
proof -
  have no: "new_client V fd D = []" using d by (simp add: new_client_def split: accept_result.split)
  show ?thesis
  proof (cases "ev_conn V")
    case None
    thus ?thesis using inv d h no by (simp add: handle_event_def new_conns_def)
  next
    case (Some cfd)
    have new: "new_conns V fd D = [cfd]" using d Some by (simp add: new_conns_def)
    have f: "0 < cfd" "cfd \<notin># open_fds D" using k Some by (auto simp: kernel_ok_def fresh_fd_def)
    obtain taken where I: "ipc_inv acc (dm_ipc D)" "tp_inv taken (dm_tproxy D)" "mset fds = mset taken + mset (dm_accepting D)"
      "db_reach (cx_db (dm_ctx D))" "in_force (dm_ctx D)" "no_lost_wakeup (dm_capture D)"
      "mset (dm_watched D) = served_fds D" "once (open_fds D)" by (rule daemon_invE [OF inv])
    show ?thesis
    proof (cases "ev_memory V \<and> ev_thread V")
      case True
      hence D': "D' = D \<lparr> dm_accepting := dm_accepting D @ [cfd] \<rparr>" using d h Some by (simp add: handle_event_def)
      have "served_fds D' = served_fds D" by (simp add: D' served_fds_def)
      hence "watch_inv D'" using once_add [OF I(8) f] I(7) by (simp add: watch_inv_def open_fds_def D')
      thus ?thesis unfolding no new append_Nil2 by (intro daemon_invI [where taken = taken]) (use I in \<open>simp_all add: D'\<close>)
    next
      case False
      hence D': "D' = D \<lparr> dm_tproxy := drop_fds [cfd] (dm_tproxy D) \<rparr>" using d h Some by (auto simp: handle_event_def)
      have "served_fds D' = served_fds D" by (simp add: D' served_fds_def drop_fds_def table_fds_def)
      hence w: "watch_inv D'" by (intro watch_same [OF I(7,8)]) (simp_all add: D')
      have t: "tp_inv (taken @ [cfd]) (drop_fds [cfd] (dm_tproxy D))" by (rule tp_inv_drop [OF I(2)]) simp
      show ?thesis unfolding no new append_Nil2 by (rule daemon_invI [where taken = "taken @ [cfd]"]) (use I w t in \<open>simp_all add: D'\<close>)
    qed
  qed
qed

text \<open>Pushing is always followed by the wake-up.\<close>

lemma push_no_lost:
  assumes "no_lost_wakeup s"
  shows "no_lost_wakeup (s \<lparr> cw_queue := fst (snd (pf_capture_queue_push (cw_queue s) (Some m))) \<rparr>)"
proof -
  obtain q freed where p: "cq_push_locked (cw_queue s) m = (q, freed)" by (rule prod.exhaust)
  have "no_lost_wakeup (s \<lparr> cw_queue := q, cw_unsent := cw_unsent s + 1 \<rparr>)" by (rule capture_step_no_lost [OF assms step_push [OF p]])
  from capture_step_no_lost [OF this step_wake] p show ?thesis by (simp add: pf_capture_queue_push_def)
qed

lemma inspect_no_lost: "no_lost_wakeup s \<Longrightarrow> no_lost_wakeup (s \<lparr> cw_queue := on_inspect_data now d r c (cw_queue s) \<rparr>)"
  by (simp add: on_inspect_data_def push_no_lost)

lemma inspects_no_lost:
  "no_lost_wakeup s \<Longrightarrow> no_lost_wakeup (s \<lparr> cw_queue := fold (\<lambda>(d, r, c) q. on_inspect_data now d r c q) ms (cw_queue s) \<rparr>)"
proof (induction ms arbitrary: s)
  case (Cons m ms)
  obtain d r c where m: "m = (d, r, c)" by (metis prod.exhaust)
  show ?case using Cons.IH [OF inspect_no_lost [OF Cons.prems, of now d r c]] by (simp add: m)
qed simp

lemma event_relay:
  assumes inv: "daemon_inv acc fds D" and d: "dispatch D fd = ME_relay j"
  shows "daemon_inv acc fds (relay_event V j D)"
proof -
  obtain taken where I: "ipc_inv acc (dm_ipc D)" "tp_inv taken (dm_tproxy D)" "mset fds = mset taken + mset (dm_accepting D)"
    "db_reach (cx_db (dm_ctx D))" "in_force (dm_ctx D)" "no_lost_wakeup (dm_capture D)"
    "mset (dm_watched D) = served_fds D" "once (open_fds D)" by (rule daemon_invE [OF inv])
  have "main_find_conn (dm_tproxy D) fd = Some j"
    using d by (simp add: dispatch_def split: if_splits option.splits)
  hence j: "j < length (tp_conns (dm_tproxy D))" and act: "cn_active (tp_conns (dm_tproxy D) ! j)"
    unfolding main_find_conn_def find_index_Some by auto
  hence jm: "j < PF_MAX_CONNECTIONS" using I(2) by (simp add: tp_inv_def)
  let ?conn = "tp_conns (dm_tproxy D) ! j"
  have pos: "0 \<le> cn_client_fd ?conn" "0 \<le> cn_proxy_fd ?conn" using I(2) j act by (auto simp: tp_inv_def conn_ok_def dest: nth_mem)
  obtain ok tp' where r: "pf_tproxy_relay (dm_inspect_cb D) j (dm_tproxy D) = (ok, tp')" by (rule prod.exhaust)
  note R = relay_fds [OF I(2) jm act r]
  have t: "tp_inv taken tp'" using tp_inv_relay [OF I(2), of "dm_inspect_cb D" j] r by simp
  let ?q = "fold (\<lambda>(data, is_request, c) q. on_inspect_data (ev_now V) data is_request c q)
    (drop (length (tp_captured (dm_tproxy D))) (tp_captured tp')) (cw_queue (dm_capture D))"
  have c: "no_lost_wakeup ((dm_capture D) \<lparr> cw_queue := ?q \<rparr>)" by (rule inspects_no_lost [OF I(6)])
  show ?thesis
  proof (cases ok)
    case True
    hence D': "relay_event V j D = D \<lparr> dm_tproxy := tp', dm_capture := (dm_capture D) \<lparr> cw_queue := ?q \<rparr> \<rparr>"
      by (simp add: relay_event_def Let_def r)
    have "watch_inv (relay_event V j D)" by (rule watch_same [OF I(7,8)]) (use True R in \<open>simp_all add: D' served_fds_def\<close>)
    thus ?thesis by (intro daemon_invI [where taken = taken]) (use I t c in \<open>simp_all add: D'\<close>)
  next
    case False
    have same: "pf_tproxy_close_conn j tp' = tp'" using R(3) [OF False] by (simp add: pf_tproxy_close_conn_def Let_def)
    have D': "relay_event V j D = D \<lparr> dm_tproxy := tp', dm_capture := (dm_capture D) \<lparr> cw_queue := ?q \<rparr>,
        dm_watched := epoll_del (cn_proxy_fd ?conn) (epoll_del (cn_client_fd ?conn) (dm_watched D)) \<rparr>"
      using False same by (simp add: relay_event_def Let_def r)
    have s: "served_fds D = add_mset (cn_client_fd ?conn) (add_mset (cn_proxy_fd ?conn) (served_fds (relay_event V j D)))"
      using False R(1,2) by (simp add: D' served_fds_def)
    have "mset (epoll_del (cn_client_fd ?conn) (dm_watched D)) = add_mset (cn_proxy_fd ?conn) (served_fds (relay_event V j D))"
      by (rule epoll_del_mset [OF pos(1)]) (use I(7) s in simp)
    hence "mset (dm_watched (relay_event V j D)) = served_fds (relay_event V j D)"
      using epoll_del_mset [OF pos(2)] by (simp add: D')
    moreover have "open_fds (relay_event V j D) \<subseteq># open_fds D" unfolding open_fds_def s by (simp add: D')
    ultimately have "watch_inv (relay_event V j D)" using once_less [OF I(8)] by (simp add: watch_inv_def)
    thus ?thesis by (intro daemon_invI [where taken = taken]) (use I t c in \<open>simp_all add: D'\<close>)
  qed
qed

text \<open>The socket of the resolver that requests open and close.\<close>

lemma watch_resolver_mset:
  assumes "mset ws = M + pos_fd old" "new = old \<or> new \<le> 0 \<or> new \<notin># M"
  shows "mset (watch_resolver old new ws) = M + pos_fd new"
proof (cases "new = old")
  case False
  have "mset (if 0 < old then epoll_del old ws else ws) = M"
    using epoll_del_mset [of old ws M] assms(1) by (simp add: pos_fd_def)
  moreover have "new \<le> 0 \<or> new \<notin># M" using False assms(2) by simp
  ultimately show ?thesis using add_positive_mset [of new M] False
    by (auto simp: watch_resolver_def pos_fd_def add_positive_def)
qed (use assms(1) in \<open>simp add: watch_resolver_def\<close>)

lemma event_client:
  assumes inv: "daemon_inv acc fds D" and k: "kernel_ok V D" and d: "dispatch D fd = ME_client j"
    and w: "fd \<in> set (dm_watched D)"
  shows "daemon_inv acc fds (client_event V j fd D)"
proof -
  obtain taken where I: "ipc_inv acc (dm_ipc D)" "tp_inv taken (dm_tproxy D)" "mset fds = mset taken + mset (dm_accepting D)"
    "db_reach (cx_db (dm_ctx D))" "in_force (dm_ctx D)" "no_lost_wakeup (dm_capture D)"
    "mset (dm_watched D) = served_fds D" "once (open_fds D)" by (rule daemon_invE [OF inv])
  let ?E = "ev_request V"
  have find: "main_find_client (dm_ipc D) fd = Some j" using d by (simp add: dispatch_def split: if_splits option.splits)
  note J = find_client_fd [OF I(1) find]
  have jl: "j < length (ip_clients (dm_ipc D))" using J(1) I(1) by (simp add: ipc_inv_def)
  let ?c = "(dm_ctx D) \<lparr> cx_conn_count := tp_conn_count (dm_tproxy D) \<rparr>"
  obtain rc ipc' c' where p: "pf_ipc_process (ev_json V) (Some (request_handler ?E)) j (dm_ipc D, ?c) = (rc, ipc', c')"
    by (metis prod.exhaust)
  have served: "served_ctx ?E ?c c'"
  proof (rule process_cases [OF p])
    fix c assume "c' = ?c \<or> (\<exists>d x. c' = snd (snd (ipc_lines (ev_json V) (Some (request_handler ?E)) d (x, ?c))))"
    thus ?thesis using served_refl served_lines [of ?E "(x, ?c)" "ev_json V" for x] by fastforce
  qed (simp add: served_refl)
  have new: "cx_udp_fd c' = cx_udp_fd (dm_ctx D) \<or> cx_udp_fd c' \<le> 0 \<or> 0 < cx_udp_fd c' \<and> cx_udp_fd c' \<notin># open_fds D"
  proof (cases "hq_socket ?E = Some (cx_udp_fd c')")
    case True
    thus ?thesis using k by (auto simp: kernel_ok_def fresh_fd_def)
  qed (use served in \<open>auto simp: served_ctx_def\<close>)
  have dns: "cx_dns_fd c' = cx_dns_fd (dm_ctx D)" using served by (simp add: served_ctx_def)
  let ?D = "client_event V j fd D"
  let ?ws = "watch_resolver (cx_udp_fd (dm_ctx D)) (cx_udp_fd c') (dm_watched D)"
  have D': "dm_ipc ?D = ipc'" "dm_ctx ?D = c'" "dm_watched ?D = (if rc < 0 then epoll_del fd ?ws else ?ws)" "dm_tproxy ?D = dm_tproxy D"
    "dm_accepting ?D = dm_accepting D" "dm_monitor ?D = dm_monitor D" "dm_capture ?D = dm_capture D"
    by (simp_all add: client_event_def Let_def p)
  define M where "M = pos_fd (ip_listen_fd (dm_ipc D)) + pos_fd (cx_dns_fd (dm_ctx D)) + pos_fd (tp_listen_fd (dm_tproxy D))
     + pos_fd (mon_nl_fd (dm_monitor D)) + fds_of (ip_clients (dm_ipc D)) + table_fds (dm_tproxy D)"
  have M: "served_fds D = M + pos_fd (cx_udp_fd (dm_ctx D))" by (simp add: served_fds_def M_def)
  have ws: "mset ?ws = M + pos_fd (cx_udp_fd c')"
    by (rule watch_resolver_mset) (use I(7) M new in \<open>auto simp: open_fds_def\<close>)
  have oM: "once (M + pos_fd (cx_udp_fd c') + mset (dm_accepting D))"
  proof (cases "cx_udp_fd c' = cx_udp_fd (dm_ctx D)")
    case True
    thus ?thesis using I(8) M by (simp add: open_fds_def)
  next
    case False
    have "M + mset (dm_accepting D) \<subseteq># open_fds D" by (simp add: open_fds_def M)
    hence "once (M + mset (dm_accepting D))" by (rule once_less [OF I(8)])
    thus ?thesis using new False once_add [of "M + mset (dm_accepting D)" "cx_udp_fd c'"] by (auto simp: pos_fd_def open_fds_def M)
  qed
  have ipc: "ipc_inv acc ipc' \<and> ip_listen_fd ipc' = ip_listen_fd (dm_ipc D)
    \<and> fds_of (ip_clients (dm_ipc D)) = (if rc < 0 then add_mset fd (fds_of (ip_clients ipc')) else fds_of (ip_clients ipc'))
    \<and> 0 \<le> fd"
  proof -
    have "fd \<in># mset (dm_watched D)" using w by simp
    hence "fd \<in># open_fds D" using I(7) by (simp add: open_fds_def)
    hence fd: "0 \<le> fd" using I(8) by (fastforce simp: once_def)
    have f: "0 \<le> ic_fd (ip_clients (dm_ipc D) ! j)" using fd J(2) by simp
    have "fst (ipc_serve (ev_json V) (Some (request_handler ?E)) j (dm_ipc D, ?c)) = ipc'" by (simp add: ipc_serve_def p)
    hence "ipc_inv acc ipc'" using ipc_inv_serve [OF I(1) J(1) f, of "ev_json V" "Some (request_handler ?E)" ?c] by simp
    moreover have "ip_listen_fd ipc' = ip_listen_fd (dm_ipc D)
      \<and> fds_of (ip_clients (dm_ipc D)) = (if rc < 0 then add_mset fd (fds_of (ip_clients ipc')) else fds_of (ip_clients ipc'))"
    proof (rule process_cases [OF p])
      assume "rc < 0" "ipc' = client_remove j (dm_ipc D)"
      thus ?thesis using remove_fds [OF jl f] J(2) by (simp add: client_remove_def Let_def)
    next
      fix c assume "0 \<le> rc" "ipc' = (dm_ipc D) \<lparr> ip_clients := (ip_clients (dm_ipc D))[j := c] \<rparr>" "ic_fd c = ic_fd (ip_clients (dm_ipc D) ! j)"
      thus ?thesis using same_client_fds [OF jl, of c] by simp
    qed
    ultimately show ?thesis using fd by simp
  qed
  have s: "served_fds ?D + (if rc < 0 then {# fd #} else {#}) = M + pos_fd (cx_udp_fd c')"
    using ipc by (simp add: served_fds_def D' M_def dns)
  have "mset (dm_watched ?D) = served_fds ?D"
  proof (cases "rc < 0")
    case True
    hence "mset ?ws = add_mset fd (served_fds ?D)" using ws s by simp
    thus ?thesis using epoll_del_mset [of fd ?ws] ipc True by (simp add: D')
  qed (use ws s in \<open>simp add: D'\<close>)
  moreover have "open_fds ?D \<subseteq># M + pos_fd (cx_udp_fd c') + mset (dm_accepting D)"
    unfolding s [symmetric] open_fds_def D' by simp
  ultimately have wi: "watch_inv ?D" using once_less [OF oM] by (simp add: watch_inv_def)
  have db: "db_reach (cx_db c')" "in_force c'" using served I(4,5) k by (simp_all add: served_ctx_def kernel_ok_def)
  show ?thesis by (rule daemon_invI [where taken = taken]) (use I ipc db wi in \<open>simp_all add: D'\<close>)
qed

lemma monitor_host:
  assumes inv: "daemon_inv acc fds D" and d: "dispatch D fd = ME_monitor" and h: "handle_event V fd D = Some D'"
  shows "daemon_inv acc fds D'"
proof -
  obtain k where "D' = D \<lparr> dm_ctx := (dm_ctx D) \<lparr> cx_host := k \<rparr> \<rparr>"
    using h d by (auto simp: handle_event_def Let_def)
  thus ?thesis using ctx_frame [OF inv, of "(dm_ctx D) \<lparr> cx_host := k \<rparr>"] by simp
qed

lemma event_keeps:
  assumes inv: "daemon_inv acc fds D" and w: "fd \<in> set (dm_watched D)" and k: "kernel_ok V D" and h: "handle_event V fd D = Some D'"
  shows "daemon_inv (acc @ new_client V fd D) (fds @ new_conns V fd D) D'"
proof -
  have none: "new_client V fd D = []" "new_conns V fd D = []" if "dispatch D fd \<noteq> ME_ipc_accept" "dispatch D fd \<noteq> ME_accept"
    using that by (simp_all add: new_client_def new_conns_def split: accept_result.split option.split)
  show ?thesis
  proof (cases "dispatch D fd")
    case ME_ipc_accept
    thus ?thesis by (rule event_ipc_accept [OF inv k _ h])
  next
    case ME_accept
    thus ?thesis by (rule event_accept [OF inv k _ h])
  next
    case ME_dns
    thus ?thesis using h inv none by (auto simp: handle_event_def dns_callback_frame)
  next
    case ME_doh
    thus ?thesis using h inv none by (auto simp: handle_event_def queries_frame split: option.splits)
  next
    case ME_monitor
    thus ?thesis using monitor_host [OF inv _ h] none by simp
  next
    case (ME_client j)
    thus ?thesis using event_client [OF inv k _ w] h none by (auto simp: handle_event_def)
  next
    case (ME_relay j)
    thus ?thesis using event_relay [OF inv] h none by (auto simp: handle_event_def)
  next
    case ME_none
    thus ?thesis using h inv none by (auto simp: handle_event_def)
  qed
qed

lemma opened_hd: "opened_fds cb e = ae_cfd e # tl (opened_fds cb e)"
  by (simp add: opened_fds_def)

lemma opened_fresh:
  assumes "thread_ok fd e D" "opened_fds (Some (thread_cb E now ok fd D)) e = [ae_cfd e, x]"
  shows "fresh_fd D x"
proof -
  have "x = fd \<or> x = ae_direct_fd e \<and> 0 \<le> ae_direct_fd e"
    using assms(2) by (auto simp: opened_fds_def thread_cb_def main_connect_cb_def Let_def split: option.splits if_splits route.splits)
  thus ?thesis using assms(1) by (auto simp: thread_ok_def)
qed

lemma thread_keeps:
  assumes inv: "daemon_inv acc fds D" and t: "thread_ok fd e D"
  shows "daemon_inv acc (fds @ tl (opened_fds (Some (thread_cb E now ok fd D)) e)) (accept_thread E now ok fd e D)"
proof -
  obtain taken where I: "ipc_inv acc (dm_ipc D)" "tp_inv taken (dm_tproxy D)" "mset fds = mset taken + mset (dm_accepting D)"
    "db_reach (cx_db (dm_ctx D))" "in_force (dm_ctx D)" "no_lost_wakeup (dm_capture D)"
    "mset (dm_watched D) = served_fds D" "once (open_fds D)" by (rule daemon_invE [OF inv])
  let ?cb = "Some (thread_cb E now ok fd D)"
  let ?st = "\<lparr> mitm_state.mi_enabled = (pf_mitm.mi_enabled (cx_mitm (dm_ctx D)) \<noteq> 0), mitm_state.mi_ca_key = (pf_mitm.mi_ca_key (cx_mitm (dm_ctx D)) \<noteq> None) \<rparr>"
  let ?D = "accept_thread E now ok fd e D"
  have ein: "ae_cfd e \<in># mset (dm_accepting D)" using t by (simp add: thread_ok_def)
  obtain R where R: "mset (dm_accepting D) = add_mset (ae_cfd e) R" using multi_member_split [OF ein] by blast
  have cfd: "0 < ae_cfd e" using ein I(8) by (auto simp: once_def open_fds_def)
  hence cfd0: "0 \<le> ae_cfd e" by simp
  obtain idx tp where a: "tproxy_accept_thread ?cb ?st e (dm_tproxy D) = (idx, tp)" by (rule prod.exhaust)
  note A = thread_fds [OF I(2) cfd0 a]
  obtain g where D': "?D = D \<lparr> dm_tproxy := tp, dm_accepting := remove1 (ae_cfd e) (dm_accepting D), dm_ctx := (dm_ctx D) \<lparr> cx_log := g \<rparr>,
      dm_watched := (case idx of None \<Rightarrow> dm_watched D
        | Some i \<Rightarrow> epoll_add (cn_proxy_fd (tp_conns tp ! i)) (epoll_add (cn_client_fd (tp_conns tp ! i)) (dm_watched D))) \<rparr>"
  proof -
    have log: "dm_ctx D = (dm_ctx D) \<lparr> cx_log := cx_log (dm_ctx D) \<rparr>" by simp
    show ?thesis
    proof (cases "ae_orig e")
      case None
      show ?thesis by (rule that [of "cx_log (dm_ctx D)"]) (simp only: accept_thread_def Let_def a None prod.case option.case log [symmetric])
    next
      case (Some p)
      obtain ip port where p: "p = (ip, port)" by (cases p)
      show ?thesis
        by (rule that [of "snd (snd (proxy_connect_for_tproxy (hq_fnm E) (hq_evp E) (hq_net E) ok (cx_db (dm_ctx D)) now (dm_dns D) (cx_ruleset (dm_ctx D))
            (inet_ntop4 ip) (int (unat port)) (peek_domain (take 4096 (ae_peek e))) (cx_log (dm_ctx D))))"])
          (simp only: accept_thread_def Let_def a Some p prod.case option.case)
    qed
  qed
  have acc: "mset (dm_accepting ?D) = R" by (simp add: D' R)
  have tp: "tp_inv (taken @ opened_fds ?cb e) tp" using tp_inv_accept [OF I(2) cfd0, of ?cb ?st] a by simp
  have count: "mset (fds @ tl (opened_fds ?cb e)) = mset (taken @ opened_fds ?cb e) + mset (dm_accepting ?D)"
    using I(3) R acc arg_cong [OF opened_hd [of ?cb e], of mset] by simp
  have w: "watch_inv ?D"
  proof (cases idx)
    case None
    have "served_fds ?D = served_fds D" using A(1) [OF None] A(3) by (simp add: D' served_fds_def None)
    thus ?thesis by (intro watch_same [OF I(7,8)]) (simp_all add: D' None)
  next
    case (Some i)
    obtain x where x: "opened_fds ?cb e = [ae_cfd e, x]" "table_fds tp = table_fds (dm_tproxy D) + {# ae_cfd e, x #}"
      "cn_client_fd (tp_conns tp ! i) = ae_cfd e" "cn_proxy_fd (tp_conns tp ! i) = x" using A(2) [OF Some] by blast
    have f: "0 < x" "x \<notin># open_fds D" using opened_fresh [OF t x(1)] by (simp_all add: fresh_fd_def)
    have s: "served_fds ?D = add_mset x (add_mset (ae_cfd e) (served_fds D))" using x(2) A(3) by (simp add: D' served_fds_def)
    have once: "once (add_mset x (open_fds D))" by (rule once_add [OF I(8) f])
    have o: "open_fds ?D = add_mset x (open_fds D)" unfolding open_fds_def s acc R by simp
    have nin: "ae_cfd e \<notin># served_fds D"
    proof
      assume "ae_cfd e \<in># served_fds D"
      hence "1 < count (open_fds D) (ae_cfd e)" by (simp add: open_fds_def R)
      thus False using I(8) by (simp add: once_def not_less [symmetric])
    qed
    have "mset (epoll_add (ae_cfd e) (dm_watched D)) = add_mset (ae_cfd e) (served_fds D)" by (rule epoll_add_mset [OF cfd0 nin I(7)])
    moreover have "x \<notin># add_mset (ae_cfd e) (served_fds D)" using f(2) by (auto simp: open_fds_def R)
    ultimately have "mset (dm_watched ?D) = served_fds ?D"
      unfolding s using epoll_add_mset [of x "add_mset (ae_cfd e) (served_fds D)" "epoll_add (ae_cfd e) (dm_watched D)"] f(1) by (simp add: D' Some x(3,4))
    thus ?thesis using once o by (simp add: watch_inv_def)
  qed
  show ?thesis by (rule daemon_invI [where taken = "taken @ opened_fds ?cb e", OF _ _ count]) (use I tp w in \<open>simp_all add: D'\<close>)
qed

lemma capture_keeps:
  assumes inv: "daemon_inv acc fds D" and c: "capture_thread C after err D = Some D'"
  shows "daemon_inv acc fds D'"
proof -
  obtain sys s where w: "worker_step err (dm_capture D) = Some sys" and D': "D' = D \<lparr> dm_capture := sys, dm_ctx := (dm_ctx D) \<lparr> cx_inspect := s \<rparr> \<rparr>"
    using c by (auto simp: capture_thread_def split: option.splits)
  have "no_lost_wakeup (dm_capture D)" using inv by (simp add: daemon_inv_def)
  hence "no_lost_wakeup sys" by (rule worker_step_no_lost [OF _ w])
  thus ?thesis using inv by (simp add: D' daemon_inv_def watch_inv_def open_fds_def served_fds_def)
qed

section \<open>The start\<close>

lemma start_frames:
  "cx_db (snd (start_nft E c)) = cx_db c \<and> cx_ruleset (snd (start_nft E c)) = cx_ruleset c \<and> cx_dns_fd (snd (start_nft E c)) = cx_dns_fd c
    \<and> (cx_udp_fd (snd (start_nft E c)) \<in> {cx_udp_fd c, -1} \<or> hq_socket E = Some (cx_udp_fd (snd (start_nft E c))))"
proof -
  have q: "cx_db (snd (start_quic E c)) = cx_db c \<and> cx_ruleset (snd (start_quic E c)) = cx_ruleset c
    \<and> cx_dns_fd (snd (start_quic E c)) = cx_dns_fd c \<and> cx_udp_fd (snd (start_quic E c)) = cx_udp_fd c" for c
    by (simp add: start_quic_def split: prod.split)
  have d: "cx_db (snd (start_dns E c)) = cx_db c \<and> cx_ruleset (snd (start_dns E c)) = cx_ruleset c \<and> cx_dns_fd (snd (start_dns E c)) = cx_dns_fd c
    \<and> (cx_udp_fd (snd (start_dns E c)) \<in> {cx_udp_fd c, -1} \<or> hq_socket E = Some (cx_udp_fd (snd (start_dns E c))))" for c
    by (simp add: start_dns_def Let_def resolver_open_def split: prod.split option.split)
  show ?thesis
  proof (cases "pf_nft_init (hq_host E) (cx_host c)")
    case (Pair r k)
    let ?c = "on_host (pf_nft_setup_tproxy (hq_host E) PF_TPROXY_PORT) (on_host (pf_nft_setup_dns_redirect (hq_host E)) (c \<lparr> cx_host := k \<rparr>))"
    have c: "cx_db ?c = cx_db c" "cx_ruleset ?c = cx_ruleset c" "cx_dns_fd ?c = cx_dns_fd c" "cx_udp_fd ?c = cx_udp_fd c"
      by (simp_all add: frame)
    obtain e1 c1 where s1: "start_quic E ?c = (e1, c1)" by (rule prod.exhaust)
    obtain e2 c2 where s2: "start_dns E c1 = (e2, c2)" by (rule prod.exhaust)
    show ?thesis using q [of ?c] d [of c1] s1 s2 c Pair by (cases r) (simp_all add: start_nft_def Let_def)
  qed
qed

lemma setup_frames:
  "cx_db (setup_cgroups_for_existing_rules E c) = cx_db c \<and> cx_ruleset (setup_cgroups_for_existing_rules E c) = cx_ruleset c
    \<and> cx_dns_fd (setup_cgroups_for_existing_rules E c) = cx_dns_fd c \<and> cx_udp_fd (setup_cgroups_for_existing_rules E c) = cx_udp_fd c"
proof -
  let ?f = "\<lambda>r c. if r_app_path r \<noteq> [] \<and> r_enabled r \<noteq> 0 \<and> r_action r \<noteq> PF_ACTION_DIRECT then mark_rule E (sint (r_id r)) c else c"
  have "cx_db (fold ?f rs c) = cx_db c \<and> cx_ruleset (fold ?f rs c) = cx_ruleset c \<and> cx_dns_fd (fold ?f rs c) = cx_dns_fd c
    \<and> cx_udp_fd (fold ?f rs c) = cx_udp_fd c" for rs
    by (induction rs arbitrary: c) (simp_all add: mark_rule_frame)
  thus ?thesis by (simp add: setup_cgroups_for_existing_rules_def)
qed

lemma daemon_start_frames:
  fixes E :: "'k request_env" and c :: "'k pf_ctx" and dns_fd listen_fd :: "int option"
  assumes "hq_reload E 0"
  defines "c' \<equiv> snd (daemon_start E dns_fd listen_fd c)"
  shows "cx_db c' = cx_db c" "in_force c'" "cx_dns_fd c' = (case dns_fd of Some fd \<Rightarrow> fd | None \<Rightarrow> -1)"
    "cx_udp_fd c' \<in> {cx_udp_fd c, -1} \<or> hq_socket E = Some (cx_udp_fd c')"
proof -
  let ?c1 = "(start_mitm E (rules_reload_locked E c)) \<lparr> cx_dns_fd := (case dns_fd of Some fd \<Rightarrow> fd | None \<Rightarrow> -1) \<rparr>"
  have m: "cx_db (start_mitm E x) = cx_db x \<and> cx_ruleset (start_mitm E x) = cx_ruleset x \<and> cx_udp_fd (start_mitm E x) = cx_udp_fd x" for x
    by (simp add: start_mitm_def split: prod.split option.split)
  have c1: "cx_db ?c1 = cx_db c" "in_force ?c1" "cx_dns_fd ?c1 = (case dns_fd of Some fd \<Rightarrow> fd | None \<Rightarrow> -1)" "cx_udp_fd ?c1 = cx_udp_fd c"
    using reload_in_force [OF assms(1), of c] m [of "rules_reload_locked E c"] by (simp_all add: frame in_force_def)
  let ?c2 = "snd (start_nft E ?c1)"
  have e: "c' = setup_cgroups_for_existing_rules E ((on_host (pf_cgroup_init (hq_host E)) ?c2) \<lparr> cx_listen_fd := (case listen_fd of Some fd \<Rightarrow> fd | None \<Rightarrow> -1) \<rparr>)"
    by (simp add: c'_def daemon_start_def Let_def split_beta)
  show "cx_db c' = cx_db c" "in_force c'" "cx_dns_fd c' = (case dns_fd of Some fd \<Rightarrow> fd | None \<Rightarrow> -1)"
    "cx_udp_fd c' \<in> {cx_udp_fd c, -1} \<or> hq_socket E = Some (cx_udp_fd c')"
    using start_frames [of E ?c1] c1 unfolding e by (simp_all add: setup_frames frame in_force_def)
qed

lemma main_start_runs:
  assumes "main_start B S ca k w = Runs (D, pool, w')"
  obtains db k' ipc_fd ipc fds dns_err dns_fd dns held tp_err tp fds1 fds2 cb mon_err mon fds3 lo where
    "bt_db B = Some db" "pf_ipc_open (bt_ipc B) PF_SOCKET_PATH (sw_fds w) = (ipc_fd, ipc, fds)" "0 \<le> ipc_fd"
    "pf_dns_open (bt_nfq B) [] [] = (dns_err, dns_fd, dns, held)"
    "pf_tproxy_open (bt_tproxy B) PF_TPROXY_PORT fds1 = (tp_err, tp, fds2)"
    "pf_monitor_init (bt_netlink B) (bt_bound B) (bt_sent B) (of_int (bt_pid B)) cb fds2 = (mon_err, mon, fds3)"
    "D = loop_watch (boot_daemon B (snd (daemon_start (bt_request B) (if dns_err = None then Some dns_fd else None)
        (if tp_err = None then Some (tp_listen_fd tp) else None) (zero_ctx db ca k'))) ipc dns held tp lo mon)"
proof -
  let ?E = "bt_request B"
  obtain db where db: "bt_db B = Some db" using assms by (cases "bt_db B") (auto simp: main_start_def Let_def)
  obtain ipc_fd ipc fds where i: "pf_ipc_open (bt_ipc B) PF_SOCKET_PATH (sw_fds w) = (ipc_fd, ipc, fds)" by (metis prod.exhaust)
  have ok: "0 \<le> ipc_fd" using assms db i by (auto simp: main_start_def Let_def split: if_splits)
  obtain r pool1 w1 where p: "pf_ssh_pool_init S (bt_ssh_mutex B) (w \<lparr> sw_fds := fds \<rparr>) = (r, pool1, w1)" by (metis prod.exhaust)
  obtain dns_err dns_fd dns held where d: "pf_dns_open (bt_nfq B) [] [] = (dns_err, dns_fd, dns, held)" by (metis prod.exhaust)
  obtain tp_err tp fds2 where t: "pf_tproxy_open (bt_tproxy B) PF_TPROXY_PORT (sw_fds w1) = (tp_err, tp, fds2)" by (metis prod.exhaust)
  obtain mon_err mon fds3 where m: "pf_monitor_init (bt_netlink B) (bt_bound B) (bt_sent B) (of_int (bt_pid B))
      (process_event (hq_fnm ?E) (hq_host ?E) []) fds2 = (mon_err, mon, fds3)" by (metis prod.exhaust)
  have r: "(case bt_epoll B of None \<Rightarrow> Shuts_down x | Some epfd \<Rightarrow> Runs (loop_watch D1, pool1, y epfd)) = Runs (D, pool, w') \<Longrightarrow> D = loop_watch D1" for x D1 y
    by (simp split: option.splits)
  have "\<not> ipc_fd < 0" "bt_memory B" "bt_locks B" using assms db i ok by (auto simp: main_start_def Let_def split: if_splits)
  thus ?thesis using assms unfolding main_start_def Let_def db option.case i p prod.case d t m
    by (intro that [where k' = "snd (write_pid_file (hq_host ?E) (bt_pid_file B) (bt_pid B) PF_PID_FILE k)" and lo = "pf_logger_init PF_LOG_PATH",
          OF db i ok d t m]) (simp, drule r, simp)
qed

lemma start_inv:
  assumes s: "main_start B S ca k w = Runs (D, pool, w')" and ok: "boot_ok B"
  shows "daemon_inv [] [] D" "dm_accepting D = []" "\<exists>fd. ls_socket (bt_ipc B) = Some fd \<and> dm_ipc D = pf_ipc_init fd"
    "bt_db B = Some (cx_db (dm_ctx D))" "served_fds D \<subseteq># mset (boot_fds B)"
proof -
  obtain db k' ipc_fd ipc fds dns_err dns_fd dns held tp_err tp fds1 fds2 cb mon_err mon fds3 lo where
    db: "bt_db B = Some db" and i: "pf_ipc_open (bt_ipc B) PF_SOCKET_PATH (sw_fds w) = (ipc_fd, ipc, fds)" "0 \<le> ipc_fd"
    and d: "pf_dns_open (bt_nfq B) [] [] = (dns_err, dns_fd, dns, held)"
    and t: "pf_tproxy_open (bt_tproxy B) PF_TPROXY_PORT fds1 = (tp_err, tp, fds2)"
    and m: "pf_monitor_init (bt_netlink B) (bt_bound B) (bt_sent B) (of_int (bt_pid B)) cb fds2 = (mon_err, mon, fds3)"
    and D: "D = loop_watch (boot_daemon B (snd (daemon_start (bt_request B) (if dns_err = None then Some dns_fd else None)
        (if tp_err = None then Some (tp_listen_fd tp) else None) (zero_ctx db ca k'))) ipc dns held tp lo mon)"
    by (rule main_start_runs [OF s])
  define c where "c = snd (daemon_start (bt_request B) (if dns_err = None then Some dns_fd else None)
        (if tp_err = None then Some (tp_listen_fd tp) else None) (zero_ctx db ca k'))"
  have E: "hq_reload (bt_request B) 0" "db_reach db" using ok db by (simp_all add: boot_ok_def)
  note F = daemon_start_frames [OF E(1), where c = "zero_ctx db ca k'" and dns_fd = "if dns_err = None then Some dns_fd else None"
      and listen_fd = "if tp_err = None then Some (tp_listen_fd tp) else None", folded c_def]
  have ifd: "ls_socket (bt_ipc B) = Some (ip_listen_fd ipc)" "ipc = pf_ipc_init (ip_listen_fd ipc)"
    using i by (auto simp: pf_ipc_open_def pf_ipc_init_def Let_def split: option.splits if_splits)
  have dfd: "cx_dns_fd c = -1 \<or> cx_dns_fd c = nq_fd (bt_nfq B)"
    using d F(3) by (auto simp: pf_dns_open_def Let_def split: if_splits)
  have ufd: "cx_udp_fd c \<le> 0 \<or> hq_socket (bt_request B) = Some (cx_udp_fd c)"
    using F(4) by (auto simp: zero_ctx_def)
  have tfd: "tp_listen_fd tp = -1 \<or> ls_socket (bt_tproxy B) = Some (tp_listen_fd tp)" "tp = pf_tproxy_init (tp_listen_fd tp) (tp_epoll_fd tp)"
    using t by (auto simp: pf_tproxy_open_def pf_tproxy_init_def Let_def split: option.splits if_splits)
  have mfd: "mon_nl_fd mon = -1 \<or> bt_netlink B = Some (mon_nl_fd mon)"
    using m by (auto simp: pf_monitor_init_def Let_def split: option.splits if_splits)
  have part: "pos_fd fd \<subseteq># mset (case x of None \<Rightarrow> [] | Some fd \<Rightarrow> [fd])" if "fd \<le> 0 \<or> x = Some fd" for fd x
    using that by (auto simp: pos_fd_def)
  let ?M = "pos_fd (ip_listen_fd ipc) + pos_fd (cx_dns_fd c) + pos_fd (cx_udp_fd c) + pos_fd (tp_listen_fd tp) + pos_fd (mon_nl_fd mon)"
  have "?M \<subseteq># mset (boot_fds B)"
    unfolding boot_fds_def list.map concat.simps append_Nil2 mset_append add.assoc
    by (intro subset_mset.add_mono part) (use ifd dfd ufd tfd mfd in auto)
  moreover have "once (mset (boot_fds B))"
    using ok distinct_count_atmost_1 [of "boot_fds B"] by (auto simp: once_def boot_ok_def)
  ultimately have M: "once ?M" by (metis once_less)
  have ip: "0 < ip_listen_fd ipc" using ok ifd(1) by (auto simp: boot_ok_def boot_fds_def)
  have "fds_of (ip_clients ipc) = {#}" by (subst ifd(2)) simp
  moreover have "table_fds tp = {#}" by (subst tfd(2)) (simp add: pf_tproxy_init_def table_fds_def own_fds_def conn_zero_def)
  ultimately have served: "served_fds D = ?M" by (simp add: D served_fds_def loop_watch_def boot_daemon_def c_def)
  have sub: "once N" if "N \<subseteq># ?M" for N using once_less [OF M that] .
  have "mset (epoll_add (ip_listen_fd ipc) []) = pos_fd (ip_listen_fd ipc)" using ip by (simp add: epoll_add_def pos_fd_def)
  hence "mset (dm_watched D) = ?M"
    unfolding D loop_watch_def boot_daemon_def c_def [symmetric] by simp (intro add_positive_once sub; simp)
  moreover have "dm_accepting D = []" by (simp add: D loop_watch_def boot_daemon_def)
  ultimately have w: "watch_inv D" using M by (simp add: watch_inv_def open_fds_def served)
  have cap: "no_lost_wakeup (start_capture q wk)" for q wk
    using cq_inv_init cq_close_loop_items [OF cq_inv_init(1)]
    by (auto simp: start_capture_def Let_def pf_capture_worker_start_def no_lost_wakeup_def)
  have same: "dm_accepting D = []" "dm_ctx D = c" "dm_ipc D = ipc" "dm_tproxy D = tp" "dm_capture D = start_capture (bt_queue B) (bt_worker B)"
    unfolding D by (simp_all add: loop_watch_def boot_daemon_def c_def)
  have "ipc_inv [] ipc" by (subst ifd(2)) (rule ipc_inv_init)
  moreover have "tp_inv [] tp" by (subst tfd(2)) (rule tp_inv_init)
  ultimately show "daemon_inv [] [] D"
    using F(1,2) E(2) cap w by (intro daemon_invI [where taken = "[]"]) (simp_all add: same zero_ctx_def)
  show "dm_accepting D = []" "\<exists>fd. ls_socket (bt_ipc B) = Some fd \<and> dm_ipc D = pf_ipc_init fd"
    using same(1,3) ifd by auto
  show "bt_db B = Some (cx_db (dm_ctx D))" "served_fds D \<subseteq># mset (boot_fds B)"
    using F(1) db \<open>?M \<subseteq># mset (boot_fds B)\<close> by (simp_all add: same(2) zero_ctx_def served)
qed

text \<open>The only calls that keep the daemon from its loop: database, memory, locks, its socket and epoll.\<close>

lemma main_start_reaches:
  assumes "bt_db B \<noteq> None" "bt_memory B" "bt_locks B" "0 \<le> fst (pf_ipc_open (bt_ipc B) PF_SOCKET_PATH (sw_fds w))" "bt_epoll B \<noteq> None"
  shows "\<exists>D pool w'. main_start B S ca k w = Runs (D, pool, w')"
proof -
  obtain ipc_fd ipc fds where i: "pf_ipc_open (bt_ipc B) PF_SOCKET_PATH (sw_fds w) = (ipc_fd, ipc, fds)" by (metis prod.exhaust)
  obtain db epfd where "bt_db B = Some db" "bt_epoll B = Some epfd" "\<not> ipc_fd < 0" using assms i by auto
  thus ?thesis using assms(2,3) unfolding main_start_def Let_def by (simp add: i split_beta)
qed

lemma run_inv: "daemon_run S T C acc fds D \<Longrightarrow> daemon_inv acc fds D"
proof (induction rule: daemon_run.induct)
  case (start B ca k w D pool w')
  thus ?case by (rule start_inv)
next
  case (event acc fds D fd V D')
  thus ?case by (blast intro: event_keeps)
next
  case (reload acc fds D E)
  have "daemon_inv acc fds (D \<lparr> dm_ctx := rules_reload_locked E (dm_ctx D) \<rparr>)"
    by (rule ctx_frame [OF reload.IH]) (simp_all add: frame reload_in_force [OF reload.hyps(2)])
  thus ?case using reload.IH reload_flag_frame [where x = False and D = "D \<lparr> dm_ctx := rules_reload_locked E (dm_ctx D) \<rparr>"]
    by (simp add: loop_reload_def)
next
  case (accepting acc fds D fd e E now ok)
  thus ?case by (blast intro: thread_keeps)
next
  case (resolving acc fds D junk E t0 t1 ok q)
  thus ?case using queries_frame [where D = "D \<lparr> dm_cache := y \<rparr>" for y] cache_frame [where D = D]
    by (simp add: dns_thread_def split: prod.split)
next
  case (capturing acc fds D err D' after)
  thus ?case by (blast intro: capture_keeps)
next
  case (signal_hup acc fds D n)
  thus ?case by (simp add: reload_flag_frame)
next
  case (signal_term acc fds D n)
  show ?case by (rule ctx_frame [OF signal_term.IH]) (simp_all add: sig_handler_def)
qed

section \<open>A daemon that runs\<close>

text \<open>Every call of the start succeeds; \<open>demo_running\<close> is the daemon in its loop over a given database.\<close>

definition demo_listen :: "int \<Rightarrow> int option \<Rightarrow> 'a listen_env" where
  "demo_listen fd efd = \<lparr> ls_socket = Some fd, ls_option = True, ls_bind = (\<lambda>_. True), ls_listen = True, ls_nonblock = True, ls_epoll = efd \<rparr>"

definition demo_boot :: "pf_db \<Rightarrow> nat list boot_env" where
  "demo_boot db = \<lparr> bt_request = boot_env, bt_pid_file = True, bt_pid = 42, bt_db = Some db, bt_memory = True, bt_locks = True,
     bt_ipc = demo_listen 4 None, bt_ssh_mutex = True, bt_queue = True, bt_worker = True,
     bt_nfq = \<lparr> nq_open = True, nq_bind_pf = True, nq_create = True, nq_mode = True, nq_fd = 5 \<rparr>,
     bt_tproxy = demo_listen 7 (Some 8), bt_netlink = Some 9, bt_bound = True, bt_sent = (\<lambda>_. True), bt_epoll = Some 10 \<rparr>"

definition demo_event :: "accept_result \<Rightarrow> nat list event_env" where
  "demo_event a = \<lparr> ev_json = demo_cjson, ev_request = boot_env \<lparr> hq_socket := None \<rparr>, ev_now = 5, ev_client = a, ev_nfq = NR_again, ev_udp = None,
     ev_conn = None, ev_netlink = MR_again, ev_stack = [], ev_memory = True, ev_thread = True \<rparr>"

lemma demo_running:
  assumes "db_reach db"
  obtains D :: "nat list daemon" where "daemon_run demo_ssh (demo_tls []) demo_codecs [] [] D" "dm_ipc D = pf_ipc_init 4" "dm_accepting D = []"
    "cx_db (dm_ctx D) = db" "served_fds D \<subseteq># {#4, 5, 6, 7, 9#}" "daemon_inv [] [] D" "tp_listen_fd (dm_tproxy D) = 7" "mon_nl_fd (dm_monitor D) = 9"
proof -
  have "0 \<le> fst (pf_ipc_open (bt_ipc (demo_boot db)) PF_SOCKET_PATH (sw_fds demo_ssh_world))"
    by (simp add: demo_boot_def demo_listen_def pf_ipc_open_def)
  then obtain D pool w' where s: "main_start (demo_boot db) demo_ssh files_ok [] demo_ssh_world = Runs (D, pool, w')"
    using main_start_reaches [of "demo_boot db" demo_ssh_world demo_ssh files_ok "[]"] by (auto simp: demo_boot_def)
  have fds: "boot_fds (demo_boot db) = [4, 5, 6, 7, 9]" by (simp add: boot_fds_def demo_boot_def demo_listen_def)
  have ok: "boot_ok (demo_boot db)" unfolding boot_ok_def fds using assms by (simp add: demo_boot_def)
  note I = start_inv [OF s ok]
  have "dm_ipc D = pf_ipc_init 4" using I(3) by (simp add: demo_boot_def demo_listen_def)
  moreover have "cx_db (dm_ctx D) = db" using I(4) by (simp add: demo_boot_def)
  moreover have "tp_listen_fd (dm_tproxy D) = 7 \<and> mon_nl_fd (dm_monitor D) = 9"
    by (rule main_start_runs [OF s])
      (auto simp: demo_boot_def demo_listen_def pf_tproxy_open_def pf_monitor_init_def proc_cn_subscribe_def loop_watch_def boot_daemon_def Let_def)
  ultimately show thesis
    using that [OF daemon_run.start [OF s ok]] I(1,2,5) unfolding fds by simp
qed

text \<open>The first client connects.\<close>

lemma demo_connected:
  assumes "db_reach db"
  obtains D :: "nat list daemon" and cl where "daemon_run demo_ssh (demo_tls []) demo_codecs [20] [] D" "20 \<in> set (dm_watched D)" "dispatch D 20 = ME_client 0"
    "ip_clients (dm_ipc D) ! 0 = cl" "ic_buf cl = []" "ic_rx cl = rx" "ic_wr cl = wr" "ic_out cl = []" "cx_db (dm_ctx D) = db" "dm_accepting D = []"
proof -
  obtain D :: "nat list daemon" where D: "daemon_run demo_ssh (demo_tls []) demo_codecs [] [] D" "dm_ipc D = pf_ipc_init 4" "dm_accepting D = []"
    "cx_db (dm_ctx D) = db" "served_fds D \<subseteq># {#4, 5, 6, 7, 9#}" "daemon_inv [] [] D" by (rule demo_running [OF assms])
  let ?V = "demo_event (Acc_Conn 20 (Some 1000) True rx wr)"
  let ?cl = "client_zero \<lparr> ic_fd := 20, ic_rx := rx, ic_wr := wr \<rparr>"
  let ?ipc = "(pf_ipc_init 4) \<lparr> ip_clients := (ip_clients (pf_ipc_init 4))[0 := ?cl], ip_client_count := 1 \<rparr>"
  have "find_index (\<lambda>c. ic_fd c < 0) (ip_clients (pf_ipc_init 4)) = Some 0"
    unfolding find_index_Some by (simp add: pf_ipc_init_def PF_MAX_CLIENTS_def client_zero_def)
  hence acc: "pf_ipc_accept (Acc_Conn 20 (Some 1000) True rx wr) (dm_ipc D) = (0, ?ipc)"
    unfolding D(2) by (simp add: pf_ipc_init_def PF_MAX_CLIENTS_def client_zero_def)
  have w: "4 \<in> set (dm_watched D)"
  proof -
    have "4 \<in># served_fds D" by (simp add: served_fds_def D(2) pos_fd_def pf_ipc_init_def)
    thus ?thesis using D(6) by (auto simp: daemon_inv_def watch_inv_def set_mset_mset [symmetric] simp del: set_mset_mset)
  qed
  have new: "20 \<notin># served_fds D" using D(5) by (auto dest: mset_subset_eqD)
  hence k: "kernel_ok ?V D"
    by (simp add: kernel_ok_def demo_event_def fresh_fd_def open_fds_def D(3) rules_readable_def boot_env_def)
  have d: "dispatch D 4 = ME_ipc_accept" by (simp add: dispatch_def D(2) pf_ipc_init_def)
  let ?D = "D \<lparr> dm_ipc := ?ipc, dm_watched := epoll_add 20 (dm_watched D) \<rparr>"
  have h: "handle_event ?V 4 D = Some ?D"
    using acc by (simp add: handle_event_def d demo_event_def pf_ipc_init_def PF_MAX_CLIENTS_def)
  have r: "daemon_run demo_ssh (demo_tls []) demo_codecs [20] [] ?D"
    using daemon_run.event [OF D(1) w k h] by (simp add: new_client_def new_conns_def demo_event_def d)
  have "pos_fd (cx_dns_fd (dm_ctx D)) \<subseteq># served_fds D" "pos_fd (cx_udp_fd (dm_ctx D)) \<subseteq># served_fds D"
    "pos_fd (tp_listen_fd (dm_tproxy D)) \<subseteq># served_fds D" "pos_fd (mon_nl_fd (dm_monitor D)) \<subseteq># served_fds D"
    by (simp_all add: served_fds_def)
  hence other: "cx_dns_fd (dm_ctx D) \<noteq> 20" "cx_udp_fd (dm_ctx D) \<noteq> 20" "tp_listen_fd (dm_tproxy D) \<noteq> 20" "mon_nl_fd (dm_monitor D) \<noteq> 20"
    using new by (auto simp: pos_fd_def dest: mset_subset_eqD)
  have "main_find_client ?ipc 20 = Some 0" by (simp add: main_find_client_def pf_ipc_init_def PF_MAX_CLIENTS_def)
  hence "dispatch ?D 20 = ME_client 0" using other by (simp add: dispatch_def pf_ipc_init_def)
  moreover have "20 \<in> set (dm_watched ?D)" by (simp add: epoll_add_def)
  moreover have "ip_clients (dm_ipc ?D) ! 0 = ?cl" by (simp add: pf_ipc_init_def PF_MAX_CLIENTS_def)
  ultimately show thesis using that [OF r] D(3,4) by (simp add: client_zero_def)
qed

section \<open>Properties\<close>



text \<open>
  C39: what connections are matched against is well typed in every state of the daemon: the array holds at
  most 1024 rules, every string of a rule leaves room for its NUL byte in the array of the struct, and
  priority and switch are values of a C int.
\<close>

theorem ruleset_well_typed:
  assumes "daemon_run S T C acc fds D" "r \<in> set (cx_ruleset (dm_ctx D))"
  shows "length (cx_ruleset (dm_ctx D)) \<le> PF_MAX_RULES \<and> rule_fits r \<and> int32_range (r_priority r) \<and> int32_range (r_enabled r)"
proof -
  have e: "cx_ruleset (dm_ctx D) = map row_to_rule (take PF_MAX_RULES (sort_key rr_priority (db_rules (cx_db (dm_ctx D)))))"
    using run_inv [OF assms(1)] by (simp add: daemon_inv_def in_force_def stored_rules_def)
  then obtain x where "r = row_to_rule x" using assms(2) by auto
  thus ?thesis using row_to_rule_fits [of x] by (simp add: e)
qed

theorem ruleset_well_typed_witness:
  "\<exists>(D :: nat list daemon) r. daemon_run demo_ssh (demo_tls []) demo_codecs [] [] D \<and> r \<in> set (cx_ruleset (dm_ctx D)) \<and> r_domain r = ''live.sky.ch'' \<and> rule_fits r"
proof -
  have db: "db_reach demo_rules_db" unfolding demo_rules_db_def demo_db_def by (intro reach_rule_add reach_proxy_add reach_empty)
  obtain D :: "nat list daemon" where D: "daemon_run demo_ssh (demo_tls []) demo_codecs [] [] D" "cx_db (dm_ctx D) = demo_rules_db" "daemon_inv [] [] D"
    by (rule demo_running [OF db]) metis
  have "\<exists>r \<in> set (map row_to_rule (take PF_MAX_RULES (sort_key rr_priority (db_rules demo_rules_db)))). r_domain r = ''live.sky.ch''"
    by code_simp
  then obtain r where "r \<in> set (cx_ruleset (dm_ctx D))" "r_domain r = ''live.sky.ch''"
    using D(2,3) unfolding daemon_inv_def in_force_def stored_rules_def by metis
  thus ?thesis using ruleset_well_typed [OF D(1)] D(1) by blast
qed

text \<open>
  C38: one line of a client is one request: when the descriptor of a client is readable with a complete line and
  the line parses to a request for a method that is not a subscription, the event hands the context to the
  request handler once, with the method and the parameters of the line, and sends the client nothing but
  (a prefix of) the one reply; tables, caches, queues and threads are left alone.
\<close>

theorem client_line_is_one_request:
  assumes "daemon_run S T C acc fds D" "dispatch D fd = ME_client j" "ip_clients (dm_ipc D) ! j = cl"
    and "ic_buf cl = []" "ic_rx cl = Rd_Data (line @ [newline]) # rs" "newline \<notin> set line" "CHR 0x00 \<notin> set line" "length line + 1 < PF_BUF_SIZE"
    and "cj_parse (ev_json V) line = Some req" "request_method req = Some m"
    and "m \<notin> {''log.subscribe'', ''log.unsubscribe'', ''stats.subscribe'', ''stats.unsubscribe''}"
    and "pf_handle_request (ev_request V) m (cJSON_GetObjectItemCaseSensitive req ''params'')
      ((dm_ctx D) \<lparr> cx_conn_count := tp_conn_count (dm_tproxy D) \<rparr>) = (r, c')"
  shows "\<exists>D' out. handle_event V fd D = Some D' \<and> dm_ctx D' = c'
    \<and> ic_out (ip_clients (dm_ipc D') ! j) = ic_out cl @ out
    \<and> (\<forall>raw. cj_print (ev_json V) (J_Object [(''id'', response_id req), (''result'', r)]) = Some raw \<longrightarrow> prefix out (raw @ [newline]))
    \<and> (\<forall>i \<noteq> j. ip_clients (dm_ipc D') ! i = ip_clients (dm_ipc D) ! i)
    \<and> (dm_tproxy D', dm_dns D', dm_cache D', dm_capture D', dm_accepting D', dm_queries D')
      = (dm_tproxy D, dm_dns D, dm_cache D, dm_capture D, dm_accepting D, dm_queries D)"
proof -
  let ?c = "(dm_ctx D) \<lparr> cx_conn_count := tp_conn_count (dm_tproxy D) \<rparr>" and ?h = "Some (request_handler (ev_request V))"
  let ?J = "ev_json V" and ?msg = "J_Object [(''id'', response_id req), (''result'', r)]"
  have I: "ipc_inv acc (dm_ipc D)" using run_inv [OF assms(1)] by (simp add: daemon_inv_def)
  have "main_find_client (dm_ipc D) fd = Some j" using assms(2) by (simp add: dispatch_def split: if_splits option.splits)
  hence j: "j < length (ip_clients (dm_ipc D))" using find_client_fd(1) [OF I] I by (simp add: ipc_inv_def)
  have tw: "takeWhile (\<lambda>x. x \<noteq> CHR 0x00) line = line" using assms(7) by (auto simp: takeWhile_eq_all_conv)
  have req: "ipc_request ?J ?h line (cl, ?c) = (snd (pf_ipc_send ?J cl ?msg), c')"
    using assms(9-12) by (simp add: ipc_request_def tw request_handler_def Let_def)
  have lines: "ipc_lines ?J ?h (line @ [newline]) (cl, ?c) = ([], snd (pf_ipc_send ?J cl ?msg), c')"
    using ipc_server.loop_line [OF assms(6), of ?J ?h "[]"] ipc_server.loop_rest [of "[]"] req by simp
  have p: "pf_ipc_process ?J ?h j (dm_ipc D, ?c) = (0, (dm_ipc D) \<lparr> ip_clients := (ip_clients (dm_ipc D))[j :=
      fst (set_rx [] rs (snd (pf_ipc_send ?J cl ?msg), c'))] \<rparr>, c')"
    by (subst process_chunk [OF assms(3) _ assms(5) _ refl refl, where J = ?J and h = ?h and st = ?c and b = "[]" and y = "(snd (pf_ipc_send ?J cl ?msg), c')"])
      (use assms(4,8) lines in \<open>simp_all add: PF_BUF_SIZE_def\<close>)
  have out: "ic_out (snd (pf_ipc_send ?J cl ?msg)) = ic_out cl @ fst (sent ?J (ic_wr cl) ?msg)" by (simp add: snd_send)
  have pre: "prefix (fst (sent ?J (ic_wr cl) ?msg)) (raw @ [newline])" if "cj_print ?J ?msg = Some raw" for raw
    using that write_loop_prefix [of "ic_wr cl" "raw @ [newline]" 0] by (simp add: sent_def)
  have h: "handle_event V fd D = Some (client_event V j fd D)" using assms(2) by (simp add: handle_event_def)
  show ?thesis
    by (rule exI [of _ "client_event V j fd D"], rule exI [of _ "fst (sent ?J (ic_wr cl) ?msg)"])
      (use h j out pre in \<open>simp add: client_event_def Let_def p set_rx_def\<close>)
qed

text \<open>A client asks for the version.\<close>

definition demo_version_json :: cjson where
  "demo_version_json = \<lparr> cj_parse = (\<lambda>s. if s = ''v'' then Some (J_Object [(''id'', j_int 1), (''method'', J_String ''system.version'')]) else None),
     cj_print = (\<lambda>j. Some ''1.0'') \<rparr>"

theorem client_line_is_one_request_witness:
  "\<exists>(D :: nat list daemon) D' out. daemon_run demo_ssh (demo_tls []) demo_codecs [20] [] D
    \<and> handle_event ((demo_event Acc_None) \<lparr> ev_json := demo_version_json \<rparr>) 20 D = Some D'
    \<and> ic_out (ip_clients (dm_ipc D') ! 0) = out \<and> prefix out (''1.0'' @ [newline])"
proof -
  let ?V = "(demo_event Acc_None) \<lparr> ev_json := demo_version_json \<rparr>" and ?req = "J_Object [(''id'', j_int 1), (''method'', J_String ''system.version'')]"
  obtain D :: "nat list daemon" and cl where D: "daemon_run demo_ssh (demo_tls []) demo_codecs [20] [] D" "dispatch D 20 = ME_client 0"
    "ip_clients (dm_ipc D) ! 0 = cl" "ic_buf cl = []" "ic_rx cl = [Rd_Data (''v'' @ [newline])]" "ic_out cl = []"
    using demo_connected [OF reach_empty, of "[Rd_Data (''v'' @ [newline])]" "[Wr_Sent 9]"] by metis
  have m: "request_method ?req = Some ''system.version''" by code_simp
  have h: "map_of handlers ''system.version'' = Some system_version" by (simp add: handlers_def)
  let ?c = "(dm_ctx D) \<lparr> cx_conn_count := tp_conn_count (dm_tproxy D) \<rparr>"
  obtain r where r: "pf_handle_request (ev_request ?V) ''system.version'' (cJSON_GetObjectItemCaseSensitive ?req ''params'') ?c = (r, ?c)"
    by (simp add: pf_handle_request_def h system_version_def)
  have v: "newline \<notin> set ''v''" "CHR 0x00 \<notin> set ''v''" "length ''v'' + 1 < PF_BUF_SIZE" by (simp_all add: newline_def PF_BUF_SIZE_def)
  have p: "cj_parse (ev_json ?V) ''v'' = Some ?req" and raw: "cj_print (ev_json ?V) j = Some ''1.0''" for j
    by (simp_all add: demo_version_json_def)
  note one = client_line_is_one_request [OF D(1-5) v p m _ r, simplified]
  then obtain D' where D': "handle_event ?V 20 D = Some D'" "ic_out (ip_clients (dm_ipc D') ! 0) = ''1.0'' @ [newline] \<or> prefix (ic_out (ip_clients (dm_ipc D') ! 0)) ''1.0''"
    using raw D(6) by (elim exE conjE) simp
  show ?thesis by (intro exI [of _ D] exI [of _ D'] exI [of _ "ic_out (ip_clients (dm_ipc D') ! 0)"]) 
      (use D(1) D' in \<open>simp only: prefix_snoc\<close>)
qed

end
