(* ===== verification/Shutdown.thy ===== *)
theory Shutdown
  imports Lifecycle
begin

text \<open>
  The way out of \<^verbatim>\<open>main()\<close>: what shutdown gives back, from every state the daemon can reach.
\<close>

section \<open>Closing the components\<close>

lemma closed_clients: "mset (map ic_fd (filter (\<lambda>c. 0 \<le> ic_fd c) cs)) = fds_of cs"
  by (induction cs) (simp_all add: fds_of_def own_fd_def)

lemma ipc_close_returns:
  assumes "ipc_inv acc ipc"
  shows "mset (ip_closed (pf_ipc_close ipc)) = mset acc" "fds_of (ip_clients (pf_ipc_close ipc)) = {#}" "pos_fd (ip_listen_fd (pf_ipc_close ipc)) = {#}"
proof -
  show "mset (ip_closed (pf_ipc_close ipc)) = mset acc" using assms by (simp add: ipc_inv_def pf_ipc_close_def closed_clients [simplified])
  have "fds_of (map (\<lambda>c. if 0 \<le> ic_fd c then c \<lparr> ic_fd := -1 \<rparr> else c) cs) = {#}" for cs
    by (induction cs) (simp_all add: fds_of_def own_fd_def)
  thus "fds_of (ip_clients (pf_ipc_close ipc)) = {#}" by (simp add: pf_ipc_close_def)
  show "pos_fd (ip_listen_fd (pf_ipc_close ipc)) = {#}" by (simp add: pf_ipc_close_def pos_fd_def)
qed

lemma close_active:
  assumes "tp_inv fds tp" "n \<le> PF_MAX_CONNECTIONS"
  defines "tp' \<equiv> fold (\<lambda>i tp. if cn_active (tp_conns tp ! i) then pf_tproxy_close_conn i tp else tp) [0 ..< n] tp"
  shows "tp_inv fds tp' \<and> (\<forall>i < n. \<not> cn_active (tp_conns tp' ! i)) \<and> tp_listen_fd tp' = tp_listen_fd tp \<and> tp_epoll_fd tp' = tp_epoll_fd tp"
  using assms(2) unfolding tp'_def
proof (induction n)
  case (Suc n)
  let ?tp = "fold (\<lambda>i tp. if cn_active (tp_conns tp ! i) then pf_tproxy_close_conn i tp else tp) [0 ..< n] tp"
  have I: "tp_inv fds ?tp" "\<And>i. i < n \<Longrightarrow> \<not> cn_active (tp_conns ?tp ! i)" "tp_listen_fd ?tp = tp_listen_fd tp" "tp_epoll_fd ?tp = tp_epoll_fd tp" "n < PF_MAX_CONNECTIONS"
    using Suc by auto
  show ?case
  proof (cases "cn_active (tp_conns ?tp ! n)")
    case True
    have "n < length (tp_conns ?tp)" using I(1,5) by (simp add: tp_inv_def)
    note t = close_conn_table [OF I(5) this]
    have "tp_listen_fd (pf_tproxy_close_conn n ?tp) = tp_listen_fd tp" "tp_epoll_fd (pf_tproxy_close_conn n ?tp) = tp_epoll_fd tp"
      using I(3,4) by (simp_all add: pf_tproxy_close_conn_def Let_def)
    thus ?thesis using t tp_inv_close [OF I(1), of n] I(2) True by (auto simp: less_Suc_eq)
  qed (use I in \<open>auto simp: less_Suc_eq\<close>)
qed (use assms(1) in simp)

lemma inactive_no_fds: "tp_inv fds tp \<Longrightarrow> \<forall>i < PF_MAX_CONNECTIONS. \<not> cn_active (tp_conns tp ! i) \<Longrightarrow> table_fds tp = {#}"
proof -
  assume "tp_inv fds tp" "\<forall>i < PF_MAX_CONNECTIONS. \<not> cn_active (tp_conns tp ! i)"
  hence "\<forall>c \<in> set (tp_conns tp). \<not> cn_active c" by (auto simp: tp_inv_def in_set_conv_nth)
  moreover have "sum_list (map own_fds cs) = {#}" if "\<forall>c \<in> set cs. \<not> cn_active c" for cs
    using that by (induction cs) (simp_all add: own_fds_def)
  ultimately show ?thesis by (simp add: table_fds_def)
qed

lemma tproxy_close_returns:
  assumes "tp_inv fds tp" "0 \<le> tp_listen_fd tp"
  shows "table_fds (pf_tproxy_close tp) = {#}" "pos_fd (tp_listen_fd (pf_tproxy_close tp)) = {#}"
    "mset (tp_closed (pf_tproxy_close tp)) = mset fds + mset (filter (\<lambda>fd. 0 \<le> fd) [tp_epoll_fd tp, tp_listen_fd tp])"
proof -
  define tp1 where "tp1 = fold (\<lambda>i tp. if cn_active (tp_conns tp ! i) then pf_tproxy_close_conn i tp else tp) [0 ..< PF_MAX_CONNECTIONS] tp"
  have I: "tp_inv fds tp1" "\<forall>i < PF_MAX_CONNECTIONS. \<not> cn_active (tp_conns tp1 ! i)" "tp_listen_fd tp1 = tp_listen_fd tp" "tp_epoll_fd tp1 = tp_epoll_fd tp"
    using close_active [OF assms(1), of PF_MAX_CONNECTIONS] unfolding tp1_def by simp_all
  have t: "table_fds tp1 = {#}" by (rule inactive_no_fds [OF I(1,2)])
  hence closed: "mset (tp_closed tp1) = mset fds" using I(1) by (simp add: tp_inv_def)
  note e = pf_tproxy_close_def [of tp, folded tp1_def]
  show "table_fds (pf_tproxy_close tp) = {#}" using t by (simp add: e Let_def table_fds_def)
  show "pos_fd (tp_listen_fd (pf_tproxy_close tp)) = {#}" by (simp add: e Let_def pos_fd_def)
  show "mset (tp_closed (pf_tproxy_close tp)) = mset fds + mset (filter (\<lambda>fd. 0 \<le> fd) [tp_epoll_fd tp, tp_listen_fd tp])"
    using closed I(3,4) assms(2) by (simp add: e Let_def)
qed

lemma pool_other_fds:
  assumes "pool_inv (F + M) L pool w" "mset (sw_fds w) = M + mset fds"
  shows "pool_inv F L pool (w \<lparr> sw_fds := fds \<rparr>)"
  using assms by (simp add: pool_inv_def world_holds_def)

lemma cleanup_rules:
  assumes T: "nft_tables H rules" and R: "\<forall>p k. rules (snd (c_rmdir H p k)) = rules k" and "cleared H rules k" "c \<in> set nft_chains"
  shows "rules (pf_cgroup_cleanup H (snd (pf_nft_cleanup H k))) c = []"
proof -
  have loop: "rules (cleanup_loop H ds k) = rules k" for ds k using R by (induction ds arbitrary: k) simp_all
  have cg: "rules (pf_cgroup_cleanup H k) = rules k" for k using R loop by (simp add: pf_cgroup_cleanup_def split: option.split)
  let ?k = "snd (nft_run H drop_table_cmd k)"
  obtain ok k1 where d: "nft_feed H drop_table_cmd k = (ok, k1)" by (rule prod.exhaust)
  have "if ok then \<forall>c \<in> set nft_chains. rules k1 c = [] else rules k1 = rules k" by (rule nft_tablesD(1) [OF T d])
  hence "rules ?k c = []" using assms(3,4) d by (auto simp: cleared_def nft_run_snd split: if_splits)
  moreover have "rules (snd (pf_nft_cleanup H k)) = rules ?k"
    unfolding pf_nft_cleanup_def drop_table_cmd_def [symmetric] Let_def snd_conv nft_tablesD(3) [OF T] by (rule nft_tablesD(2) [OF T]) simp
  ultimately show ?thesis by (simp add: cg)
qed

section \<open>Property\<close>

text \<open>
  C9: shutdown gives back what the daemon took, from every state it can reach.  Every descriptor a client ever had
  was closed exactly once, and so was every descriptor of the proxy except those an accept thread still holds;
  the descriptors and sessions of the SSH pool, the netlink socket and the epoll descriptor are closed and
  what was open before remains; the capture queue is empty; the chains of nftables hold no rule.  Of the
  descriptors the event loop served, one is left open: the socket of the DNS resolver.
\<close>

theorem shutdown_returns_everything:
  assumes "daemon_run S T C acc fds D" "daemon_stop H P (Some epfd) D pool w = (D', pool', w')"
    and "0 \<le> tp_listen_fd (dm_tproxy D)" "0 \<le> mon_nl_fd (dm_monitor D)"
    and "pool_inv (F + {# epfd, mon_nl_fd (dm_monitor D) #}) L pool w"
    and "nft_tables H rules" "\<forall>p k. rules (snd (c_rmdir H p k)) = rules k" "cleared H rules (cx_host (dm_ctx D))"
  shows "mset (ip_closed (dm_ipc D')) = mset acc
    \<and> mset (tp_closed (dm_tproxy D')) + mset (dm_accepting D)
        = mset fds + mset (filter (\<lambda>fd. 0 \<le> fd) [tp_epoll_fd (dm_tproxy D), tp_listen_fd (dm_tproxy D)])
    \<and> mset (sw_fds w') = F \<and> mset (sw_live w') = L
    \<and> cq_items (cw_queue (dm_capture D')) = [] \<and> (\<forall>c \<in> set nft_chains. rules (cx_host (dm_ctx D')) c = [])
    \<and> served_fds D' = pos_fd (cx_udp_fd (dm_ctx D))"
proof -
  obtain taken where I: "ipc_inv acc (dm_ipc D)" "tp_inv taken (dm_tproxy D)" "mset fds = mset taken + mset (dm_accepting D)"
    "no_lost_wakeup (dm_capture D)" using run_inv [OF assms(1)] unfolding daemon_inv_def by blast
  let ?nl = "mon_nl_fd (dm_monitor D)" and ?fds = "remove1 (mon_nl_fd (dm_monitor D)) (remove1 epfd (sw_fds w))"
  let ?nfq = "if 0 \<le> cx_dns_fd (dm_ctx D) then (pf_dns_close (dm_nfq D), -1) else (dm_nfq D, cx_dns_fd (dm_ctx D))"
  obtain p2 w2 where close: "pf_ssh_pool_close P pool (w \<lparr> sw_fds := ?fds \<rparr>) = (p2, w2)" by (rule prod.exhaust)
  have D': "w' = w2" "dm_ipc D' = pf_ipc_close (dm_ipc D)" "dm_tproxy D' = pf_tproxy_close (dm_tproxy D)"
    "cw_queue (dm_capture D') = snd (cq_close_loop (cw_queue (dm_capture D)))" "mon_nl_fd (dm_monitor D') = -1"
    "cx_host (dm_ctx D') = pf_cgroup_cleanup H (snd (pf_nft_cleanup H (cx_host (dm_ctx D))))"
    "cx_dns_fd (dm_ctx D') = snd ?nfq" "cx_udp_fd (dm_ctx D') = cx_udp_fd (dm_ctx D)"
    using assms(2-4) close by (auto simp: daemon_stop_def Let_def pf_monitor_close_def split_beta)
  obtain U where u: "mset (sw_fds w) = F + {# epfd, ?nl #} + U" using assms(5) by (simp add: pool_inv_def world_holds_def)
  have "mset ?fds = F + U" by (simp add: u)
  hence "mset (sw_fds w) = {# epfd, ?nl #} + mset ?fds" by (simp add: u)
  from pool_close_returns [OF pool_other_fds [OF assms(5) this] close]
  have ssh: "mset (sw_fds w') = F \<and> mset (sw_live w') = L" by (simp add: world_holds_def D'(1))
  have "cq_items (cw_queue (dm_capture D')) = []" using cq_close_loop_items I(4) by (simp add: D' no_lost_wakeup_def)
  moreover have "\<forall>c \<in> set nft_chains. rules (cx_host (dm_ctx D')) c = []" using cleanup_rules [OF assms(6-8)] by (simp add: D')
  moreover have "served_fds D' = pos_fd (cx_udp_fd (dm_ctx D))"
    using ipc_close_returns(2,3) [OF I(1)] tproxy_close_returns(1,2) [OF I(2) assms(3)] by (simp add: served_fds_def D') (simp add: pos_fd_def)
  ultimately show ?thesis
    using ipc_close_returns(1) [OF I(1)] tproxy_close_returns(3) [OF I(2) assms(3)] I(3) ssh unfolding D'(2,3) by simp
qed

text \<open>A daemon is stopped right after its start.\<close>

theorem shutdown_returns_everything_witness:
  "\<exists>(D :: nat list daemon) D' pool' w'. daemon_run demo_ssh (demo_tls []) demo_codecs [] [] D
    \<and> daemon_stop boot_host demo_ssh (Some 10) D \<lparr> sp_sessions = replicate PF_MAX_PROXIES zero_session, sp_count = 0 \<rparr>
        \<lparr> sw_fds = [10, 9, 2, 1, 0], sw_live = [], sw_lib = 0 \<rparr> = (D', pool', w')
    \<and> mset (sw_fds w') = {#0, 1, 2#} \<and> served_fds D' = pos_fd (cx_udp_fd (dm_ctx D))"
proof -
  obtain D :: "nat list daemon" where D: "daemon_run demo_ssh (demo_tls []) demo_codecs [] [] D"
    "tp_listen_fd (dm_tproxy D) = 7" "mon_nl_fd (dm_monitor D) = 9" by (rule demo_running [OF reach_empty])
  let ?pool = "\<lparr> sp_sessions = replicate PF_MAX_PROXIES zero_session, sp_count = 0 \<rparr>" and ?w = "\<lparr> sw_fds = [10, 9, 2, 1, 0], sw_live = [], sw_lib = 0 :: nat \<rparr>"
  obtain D' pool' w' where s: "daemon_stop boot_host demo_ssh (Some 10) D ?pool ?w = (D', pool', w')" by (metis prod.exhaust)
  have "used_slots (replicate n zero_session) = {#}" for n by (simp add: used_slots_def zero_session_def filter_mset_eq_conv)
  hence p: "pool_inv ({#0, 1, 2#} + {# 10, mon_nl_fd (dm_monitor D) #}) {#} ?pool ?w"
    by (simp add: pool_inv_def world_holds_def D(3) slot_ok_def zero_session_def)
  have "\<forall>p k. demo_kernel (snd (c_rmdir boot_host p k)) = demo_kernel k" by (simp add: boot_host_def demo_host_def)
  from shutdown_returns_everything [OF D(1) s _ _ p boot_tables this] D s show ?thesis by (auto simp: cleared_def)
qed

end
