(* ===== verification/Spec2Isabelle.thy ===== *)
theory Spec2Isabelle
  imports Sni Dns Chain Config Capture Http_Parser Body_Decode Stats Dns_Resolver Routing Json Ipc Tproxy Inspect Nft Cgroup Crypto Mitm Requests Monitor Ssh Logger Shutdown
begin

text \<open>
  ProxiFlare is a transparent proxy daemon for Linux.  Processes named by a rule are put into a
  cgroup; nftables redirects their connections to the daemon, which recovers the destination, learns
  the domain from the TLS ClientHello or from intercepted DNS answers, searches the rules and opens
  the connection through a proxy, through a chain of proxies, directly, or not at all.  Copies of the
  relayed data can be inspected; a desktop program configures the daemon over a JSON line protocol.
  This development models the daemon under \<^verbatim>\<open>src/daemon/src\<close> and proves its components correct.

  \<^bold>\<open>The theories and what they model.\<close>

  \<^item> \<open>Prelude\<close>: widths, limits and error codes of \<^verbatim>\<open>include/proxiflare.h\<close>; big-endian reads; shared
    lemmas on lists, decimal numbers and words.  \<open>Clib\<close>: the parts of the C library the daemon uses
    (string search, comparison, tokenising, \<^verbatim>\<open>strtol\<close>, \<^verbatim>\<open>inet_pton\<close>, \<^verbatim>\<open>inet_ntop\<close>, \<^verbatim>\<open>snprintf\<close>).
    \<open>Types\<close>: the enums and structs.
  \<^item> \<open>Rules\<close> (\<^verbatim>\<open>rules.c\<close>): patterns for domains, applications, addresses and ports, and the first-match
    search.  Shown: which names, addresses and ports a pattern matches, that the search returns the
    first enabled rule whose criteria all hold, and that the process filter misses nothing.
  \<^item> \<open>Sni\<close> (\<^verbatim>\<open>sni.c\<close>): the ClientHello parser.  Every read goes through a checked accessor whose failure
    is the outcome \<open>SNI_oob\<close>; shown: that outcome never occurs, and the host name of every well-formed
    ClientHello is found.
  \<^item> \<open>Dns\<close> (\<^verbatim>\<open>dns.c\<close>): packet callback, name decompression and the address cache, with an invariant
    kept by every packet.  Compression pointers are followed with the bound the code has.
  \<^item> \<open>Net\<close>, \<open>Socks\<close> (\<^verbatim>\<open>proxy_socks.c\<close>), \<open>Http_Connect\<close> (\<^verbatim>\<open>proxy_http.c\<close>), \<open>Chain\<close> (\<^verbatim>\<open>chain.c\<close>): a socket is
    a record with the script of what the peer sends and accepts; the handshakes are functions on it.
    The locale \<open>handshake_transport\<close> is the interface between the byte loops and the handshakes.  Shown:
    no descriptor is leaked, hops are negotiated in order, chains of accepting hops connect however
    the bytes are segmented, client and chain handshakes agree, and the encodings are invertible.
  \<^item> \<open>Config\<close> (\<^verbatim>\<open>config.c\<close>): the SQLite tables as lists of rows with the constraints of the schema; every
    statement may fail (\<open>faults\<close>).  Shown: integrity of every reachable database, round trips,
    deletion guards, and that the loaded rules are searched by priority.
  \<^item> \<open>Capture\<close> (\<^verbatim>\<open>capture_queue.c\<close>, \<^verbatim>\<open>capture_worker.c\<close>): the ring with wrapping 32-bit indices refines a
    bounded FIFO, and the worker and its producers form a step relation without lost wake-ups.
  \<^item> \<open>Http_Parser\<close> (\<^verbatim>\<open>http_parser.c\<close>), \<open>Body_Decode\<close> (\<^verbatim>\<open>body_decode.c\<close>), \<open>Stats\<close> (\<^verbatim>\<open>stats.c\<close>): parsing of
    intercepted messages, bounded decoding and the per-proxy counters.
  \<^item> \<open>Dns_Resolver\<close> (\<^verbatim>\<open>dns_resolver.c\<close>): DNS over HTTPS through a proxy, with its answer cache.
  \<^item> \<open>Routing\<close> (\<^verbatim>\<open>main.c\<close>): the connect callback of the transparent proxy, the process event handler
    and the log ring.
  \<^item> \<open>Json\<close> (\<^verbatim>\<open>main.c\<close>): proxies, rules and chains as JSON values.
  \<^item> \<open>Ring\<close> (\<^verbatim>\<open>main.c\<close>): the array rings of log events and inspected messages; the locale \<open>ring_buffer\<close>
    proves what such a ring holds and is interpreted for both.
  \<^item> \<open>Ipc\<close> (\<^verbatim>\<open>ipc.c\<close>): the client table, line framing, dispatch and log broadcast.  The locale
    \<open>line_protocol\<close> is the interface between the framing loop and the handler of one line.  Shown: the
    result does not depend on how reads cut the stream, the table is consistent, no descriptor is lost.
  \<^item> \<open>Tproxy\<close> (\<^verbatim>\<open>tproxy.c\<close>): connection table, accept thread, relay.  Shown: streams are copied
    completely and in order when the peers take them, descriptors are closed exactly once, a blocked
    host is refused end to end; and, as error behaviour, what is lost when a peer refuses bytes.
  \<^item> \<open>Inspect\<close> (\<^verbatim>\<open>main.c\<close>): from relayed chunk to JSON entry and to the answers of \<^verbatim>\<open>inspect.list\<close> and
    \<^verbatim>\<open>inspect.get\<close>, over parser, decoder and ring.
  \<^item> \<open>Host\<close>: the machine as the daemon sees it (programs it runs, files, directories, processes), a
    record of functions on a kernel state of any type; what the daemon relies on is stated per theory.
    \<open>Nft\<close> (\<^verbatim>\<open>nft.c\<close>): the scripts given to nft and the removal of rules by comment.  Shown: the
    NAT chain follows the mode of DNS protection, and which marks a removal really removes.
    \<open>Cgroup\<close> (\<^verbatim>\<open>cgroup.c\<close>): groups per rule.  Shown: exactly the matching processes are moved, and a
    removed group is drained into the root group.
  \<^item> \<open>Crypto\<close> (\<^verbatim>\<open>crypto.c\<close>): key state and sealed layout over AES-GCM as a parameter; export and import
    are inverse, and altered data are refused.
  \<^item> \<open>Mitm\<close> (\<^verbatim>\<open>mitm.c\<close>): certificate authority, certificate table with linear probing and eviction,
    reference counts of certificates over any sequence of sessions.
  \<^item> \<open>Handlers\<close> (\<^verbatim>\<open>main.c\<close>): the request handler, one definition per method, dispatched through the
    association list \<open>handlers\<close>.  \<open>Requests\<close>: over every sequence of requests the database keeps its
    integrity and the rules in force are the stored ones; edits change what they name; queries change
    nothing; a new blocking rule drops the next connection.
  \<^item> \<open>Monitor\<close> (\<^verbatim>\<open>monitor.c\<close>): the netlink connector, its datagrams walked byte by byte with the signed count
    and the unsigned comparison of the code.  Shown: a datagram acts on the control groups as the fold of its
    process events; and that a message of unaligned length makes the walk read old bytes.
  \<^item> \<open>Ssh\<close> (\<^verbatim>\<open>proxy_ssh.c\<close>): the pool of sessions over the outcomes of the SSH library.  Shown: descriptors and
    sessions are accounted for over every sequence of calls and returned by closing.
  \<^item> \<open>Logger\<close> (\<^verbatim>\<open>logger.c\<close>): log lines and the rotation of files over a map of file contents.  Shown: the
    files hold exactly the newest lines.
  \<^item> \<open>Daemon\<close>, \<open>Event_Loop\<close>, \<open>Lifecycle\<close>, \<open>Shutdown\<close> (\<^verbatim>\<open>main.c\<close>): the start that restores the stored settings; command line,
    signals, the opening of sockets and queues, the dispatch of a readable descriptor, the threads and
    shutdown; and \<open>daemon_run\<close>, the states reachable from any successful start under events, thread
    steps and signals in any order.  Shown: a start puts into force what the database says, also after a
    crash; every reachable state keeps the invariants of the tables, of the database and of the capture queue,
    and the epoll set holds exactly the descriptors somebody serves; a line of a client is one request; shutdown returns
    what was taken, one socket excepted.

  \<^bold>\<open>Parameters.\<close>  What is outside the sources is an argument of the definitions: \<^verbatim>\<open>fnmatch\<close>, the network
  (the outcome of each connection attempt and the socket behind it), the Base64 encoder of OpenSSL,
  the decompressors, TLS (locale-free record of the session's operations), the outcomes of OpenSSL's
  certificate calls, Argon2 and AES-GCM, the nft program and the file system, the database faults, the
  clock, and results that C leaves undefined.

  \<^bold>\<open>Loops and bounds.\<close>  Loops over buffers are structural or carry a measure; the DNS pointer loop is
  bounded as in the code, the decompression loop is a \<^theory_text>\<open>partial_function\<close> into option whose termination
  is proved from progress of the decompressor.  Machine integers keep their width wherever they wrap:
  ring indices (32 bits), counters and sequence numbers (64 bits), ports (16 bits), addresses (32 bits).

  \<^bold>\<open>Not modelled.\<close>  Log messages; the creation of the SQLite schema and of OpenSSL contexts; threads run as one
  step each, and only the capture worker is interleaved with its producers; the vendored cJSON; the
  desktop program.
\<close>

end
